(* ===== verification/Prelude.thy ===== *)
theory Prelude
  imports Main "HOL-Library.Word" "HOL-Library.Char_ord" "HOL-Library.List_Lexorder"
    "HOL-Library.Multiset"
begin

text \<open>
  What every component shares: the machine integers, C characters and strings with the
  functions of the C library that the sources call on them (\<open>isspace\<close>, \<open>strchr\<close>, \<open>strstr\<close>,
  \<open>strcmp\<close>, the decimal directives of \<open>printf\<close>), sorting through \<open>qsort\<close>, and the
  collections of lemmas the component proofs draw on.

  A C string is a list of characters without the terminating NUL; a byte buffer is a list of
  characters that may hold NUL bytes, and \<open>cstr\<close> is what the C string functions see of it.
\<close>

named_theorems cstring_simps \<open>rewrite rules for the C string functions\<close>
named_theorems decimal_simps \<open>rewrite rules for printing and reading decimals\<close>
named_theorems result_simps \<open>case splits of fallible results turned into equations\<close>

section \<open>Machine integers\<close>

type_synonym i32 = "32 word"
type_synonym u32 = "32 word"
type_synonym i64 = "64 word"
type_synonym u64 = "64 word"

abbreviation INT_MAX :: int where "INT_MAX \<equiv> 2147483647"
abbreviation INT32_MIN :: int where "INT32_MIN \<equiv> - 2147483648"
abbreviation LLONG_MAX :: int where "LLONG_MAX \<equiv> 9223372036854775807"
abbreviation LLONG_MIN :: int where "LLONG_MIN \<equiv> - 9223372036854775808"
abbreviation ULONG_MAX :: nat where "ULONG_MAX \<equiv> 18446744073709551615"

lemma sint_i64_bounds: "LLONG_MIN \<le> sint (x :: i64)" "sint (x :: i64) \<le> LLONG_MAX"
  using sint_greater_eq [of x] sint_less [of x] by simp_all

lemma sint_i64_of_int:
  "LLONG_MIN \<le> v \<Longrightarrow> v \<le> LLONG_MAX \<Longrightarrow> sint (word_of_int v :: i64) = v"
  by (simp add: signed_of_int signed_take_bit_int_eq_self)

lemma sint_i32_of_int:
  "INT32_MIN \<le> v \<Longrightarrow> v \<le> INT_MAX \<Longrightarrow> sint (word_of_int v :: i32) = v"
  by (simp add: signed_of_int signed_take_bit_int_eq_self)

text \<open>
  Signed division and remainder of C truncate towards zero, whereas \<open>div\<close> and \<open>mod\<close> of HOL
  round towards minus infinity.
\<close>

definition c_div :: "int \<Rightarrow> int \<Rightarrow> int" where
  "c_div a b = sgn a * sgn b * (\<bar>a\<bar> div \<bar>b\<bar>)"

definition c_mod :: "int \<Rightarrow> int \<Rightarrow> int" where
  "c_mod a b = a - c_div a b * b"

lemma c_div_nonneg [simp]: "0 \<le> a \<Longrightarrow> 0 < b \<Longrightarrow> c_div a b = a div b"
  by (cases "a = 0") (auto simp: c_div_def)

lemma c_mod_nonneg [simp]: "0 \<le> a \<Longrightarrow> 0 < b \<Longrightarrow> c_mod a b = a mod b"
  by (simp add: c_mod_def minus_div_mult_eq_mod)

section \<open>Characters\<close>

definition is_space :: "char \<Rightarrow> bool" where
  "is_space c \<longleftrightarrow> c = CHR '' '' \<or> (9 \<le> (of_char c :: nat) \<and> (of_char c :: nat) \<le> 13)"

definition is_digit :: "char \<Rightarrow> bool" where
  "is_digit c \<longleftrightarrow> 48 \<le> (of_char c :: nat) \<and> (of_char c :: nat) \<le> 57"

definition is_lower :: "char \<Rightarrow> bool" where
  "is_lower c \<longleftrightarrow> 97 \<le> (of_char c :: nat) \<and> (of_char c :: nat) \<le> 122"

abbreviation NUL :: char where "NUL \<equiv> CHR 0x00"
abbreviation NL :: char where "NL \<equiv> CHR 0x0A"

lemma is_space_NUL [simp]: "\<not> is_space NUL"
  by (simp add: is_space_def)

lemma is_space_not_lower: "is_lower c \<Longrightarrow> \<not> is_space c"
  by (auto simp: is_space_def is_lower_def)

lemma is_space_not_digit: "is_digit c \<Longrightarrow> \<not> is_space c"
  by (auto simp: is_space_def is_digit_def)

lemma is_digit_not_lower: "is_digit c \<Longrightarrow> \<not> is_lower c"
  by (auto simp: is_digit_def is_lower_def)

lemma is_lower_neq:
  "is_lower c \<Longrightarrow> c \<noteq> NUL" "is_lower c \<Longrightarrow> c \<noteq> CHR ''#''" "is_lower c \<Longrightarrow> c \<noteq> CHR 0x22"
  by (auto simp: is_lower_def)

lemma is_digit_neq:
  "is_digit c \<Longrightarrow> c \<noteq> NUL" "is_digit c \<Longrightarrow> c \<noteq> CHR ''#''" "is_digit c \<Longrightarrow> c \<noteq> CHR 0x22"
  "is_digit c \<Longrightarrow> c \<noteq> CHR '',''" "is_digit c \<Longrightarrow> c \<noteq> CHR ''-''" "is_digit c \<Longrightarrow> c \<noteq> CHR ''+''"
  "is_digit c \<Longrightarrow> c \<noteq> NL" "is_digit c \<Longrightarrow> c \<noteq> CHR ''$''"
  by (auto simp: is_digit_def)

section \<open>C strings\<close>

text \<open>The bytes a C string function reads: everything before the first NUL.\<close>

definition cstr :: "string \<Rightarrow> string" where
  "cstr s = takeWhile (\<lambda>c. c \<noteq> NUL) s"

lemma cstr_id: "NUL \<notin> set s \<Longrightarrow> cstr s = s"
  by (simp add: cstr_def takeWhile_eq_all_conv) metis

lemma cstr_no_nul [simp]: "NUL \<notin> set (cstr s)"
  by (auto simp: cstr_def dest: set_takeWhileD)

lemma cstr_append_nul: "cstr (s @ NUL # t) = cstr s"
  by (induction s) (auto simp: cstr_def)

lemma cstr_idem [simp]: "cstr (cstr s) = cstr s"
  by (rule cstr_id) simp

text \<open>\<open>strchr\<close>: the offset of the first occurrence of a character.\<close>

definition strchr :: "string \<Rightarrow> char \<Rightarrow> nat option" where
  "strchr s c =
     (let i = length (takeWhile (\<lambda>x. x \<noteq> c) s) in if i < length s then Some i else None)"

lemma strchr_None [cstring_simps]: "strchr s c = None \<longleftrightarrow> c \<notin> set s"
proof -
  have "length (takeWhile (\<lambda>x. x \<noteq> c) s) < length s \<longleftrightarrow> c \<in> set s"
    by (induction s) auto
  then show ?thesis by (auto simp: strchr_def Let_def)
qed

lemma strchr_append [cstring_simps]: "c \<notin> set s \<Longrightarrow> strchr (s @ c # t) c = Some (length s)"
  by (simp add: strchr_def takeWhile_append)

lemma strchr_SomeD:
  assumes "strchr s c = Some i"
  shows "i < length s" "s ! i = c" "c \<notin> set (take i s)" "s = take i s @ c # drop (Suc i) s"
proof -
  have i: "i = length (takeWhile (\<lambda>x. x \<noteq> c) s)" and lt: "i < length s"
    using assms by (auto simp: strchr_def Let_def split: if_splits)
  show "i < length s" by (rule lt)
  show nth: "s ! i = c"
    using nth_length_takeWhile [of "\<lambda>x. x \<noteq> c" s] lt by (simp add: i)
  show "c \<notin> set (take i s)"
    unfolding i takeWhile_eq_take [symmetric] by (auto dest: set_takeWhileD)
  show "s = take i s @ c # drop (Suc i) s"
    using id_take_nth_drop [OF lt] nth by simp
qed

lemma strchr_Cons [cstring_simps]:
  "strchr (x # s) c = (if x = c then Some 0 else map_option Suc (strchr s c))"
  by (simp add: strchr_def Let_def)

lemma strchr_Nil [cstring_simps]: "strchr [] c = None"
  by (simp add: strchr_def)

text \<open>\<open>strstr\<close>: the offset of the first occurrence of a string.\<close>

definition is_prefix :: "string \<Rightarrow> string \<Rightarrow> bool" where
  "is_prefix p s \<longleftrightarrow> take (length p) s = p"

fun strstr :: "string \<Rightarrow> string \<Rightarrow> nat option" where
  "strstr s p =
     (if is_prefix p s then Some 0
      else case s of [] \<Rightarrow> None | _ # t \<Rightarrow> map_option Suc (strstr t p))"

declare strstr.simps [simp del]

definition contains :: "string \<Rightarrow> string \<Rightarrow> bool" where
  "contains s p \<longleftrightarrow> strstr s p \<noteq> None"

lemma is_prefix_iff [cstring_simps]: "is_prefix p s \<longleftrightarrow> (\<exists>t. s = p @ t)"
  by (auto simp: is_prefix_def) (metis append_take_drop_id)

lemma strstr_Some_least:
  "strstr s p = Some i \<Longrightarrow>
   (\<exists>t. drop i s = p @ t) \<and> i + length p \<le> length s \<and> (\<forall>j<i. \<not> is_prefix p (drop j s))"
proof (induction s arbitrary: i)
  case Nil
  then show ?case
    by (subst (asm) strstr.simps) (auto simp: is_prefix_def split: if_splits)
next
  case (Cons x s)
  show ?case
  proof (cases "is_prefix p (x # s)")
    case True
    with Cons.prems have "i = 0" by (subst (asm) strstr.simps) simp
    with True show ?thesis by (auto simp: is_prefix_iff) (metis length_append le_add1 length_Cons)
  next
    case False
    with Cons.prems obtain k where k: "strstr s p = Some k" "i = Suc k"
      by (subst (asm) strstr.simps) auto
    from Cons.IH [OF k(1)] False show ?thesis
      by (auto simp: k(2) less_Suc_eq_0_disj)
  qed
qed

lemma strstr_None_iff: "strstr s p = None \<longleftrightarrow> (\<nexists>u v. s = u @ p @ v)"
proof (induction s)
  case Nil
  show ?case by (subst strstr.simps) (auto simp: is_prefix_def)
next
  case (Cons x s)
  show ?case
    by (subst strstr.simps)
      (use Cons.IH in \<open>auto simp: is_prefix_iff Cons_eq_append_conv\<close>)
qed

lemma contains_iff [cstring_simps]: "contains s p \<longleftrightarrow> (\<exists>u v. s = u @ p @ v)"
  using strstr_None_iff [of s p] by (auto simp: contains_def)

text \<open>\<open>strcmp\<close> compares bytes as unsigned characters; only the sign of its result is specified.\<close>

fun strcmp :: "string \<Rightarrow> string \<Rightarrow> int" where
  "strcmp [] [] = 0"
| "strcmp [] (_ # _) = -1"
| "strcmp (_ # _) [] = 1"
| "strcmp (x # xs) (y # ys) = (if x < y then -1 else if y < x then 1 else strcmp xs ys)"

lemma strcmp_eq_0 [cstring_simps]: "strcmp s t = 0 \<longleftrightarrow> s = t"
  by (induction s t rule: strcmp.induct) auto

lemma strcmp_less [cstring_simps]: "strcmp s t < 0 \<longleftrightarrow> s < t"
  by (induction s t rule: strcmp.induct) auto

lemma strcmp_swap: "strcmp t s = - strcmp s t"
  by (induction s t rule: strcmp.induct) auto

lemma strcmp_le [cstring_simps]: "strcmp s t \<le> 0 \<longleftrightarrow> s \<le> t"
  using strcmp_less [of t s] strcmp_swap [of t s] by auto

section \<open>Decimals\<close>

definition digit_char :: "nat \<Rightarrow> char" where
  "digit_char d = ''0123456789'' ! d"

definition digit_val :: "char \<Rightarrow> nat" where
  "digit_val c = of_char c - 48"

fun show_nat :: "nat \<Rightarrow> string" where
  "show_nat n =
     (if n < 10 then [digit_char n] else show_nat (n div 10) @ [digit_char (n mod 10)])"

declare show_nat.simps [simp del]

text \<open>The directives \<open>%d\<close>, \<open>%lld\<close> and \<open>PRId64\<close>.\<close>

definition show_int :: "int \<Rightarrow> string" where
  "show_int i = (if i < 0 then CHR ''-'' # show_nat (nat (- i)) else show_nat (nat i))"

lemma digit_cases: "d < 10 \<Longrightarrow> d \<in> {0, 1, 2, 3, 4, 5, 6, 7, 8, 9 :: nat}"
  by auto

lemma digit_char_props:
  assumes "d < 10"
  shows "is_digit (digit_char d)" "digit_val (digit_char d) = d"
  using digit_cases [OF assms] by (auto simp: digit_char_def is_digit_def digit_val_def)

lemma show_nat_digits: "c \<in> set (show_nat n) \<Longrightarrow> is_digit c"
proof (induction n rule: show_nat.induct)
  case (1 n)
  then show ?case
    by (subst (asm) (2) show_nat.simps) (auto simp: digit_char_props split: if_splits)
qed

lemma show_nat_not_Nil [simp]: "show_nat n \<noteq> []"
  by (subst show_nat.simps) simp

text \<open>Reading digits back, most significant first.\<close>

definition read_nat :: "string \<Rightarrow> nat" where
  "read_nat s = foldl (\<lambda>n c. 10 * n + digit_val c) 0 s"

lemma read_show_nat [decimal_simps]: "read_nat (show_nat n) = n"
proof (induction n rule: show_nat.induct)
  case (1 n)
  show ?case
  proof (cases "n < 10")
    case True
    then show ?thesis by (subst show_nat.simps) (simp add: read_nat_def digit_char_props)
  next
    case False
    with 1 have "read_nat (show_nat (n div 10)) = n div 10" by simp
    with False show ?thesis
      by (subst show_nat.simps) (simp add: read_nat_def digit_char_props)
  qed
qed

lemma show_int_chars: "c \<in> set (show_int i) \<Longrightarrow> is_digit c \<or> c = CHR ''-''"
  by (auto simp: show_int_def dest: show_nat_digits split: if_splits)

lemma show_int_not_Nil [simp]: "show_int i \<noteq> []"
  by (simp add: show_int_def)

section \<open>Sorting\<close>

text \<open>
  The sources sort with \<open>qsort\<close> through \<open>VECTOR_SORT\<close>. What they rely on is the contract of the
  C standard: for a comparison function that is a total preorder the result is a permutation in
  ascending order; the order of elements that compare equal is not specified. The contract is a
  locale, and the facts about sorted vectors are proved from it, so they hold for whichever
  algorithm the C library uses.
\<close>

definition cmp_preorder :: "('a \<Rightarrow> 'a \<Rightarrow> int) \<Rightarrow> bool" where
  "cmp_preorder cmp \<longleftrightarrow>
     (\<forall>a b. cmp a b \<le> 0 \<or> cmp b a \<le> 0) \<and>
     (\<forall>a b c. cmp a b \<le> 0 \<longrightarrow> cmp b c \<le> 0 \<longrightarrow> cmp a c \<le> 0)"

locale sort_routine =
  fixes vsort :: "('a \<Rightarrow> 'a \<Rightarrow> int) \<Rightarrow> 'a list \<Rightarrow> 'a list"
  assumes vsort_mset: "mset (vsort cmp xs) = mset xs"
    and vsort_sorted: "cmp_preorder cmp \<Longrightarrow> sorted_wrt (\<lambda>a b. cmp a b \<le> 0) (vsort cmp xs)"
begin

lemma vsort_set [simp]: "set (vsort cmp xs) = set xs"
  using vsort_mset [of cmp xs] by (metis set_mset_mset)

lemma vsort_length [simp]: "length (vsort cmp xs) = length xs"
  using vsort_mset [of cmp xs] by (metis size_mset)

text \<open>When no two elements compare equal, the contract determines the result.\<close>

lemma vsort_unique:
  assumes "cmp_preorder cmp" and "mset ys = mset xs"
    and "sorted_wrt (\<lambda>a b. cmp a b \<le> 0) ys"
    and inj: "\<And>a b. a \<in> set xs \<Longrightarrow> b \<in> set xs \<Longrightarrow> cmp a b \<le> 0 \<Longrightarrow> cmp b a \<le> 0 \<Longrightarrow> a = b"
  shows "vsort cmp xs = ys"
proof -
  have uniq: "us = vs"
    if "sorted_wrt (\<lambda>a b. cmp a b \<le> 0) us" "sorted_wrt (\<lambda>a b. cmp a b \<le> 0) vs"
      "mset us = mset vs" "set us \<subseteq> set xs" for us vs
    using that
  proof (induction us arbitrary: vs)
    case Nil
    then show ?case by simp
  next
    case (Cons u us)
    from Cons.prems(3) obtain v ws where vs: "vs = v # ws"
      by (cases vs) auto
    have sets: "set (u # us) = set (v # ws)"
      using Cons.prems(3) by (metis vs set_mset_mset)
    have "u = v"
    proof (rule ccontr)
      assume ne: "u \<noteq> v"
      then have "v \<in> set us" "u \<in> set ws" using sets by auto
      then have "cmp u v \<le> 0" "cmp v u \<le> 0"
        using Cons.prems(1,2) vs by auto
      moreover have "u \<in> set xs" "v \<in> set xs"
        using Cons.prems(4) sets by auto
      ultimately show False using inj ne by blast
    qed
    with Cons show ?case by (simp add: vs)
  qed
  have "set (vsort cmp xs) \<subseteq> set xs" by simp
  moreover have "mset (vsort cmp xs) = mset ys"
    using vsort_mset [of cmp xs] assms(2) by simp
  ultimately show ?thesis
    using uniq [of "vsort cmp xs" ys] vsort_sorted [OF assms(1)] assms(3) by blast
qed

lemma vsort_id:
  assumes "cmp_preorder cmp" and "sorted_wrt (\<lambda>a b. cmp a b \<le> 0) xs"
    and "\<And>a b. a \<in> set xs \<Longrightarrow> b \<in> set xs \<Longrightarrow> cmp a b \<le> 0 \<Longrightarrow> cmp b a \<le> 0 \<Longrightarrow> a = b"
  shows "vsort cmp xs = xs"
  by (rule vsort_unique) (use assms in auto)

end

text \<open>One algorithm that meets the contract, and the one the model runs: insertion sort.\<close>

fun insert_cmp :: "('a \<Rightarrow> 'a \<Rightarrow> int) \<Rightarrow> 'a \<Rightarrow> 'a list \<Rightarrow> 'a list" where
  "insert_cmp cmp x [] = [x]"
| "insert_cmp cmp x (y # ys) =
     (if cmp x y \<le> 0 then x # y # ys else y # insert_cmp cmp x ys)"

fun c_qsort :: "('a \<Rightarrow> 'a \<Rightarrow> int) \<Rightarrow> 'a list \<Rightarrow> 'a list" where
  "c_qsort cmp [] = []"
| "c_qsort cmp (x # xs) = insert_cmp cmp x (c_qsort cmp xs)"

lemma mset_insert_cmp [simp]: "mset (insert_cmp cmp x xs) = add_mset x (mset xs)"
  by (induction xs) auto

lemma set_insert_cmp [simp]: "set (insert_cmp cmp x xs) = insert x (set xs)"
  by (induction xs) auto

lemma sorted_insert_cmp:
  assumes "cmp_preorder cmp" "sorted_wrt (\<lambda>a b. cmp a b \<le> 0) xs"
  shows "sorted_wrt (\<lambda>a b. cmp a b \<le> 0) (insert_cmp cmp x xs)"
  using assms(2)
proof (induction xs)
  case (Cons y ys)
  show ?case
  proof (cases "cmp x y \<le> 0")
    case True
    with Cons.prems assms(1) show ?thesis by (auto simp: cmp_preorder_def)
  next
    case False
    with assms(1) have "cmp y x \<le> 0" by (auto simp: cmp_preorder_def)
    with Cons False show ?thesis by auto
  qed
qed simp

interpretation qs: sort_routine c_qsort
proof
  show "mset (c_qsort cmp xs) = mset xs" for cmp and xs :: "'a list"
    by (induction xs) auto
  show "cmp_preorder cmp \<Longrightarrow> sorted_wrt (\<lambda>a b. cmp a b \<le> 0) (c_qsort cmp xs)"
    for cmp and xs :: "'a list"
    by (induction xs) (auto intro: sorted_insert_cmp)
qed

text \<open>The comparison functions of the sources order by an integer key.\<close>

lemma cmp_preorder_key:
  assumes "\<And>a b. cmp a b \<le> 0 \<longleftrightarrow> (key a :: 'b :: linorder) \<le> key b"
  shows "cmp_preorder cmp"
  unfolding cmp_preorder_def assms by (metis linear order_trans)

section \<open>Growth of vectors and buffers\<close>

text \<open>
  The loop of \<open>vector_reserve1\<close> and of \<open>buffer_reserve\<close>: double the capacity until the need is
  met; \<open>None\<close> is the jump to \<open>overflow\<close>. Both callers start it at a positive capacity, without which the loop of the source would not end.
\<close>

function double_until :: "nat \<Rightarrow> nat \<Rightarrow> nat option" where
  "double_until newsiz need =
     (if 0 < newsiz \<and> newsiz < need then
        (if newsiz > ULONG_MAX div 2 then None else double_until (newsiz * 2) need)
      else Some newsiz)"
  by pat_completeness auto
termination
  by (relation "measure (\<lambda>(newsiz, need). need - newsiz)") auto

declare double_until.simps [simp del]

lemma double_until_Some:
  assumes "double_until n need = Some m" "0 < n"
  shows "need \<le> m" "n \<le> m" "m \<le> max n (2 * need)" "\<exists>k. m = n * 2 ^ k"
proof -
  have "need \<le> m \<and> n \<le> m \<and> m \<le> max n (2 * need) \<and> (\<exists>k. m = n * 2 ^ k)"
    using assms
  proof (induction n need rule: double_until.induct)
    case (1 n need)
    show ?case
    proof (cases "n < need")
      case True
      with "1.prems" have big: "\<not> ULONG_MAX div 2 < n" and rec: "double_until (n * 2) need = Some m"
        by (auto simp: double_until.simps [of n] split: if_splits)
      have ih: "need \<le> m \<and> n * 2 \<le> m \<and> m \<le> max (n * 2) (2 * need) \<and> (\<exists>k. m = n * 2 * 2 ^ k)"
        using "1.IH" [OF _ big rec] True "1.prems"(2) by simp
      then obtain k where "m = n * 2 * 2 ^ k" by blast
      then have "m = n * 2 ^ Suc k" by simp
      then have "\<exists>k. m = n * 2 ^ k" by blast
      moreover have "need \<le> m" "n \<le> m" "m \<le> max n (2 * need)"
        using ih True by auto
      ultimately show ?thesis by blast
    next
      case False
      with "1.prems" have "m = n" by (simp add: double_until.simps [of n])
      with False show ?thesis by (auto intro: exI [of _ 0])
    qed
  qed
  then show "need \<le> m" "n \<le> m" "m \<le> max n (2 * need)" "\<exists>k. m = n * 2 ^ k" by blast+
qed

lemma double_until_ok:
  assumes "0 < n" "need \<le> ULONG_MAX div 2 + 1"
  shows "\<exists>m. double_until n need = Some m"
  using assms
proof (induction n need rule: double_until.induct)
  case (1 n need)
  then show ?case
    by (cases "n < need") (auto simp: double_until.simps [of n])
qed

lemma le_mult_pos: "0 < s \<Longrightarrow> (a::nat) \<le> a * s"
  by (cases s) simp_all

section \<open>Lists\<close>

lemma takeWhile_append_stop:
  "(\<And>x. x \<in> set xs \<Longrightarrow> P x) \<Longrightarrow> \<not> P y \<Longrightarrow> takeWhile P (xs @ y # ys) = xs"
  by (induction xs) auto

lemma dropWhile_append_stop:
  "(\<And>x. x \<in> set xs \<Longrightarrow> P x) \<Longrightarrow> \<not> P y \<Longrightarrow> dropWhile P (xs @ y # ys) = y # ys"
  by (induction xs) auto

lemma find_Some_iff_unique:
  assumes "distinct (map f xs)" "x \<in> set xs"
  shows "find (\<lambda>y. f y = f x) xs = Some x"
  using assms by (induction xs) (auto simp: rev_image_eqI)

end
