(* ===== verification/Arithmetic.thy ===== *)
theory Arithmetic
  imports Prelude
begin

text \<open>
  \<open>libks/arithmetic.c\<close>, \<open>libks/arithmetic.h\<close> and \<open>libks/search.h\<close>: the overflow-checked
  operations on 32 and 64 bit integers and the binary search built on them.

  The header picks the compiler's builtins where they exist and the functions with suffix \<open>0\<close>
  otherwise. A builtin always stores the wrapped result and returns whether the exact one did not
  fit; a fallback returns 1 without storing, or stores the result and returns 0. Both are modelled,
  and shown to agree on every input but one: the unsigned multiplication of the fallback divides by
  its second operand without looking whether it is 0.
\<close>

section \<open>The fallbacks of arithmetic.c\<close>

text \<open>\<open>Undefined\<close> is the division by zero, \<open>Overflow\<close> the return value 1, \<open>Fits c\<close> the return value
  0 with \<open>c\<close> stored.\<close>

datatype 'a arith_result = Undefined | Overflow | Fits 'a

definition smax :: "'a::len itself \<Rightarrow> int" where
  "smax _ = 2 ^ (LENGTH('a) - 1) - 1"

definition smin :: "'a::len itself \<Rightarrow> int" where
  "smin _ = - (2 ^ (LENGTH('a) - 1))"

definition SIGNED_ADD_OVERFLOW :: "'a::len word \<Rightarrow> 'a word \<Rightarrow> 'a word arith_result" where
  "SIGNED_ADD_OVERFLOW a b =
     (if (sint b > 0 \<and> sint a > smax TYPE('a) - sint b) \<or>
         (sint b < 0 \<and> sint a < smin TYPE('a) - sint b)
      then Overflow else Fits (a + b))"

definition SIGNED_SUB_OVERFLOW :: "'a::len word \<Rightarrow> 'a word \<Rightarrow> 'a word arith_result" where
  "SIGNED_SUB_OVERFLOW a b =
     (if (sint b > 0 \<and> sint a < smin TYPE('a) + sint b) \<or>
         (sint b < 0 \<and> sint a > smax TYPE('a) + sint b)
      then Overflow else Fits (a - b))"

definition SIGNED_MUL_OVERFLOW :: "'a::len word \<Rightarrow> 'a word \<Rightarrow> 'a word arith_result" where
  "SIGNED_MUL_OVERFLOW a b =
     (if sint a > 0 \<and> sint b > 0 \<and> sint a > c_div (smax TYPE('a)) (sint b) then Overflow
      else if sint a > 0 \<and> sint b < 0 \<and> sint b < c_div (smin TYPE('a)) (sint a) then Overflow
      else if sint a < 0 \<and> sint b > 0 \<and> sint a < c_div (smin TYPE('a)) (sint b) then Overflow
      else if sint a < 0 \<and> sint b < 0 \<and> sint b < c_div (smax TYPE('a)) (sint a) then Overflow
      else Fits (a * b))"

definition UNSIGNED_ADD_OVERFLOW :: "'a::len word \<Rightarrow> 'a word \<Rightarrow> 'a word arith_result" where
  "UNSIGNED_ADD_OVERFLOW a b = (if a > (- 1) - b then Overflow else Fits (a + b))"

definition UNSIGNED_SUB_OVERFLOW :: "'a::len word \<Rightarrow> 'a word \<Rightarrow> 'a word arith_result" where
  "UNSIGNED_SUB_OVERFLOW a b = (if b > a then Overflow else Fits (a - b))"

definition UNSIGNED_MUL_OVERFLOW :: "'a::len word \<Rightarrow> 'a word \<Rightarrow> 'a word arith_result" where
  "UNSIGNED_MUL_OVERFLOW a b =
     (if b = 0 then Undefined
      else if a > (- 1) div b then Overflow else Fits (a * b))"

definition KS_i32_add_overflow0 :: "i32 \<Rightarrow> i32 \<Rightarrow> i32 arith_result" where
  "KS_i32_add_overflow0 a b = SIGNED_ADD_OVERFLOW a b"

definition KS_i32_sub_overflow0 :: "i32 \<Rightarrow> i32 \<Rightarrow> i32 arith_result" where
  "KS_i32_sub_overflow0 a b = SIGNED_SUB_OVERFLOW a b"

definition KS_i32_mul_overflow0 :: "i32 \<Rightarrow> i32 \<Rightarrow> i32 arith_result" where
  "KS_i32_mul_overflow0 a b = SIGNED_MUL_OVERFLOW a b"

definition KS_i64_add_overflow0 :: "i64 \<Rightarrow> i64 \<Rightarrow> i64 arith_result" where
  "KS_i64_add_overflow0 a b = SIGNED_ADD_OVERFLOW a b"

definition KS_i64_sub_overflow0 :: "i64 \<Rightarrow> i64 \<Rightarrow> i64 arith_result" where
  "KS_i64_sub_overflow0 a b = SIGNED_SUB_OVERFLOW a b"

definition KS_i64_mul_overflow0 :: "i64 \<Rightarrow> i64 \<Rightarrow> i64 arith_result" where
  "KS_i64_mul_overflow0 a b = SIGNED_MUL_OVERFLOW a b"

definition KS_u32_add_overflow0 :: "u32 \<Rightarrow> u32 \<Rightarrow> u32 arith_result" where
  "KS_u32_add_overflow0 a b = UNSIGNED_ADD_OVERFLOW a b"

definition KS_u32_sub_overflow0 :: "u32 \<Rightarrow> u32 \<Rightarrow> u32 arith_result" where
  "KS_u32_sub_overflow0 a b = UNSIGNED_SUB_OVERFLOW a b"

definition KS_u32_mul_overflow0 :: "u32 \<Rightarrow> u32 \<Rightarrow> u32 arith_result" where
  "KS_u32_mul_overflow0 a b = UNSIGNED_MUL_OVERFLOW a b"

definition KS_u64_add_overflow0 :: "u64 \<Rightarrow> u64 \<Rightarrow> u64 arith_result" where
  "KS_u64_add_overflow0 a b = UNSIGNED_ADD_OVERFLOW a b"

definition KS_u64_sub_overflow0 :: "u64 \<Rightarrow> u64 \<Rightarrow> u64 arith_result" where
  "KS_u64_sub_overflow0 a b = UNSIGNED_SUB_OVERFLOW a b"

definition KS_u64_mul_overflow0 :: "u64 \<Rightarrow> u64 \<Rightarrow> u64 arith_result" where
  "KS_u64_mul_overflow0 a b = UNSIGNED_MUL_OVERFLOW a b"

text \<open>\<open>size_t\<close> is a 64 bit integer on the platforms the project builds on.\<close>

definition KS_size_add_overflow0 :: "u64 \<Rightarrow> u64 \<Rightarrow> u64 arith_result" where
  "KS_size_add_overflow0 a b = UNSIGNED_ADD_OVERFLOW a b"

definition KS_size_sub_overflow0 :: "u64 \<Rightarrow> u64 \<Rightarrow> u64 arith_result" where
  "KS_size_sub_overflow0 a b = UNSIGNED_SUB_OVERFLOW a b"

definition KS_size_mul_overflow0 :: "u64 \<Rightarrow> u64 \<Rightarrow> u64 arith_result" where
  "KS_size_mul_overflow0 a b = UNSIGNED_MUL_OVERFLOW a b"

section \<open>The builtins behind arithmetic.h\<close>

text \<open>The compiler's documented behaviour: whether the exact result does not fit, and the exact
  result wrapped to the width.\<close>

definition fits_signed :: "'a::len itself \<Rightarrow> int \<Rightarrow> bool" where
  "fits_signed t v \<longleftrightarrow> smin t \<le> v \<and> v \<le> smax t"

definition fits_unsigned :: "'a::len itself \<Rightarrow> int \<Rightarrow> bool" where
  "fits_unsigned t v \<longleftrightarrow> 0 \<le> v \<and> v < 2 ^ LENGTH('a)"

definition KS_i32_add_overflow :: "i32 \<Rightarrow> i32 \<Rightarrow> bool \<times> i32" where
  "KS_i32_add_overflow a b = (\<not> fits_signed TYPE(32) (sint a + sint b), a + b)"

definition KS_i32_sub_overflow :: "i32 \<Rightarrow> i32 \<Rightarrow> bool \<times> i32" where
  "KS_i32_sub_overflow a b = (\<not> fits_signed TYPE(32) (sint a - sint b), a - b)"

definition KS_i32_mul_overflow :: "i32 \<Rightarrow> i32 \<Rightarrow> bool \<times> i32" where
  "KS_i32_mul_overflow a b = (\<not> fits_signed TYPE(32) (sint a * sint b), a * b)"

definition KS_i64_add_overflow :: "i64 \<Rightarrow> i64 \<Rightarrow> bool \<times> i64" where
  "KS_i64_add_overflow a b = (\<not> fits_signed TYPE(64) (sint a + sint b), a + b)"

definition KS_i64_sub_overflow :: "i64 \<Rightarrow> i64 \<Rightarrow> bool \<times> i64" where
  "KS_i64_sub_overflow a b = (\<not> fits_signed TYPE(64) (sint a - sint b), a - b)"

definition KS_i64_mul_overflow :: "i64 \<Rightarrow> i64 \<Rightarrow> bool \<times> i64" where
  "KS_i64_mul_overflow a b = (\<not> fits_signed TYPE(64) (sint a * sint b), a * b)"

definition KS_u32_add_overflow :: "u32 \<Rightarrow> u32 \<Rightarrow> bool \<times> u32" where
  "KS_u32_add_overflow a b = (\<not> fits_unsigned TYPE(32) (uint a + uint b), a + b)"

definition KS_u32_sub_overflow :: "u32 \<Rightarrow> u32 \<Rightarrow> bool \<times> u32" where
  "KS_u32_sub_overflow a b = (\<not> fits_unsigned TYPE(32) (uint a - uint b), a - b)"

definition KS_u32_mul_overflow :: "u32 \<Rightarrow> u32 \<Rightarrow> bool \<times> u32" where
  "KS_u32_mul_overflow a b = (\<not> fits_unsigned TYPE(32) (uint a * uint b), a * b)"

definition KS_u64_add_overflow :: "u64 \<Rightarrow> u64 \<Rightarrow> bool \<times> u64" where
  "KS_u64_add_overflow a b = (\<not> fits_unsigned TYPE(64) (uint a + uint b), a + b)"

definition KS_u64_sub_overflow :: "u64 \<Rightarrow> u64 \<Rightarrow> bool \<times> u64" where
  "KS_u64_sub_overflow a b = (\<not> fits_unsigned TYPE(64) (uint a - uint b), a - b)"

definition KS_u64_mul_overflow :: "u64 \<Rightarrow> u64 \<Rightarrow> bool \<times> u64" where
  "KS_u64_mul_overflow a b = (\<not> fits_unsigned TYPE(64) (uint a * uint b), a * b)"

definition KS_size_add_overflow :: "u64 \<Rightarrow> u64 \<Rightarrow> bool \<times> u64" where
  "KS_size_add_overflow a b = (\<not> fits_unsigned TYPE(64) (uint a + uint b), a + b)"

definition KS_size_sub_overflow :: "u64 \<Rightarrow> u64 \<Rightarrow> bool \<times> u64" where
  "KS_size_sub_overflow a b = (\<not> fits_unsigned TYPE(64) (uint a - uint b), a - b)"

definition KS_size_mul_overflow :: "u64 \<Rightarrow> u64 \<Rightarrow> bool \<times> u64" where
  "KS_size_mul_overflow a b = (\<not> fits_unsigned TYPE(64) (uint a * uint b), a * b)"

lemmas overflow0_defs =
  KS_i32_add_overflow0_def KS_i32_sub_overflow0_def KS_i32_mul_overflow0_def
  KS_i64_add_overflow0_def KS_i64_sub_overflow0_def KS_i64_mul_overflow0_def
  KS_u32_add_overflow0_def KS_u32_sub_overflow0_def KS_u32_mul_overflow0_def
  KS_u64_add_overflow0_def KS_u64_sub_overflow0_def KS_u64_mul_overflow0_def
  KS_size_add_overflow0_def KS_size_sub_overflow0_def KS_size_mul_overflow0_def

lemmas overflow_defs =
  KS_i32_add_overflow_def KS_i32_sub_overflow_def KS_i32_mul_overflow_def
  KS_i64_add_overflow_def KS_i64_sub_overflow_def KS_i64_mul_overflow_def
  KS_u32_add_overflow_def KS_u32_sub_overflow_def KS_u32_mul_overflow_def
  KS_u64_add_overflow_def KS_u64_sub_overflow_def KS_u64_mul_overflow_def
  KS_size_add_overflow_def KS_size_sub_overflow_def KS_size_mul_overflow_def

section \<open>The fallbacks compute what the builtins do\<close>

lemma sint_range:
  fixes a :: "'a::len word"
  shows "smin TYPE('a) \<le> sint a" "sint a \<le> smax TYPE('a)"
  using sint_greater_eq [of a] sint_less [of a] by (simp_all add: smin_def smax_def)

lemma smin_neg: "smin (t :: 'a::len itself) < 0" and smax_nonneg: "0 \<le> smax (t :: 'a::len itself)"
  and smin_smax: "smin (t :: 'a::len itself) = - smax t - 1"
  by (simp_all add: smin_def smax_def)

text \<open>Division-based overflow tests are exact.\<close>

lemma div_less_iff_mult:
  assumes "0 < (b::int)"
  shows "m div b < a \<longleftrightarrow> m < a * b"
proof
  assume "m div b < a"
  then have "(m div b + 1) * b \<le> a * b"
    using assms by (intro mult_right_mono) auto
  moreover have "m < (m div b + 1) * b"
    unfolding distrib_right using div_mult_mod_eq [of m b] pos_mod_bound [OF assms, of m] by linarith
  ultimately show "m < a * b" by simp
next
  assume lt: "m < a * b"
  show "m div b < a"
  proof (rule ccontr)
    assume "\<not> m div b < a"
    then have "a * b \<le> (m div b) * b"
      using assms by (intro mult_right_mono) auto
    also have "\<dots> \<le> m"
      using div_mult_mod_eq [of m b] pos_mod_sign [OF assms, of m] by linarith
    finally show False using lt by simp
  qed
qed

lemma signed_mul_test:
  fixes a b M :: int
  assumes "0 < M" "- M \<le> a" "a \<le> M - 1" "- M \<le> b" "b \<le> M - 1"
  shows "((a > 0 \<and> b > 0 \<and> a > c_div (M - 1) b) \<or> (a > 0 \<and> b < 0 \<and> b < c_div (- M) a) \<or>
          (a < 0 \<and> b > 0 \<and> a < c_div (- M) b) \<or> (a < 0 \<and> b < 0 \<and> b < c_div (M - 1) a))
         \<longleftrightarrow> \<not> (- M \<le> a * b \<and> a * b \<le> M - 1)"
proof -
  have pp: "a > c_div (M - 1) b \<longleftrightarrow> M - 1 < a * b" if "a > 0" "b > 0"
    using that assms div_less_iff_mult [of b "M - 1" a] by (cases "M = 1") (auto simp: c_div_def)
  have pn: "b < c_div (- M) a \<longleftrightarrow> a * b < - M" if "a > 0" "b < 0"
    using that assms div_less_iff_mult [of a M "- b"] by (auto simp: c_div_def mult.commute)
  have np: "a < c_div (- M) b \<longleftrightarrow> a * b < - M" if "a < 0" "b > 0"
    using that assms div_less_iff_mult [of b M "- a"] by (auto simp: c_div_def)
  have nn: "b < c_div (M - 1) a \<longleftrightarrow> M - 1 < a * b" if "a < 0" "b < 0"
    using that assms div_less_iff_mult [of "- a" "M - 1" "- b"]
    by (cases "M = 1") (auto simp: c_div_def mult.commute)
  have signs: "a > 0 \<Longrightarrow> b > 0 \<Longrightarrow> 0 < a * b" "a > 0 \<Longrightarrow> b < 0 \<Longrightarrow> a * b < 0"
    "a < 0 \<Longrightarrow> b > 0 \<Longrightarrow> a * b < 0" "a < 0 \<Longrightarrow> b < 0 \<Longrightarrow> 0 < a * b"
    by (simp_all add: mult_pos_pos mult_pos_neg mult_neg_pos mult_neg_neg)
  consider "a = 0 \<or> b = 0" | "a > 0" "b > 0" | "a > 0" "b < 0" | "a < 0" "b > 0" | "a < 0" "b < 0"
    by linarith
  then show ?thesis
  proof cases
    case 1
    then show ?thesis using assms by auto
  next
    case 2
    then have "- M \<le> a * b" using signs(1) assms by linarith
    then show ?thesis using pp [OF 2] 2 by auto
  next
    case 3
    then have "a * b \<le> M - 1" using signs(2) assms by linarith
    then show ?thesis using pn [OF 3] 3 by auto
  next
    case 4
    then have "a * b \<le> M - 1" using signs(3) assms by linarith
    then show ?thesis using np [OF 4] 4 by auto
  next
    case 5
    then have "- M \<le> a * b" using signs(4) assms by linarith
    then show ?thesis using nn [OF 5] 5 by auto
  qed
qed

lemma signed_add_exact:
  fixes a b :: "'a::len word"
  shows "SIGNED_ADD_OVERFLOW a b =
    (if \<not> fits_signed TYPE('a) (sint a + sint b) then Overflow else Fits (a + b))"
  using sint_range [of a] sint_range [of b]
  by (auto simp: SIGNED_ADD_OVERFLOW_def fits_signed_def)

lemma signed_sub_exact:
  fixes a b :: "'a::len word"
  shows "SIGNED_SUB_OVERFLOW a b =
    (if \<not> fits_signed TYPE('a) (sint a - sint b) then Overflow else Fits (a - b))"
  using sint_range [of a] sint_range [of b]
  by (auto simp: SIGNED_SUB_OVERFLOW_def fits_signed_def)

lemma signed_mul_exact:
  fixes a b :: "'a::len word"
  shows "SIGNED_MUL_OVERFLOW a b =
    (if \<not> fits_signed TYPE('a) (sint a * sint b) then Overflow else Fits (a * b))"
proof -
  define M :: int where "M = 2 ^ (LENGTH('a) - 1)"
  have M: "0 < M" "smax TYPE('a) = M - 1" "smin TYPE('a) = - M"
    by (simp_all add: M_def smax_def smin_def)
  show ?thesis
    using signed_mul_test [of M "sint a" "sint b"] sint_range [of a] sint_range [of b] M
    unfolding SIGNED_MUL_OVERFLOW_def fits_signed_def M by auto
qed

lemma uint_minus_one: "uint (- 1 :: 'a::len word) = 2 ^ LENGTH('a) - 1"
  by (simp add: unsigned_minus_1_eq_mask mask_eq_exp_minus_1)

lemma unsigned_add_exact:
  fixes a b :: "'a::len word"
  shows "UNSIGNED_ADD_OVERFLOW a b =
    (if \<not> fits_unsigned TYPE('a) (uint a + uint b) then Overflow else Fits (a + b))"
proof -
  have "uint (- 1 - b) = 2 ^ LENGTH('a) - 1 - uint b"
    using uint_lt2p [of b] by (subst uint_sub_if') (auto simp: uint_minus_one)
  then show ?thesis
    by (auto simp: UNSIGNED_ADD_OVERFLOW_def fits_unsigned_def word_less_def)
qed

lemma unsigned_sub_exact:
  fixes a b :: "'a::len word"
  shows "UNSIGNED_SUB_OVERFLOW a b =
    (if \<not> fits_unsigned TYPE('a) (uint a - uint b) then Overflow else Fits (a - b))"
  using uint_lt2p [of a] uint_ge_0 [of b]
  by (auto simp: UNSIGNED_SUB_OVERFLOW_def fits_unsigned_def word_less_def
      simp del: uint_ge_0)

lemma unsigned_mul_exact:
  fixes a b :: "'a::len word"
  assumes "b \<noteq> 0"
  shows "UNSIGNED_MUL_OVERFLOW a b =
    (if \<not> fits_unsigned TYPE('a) (uint a * uint b) then Overflow else Fits (a * b))"
proof -
  have pos: "0 < uint b"
    using assms by (simp add: word_neq_0_conv word_less_def)
  have "- 1 div b < a \<longleftrightarrow> 2 ^ LENGTH('a) - 1 < uint a * uint b"
    using div_less_iff_mult [OF pos, of "2 ^ LENGTH('a) - 1" "uint a"]
    by (simp add: word_less_def uint_div uint_minus_one)
  with assms show ?thesis
    by (auto simp: UNSIGNED_MUL_OVERFLOW_def fits_unsigned_def)
qed

text \<open>The outcome of a builtin in the form of a fallback's.\<close>

fun of_builtin :: "bool \<times> 'a \<Rightarrow> 'a arith_result" where
  "of_builtin (True, c) = Overflow"
| "of_builtin (False, c) = Fits c"

lemma of_builtin_if: "of_builtin (P, c) = (if P then Overflow else Fits c)"
  by (cases P) simp_all

section \<open>Binary search\<close>

text \<open>
  \<open>KS_binary_search\<close> of \<open>libks/search.h\<close>, over indices at the width of \<open>size_t\<close>. The comparison
  function is given as its results on the elements (\<open>c x\<close> is \<open>cmp(&x, needle)\<close>). The loop is a
  partial function: \<open>None\<close> is a loop that does not end, \<open>Some\<close> the pointer it leaves in \<open>_out\<close>.
\<close>

partial_function (option) binary_search_loop ::
  "('a \<Rightarrow> int) \<Rightarrow> 'a list \<Rightarrow> u64 \<Rightarrow> u64 \<Rightarrow> nat option option" where
  "binary_search_loop c v l r =
     (if l \<le> r then
        (let m = (r + l) div 2; k = c (v ! unat m) in
         if k = 0 then Some (Some (unat m))
         else if k < 0 then
           (case KS_size_add_overflow m 1 of (ovf, l') \<Rightarrow>
              if ovf then Some None else binary_search_loop c v l' r)
         else
           (case KS_size_sub_overflow m 1 of (ovf, r') \<Rightarrow>
              if ovf then Some None else binary_search_loop c v l r'))
      else Some None)"

definition KS_binary_search :: "('a \<Rightarrow> int) \<Rightarrow> 'a list \<Rightarrow> nat option option" where
  "KS_binary_search c v =
     (if length v > 0 then binary_search_loop c v 0 (of_nat (length v) - 1) else Some None)"

text \<open>The elements are in ascending order for the needle: first those below it, then those equal
  to it, then those above it.\<close>

definition ordered_for :: "('a \<Rightarrow> int) \<Rightarrow> 'a list \<Rightarrow> bool" where
  "ordered_for c v \<longleftrightarrow> (\<forall>i j. i \<le> j \<longrightarrow> j < length v \<longrightarrow> sgn (c (v ! i)) \<le> sgn (c (v ! j)))"

lemma size_succ:
  fixes m :: u64
  assumes "unat m < 2 ^ 63"
  shows "KS_size_add_overflow m 1 = (False, m + 1)" "unat (m + 1) = Suc (unat m)"
proof -
  have "int (unat m) < int (2 ^ 63)"
    using assms by (simp only: of_nat_less_iff)
  then have "uint m < 2 ^ 63" by simp
  then show "KS_size_add_overflow m 1 = (False, m + 1)"
    by (simp add: KS_size_add_overflow_def fits_unsigned_def)
  show "unat (m + 1) = Suc (unat m)"
    using assms by (simp add: unat_word_ariths)
qed

lemma size_pred:
  fixes m :: u64
  assumes "m \<noteq> 0"
  shows "KS_size_sub_overflow m 1 = (False, m - 1)" "unat (m - 1) = unat m - 1"
proof -
  have "0 < uint m"
    using assms by (simp add: word_neq_0_conv word_less_def)
  then show "KS_size_sub_overflow m 1 = (False, m - 1)"
    using uint_lt2p [of m] by (simp add: KS_size_sub_overflow_def fits_unsigned_def)
  show "unat (m - 1) = unat m - 1"
    using assms by (simp add: unat_minus_one)
qed

text \<open>The element is not to the left of \<open>l\<close> and not to the right of \<open>r\<close>; comparing it with the middle
  excludes one side of it.\<close>

definition search_left :: "('e \<Rightarrow> int) \<Rightarrow> 'e list \<Rightarrow> u64 \<Rightarrow> u64 \<Rightarrow> bool" where
  "search_left c v l r \<longleftrightarrow>
     (\<forall>i < unat l. c (v ! i) < 0) \<and> (\<forall>i. unat r < i \<and> i < length v \<longrightarrow> c (v ! i) > 0)"

definition search_answer :: "('e \<Rightarrow> int) \<Rightarrow> 'e list \<Rightarrow> nat option \<Rightarrow> bool" where
  "search_answer c v res \<longleftrightarrow>
     (case res of Some m \<Rightarrow> m < length v \<and> c (v ! m) = 0 | None \<Rightarrow> \<forall>x \<in> set v. c x \<noteq> 0)"

lemma ordered_sgn: "ordered_for c v \<Longrightarrow> i \<le> j \<Longrightarrow> j < length v \<Longrightarrow> sgn (c (v ! i)) \<le> sgn (c (v ! j))"
  by (auto simp: ordered_for_def)

lemma excluded_all:
  assumes "search_left c v l r" "\<not> l \<le> r"
  shows "search_answer c v None"
proof -
  have "unat r < unat l" using assms(2) by (simp add: word_le_nat_alt)
  then have "c (v ! i) \<noteq> 0" if "i < length v" for i
  proof -
    have "i < unat l \<or> unat r < i" using \<open>unat r < unat l\<close> by linarith
    then have "c (v ! i) < 0 \<or> 0 < c (v ! i)" using assms(1) that by (auto simp: search_left_def)
    then show ?thesis by linarith
  qed
  then show ?thesis by (auto simp: search_answer_def in_set_conv_nth)
qed

lemma excluded_left:
  assumes "search_left c v l r" "ordered_for c v" "unat m < length v" "c (v ! unat m) < 0" "unat (m + 1) = Suc (unat m)"
  shows "search_left c v (m + 1) r"
proof -
  have "c (v ! i) < 0" if "i < unat (m + 1)" for i
    using ordered_sgn [OF assms(2), of i "unat m"] that assms(3-5) by (simp add: sgn_if split: if_splits)
  then show ?thesis using assms(1) by (simp add: search_left_def)
qed

lemma excluded_right:
  assumes "search_left c v l r" "ordered_for c v" "c (v ! unat m) > 0" "unat (m - 1) = unat m - 1"
  shows "search_left c v l (m - 1)"
proof -
  have "c (v ! i) > 0" if "unat (m - 1) < i" "i < length v" for i
  proof -
    have "unat m \<le> i" using that(1) assms(4) by linarith
    with ordered_sgn [OF assms(2), of "unat m" i] that(2) assms(3) show ?thesis by (simp add: sgn_if split: if_splits)
  qed
  then show ?thesis using assms(1) by (simp add: search_left_def)
qed

lemma middle_between:
  fixes l r :: u64
  assumes "l \<le> r" "unat r < n" "n \<le> 2 ^ 63"
  shows "unat l \<le> unat ((r + l) div 2)" "unat ((r + l) div 2) \<le> unat r"
proof -
  have le: "unat l \<le> unat r" using assms(1) by (simp add: word_le_nat_alt)
  with assms(2,3) have "unat r + unat l < 2 ^ 64" by simp
  then have um: "unat ((r + l) div 2) = (unat r + unat l) div 2" by (simp add: unat_div unat_word_ariths)
  show "unat l \<le> unat ((r + l) div 2)" "unat ((r + l) div 2) \<le> unat r" unfolding um using le by linarith+
qed

lemma binary_search_loop_correct:
  assumes "ordered_for c v" and "length v \<le> 2 ^ 63" and "unat r < length v" and "search_left c v l r"
  shows "\<exists>res. binary_search_loop c v l r = Some res \<and> search_answer c v res"
  using assms(3-)
proof (induction "Suc (unat r) - unat l" arbitrary: l r rule: less_induct)
  case less
  let ?m = "(r + l) div 2"
  note loop = binary_search_loop.simps [of c v l r]
  show ?case
  proof (cases "l \<le> r")
    case False
    with excluded_all [OF less.prems(2)] show ?thesis by (simp add: loop)
  next
    case True
    note bounds = middle_between [OF True less.prems(1) assms(2)]
    have in_v: "unat ?m < length v" using bounds(2) less.prems(1) by linarith
    consider "c (v ! unat ?m) = 0" | "c (v ! unat ?m) < 0" | "c (v ! unat ?m) > 0" "?m = 0"
      | "c (v ! unat ?m) > 0" "?m \<noteq> 0" by linarith
    then show ?thesis
    proof cases
      case 1
      with True in_v show ?thesis by (simp add: loop Let_def search_answer_def)
    next
      case 2
      have "unat ?m < 2 ^ 63" using in_v assms(2) by linarith
      note no = size_succ [OF this]
      have "\<exists>res. binary_search_loop c v (?m + 1) r = Some res \<and> search_answer c v res"
        by (intro less.hyps excluded_left [OF less.prems(2) assms(1) in_v 2 no(2)])
          (use no(2) bounds less.prems(1) in auto)
      with True 2 no(1) show ?thesis by (simp add: loop Let_def)
    next
      case 3
      then have "KS_size_sub_overflow ?m 1 = (True, ?m - 1)"
        by (simp add: KS_size_sub_overflow_def fits_unsigned_def)
      moreover have "c (v ! i) \<noteq> 0" if "i < length v" for i
        using ordered_sgn [OF assms(1), of 0 i] that 3 by (auto simp: sgn_if split: if_splits)
      ultimately show ?thesis using True 3 by (auto simp: loop Let_def search_answer_def in_set_conv_nth)
    next
      case 4
      note no = size_pred [OF 4(2)]
      have "0 < unat ?m" using 4(2) by (simp add: unat_gt_0)
      then have "\<exists>res. binary_search_loop c v l (?m - 1) = Some res \<and> search_answer c v res"
        by (intro less.hyps excluded_right [OF less.prems(2) assms(1) 4(1) no(2)])
          (use no(2) bounds less.prems(1) in auto)
      with True 4 no(1) show ?thesis by (simp add: loop Let_def)
    qed
  qed
qed

section \<open>Properties\<close>


text \<open> On an ordered vector of at most \<open>2 ^ 63\<close> elements the binary search ends, returns an
  element that compares equal to the needle if there is one, and NULL otherwise.\<close>

lemma binary_search_correct:
  assumes "ordered_for c v" and "length v \<le> 2 ^ 63"
  shows "\<exists>res. KS_binary_search c v = Some res \<and>
     (case res of Some m \<Rightarrow> m < length v \<and> c (v ! m) = 0
      | None \<Rightarrow> \<forall>x \<in> set v. c x \<noteq> 0)"
proof (cases "v = []")
  case False
  then have "unat (of_nat (length v) - 1 :: u64) = length v - 1"
    using assms(2) by (subst unat_minus_one)
      (auto simp: unat_of_nat word_of_nat_eq_0_iff dest!: dvd_imp_le)
  moreover from this False have "search_left c v 0 (of_nat (length v) - 1)" by (auto simp: search_left_def)
  ultimately show ?thesis
    using False binary_search_loop_correct [OF assms, of "of_nat (length v) - 1" 0]
    by (simp add: KS_binary_search_def search_answer_def)
qed (simp add: KS_binary_search_def)

theorem binary_search_correct_witness:
  "ordered_for (\<lambda>x. x - 7) [2, 5, 7, 9 :: int] \<and> length [2, 5, 7, 9 :: int] \<le> 2 ^ 63 \<and>
   (\<exists>res. KS_binary_search (\<lambda>x. x - 7) [2, 5, 7, 9 :: int] = Some res \<and>
     (case res of Some m \<Rightarrow> m < length [2, 5, 7, 9 :: int] \<and> [2, 5, 7, 9 :: int] ! m - 7 = 0
      | None \<Rightarrow> \<forall>x \<in> set [2, 5, 7, 9 :: int]. x - 7 \<noteq> 0))"
proof -
  have "ordered_for (\<lambda>x. x - 7) [2, 5, 7, 9 :: int]"
    by (auto simp: ordered_for_def less_Suc_eq nth_Cons' sgn_if)
  then show ?thesis
    using binary_search_correct [of "\<lambda>x. x - 7" "[2, 5, 7, 9 :: int]"]
    by simp
qed

end
