(* ===== verification/HashMap.thy ===== *)
theory HashMap
  imports Arithmetic
begin

text \<open>
  \<open>libks/map.c\<close>: the hash table behind every \<open>MAP\<close> of the program (a reduced uthash): a list of
  the elements in insertion order, and buckets whose chain_mset hold the same elements. An element is
  identified by \<open>el_id\<close>, which stands for its address; its value lives in \<open>hm_vals\<close> under that
  address, because callers read and write values through the pointer that \<open>map_find\<close> and
  \<open>map_insert\<close> return. \<open>ok n\<close> says whether the allocator serves a request for \<open>n\<close> bytes.
  Keys are the bytes the map compares.
\<close>

unbundle bit_operations_syntax

section \<open>Data\<close>

record element =
  el_id :: nat
  el_key :: string
  el_hashv :: u32

record hash_bucket =
  hh_chain :: "element list"
  bk_count :: u32
  expand_mult :: u32

record hash_table =
  tbl_buckets :: "hash_bucket list"
  num_buckets :: u32
  log2_num_buckets :: u32
  num_items :: u32
  ideal_chain_maxlen :: u32
  nonideal_items :: u32
  ineff_expands :: u32
  noexpand :: bool

record 'v hash_map =
  hm_elems :: "element list"
  hm_table :: "hash_table option"
  hm_vals :: "nat \<Rightarrow> 'v option"
  hm_next :: nat
  hm_key_size :: nat
  hm_val_size_aligned :: nat
  hm_element_size :: nat
  hm_key_str :: bool

text \<open>Sizes of the structures on a 64 bit platform.\<close>

abbreviation sizeof_element :: nat where "sizeof_element \<equiv> 56"
abbreviation sizeof_map :: nat where "sizeof_map \<equiv> 56"
abbreviation sizeof_table :: nat where "sizeof_table \<equiv> 48"
abbreviation sizeof_bucket :: nat where "sizeof_bucket \<equiv> 16"

section \<open>The hash function\<close>

definition HASH_JEN_MIX :: "u32 \<Rightarrow> u32 \<Rightarrow> u32 \<Rightarrow> u32 \<times> u32 \<times> u32" where
  "HASH_JEN_MIX a0 b0 c0 =
     (let a = (a0 - b0 - c0) XOR drop_bit 13 c0; b = (b0 - c0 - a) XOR push_bit 8 a;
          c = (c0 - a - b) XOR drop_bit 13 b;
          a = (a - b - c) XOR drop_bit 12 c; b = (b - c - a) XOR push_bit 16 a;
          c = (c - a - b) XOR drop_bit 5 b;
          a = (a - b - c) XOR drop_bit 3 c; b = (b - c - a) XOR push_bit 10 a;
          c = (c - a - b) XOR drop_bit 15 b
      in (a, b, c))"

text \<open>Four bytes on a little-endian host, and the rest of the key.\<close>

definition hash_key_read_u32 :: "string \<Rightarrow> u32 \<times> string" where
  "hash_key_read_u32 key =
     (of_char (key ! 0) + push_bit 8 (of_char (key ! 1)) + push_bit 16 (of_char (key ! 2)) +
      push_bit 24 (of_char (key ! 3)), drop 4 key)"

function hash_jen_loop :: "u32 \<Rightarrow> u32 \<Rightarrow> u32 \<Rightarrow> string \<Rightarrow> u32 \<times> u32 \<times> u32 \<times> string" where
  "hash_jen_loop i j hashv key =
     (if length key \<ge> 12 then
        (let (x, key1) = hash_key_read_u32 key; (y, key2) = hash_key_read_u32 key1;
             (z, key3) = hash_key_read_u32 key2;
             (i', j', hashv') = HASH_JEN_MIX (i + x) (j + y) (hashv + z)
         in hash_jen_loop i' j' hashv' key3)
      else (i, j, hashv, key))"
  by pat_completeness auto
termination
  by (relation "measure (\<lambda>(i, j, h, key). length key)")
    (auto simp: hash_key_read_u32_def split: prod.splits)

declare hash_jen_loop.simps [simp del]

text \<open>The cases of the \<open>switch\<close> fall through: byte \<open>n\<close> of the tail counts if there is one.\<close>

definition tail_byte :: "string \<Rightarrow> nat \<Rightarrow> nat \<Rightarrow> u32" where
  "tail_byte key n s = (if n < length key then push_bit s (of_char (key ! n)) else 0)"

definition HASH_JEN :: "string \<Rightarrow> u32" where
  "HASH_JEN key =
     (case hash_jen_loop 0x9e3779b9 0x9e3779b9 0xfeedbeef key of (i, j, hashv, t) \<Rightarrow>
        (case HASH_JEN_MIX
            (i + tail_byte t 3 24 + tail_byte t 2 16 + tail_byte t 1 8 + tail_byte t 0 0)
            (j + tail_byte t 7 24 + tail_byte t 6 16 + tail_byte t 5 8 + tail_byte t 4 0)
            (hashv + of_nat (length key) + tail_byte t 10 24 + tail_byte t 9 16 + tail_byte t 8 8) of
           (_, _, h) \<Rightarrow> h))"

definition HASH_TO_BKT :: "u32 \<Rightarrow> u32 \<Rightarrow> u32" where
  "HASH_TO_BKT hashv num_bkts = hashv AND (num_bkts - 1)"

section \<open>Allocation\<close>

definition size_add_overflow :: "nat \<Rightarrow> nat \<Rightarrow> nat option" where
  "size_add_overflow a b = (if a + b \<le> ULONG_MAX then Some (a + b) else None)"

text \<open>Rounds up to a multiple of the size of a pointer.\<close>

definition pointer_align :: "nat \<Rightarrow> nat option" where
  "pointer_align sz =
     (case size_add_overflow sz 7 of None \<Rightarrow> None | Some s \<Rightarrow> Some (s div 8 * 8))"

definition map_init :: "(nat \<Rightarrow> bool) \<Rightarrow> nat \<Rightarrow> nat \<Rightarrow> bool \<Rightarrow> 'v hash_map option" where
  "map_init ok keysize valsize key_str =
     (case pointer_align valsize of
        None \<Rightarrow> None
      | Some valsize_aligned \<Rightarrow>
          (case size_add_overflow valsize_aligned sizeof_element of
             None \<Rightarrow> None
           | Some elementsize \<Rightarrow>
               (case (if \<not> key_str then size_add_overflow keysize elementsize
                      else Some elementsize) of
                  None \<Rightarrow> None
                | Some elementsize' \<Rightarrow>
                    if \<not> ok sizeof_map then None
                    else Some \<lparr>hm_elems = [], hm_table = None, hm_vals = (\<lambda>_. None), hm_next = 0,
                      hm_key_size = keysize, hm_val_size_aligned = valsize_aligned,
                      hm_element_size = elementsize', hm_key_str = key_str\<rparr>)))"

text \<open>The size of an element with a key of that size, \<open>None\<close> when it cannot be allocated.\<close>

definition map_alloc_element :: "(nat \<Rightarrow> bool) \<Rightarrow> 'v hash_map \<Rightarrow> nat \<Rightarrow> nat option" where
  "map_alloc_element ok m keysize =
     (case (if hm_key_str m then
              (case pointer_align keysize of
                 None \<Rightarrow> None
               | Some keysize_aligned \<Rightarrow>
                   (case size_add_overflow keysize_aligned (hm_element_size m) of
                      None \<Rightarrow> None
                    | Some totsize \<Rightarrow> size_add_overflow 1 totsize))
            else Some (hm_element_size m)) of
        None \<Rightarrow> None
      | Some totsize \<Rightarrow> if ok totsize then Some totsize else None)"

definition key_get_size :: "'v hash_map \<Rightarrow> string \<Rightarrow> nat" where
  "key_get_size m key = (if hm_key_str m then length key else hm_key_size m)"

definition HASH_MAKE_TABLE :: "(nat \<Rightarrow> bool) \<Rightarrow> hash_table option" where
  "HASH_MAKE_TABLE ok =
     (if \<not> ok sizeof_table then None
      else if \<not> ok (32 * sizeof_bucket) then None
      else Some \<lparr>tbl_buckets = replicate 32 \<lparr>hh_chain = [], bk_count = 0, expand_mult = 0\<rparr>,
        num_buckets = 32, log2_num_buckets = 5, num_items = 0, ideal_chain_maxlen = 0,
        nonideal_items = 0, ineff_expands = 0, noexpand = False\<rparr>)"

section \<open>Adding\<close>

text \<open>One iteration of the inner loop of \<open>HASH_EXPAND_BUCKETS\<close>: an element moves to the head of
  its chain in the new buckets.\<close>

definition expand_move ::
  "u32 \<Rightarrow> u32 \<Rightarrow> element \<Rightarrow> hash_bucket list \<times> u32 \<Rightarrow> hash_bucket list \<times> u32" where
  "expand_move ideal nbuckets el = (\<lambda>(new, nonideal).
     (let i = unat (HASH_TO_BKT (el_hashv el) nbuckets);
          b = new ! i;
          count = bk_count b + 1;
          mult = (if count > ideal \<and> count > expand_mult b * ideal then expand_mult b + 1
                  else expand_mult b)
      in (new[i := \<lparr>hh_chain = el # hh_chain b, bk_count = count, expand_mult = mult\<rparr>],
          if count > ideal then nonideal + 1 else nonideal)))"

definition HASH_EXPAND_BUCKETS :: "(nat \<Rightarrow> bool) \<Rightarrow> hash_table \<Rightarrow> bool \<times> hash_table" where
  "HASH_EXPAND_BUCKETS ok t =
     (case KS_u32_mul_overflow (num_buckets t) 2 of (ovf, nbuckets) \<Rightarrow>
        if ovf then (True, t)
        else if \<not> ok (unat nbuckets * sizeof_bucket) then (True, t)
        else
          (let ideal = drop_bit (unat (log2_num_buckets t + 1)) (num_items t) +
                 (if num_items t AND (num_buckets t * 2 - 1) \<noteq> 0 then 1 else 0);
               (new, nonideal) = fold (expand_move ideal nbuckets)
                 (concat (map hh_chain (tbl_buckets t)))
                 (replicate (unat nbuckets) \<lparr>hh_chain = [], bk_count = 0, expand_mult = 0\<rparr>, 0);
               ineff = (if nonideal > drop_bit 1 (num_items t) then ineff_expands t + 1 else 0)
           in (False, t\<lparr>tbl_buckets := new, num_buckets := num_buckets t * 2,
                 log2_num_buckets := log2_num_buckets t + 1, ideal_chain_maxlen := ideal,
                 nonideal_items := nonideal, ineff_expands := ineff,
                 noexpand := noexpand t \<or> ineff > 1\<rparr>)))"

text \<open>Non-zero on failure, which leaves the element in the table.\<close>

definition HASH_ADD_TO_TABLE ::
  "(nat \<Rightarrow> bool) \<Rightarrow> hash_table \<Rightarrow> element \<Rightarrow> bool \<times> hash_table" where
  "HASH_ADD_TO_TABLE ok t add =
     (let i = unat (HASH_TO_BKT (el_hashv add) (num_buckets t));
          b = tbl_buckets t ! i;
          b' = b\<lparr>hh_chain := add # hh_chain b, bk_count := bk_count b + 1\<rparr>;
          t' = t\<lparr>num_items := num_items t + 1, tbl_buckets := (tbl_buckets t)[i := b']\<rparr>
      in if bk_count b' \<ge> (expand_mult b' + 1) * 10 \<and> \<not> noexpand t'
         then HASH_EXPAND_BUCKETS ok t' else (False, t'))"

definition HASH_ADD ::
  "(nat \<Rightarrow> bool) \<Rightarrow> 'v hash_map \<Rightarrow> element \<Rightarrow> bool \<times> 'v hash_map" where
  "HASH_ADD ok m add =
     (case (case hm_table m of None \<Rightarrow> HASH_MAKE_TABLE ok | Some t \<Rightarrow> Some t) of
        None \<Rightarrow> (True, m)
      | Some t \<Rightarrow>
          (case HASH_ADD_TO_TABLE ok t add of
             (err, t') \<Rightarrow> (err, m\<lparr>hm_elems := hm_elems m @ [add], hm_table := Some t'\<rparr>)))"

text \<open>The value is zeroed memory, \<open>z\<close>; the result is the address of the value or NULL.\<close>

definition map_insert_n ::
  "(nat \<Rightarrow> bool) \<Rightarrow> 'v \<Rightarrow> 'v hash_map \<Rightarrow> string \<Rightarrow> nat \<Rightarrow> nat option \<times> 'v hash_map" where
  "map_insert_n ok z m key keysize =
     (case map_alloc_element ok m keysize of
        None \<Rightarrow> (None, m)
      | Some _ \<Rightarrow>
          (let k = take keysize key;
               el = \<lparr>el_id = hm_next m, el_key = k, el_hashv = HASH_JEN k\<rparr>;
               m1 = m\<lparr>hm_vals := (hm_vals m)(hm_next m \<mapsto> z), hm_next := hm_next m + 1\<rparr>
           in (case HASH_ADD ok m1 el of
                 (True, m2) \<Rightarrow> (None, m2)
               | (False, m2) \<Rightarrow> (Some (el_id el), m2))))"

definition map_insert ::
  "(nat \<Rightarrow> bool) \<Rightarrow> 'v \<Rightarrow> 'v hash_map \<Rightarrow> string \<Rightarrow> nat option \<times> 'v hash_map" where
  "map_insert ok z m key = map_insert_n ok z m key (key_get_size m key)"

definition MAP_INSERT_VALUE ::
  "(nat \<Rightarrow> bool) \<Rightarrow> 'v \<Rightarrow> 'v hash_map \<Rightarrow> string \<Rightarrow> 'v \<Rightarrow> nat option \<times> 'v hash_map" where
  "MAP_INSERT_VALUE ok z m key v =
     (case map_insert ok z m key of
        (None, m') \<Rightarrow> (None, m')
      | (Some a, m') \<Rightarrow> (Some a, m'\<lparr>hm_vals := (hm_vals m')(a \<mapsto> v)\<rparr>))"

section \<open>Finding\<close>

definition HASH_FIND :: "'v hash_map \<Rightarrow> string \<Rightarrow> nat \<Rightarrow> element option" where
  "HASH_FIND m key keylen =
     (case hm_table m of
        None \<Rightarrow> None
      | Some t \<Rightarrow>
          (let hashv = HASH_JEN (take keylen key)
           in find (\<lambda>el. el_hashv el = hashv \<and> length (el_key el) = keylen \<and>
                el_key el = take keylen key)
                (hh_chain (tbl_buckets t ! unat (HASH_TO_BKT hashv (num_buckets t))))))"

definition map_find_n :: "'v hash_map \<Rightarrow> string \<Rightarrow> nat \<Rightarrow> nat option" where
  "map_find_n m key keysize = map_option el_id (HASH_FIND m key keysize)"

definition map_find :: "'v hash_map \<Rightarrow> string \<Rightarrow> nat option" where
  "map_find m key = map_find_n m key (key_get_size m key)"

text \<open>The key stored next to the value at an address.\<close>

definition map_key :: "'v hash_map \<Rightarrow> nat \<Rightarrow> string option" where
  "map_key m a = map_option el_key (find (\<lambda>e. el_id e = a) (hm_elems m))"

section \<open>Removing\<close>

definition HASH_DEL_IN_BKT :: "hash_table \<Rightarrow> element \<Rightarrow> hash_table" where
  "HASH_DEL_IN_BKT t del =
     (let i = unat (HASH_TO_BKT (el_hashv del) (num_buckets t));
          b = tbl_buckets t ! i;
          b' = b\<lparr>bk_count := bk_count b - 1,
                 hh_chain := filter (\<lambda>e. el_id e \<noteq> el_id del) (hh_chain b)\<rparr>
      in t\<lparr>tbl_buckets := (tbl_buckets t)[i := b']\<rparr>)"

definition HASH_DELETE :: "'v hash_map \<Rightarrow> element \<Rightarrow> 'v hash_map" where
  "HASH_DELETE m del =
     (let rest = filter (\<lambda>e. el_id e \<noteq> el_id del) (hm_elems m);
          vals = (hm_vals m)(el_id del := None)
      in if rest = [] then m\<lparr>hm_elems := [], hm_table := None, hm_vals := vals\<rparr>
         else m\<lparr>hm_elems := rest, hm_vals := vals,
                hm_table := map_option (\<lambda>t. (HASH_DEL_IN_BKT t del)
                  \<lparr>num_items := num_items t - 1\<rparr>) (hm_table m)\<rparr>)"

definition map_remove :: "'v hash_map \<Rightarrow> string \<Rightarrow> 'v hash_map" where
  "map_remove m key =
     (case HASH_FIND m key (key_get_size m key) of
        None \<Rightarrow> m
      | Some el \<Rightarrow> HASH_DELETE m el)"

text \<open>Deletes every element, reading the next one before its predecessor goes.\<close>

fun map_free_loop :: "'v hash_map \<Rightarrow> element list \<Rightarrow> 'v hash_map" where
  "map_free_loop m [] = m"
| "map_free_loop m (el # nx) = map_free_loop (HASH_DELETE m el) nx"

definition map_free :: "'v hash_map \<Rightarrow> 'v hash_map" where
  "map_free m = map_free_loop m (hm_elems m)"

section \<open>Iterating\<close>

text \<open>The iterator holds the addresses of the first element and of the next one.\<close>

record map_iterator =
  it_el :: "nat option"
  it_nx :: "nat option"

text \<open>\<open>el->next\<close>.\<close>

fun next_of :: "element list \<Rightarrow> nat \<Rightarrow> nat option" where
  "next_of [] a = None"
| "next_of (e # es) a =
     (if el_id e = a then (case es of [] \<Rightarrow> None | f # _ \<Rightarrow> Some (el_id f)) else next_of es a)"

definition map_iterate ::
  "'v hash_map \<Rightarrow> map_iterator \<Rightarrow> nat option \<times> map_iterator" where
  "map_iterate m it =
     (if it_el it = None \<and> it_nx it = None then
        (case hm_elems m of
           [] \<Rightarrow> (None, it)
         | e # _ \<Rightarrow> (Some (el_id e), \<lparr>it_el = Some (el_id e), it_nx = next_of (hm_elems m) (el_id e)\<rparr>))
      else
        (case it_nx it of
           None \<Rightarrow> (None, it)
         | Some a \<Rightarrow> (Some a, it\<lparr>it_nx := next_of (hm_elems m) a\<rparr>)))"

text \<open>What a \<open>while (MAP_ITERATE(m, &it))\<close> loop sees, with the number of elements as fuel.\<close>

fun map_walk :: "nat \<Rightarrow> 'v hash_map \<Rightarrow> map_iterator \<Rightarrow> nat list" where
  "map_walk 0 m it = []"
| "map_walk (Suc n) m it =
     (case map_iterate m it of
        (None, _) \<Rightarrow> []
      | (Some a, it') \<Rightarrow> a # map_walk n m it')"

definition map_elements :: "'v hash_map \<Rightarrow> (string \<times> 'v option) list" where
  "map_elements m =
     map (\<lambda>a. (case map_key m a of None \<Rightarrow> [] | Some k \<Rightarrow> k, hm_vals m a))
       (map_walk (Suc (length (hm_elems m))) m \<lparr>it_el = None, it_nx = None\<rparr>)"

section \<open>Invariant\<close>

definition bucket_ok :: "u32 \<Rightarrow> nat \<Rightarrow> hash_bucket \<Rightarrow> bool" where
  "bucket_ok nb i b \<longleftrightarrow>
     bk_count b = of_nat (length (hh_chain b)) \<and>
     (\<forall>e \<in> set (hh_chain b). unat (HASH_TO_BKT (el_hashv e) nb) = i)"

definition chain_mset :: "hash_bucket list \<Rightarrow> element multiset" where
  "chain_mset bs = (\<Sum>b\<leftarrow>bs. mset (hh_chain b))"

definition buckets_ok :: "u32 \<Rightarrow> hash_bucket list \<Rightarrow> bool" where
  "buckets_ok nb bs \<longleftrightarrow> length bs = unat nb \<and> (\<forall>i < length bs. bucket_ok nb i (bs ! i))"

definition table_wf :: "hash_table \<Rightarrow> element list \<Rightarrow> bool" where
  "table_wf t es \<longleftrightarrow>
     (\<exists>k < 32. num_buckets t = 2 ^ k \<and> log2_num_buckets t = of_nat k) \<and>
     buckets_ok (num_buckets t) (tbl_buckets t) \<and>
     chain_mset (tbl_buckets t) = mset es \<and>
     num_items t = of_nat (length es)"

definition elements_wf :: "'v hash_map \<Rightarrow> bool" where
  "elements_wf m \<longleftrightarrow>
     distinct (map el_id (hm_elems m)) \<and> distinct (map el_key (hm_elems m)) \<and>
     (\<forall>e \<in> set (hm_elems m). el_id e < hm_next m \<and> el_hashv e = HASH_JEN (el_key e) \<and>
        (hm_key_str m \<or> length (el_key e) = hm_key_size m) \<and> hm_vals m (el_id e) \<noteq> None)"

definition map_wf :: "'v hash_map \<Rightarrow> bool" where
  "map_wf m \<longleftrightarrow>
     elements_wf m \<and>
     (case hm_table m of
        None \<Rightarrow> hm_elems m = []
      | Some t \<Rightarrow> hm_elems m \<noteq> [] \<and> table_wf t (hm_elems m))"

lemma uint_pow2: "k < 32 \<Longrightarrow> uint (2 ^ k :: u32) = 2 ^ k"
  by (rule uint_2p) (simp add: word_neq_0_conv [symmetric])

lemma unat_pow2: "k < 32 \<Longrightarrow> unat (2 ^ k :: u32) = 2 ^ k"
  by (simp add: uint_pow2 nat_power_eq flip: nat_uint_eq)

lemma HASH_TO_BKT_less:
  assumes "nb = 2 ^ k" "k < 32"
  shows "unat (HASH_TO_BKT h nb) < unat nb"
proof -
  have "HASH_TO_BKT h nb = take_bit k h"
    by (simp add: HASH_TO_BKT_def assms(1) take_bit_eq_mask mask_eq_exp_minus_1)
  then show ?thesis
    using assms by (simp add: unat_pow2 unsigned_take_bit_eq)
qed

lemma chains_update:
  "i < length bs \<Longrightarrow> chain_mset (bs[i := b]) + mset (hh_chain (bs ! i)) = chain_mset bs + mset (hh_chain b)"
proof (induction bs arbitrary: i)
  case (Cons c bs)
  show ?case
  proof (cases i)
    case 0
    then show ?thesis by (simp add: chain_mset_def)
  next
    case (Suc j)
    with Cons.prems have "chain_mset (bs[j := b]) + mset (hh_chain (bs ! j)) = chain_mset bs + mset (hh_chain b)"
      by (intro Cons.IH) simp
    then show ?thesis by (simp add: chain_mset_def Suc ac_simps)
  qed
qed simp

lemma chains_add:
  assumes "i < length bs" "hh_chain b = e # hh_chain (bs ! i)"
  shows "chain_mset (bs[i := b]) = add_mset e (chain_mset bs)"
  using chains_update [OF assms(1), of b] assms(2) by simp

lemma chains_empty [simp]: "chain_mset (replicate n \<lparr>hh_chain = [], bk_count = c, expand_mult = d\<rparr>) = {#}"
  by (induction n) (simp_all add: chain_mset_def)

lemma set_chains: "i < length bs \<Longrightarrow> set (hh_chain (bs ! i)) \<subseteq> set_mset (chain_mset bs)"
  by (induction bs arbitrary: i) (auto simp: chain_mset_def nth_Cons split: nat.splits)

lemma mset_concat_chains: "mset (concat (map hh_chain bs)) = chain_mset bs"
  by (induction bs) (simp_all add: chain_mset_def)

lemma in_chains:
  assumes "e \<in># chain_mset bs"
  shows "\<exists>i < length bs. e \<in> set (hh_chain (bs ! i))"
proof -
  have "e \<in> set (concat (map hh_chain bs))"
    using assms mset_concat_chains [of bs] by (metis set_mset_mset)
  then obtain b where "b \<in> set bs" "e \<in> set (hh_chain b)" by auto
  then show ?thesis by (metis in_set_conv_nth)
qed

lemma buckets_ok_update:
  assumes "buckets_ok nb bs" "i < length bs" "bucket_ok nb i b"
  shows "buckets_ok nb (bs[i := b])"
  using assms by (auto simp: buckets_ok_def nth_list_update)

lemma buckets_ok_empty:
  "buckets_ok nb (replicate (unat nb) \<lparr>hh_chain = [], bk_count = 0, expand_mult = 0\<rparr>)"
  by (simp add: buckets_ok_def bucket_ok_def)

section \<open>Adding keeps the invariant\<close>

lemma expand_move_ok:
  assumes "buckets_ok nb bs" "nb = 2 ^ k" "k < 32"
  shows "buckets_ok nb (fst (expand_move ideal nb el (bs, n)))"
    and "chain_mset (fst (expand_move ideal nb el (bs, n))) = add_mset el (chain_mset bs)"
proof -
  let ?i = "unat (HASH_TO_BKT (el_hashv el) nb)"
  have i: "?i < length bs"
    using HASH_TO_BKT_less [OF assms(2,3)] assms(1) by (simp add: buckets_ok_def)
  then have "bucket_ok nb ?i (bs ! ?i)" using assms(1) by (simp add: buckets_ok_def)
  then have "bucket_ok nb ?i \<lparr>hh_chain = el # hh_chain (bs ! ?i),
      bk_count = bk_count (bs ! ?i) + 1, expand_mult = mult\<rparr>" for mult
    by (simp add: bucket_ok_def)
  with assms(1) i show "buckets_ok nb (fst (expand_move ideal nb el (bs, n)))"
    by (simp add: expand_move_def Let_def buckets_ok_update)
  show "chain_mset (fst (expand_move ideal nb el (bs, n))) = add_mset el (chain_mset bs)"
    using i by (simp add: expand_move_def Let_def chains_add)
qed

lemma expand_fold_ok:
  assumes "buckets_ok nb (fst p)" "nb = 2 ^ k" "k < 32"
  shows "buckets_ok nb (fst (fold (expand_move ideal nb) es p)) \<and>
    chain_mset (fst (fold (expand_move ideal nb) es p)) = mset es + chain_mset (fst p)"
  using assms(1)
proof (induction es arbitrary: p)
  case (Cons e es)
  obtain bs n where p: "p = (bs, n)" by (cases p)
  have "buckets_ok nb (fst (expand_move ideal nb e p))"
    "chain_mset (fst (expand_move ideal nb e p)) = add_mset e (chain_mset bs)"
    using expand_move_ok [OF _ assms(2,3), of bs] Cons.prems p by simp_all
  with Cons.IH p show ?case by simp
qed simp

lemma mul2_no_overflow:
  assumes "KS_u32_mul_overflow (2 ^ k) 2 = (False, nb)" "k < 32"
  shows "Suc k < 32" "nb = 2 ^ Suc k"
proof -
  have "uint (2 ^ k :: u32) = 2 ^ k"
    using assms(2) by (simp add: uint_pow2)
  with assms have "(2 :: int) ^ Suc k < 2 ^ 32"
    by (simp add: KS_u32_mul_overflow_def fits_unsigned_def)
  then show "Suc k < 32" by (simp only: power_strict_increasing_iff)
  show "nb = 2 ^ Suc k" using assms(1) by (simp add: KS_u32_mul_overflow_def mult.commute)
qed

lemma HASH_EXPAND_BUCKETS_wf:
  assumes "table_wf t es" "HASH_EXPAND_BUCKETS ok t = (err, t')"
  shows "table_wf t' es"
proof -
  obtain k where k: "k < 32" "num_buckets t = 2 ^ k" "log2_num_buckets t = of_nat k"
    using assms(1) by (auto simp: table_wf_def)
  obtain ovf nb where mul: "KS_u32_mul_overflow (num_buckets t) 2 = (ovf, nb)"
    by (cases "KS_u32_mul_overflow (num_buckets t) 2")
  show ?thesis
  proof (cases "ovf \<or> \<not> ok (unat nb * sizeof_bucket)")
    case True
    with assms mul show ?thesis by (cases ovf) (auto simp: HASH_EXPAND_BUCKETS_def)
  next
    case False
    have nb: "Suc k < 32" "nb = 2 ^ Suc k"
      using mul2_no_overflow [OF _ k(1), of nb] mul False k(2) by auto
    let ?p = "(replicate (unat nb) \<lparr>hh_chain = [], bk_count = 0, expand_mult = 0\<rparr>, 0 :: u32)"
    let ?es = "concat (map hh_chain (tbl_buckets t))"
    have "buckets_ok nb (fst ?p)" using buckets_ok_empty by simp
    from expand_fold_ok [OF this nb(2,1), of _ ?es]
    have moved: "buckets_ok nb (fst (fold (expand_move ideal nb) ?es ?p)) \<and>
      chain_mset (fst (fold (expand_move ideal nb) ?es ?p)) = mset es" for ideal
      using assms(1) by (simp add: table_wf_def mset_concat_chains)
    obtain ideal new nonideal ineff noexp where
      new: "fold (expand_move ideal nb) ?es ?p = (new, nonideal)" and
      t': "t' = t\<lparr>tbl_buckets := new, num_buckets := num_buckets t * 2,
         log2_num_buckets := log2_num_buckets t + 1, ideal_chain_maxlen := ideal,
         nonideal_items := nonideal, ineff_expands := ineff, noexpand := noexp\<rparr>"
      using assms(2) mul False by (force simp: HASH_EXPAND_BUCKETS_def Let_def split: prod.splits)
    have "buckets_ok nb new" "chain_mset new = mset es"
      using moved [of ideal] unfolding new by simp_all
    moreover have "num_buckets t * 2 = nb" "log2_num_buckets t + 1 = of_nat (Suc k)"
      using k(2,3) nb(2) by (simp_all add: mult.commute)
    ultimately show ?thesis
      using assms(1) nb unfolding t' table_wf_def by (auto intro!: exI [of _ "Suc k"])
  qed
qed

lemma HASH_ADD_TO_TABLE_wf:
  assumes "table_wf t es" "HASH_ADD_TO_TABLE ok t add = (err, t')"
  shows "table_wf t' (es @ [add])"
proof -
  let ?i = "unat (HASH_TO_BKT (el_hashv add) (num_buckets t))"
  let ?b = "tbl_buckets t ! ?i"
  let ?b' = "?b\<lparr>hh_chain := add # hh_chain ?b, bk_count := bk_count ?b + 1\<rparr>"
  let ?t' = "t\<lparr>num_items := num_items t + 1, tbl_buckets := (tbl_buckets t)[?i := ?b']\<rparr>"
  obtain k where k: "k < 32" "num_buckets t = 2 ^ k" using assms(1) by (auto simp: table_wf_def)
  have i: "?i < length (tbl_buckets t)"
    using HASH_TO_BKT_less [OF k(2,1)] assms(1) by (simp add: table_wf_def buckets_ok_def)
  then have "bucket_ok (num_buckets t) ?i ?b"
    using assms(1) by (simp add: table_wf_def buckets_ok_def)
  then have "bucket_ok (num_buckets t) ?i ?b'" by (simp add: bucket_ok_def)
  with assms(1) i have t': "table_wf ?t' (es @ [add])"
    by (auto simp: table_wf_def buckets_ok_update chains_add)
  show ?thesis
    using assms(2) HASH_EXPAND_BUCKETS_wf [OF t'] t'
    by (auto simp: HASH_ADD_TO_TABLE_def Let_def split: if_splits)
qed

lemma HASH_MAKE_TABLE_wf: "HASH_MAKE_TABLE ok = Some t \<Longrightarrow> table_wf t []"
  using buckets_ok_empty [of 32]
  by (auto simp: HASH_MAKE_TABLE_def table_wf_def split: if_splits intro!: exI [of _ 5])


section \<open>The table as a list of entries\<close>

definition entries :: "'v hash_map \<Rightarrow> (string \<times> 'v) list" where
  "entries m = map (\<lambda>e. (el_key e, the (hm_vals m (el_id e)))) (hm_elems m)"

definition valid_key :: "'v hash_map \<Rightarrow> string \<Rightarrow> bool" where
  "valid_key m key \<longleftrightarrow> hm_key_str m \<or> length key = hm_key_size m"

definition same_kind :: "'v hash_map \<Rightarrow> 'v hash_map \<Rightarrow> bool" where
  "same_kind m m' \<longleftrightarrow> hm_key_str m' = hm_key_str m \<and> hm_key_size m' = hm_key_size m"

lemma valid_key_size: "valid_key m key \<Longrightarrow> key_get_size m key = length key"
  by (auto simp: valid_key_def key_get_size_def)

lemma entries_keys: "map fst (entries m) = map el_key (hm_elems m)"
  by (simp add: entries_def comp_def)

lemma HASH_ADD_wf:
  assumes "map_wf m" "HASH_ADD ok m add = (err, m')"
    and "el_id add \<notin> el_id ` set (hm_elems m)" "el_key add \<notin> el_key ` set (hm_elems m)"
    and "el_id add < hm_next m" "el_hashv add = HASH_JEN (el_key add)"
    and "valid_key m (el_key add)" "hm_vals m (el_id add) \<noteq> None"
  shows "map_wf m' \<and> hm_vals m' = hm_vals m \<and> hm_next m' = hm_next m \<and> same_kind m m' \<and>
    (hm_elems m' = hm_elems m @ [add] \<or> err \<and> hm_elems m' = hm_elems m)"
proof (cases "case hm_table m of None \<Rightarrow> HASH_MAKE_TABLE ok | Some t \<Rightarrow> Some t")
  case None
  with assms(1,2) show ?thesis by (simp add: HASH_ADD_def same_kind_def)
next
  case (Some t)
  have t: "table_wf t (hm_elems m)"
  proof (cases "hm_table m")
    case None
    with assms(1) Some show ?thesis by (simp add: map_wf_def HASH_MAKE_TABLE_wf)
  next
    case (Some t')
    with assms(1) \<open>(case hm_table m of None \<Rightarrow> HASH_MAKE_TABLE ok | Some t \<Rightarrow> Some t) = Some t\<close>
    show ?thesis by (simp add: map_wf_def)
  qed
  obtain e t' where r: "HASH_ADD_TO_TABLE ok t add = (e, t')"
    by (cases "HASH_ADD_TO_TABLE ok t add")
  from assms(2) Some r have m': "m' = m\<lparr>hm_elems := hm_elems m @ [add], hm_table := Some t'\<rparr>"
    by (simp add: HASH_ADD_def)
  have "table_wf t' (hm_elems m @ [add])" by (rule HASH_ADD_TO_TABLE_wf [OF t r])
  then show ?thesis
    using assms(1,3-) by (auto simp: m' map_wf_def elements_wf_def same_kind_def valid_key_def)
qed

lemma map_insert_wf:
  assumes "map_wf m" "valid_key m key" "key \<notin> fst ` set (entries m)"
    and "map_insert ok z m key = (r, m')"
  shows "map_wf m' \<and> same_kind m m' \<and>
    (case r of
       None \<Rightarrow> entries m' = entries m \<or> entries m' = entries m @ [(key, z)]
     | Some a \<Rightarrow> entries m' = entries m @ [(key, z)] \<and> hm_elems m' = hm_elems m @
         [\<lparr>el_id = a, el_key = key, el_hashv = HASH_JEN key\<rparr>] \<and> a = hm_next m)"
proof (cases "map_alloc_element ok m (length key)")
  case None
  with assms show ?thesis
    by (auto simp: map_insert_def map_insert_n_def valid_key_size same_kind_def)
next
  case (Some n)
  let ?el = "\<lparr>el_id = hm_next m, el_key = key, el_hashv = HASH_JEN key\<rparr>"
  let ?m1 = "m\<lparr>hm_vals := (hm_vals m)(hm_next m \<mapsto> z), hm_next := hm_next m + 1\<rparr>"
  obtain e m2 where r: "HASH_ADD ok ?m1 ?el = (e, m2)" by (cases "HASH_ADD ok ?m1 ?el")
  have m1: "map_wf ?m1"
    using assms(1) by (auto simp: map_wf_def elements_wf_def split: option.splits)
  have fresh: "hm_next m \<notin> el_id ` set (hm_elems m)"
    using assms(1) by (auto simp: map_wf_def elements_wf_def)
  have "key \<notin> el_key ` set (hm_elems m)"
    using assms(3) by (auto simp: entries_def image_iff)
  with HASH_ADD_wf [OF m1 r] fresh assms(2)
  have m2: "map_wf m2 \<and> hm_vals m2 = hm_vals ?m1 \<and> same_kind ?m1 m2 \<and>
      (hm_elems m2 = hm_elems m @ [?el] \<or> e \<and> hm_elems m2 = hm_elems m)"
    by (simp add: valid_key_def)
  have same: "(el_key x, the (((hm_vals m)(hm_next m \<mapsto> z)) (el_id x))) =
      (el_key x, the (hm_vals m (el_id x)))" if "x \<in> set (hm_elems m)" for x
    using fresh that by (auto simp: image_iff)
  have "entries m2 = entries m @ [(key, z)]" if "hm_elems m2 = hm_elems m @ [?el]"
    using that m2 same by (simp add: entries_def)
  moreover have "entries m2 = entries m" if "hm_elems m2 = hm_elems m"
    using that m2 same by (simp add: entries_def)
  moreover have "m' = m2" "r = (if e then None else Some (hm_next m))"
    using assms(2,4) Some r
    by (auto simp: map_insert_def map_insert_n_def valid_key_size Let_def split: bool.splits)
  ultimately show ?thesis
    using m2 by (auto simp: same_kind_def)
qed

lemma MAP_INSERT_VALUE_wf:
  assumes "map_wf m" "valid_key m key" "key \<notin> fst ` set (entries m)"
    and "MAP_INSERT_VALUE ok z m key v = (r, m')"
  shows "map_wf m' \<and> same_kind m m' \<and>
    (case r of
       None \<Rightarrow> entries m' = entries m \<or> entries m' = entries m @ [(key, z)]
     | Some a \<Rightarrow> entries m' = entries m @ [(key, v)])"
proof -
  obtain r1 m1 where r: "map_insert ok z m key = (r1, m1)" by (cases "map_insert ok z m key")
  note i = map_insert_wf [OF assms(1-3) r]
  show ?thesis
  proof (cases r1)
    case None
    with i r assms(4) show ?thesis by (auto simp: MAP_INSERT_VALUE_def)
  next
    case (Some a)
    with r assms(4) have m': "m' = m1\<lparr>hm_vals := (hm_vals m1)(a \<mapsto> v)\<rparr>" "r = Some a"
      by (simp_all add: MAP_INSERT_VALUE_def)
    have el: "hm_elems m1 = hm_elems m @ [\<lparr>el_id = a, el_key = key, el_hashv = HASH_JEN key\<rparr>]"
      and a: "a = hm_next m" and e: "entries m1 = entries m @ [(key, z)]"
      using i Some by auto
    have "a \<notin> el_id ` set (hm_elems m)"
      using assms(1) a by (auto simp: map_wf_def elements_wf_def)
    moreover from this e el have "map (\<lambda>e. (el_key e, the (hm_vals m1 (el_id e)))) (hm_elems m) = entries m"
      by (simp add: entries_def)
    ultimately have "entries m' = entries m @ [(key, v)]"
      using el by (auto simp: entries_def m'(1))
    moreover have "map_wf m'"
      using i by (auto simp: m'(1) map_wf_def elements_wf_def split: option.splits)
    ultimately show ?thesis using i by (simp add: m' same_kind_def)
  qed
qed


section \<open>Finding and removing\<close>

lemma find_unique:
  assumes "e \<in> set xs" "P e" "\<And>x. x \<in> set xs \<Longrightarrow> P x \<Longrightarrow> x = e"
  shows "find P xs = Some e"
proof (cases "find P xs")
  case None
  with assms(1,2) show ?thesis by (simp add: find_None_iff)
next
  case (Some x)
  then have "x \<in> set xs" "P x" by (auto simp: find_Some_iff)
  with assms(3) Some show ?thesis by simp
qed

lemma table_bucket:
  assumes "table_wf t es"
  shows "unat (HASH_TO_BKT h (num_buckets t)) < length (tbl_buckets t)"
    and "set (hh_chain (tbl_buckets t ! unat (HASH_TO_BKT h (num_buckets t)))) =
      {e \<in> set es. HASH_TO_BKT (el_hashv e) (num_buckets t) = HASH_TO_BKT h (num_buckets t)}"
proof -
  let ?nb = "num_buckets t" and ?bs = "tbl_buckets t"
  obtain k where k: "?nb = 2 ^ k" "k < 32" using assms by (auto simp: table_wf_def)
  have bs: "buckets_ok ?nb ?bs" and ch: "chain_mset ?bs = mset es"
    using assms by (auto simp: table_wf_def)
  show i: "unat (HASH_TO_BKT h ?nb) < length ?bs" for h
    using HASH_TO_BKT_less [OF k] bs by (simp add: buckets_ok_def)
  show "set (hh_chain (?bs ! unat (HASH_TO_BKT h ?nb))) =
      {e \<in> set es. HASH_TO_BKT (el_hashv e) ?nb = HASH_TO_BKT h ?nb}" (is "?A = ?B")
  proof
    show "?A \<subseteq> ?B"
    proof
      fix e
      assume e: "e \<in> ?A"
      then have "e \<in># chain_mset ?bs" using set_chains [OF i [of h]] by blast
      moreover have "unat (HASH_TO_BKT (el_hashv e) ?nb) = unat (HASH_TO_BKT h ?nb)"
        using bs i [of h] e unfolding buckets_ok_def bucket_ok_def by blast
      ultimately show "e \<in> ?B" using ch by (simp add: word_unat_eq_iff)
    qed
    show "?B \<subseteq> ?A"
    proof
      fix e
      assume e: "e \<in> ?B"
      then have "e \<in># chain_mset ?bs" using ch by simp
      then obtain j where j: "j < length ?bs" "e \<in> set (hh_chain (?bs ! j))"
        using in_chains by blast
      then have "unat (HASH_TO_BKT (el_hashv e) ?nb) = j"
        using bs by (simp add: buckets_ok_def bucket_ok_def)
      with e j show "e \<in> ?A" by auto
    qed
  qed
qed

lemma HASH_FIND_eq:
  assumes "map_wf m" "valid_key m key"
  shows "HASH_FIND m key (length key) = find (\<lambda>e. el_key e = key) (hm_elems m)"
proof (cases "hm_table m")
  case None
  with assms show ?thesis by (simp add: HASH_FIND_def map_wf_def)
next
  case (Some t)
  then have t: "table_wf t (hm_elems m)" using assms(1) by (simp add: map_wf_def)
  let ?c = "hh_chain (tbl_buckets t ! unat (HASH_TO_BKT (HASH_JEN key) (num_buckets t)))"
  let ?P = "\<lambda>el. el_hashv el = HASH_JEN key \<and> length (el_key el) = length key \<and> el_key el = key"
  have f: "HASH_FIND m key (length key) = find ?P ?c"
    by (simp add: HASH_FIND_def Some Let_def)
  have hash: "el_hashv e = HASH_JEN (el_key e)" if "e \<in> set (hm_elems m)" for e
    using assms(1) that by (simp add: map_wf_def elements_wf_def)
  have dist: "x = y" if "x \<in> set (hm_elems m)" "y \<in> set (hm_elems m)" "el_key x = el_key y" for x y
    using assms(1) that by (auto simp: map_wf_def elements_wf_def distinct_map inj_on_def)
  have set_c: "set ?c = {e \<in> set (hm_elems m).
      HASH_TO_BKT (el_hashv e) (num_buckets t) = HASH_TO_BKT (HASH_JEN key) (num_buckets t)}"
    by (rule table_bucket(2) [OF t])
  show ?thesis
  proof (cases "\<exists>e \<in> set (hm_elems m). el_key e = key")
    case True
    then obtain e where e: "e \<in> set (hm_elems m)" "el_key e = key" by blast
    then have "find (\<lambda>e. el_key e = key) (hm_elems m) = Some e"
      by (intro find_unique) (auto intro: dist)
    moreover have "find ?P ?c = Some e"
    proof (rule find_unique)
      show "e \<in> set ?c" using e hash [OF e(1)] by (simp add: set_c)
      show "?P e" using e hash [OF e(1)] by simp
      show "\<And>x. x \<in> set ?c \<Longrightarrow> ?P x \<Longrightarrow> x = e"
        using e dist by (simp add: set_c)
    qed
    ultimately show ?thesis by (simp add: f)
  next
    case False
    then have "find (\<lambda>e. el_key e = key) (hm_elems m) = None" by (simp add: find_None_iff)
    moreover have "find ?P ?c = None" using False by (auto simp: find_None_iff set_c)
    ultimately show ?thesis by (simp add: f)
  qed
qed

lemma map_of_find:
  "map_of (map (\<lambda>e. (f e, g e)) xs) k = map_option g (find (\<lambda>e. f e = k) xs)"
  by (induction xs) auto

text \<open>The value behind the pointer that \<open>map_find\<close> returns.\<close>

definition map_lookup :: "'v hash_map \<Rightarrow> string \<Rightarrow> 'v option" where
  "map_lookup m key = (case map_find m key of None \<Rightarrow> None | Some a \<Rightarrow> hm_vals m a)"

lemma map_lookup_eq:
  assumes "map_wf m" "valid_key m key"
  shows "map_lookup m key = map_of (entries m) key"
proof (cases "find (\<lambda>e. el_key e = key) (hm_elems m)")
  case None
  with assms show ?thesis
    by (simp add: map_lookup_def map_find_def map_find_n_def valid_key_size HASH_FIND_eq
        entries_def map_of_find)
next
  case (Some e)
  then have "e \<in> set (hm_elems m)" by (auto simp: find_Some_iff)
  then have "hm_vals m (el_id e) \<noteq> None"
    using assms(1) by (simp add: map_wf_def elements_wf_def)
  with assms Some show ?thesis
    by (auto simp: map_lookup_def map_find_def map_find_n_def valid_key_size HASH_FIND_eq
        entries_def map_of_find)
qed

lemma mset_filter_one:
  "distinct (map f xs) \<Longrightarrow> x \<in> set xs \<Longrightarrow>
   add_mset x (mset (filter (\<lambda>y. f y \<noteq> f x) xs)) = mset xs"
proof (induction xs)
  case (Cons y ys)
  show ?case
  proof (cases "x = y")
    case True
    with Cons.prems have "filter (\<lambda>z. f z \<noteq> f x) ys = ys"
      by (intro filter_True) (auto simp: image_iff)
    with True show ?thesis by simp
  next
    case False
    with Cons.prems have "f y \<noteq> f x" by (auto simp: image_iff)
    with Cons False show ?thesis by (simp add: add_mset_commute)
  qed
qed simp

lemma HASH_DELETE_table:
  assumes t: "table_wf t es" and e: "e \<in> set es" and d: "distinct (map el_id es)"
  shows "table_wf ((HASH_DEL_IN_BKT t e)\<lparr>num_items := num_items t - 1\<rparr>)
    (filter (\<lambda>x. el_id x \<noteq> el_id e) es)"
proof -
  let ?nb = "num_buckets t" and ?bs = "tbl_buckets t"
  let ?i = "unat (HASH_TO_BKT (el_hashv e) ?nb)"
  let ?b = "?bs ! ?i"
  let ?c = "filter (\<lambda>x. el_id x \<noteq> el_id e) (hh_chain ?b)"
  let ?b' = "?b\<lparr>bk_count := bk_count ?b - 1, hh_chain := ?c\<rparr>"
  note tb = table_bucket [OF t, of "el_hashv e"]
  have in_chain: "e \<in> set (hh_chain ?b)" using tb(2) e by simp
  have bs: "buckets_ok ?nb ?bs" and ch: "chain_mset ?bs = mset es"
    using t by (auto simp: table_wf_def)
  obtain zs where "mset zs = chain_mset (?bs[?i := ?b\<lparr>hh_chain := []\<rparr>])"
    using ex_mset by blast
  then have "mset es = mset (hh_chain ?b @ zs)"
    using chains_update [OF tb(1), of "?b\<lparr>hh_chain := []\<rparr>"] ch by (simp add: ac_simps)
  then have "mset (map el_id es) = mset (map el_id (hh_chain ?b @ zs))" by (simp only: mset_map)
  then have "distinct (map el_id (hh_chain ?b))"
    using d mset_eq_imp_distinct_iff by fastforce
  from mset_filter_one [OF this in_chain] have c: "add_mset e (mset ?c) = mset (hh_chain ?b)" .
  then have "length (hh_chain ?b) = Suc (length ?c)"
    by (metis size_add_mset size_mset)
  then have "bucket_ok ?nb ?i ?b'"
    using bs tb(1) by (simp add: buckets_ok_def bucket_ok_def)
  then have "buckets_ok ?nb (?bs[?i := ?b'])" by (rule buckets_ok_update [OF bs tb(1)])
  moreover have "add_mset e (chain_mset (?bs[?i := ?b'])) = mset es"
  proof -
    have "chain_mset (?bs[?i := ?b']) + add_mset e (mset ?c) = chain_mset ?bs + mset ?c"
      using chains_update [OF tb(1), of ?b'] c by simp
    then have "add_mset e (chain_mset (?bs[?i := ?b'])) + mset ?c = chain_mset ?bs + mset ?c"
      by simp
    then show ?thesis using ch by (simp only: add_right_cancel)
  qed
  then have "chain_mset (?bs[?i := ?b']) = mset (filter (\<lambda>x. el_id x \<noteq> el_id e) es)"
    using mset_filter_one [OF d e] by (metis add_mset_add_single add_right_cancel)
  moreover have "length es = Suc (length (filter (\<lambda>x. el_id x \<noteq> el_id e) es))"
    using mset_filter_one [OF d e] by (metis size_add_mset size_mset)
  ultimately show ?thesis
    using t by (simp add: table_wf_def HASH_DEL_IN_BKT_def Let_def)
qed

lemma HASH_DELETE_wf:
  assumes "map_wf m" "e \<in> set (hm_elems m)"
  shows "map_wf (HASH_DELETE m e)" "same_kind m (HASH_DELETE m e)"
    "hm_elems (HASH_DELETE m e) = filter (\<lambda>x. el_id x \<noteq> el_id e) (hm_elems m)"
    "hm_vals (HASH_DELETE m e) = (hm_vals m)(el_id e := None)"
proof -
  let ?rest = "filter (\<lambda>x. el_id x \<noteq> el_id e) (hm_elems m)"
  have d: "distinct (map el_id (hm_elems m))" using assms(1) by (simp add: map_wf_def elements_wf_def)
  show "hm_elems (HASH_DELETE m e) = ?rest" "hm_vals (HASH_DELETE m e) = (hm_vals m)(el_id e := None)"
    "same_kind m (HASH_DELETE m e)"
    by (simp_all add: HASH_DELETE_def Let_def same_kind_def)
  have w: "elements_wf (HASH_DELETE m e)"
    using assms(1) by (auto simp: HASH_DELETE_def Let_def map_wf_def elements_wf_def distinct_map_filter)
  obtain t where t: "hm_table m = Some t" "table_wf t (hm_elems m)"
    using assms by (auto simp: map_wf_def split: option.splits)
  show "map_wf (HASH_DELETE m e)"
    using w HASH_DELETE_table [OF t(2) assms(2) d] t(1)
    by (auto simp: map_wf_def HASH_DELETE_def Let_def)
qed

lemma map_remove_wf:
  assumes "map_wf m" "valid_key m key"
  shows "map_wf (map_remove m key)" "same_kind m (map_remove m key)"
    "entries (map_remove m key) = filter (\<lambda>p. fst p \<noteq> key) (entries m)"
proof -
  have f: "HASH_FIND m key (key_get_size m key) = find (\<lambda>e. el_key e = key) (hm_elems m)"
    using HASH_FIND_eq [OF assms] valid_key_size [OF assms(2)] by simp
  have "map_wf (map_remove m key) \<and> same_kind m (map_remove m key) \<and>
    entries (map_remove m key) = filter (\<lambda>p. fst p \<noteq> key) (entries m)"
  proof (cases "find (\<lambda>e. el_key e = key) (hm_elems m)")
    case None
    then have "filter (\<lambda>p. fst p \<noteq> key) (entries m) = entries m"
      by (intro filter_True) (auto simp: entries_def find_None_iff)
    with assms None f show ?thesis by (simp add: map_remove_def same_kind_def)
  next
    case (Some e)
    then have e: "e \<in> set (hm_elems m)" "el_key e = key" by (auto simp: find_Some_iff)
    have inj: "el_id x = el_id e \<longleftrightarrow> el_key x = key" if "x \<in> set (hm_elems m)" for x
      using assms(1) that e by (auto simp: map_wf_def elements_wf_def distinct_map inj_on_def)
    have r: "map_remove m key = HASH_DELETE m e" using f Some by (simp add: map_remove_def)
    have "filter (\<lambda>x. el_id x \<noteq> el_id e) (hm_elems m) = filter (\<lambda>x. el_key x \<noteq> key) (hm_elems m)"
      using inj by (intro filter_cong) auto
    then have "entries (HASH_DELETE m e) = filter (\<lambda>p. fst p \<noteq> key) (entries m)"
      using inj by (auto simp: entries_def HASH_DELETE_wf [OF assms(1) e(1)] filter_map comp_def)
    then show ?thesis using HASH_DELETE_wf [OF assms(1) e(1)] by (simp add: r)
  qed
  then show "map_wf (map_remove m key)" "same_kind m (map_remove m key)"
    "entries (map_remove m key) = filter (\<lambda>p. fst p \<noteq> key) (entries m)" by blast+
qed

section \<open>Iterating visits the elements in order\<close>

lemma next_of_append:
  "distinct (map el_id (xs @ e # ys)) \<Longrightarrow>
   next_of (xs @ e # ys) (el_id e) = (case ys of [] \<Rightarrow> None | f # _ \<Rightarrow> Some (el_id f))"
  by (induction xs) auto

lemma map_walk_rest:
  assumes "distinct (map el_id (hm_elems m))" "hm_elems m = xs @ ys" "length ys < n"
    "it_el it \<noteq> None" "it_nx it = (case ys of [] \<Rightarrow> None | f # _ \<Rightarrow> Some (el_id f))"
  shows "map_walk n m it = map el_id ys"
  using assms(2-)
proof (induction n arbitrary: xs ys it)
  case (Suc n)
  show ?case
  proof (cases ys)
    case Nil
    with Suc.prems show ?thesis by (auto simp: map_iterate_def)
  next
    case (Cons e zs)
    have "next_of (hm_elems m) (el_id e) = (case zs of [] \<Rightarrow> None | f # _ \<Rightarrow> Some (el_id f))"
      using assms(1) Suc.prems(1) Cons next_of_append [of xs e zs] by simp
    moreover have "hm_elems m = (xs @ [e]) @ zs" using Suc.prems(1) Cons by simp
    ultimately have "map_walk n m (it\<lparr>it_nx := next_of (hm_elems m) (el_id e)\<rparr>) = map el_id zs"
      using Suc.IH [of "xs @ [e]" zs] Suc.prems Cons by simp
    with Suc.prems Cons show ?thesis by (simp add: map_iterate_def)
  qed
qed simp

lemma map_walk_all:
  assumes "map_wf m"
  shows "map_walk (Suc (length (hm_elems m))) m \<lparr>it_el = None, it_nx = None\<rparr> = map el_id (hm_elems m)"
proof (cases "hm_elems m")
  case Nil
  then show ?thesis by (simp add: map_iterate_def)
next
  case (Cons e es)
  have d: "distinct (map el_id (hm_elems m))" using assms by (simp add: map_wf_def elements_wf_def)
  have "next_of (hm_elems m) (el_id e) = (case es of [] \<Rightarrow> None | f # _ \<Rightarrow> Some (el_id f))"
    using next_of_append [of "[]" e es] d Cons by simp
  then have "map_walk (length (hm_elems m)) m
      \<lparr>it_el = Some (el_id e), it_nx = next_of (hm_elems m) (el_id e)\<rparr> = map el_id es"
    using map_walk_rest [OF d, of "[e]" es "length (hm_elems m)"] Cons
    by (simp del: map_walk.simps)
  with Cons show ?thesis
    unfolding map_walk.simps(2) [of "length (hm_elems m)"] map_iterate_def
    by (simp del: map_walk.simps)
qed

lemma map_elements_eq:
  assumes "map_wf m"
  shows "map_elements m = map (\<lambda>(k, v). (k, Some v)) (entries m)"
proof -
  have "map_key m (el_id e) = Some (el_key e) \<and> hm_vals m (el_id e) \<noteq> None"
    if "e \<in> set (hm_elems m)" for e
    using that assms find_Some_iff_unique [of el_id "hm_elems m" e]
    by (simp add: map_key_def map_wf_def elements_wf_def)
  then show ?thesis
    unfolding map_elements_def map_walk_all [OF assms] entries_def map_map by auto
qed

lemma map_init_wf:
  "map_init ok keysize valsize key_str = Some m \<Longrightarrow> map_wf m \<and> entries m = []"
  by (auto simp: map_init_def map_wf_def elements_wf_def entries_def split: option.splits if_splits)

lemma map_free_loop_empty:
  assumes "map_wf m" "hm_elems m = es"
  shows "hm_elems (map_free_loop m es) = [] \<and> hm_table (map_free_loop m es) = None"
  using assms
proof (induction es arbitrary: m)
  case Nil
  then show ?case by (auto simp: map_wf_def split: option.splits)
next
  case (Cons e es)
  have e: "e \<in> set (hm_elems m)" using Cons.prems(2) by simp
  have "filter (\<lambda>x. el_id x \<noteq> el_id e) (hm_elems m) = es"
    using Cons.prems by (auto simp: map_wf_def elements_wf_def image_iff intro!: filter_True)
  with Cons.IH [of "HASH_DELETE m e"] HASH_DELETE_wf [OF Cons.prems(1) e] show ?case by simp
qed


section \<open>The interface the components use\<close>

text \<open>
  What a component may assume of the tables it keeps: keys it has not inserted before go to the end
  of the entries, lookups return the value of a key, removals drop it.
\<close>

locale dictionary =
  fixes dwf :: "'m \<Rightarrow> bool"
    and valid :: "'k \<Rightarrow> bool"
    and items :: "'m \<Rightarrow> ('k \<times> 'v) list"
    and insert_new :: "'m \<Rightarrow> 'k \<Rightarrow> 'v \<Rightarrow> 'm option"
    and lookup :: "'m \<Rightarrow> 'k \<Rightarrow> 'v option"
    and remove :: "'m \<Rightarrow> 'k \<Rightarrow> 'm"
  assumes items_distinct: "dwf m \<Longrightarrow> distinct (map fst (items m))"
    and insert_items: "dwf m \<Longrightarrow> valid k \<Longrightarrow> k \<notin> fst ` set (items m) \<Longrightarrow>
      insert_new m k v = Some m' \<Longrightarrow> dwf m' \<and> items m' = items m @ [(k, v)]"
    and lookup_items: "dwf m \<Longrightarrow> valid k \<Longrightarrow> lookup m k = map_of (items m) k"
    and remove_items: "dwf m \<Longrightarrow> valid k \<Longrightarrow>
      dwf (remove m k) \<and> items (remove m k) = filter (\<lambda>p. fst p \<noteq> k) (items m)"
begin

lemma lookup_insert:
  assumes "dwf m" "valid k" "lookup m k = None" "insert_new m k v = Some m'" "valid k'"
  shows "lookup m' k' = (if k' = k then Some v else lookup m k')"
proof -
  have new: "k \<notin> fst ` set (items m)"
    using assms(1-3) by (simp add: lookup_items map_of_eq_None_iff)
  have "map_of (items m @ [(k, v)]) k' = (if k' = k then Some v else map_of (items m) k')"
    using new by (auto simp: map_add_def map_of_eq_None_iff [symmetric] split: option.splits)
  then show ?thesis
    using insert_items [OF assms(1,2) new assms(4)] assms(1,5) by (simp add: lookup_items)
qed

lemma map_of_filter_neq: "map_of (filter (\<lambda>p. fst p \<noteq> k) xs) k' = (if k' = k then None else map_of xs k')"
  by (induction xs) auto

lemma lookup_remove:
  "dwf m \<Longrightarrow> valid k \<Longrightarrow> valid k' \<Longrightarrow>
   lookup (remove m k) k' = (if k' = k then None else lookup m k')"
  using remove_items by (simp add: lookup_items map_of_filter_neq)

fun insert_all :: "'m \<Rightarrow> ('k \<times> 'v) list \<Rightarrow> 'm option" where
  "insert_all m [] = Some m"
| "insert_all m ((k, v) # kvs) =
     (case insert_new m k v of None \<Rightarrow> None | Some m' \<Rightarrow> insert_all m' kvs)"

lemma insert_all_items:
  "dwf m \<Longrightarrow> (\<And>k. k \<in> fst ` set kvs \<Longrightarrow> valid k) \<Longrightarrow>
   distinct (map fst (items m @ kvs)) \<Longrightarrow> insert_all m kvs = Some m' \<Longrightarrow>
   dwf m' \<and> items m' = items m @ kvs"
proof (induction m kvs rule: insert_all.induct)
  case (2 m k v kvs)
  obtain m1 where m1: "insert_new m k v = Some m1" "insert_all m1 kvs = Some m'"
    using "2.prems"(4) by (auto split: option.splits)
  have "k \<notin> fst ` set (items m)" using "2.prems"(3) by auto
  from insert_items [OF "2.prems"(1) _ this m1(1)] "2.prems"(2)
  have "dwf m1 \<and> items m1 = items m @ [(k, v)]" by simp
  with "2.IH" [OF m1(1)] "2.prems" m1(2) show ?case by simp
qed simp

end

definition insert_new :: "(nat \<Rightarrow> bool) \<Rightarrow> 'v \<Rightarrow> 'v hash_map \<Rightarrow> string \<Rightarrow> 'v \<Rightarrow> 'v hash_map option" where
  "insert_new ok z m k v =
     (case MAP_INSERT_VALUE ok z m k v of (None, _) \<Rightarrow> None | (Some _, m') \<Rightarrow> Some m')"

text \<open>Tables with C strings as keys, and tables with keys of one size.\<close>

definition str_map :: "'v hash_map \<Rightarrow> bool" where
  "str_map m \<longleftrightarrow> map_wf m \<and> hm_key_str m"

definition sized_map :: "nat \<Rightarrow> 'v hash_map \<Rightarrow> bool" where
  "sized_map n m \<longleftrightarrow> map_wf m \<and> \<not> hm_key_str m \<and> hm_key_size m = n"

lemma map_dictionary_laws:
  assumes "map_wf m" "valid_key m k"
  shows "k \<notin> fst ` set (entries m) \<Longrightarrow> insert_new ok z m k v = Some m' \<Longrightarrow>
      map_wf m' \<and> same_kind m m' \<and> entries m' = entries m @ [(k, v)]"
    and "distinct (map fst (entries m))"
proof -
  show "map_wf m' \<and> same_kind m m' \<and> entries m' = entries m @ [(k, v)]"
    if "k \<notin> fst ` set (entries m)" "insert_new ok z m k v = Some m'"
    using MAP_INSERT_VALUE_wf [OF assms that(1), of ok z v] that(2)
    by (auto simp: insert_new_def split: prod.splits option.splits)
  show "distinct (map fst (entries m))"
    using assms(1) unfolding entries_keys by (simp add: map_wf_def elements_wf_def)
qed

interpretation strmap: dictionary str_map "\<lambda>_. True" entries "insert_new ok z" map_lookup map_remove
  for ok and z :: 'v
proof
  fix m m' :: "'v hash_map" and k :: string and v :: 'v
  assume "str_map m"
  then have m: "map_wf m" "valid_key m k" for k by (simp_all add: str_map_def valid_key_def)
  show "distinct (map fst (entries m))" by (rule map_dictionary_laws(2) [OF m])
  show "str_map m' \<and> entries m' = entries m @ [(k, v)]"
    if "k \<notin> fst ` set (entries m)" "insert_new ok z m k v = Some m'"
    using map_dictionary_laws(1) [OF m that] \<open>str_map m\<close> by (simp add: str_map_def same_kind_def)
  show "map_lookup m k = map_of (entries m) k" by (rule map_lookup_eq [OF m])
  show "str_map (map_remove m k) \<and> entries (map_remove m k) = filter (\<lambda>p. fst p \<noteq> k) (entries m)"
    using map_remove_wf [OF m] \<open>str_map m\<close> by (simp add: str_map_def same_kind_def)
qed

interpretation sizedmap: dictionary "sized_map n" "\<lambda>k. length k = n" entries "insert_new ok z"
  map_lookup map_remove for n ok and z :: 'v
proof
  fix m m' :: "'v hash_map" and k :: string and v :: 'v
  assume sm: "sized_map n m"
  then have m: "map_wf m" by (simp add: sized_map_def)
  show "distinct (map fst (entries m))"
    using m unfolding entries_keys by (simp add: map_wf_def elements_wf_def)
  assume "length k = n"
  with sm have vk: "valid_key m k" by (simp add: sized_map_def valid_key_def)
  show "sized_map n m' \<and> entries m' = entries m @ [(k, v)]"
    if "k \<notin> fst ` set (entries m)" "insert_new ok z m k v = Some m'"
    using map_dictionary_laws(1) [OF m vk that] sm by (simp add: sized_map_def same_kind_def)
  show "map_lookup m k = map_of (entries m) k" by (rule map_lookup_eq [OF m vk])
  show "sized_map n (map_remove m k) \<and>
      entries (map_remove m k) = filter (\<lambda>p. fst p \<noteq> k) (entries m)"
    using map_remove_wf [OF m vk] sm by (simp add: sized_map_def same_kind_def)
qed

section \<open>Insertions fail only for want of memory\<close>

definition table_log :: "'v hash_map \<Rightarrow> nat" where
  "table_log m = (case hm_table m of None \<Rightarrow> 5 | Some t \<Rightarrow> unat (log2_num_buckets t))"

abbreviation all_ok :: "nat \<Rightarrow> bool" where "all_ok \<equiv> (\<lambda>_. True)"

lemma unat_of_nat_log: "k < 32 \<Longrightarrow> unat (of_nat k :: u32) = k"
  by (simp add: unat_of_nat take_bit_nat_eq_self)

lemma HASH_EXPAND_BUCKETS_ok:
  assumes "num_buckets t = 2 ^ k" "log2_num_buckets t = of_nat k" "k < 31"
  shows "\<exists>t'. HASH_EXPAND_BUCKETS all_ok t = (False, t') \<and> log2_num_buckets t' = of_nat (Suc k)"
proof -
  have "uint (2 ^ k :: u32) = 2 ^ k" using assms(3) by (simp add: uint_pow2)
  moreover have "(2 :: int) ^ k * 2 < 2 ^ 32"
    using power_strict_increasing [of "Suc k" 32 "2 :: int"] assms(3) by (simp add: mult.commute)
  ultimately have "\<exists>nb. KS_u32_mul_overflow (num_buckets t) 2 = (False, nb)"
    using assms(1) by (simp add: KS_u32_mul_overflow_def fits_unsigned_def)
  then show ?thesis
    using assms(2) by (auto simp: HASH_EXPAND_BUCKETS_def Let_def case_prod_unfold add.commute)
qed

lemma HASH_ADD_TO_TABLE_ok:
  assumes "table_wf t es" "unat (log2_num_buckets t) < 31"
  shows "\<exists>t'. HASH_ADD_TO_TABLE all_ok t add = (False, t') \<and>
    unat (log2_num_buckets t') \<le> Suc (unat (log2_num_buckets t))"
proof -
  obtain k where k: "k < 32" "num_buckets t = 2 ^ k" "log2_num_buckets t = of_nat k"
    using assms(1) by (auto simp: table_wf_def)
  then have "k < 31" using assms(2) by (simp add: unat_of_nat_log)
  have "\<exists>t'. HASH_EXPAND_BUCKETS all_ok (t\<lparr>num_items := i, tbl_buckets := bs\<rparr>) = (False, t') \<and>
      log2_num_buckets t' = of_nat (Suc k)" for i bs
    by (rule HASH_EXPAND_BUCKETS_ok) (use k \<open>k < 31\<close> in simp_all)
  moreover have "unat (log2_num_buckets t) = k" "unat (of_nat (Suc k) :: u32) = Suc k"
    using k unat_of_nat_log [of "Suc k"] unat_of_nat_log [of k] \<open>k < 31\<close> by simp_all
  ultimately have "\<exists>t'. HASH_EXPAND_BUCKETS all_ok (t\<lparr>num_items := i, tbl_buckets := bs\<rparr>) = (False, t') \<and>
      unat (log2_num_buckets t') \<le> Suc (unat (log2_num_buckets t))" for i bs
    by (metis order_refl)
  then show ?thesis by (auto simp: HASH_ADD_TO_TABLE_def Let_def)
qed

lemma HASH_ADD_ok:
  assumes "map_wf m" "table_log m < 31"
  shows "\<exists>m'. HASH_ADD all_ok m add = (False, m') \<and> table_log m' \<le> Suc (table_log m)"
proof (cases "hm_table m")
  case None
  obtain t where t: "HASH_MAKE_TABLE all_ok = Some t" "unat (log2_num_buckets t) = 5"
    by (simp add: HASH_MAKE_TABLE_def)
  obtain t' where "HASH_ADD_TO_TABLE all_ok t add = (False, t')" "unat (log2_num_buckets t') \<le> 6"
    using HASH_ADD_TO_TABLE_ok [OF HASH_MAKE_TABLE_wf [OF t(1)], of add] t(2) by auto
  with t show ?thesis by (simp add: HASH_ADD_def table_log_def None)
next
  case (Some t)
  with assms have "table_wf t (hm_elems m)" "unat (log2_num_buckets t) < 31"
    by (simp_all add: map_wf_def table_log_def)
  then obtain t' where "HASH_ADD_TO_TABLE all_ok t add = (False, t')"
    "unat (log2_num_buckets t') \<le> Suc (unat (log2_num_buckets t))"
    using HASH_ADD_TO_TABLE_ok [of t _ add] by blast
  then show ?thesis by (simp add: HASH_ADD_def table_log_def Some)
qed

lemma insert_new_ok:
  assumes "str_map m" "table_log m < 31"
    and "length k \<le> 2 ^ 32" "hm_element_size m \<le> 2 ^ 32"
  shows "\<exists>m'. insert_new all_ok z m k v = Some m' \<and> table_log m' \<le> Suc (table_log m) \<and>
    hm_element_size m' = hm_element_size m"
proof -
  have wf: "map_wf m" "hm_key_str m" using assms(1) by (simp_all add: str_map_def)
  have "\<exists>n. map_alloc_element all_ok m (length k) = Some n"
    using assms(3,4) wf(2)
    by (simp add: map_alloc_element_def pointer_align_def size_add_overflow_def)
  then obtain n where n: "map_alloc_element all_ok m (length k) = Some n" by blast
  let ?m = "m\<lparr>hm_vals := (hm_vals m)(hm_next m \<mapsto> z), hm_next := hm_next m + 1\<rparr>"
  have "map_wf ?m"
    using wf(1) by (auto simp: map_wf_def elements_wf_def split: option.splits)
  from HASH_ADD_ok [OF this, of "\<lparr>el_id = hm_next m, el_key = k, el_hashv = HASH_JEN k\<rparr>"] assms(2)
  obtain m' where m': "HASH_ADD all_ok ?m
      \<lparr>el_id = hm_next m, el_key = k, el_hashv = HASH_JEN k\<rparr> = (False, m')"
    "table_log m' \<le> Suc (table_log m)"
    by (auto simp: table_log_def)
  have "hm_element_size m' = hm_element_size m"
    using m'(1) by (auto simp: HASH_ADD_def split: option.splits prod.splits)
  with m' n wf show ?thesis
    by (auto simp: insert_new_def MAP_INSERT_VALUE_def map_insert_def map_insert_n_def key_get_size_def
        table_log_def Let_def)
qed

section \<open>Properties\<close>

text \<open>C3: on a well-formed table the operations are those of a finite map: a lookup returns the
  value of the key, an insertion of a new key that succeeds makes the key map to the value and
  leaves the other keys alone, a removal makes it absent, and all keep the table well-formed,
  whatever the hash function and however often the buckets were expanded.\<close>

theorem hash_map_refines_map:
  assumes "map_wf m" and "valid_key m k"
  shows "map_lookup m k = map_of (entries m) k \<and>
    map_wf (map_remove m k) \<and>
    (\<forall>k'. map_of (entries (map_remove m k)) k' = ((map_of (entries m))(k := None)) k') \<and>
    (\<forall>ok z v. map_lookup m k = None \<longrightarrow>
      (case MAP_INSERT_VALUE ok z m k v of
         (None, m') \<Rightarrow> map_wf m'
       | (Some a, m') \<Rightarrow> map_wf m' \<and> entries m' = entries m @ [(k, v)] \<and> map_lookup m' k = Some v))"
proof -
  have "case MAP_INSERT_VALUE ok z m k v of
         (None, m') \<Rightarrow> map_wf m'
       | (Some a, m') \<Rightarrow> map_wf m' \<and> entries m' = entries m @ [(k, v)] \<and> map_lookup m' k = Some v"
    if "map_lookup m k = None" for ok z v
  proof -
    obtain r m' where r: "MAP_INSERT_VALUE ok z m k v = (r, m')" by (cases "MAP_INSERT_VALUE ok z m k v")
    have new: "k \<notin> fst ` set (entries m)"
      using that map_lookup_eq [OF assms] by (simp add: map_of_eq_None_iff)
    note i = MAP_INSERT_VALUE_wf [OF assms new r]
    have "map_of (entries m @ [(k, v)]) k = Some v"
      using new by (auto simp: map_add_def map_of_eq_None_iff [symmetric])
    moreover have "valid_key m' k"
      using i assms(2) by (auto simp: same_kind_def valid_key_def)
    ultimately show ?thesis using i r map_lookup_eq [of m' k] by (cases r) auto
  qed
  then show ?thesis
    using map_lookup_eq [OF assms] map_remove_wf [OF assms]
    by (simp add: strmap.map_of_filter_neq)
qed

theorem hash_map_refines_map_witness:
  "\<exists>m :: nat hash_map. map_init (\<lambda>_. True) 0 8 True = Some m \<and> map_lookup m ''pkg'' = None \<and>
     (case MAP_INSERT_VALUE (\<lambda>_. True) 0 m ''pkg'' 7 of
        (None, m') \<Rightarrow> map_wf m'
      | (Some a, m') \<Rightarrow> map_wf m' \<and> entries m' = [(''pkg'', 7)] \<and> map_lookup m' ''pkg'' = Some 7)"
proof -
  obtain m :: "nat hash_map" where m: "map_init (\<lambda>_. True) 0 8 True = Some m"
    by (simp add: map_init_def pointer_align_def size_add_overflow_def)
  from map_init_wf [OF this] have "map_wf m" "entries m = []" by simp_all
  have "valid_key m ''pkg''"
    using m by (auto simp: map_init_def pointer_align_def size_add_overflow_def valid_key_def)
  note m_pkg = hash_map_refines_map [OF \<open>map_wf m\<close> this]
  then have none: "map_lookup m ''pkg'' = None" using \<open>entries m = []\<close> by simp
  from m_pkg none have "case MAP_INSERT_VALUE (\<lambda>_. True) 0 m ''pkg'' 7 of
        (None, m') \<Rightarrow> map_wf m'
      | (Some a, m') \<Rightarrow> map_wf m' \<and> entries m' = entries m @ [(''pkg'', 7)] \<and>
          map_lookup m' ''pkg'' = Some 7" by (elim conjE allE impE) assumption+
  with m none \<open>entries m = []\<close> show ?thesis by (auto split: prod.splits option.splits)
qed

text \<open>A loop over a well-formed table visits every entry once, in the order of insertion, and
  freeing the table reaches every element.\<close>

lemma hash_map_iterates_in_order:
  assumes "map_wf m"
  shows "map_elements m = map (\<lambda>(k, v). (k, Some v)) (entries m) \<and>
    distinct (map fst (map_elements m)) \<and> hm_elems (map_free m) = []"
proof -
  have "map fst (map_elements m) = map fst (entries m)"
    by (simp add: map_elements_eq [OF assms] case_prod_unfold comp_def)
  moreover have "distinct (map fst (entries m))"
    using assms unfolding entries_keys by (simp add: map_wf_def elements_wf_def)
  ultimately show ?thesis
    using map_elements_eq [OF assms] map_free_loop_empty [OF assms refl]
    by (simp add: map_free_def del: map_map)
qed

theorem hash_map_iterates_in_order_witness:
  "\<exists>m :: nat hash_map. map_init (\<lambda>_. True) 4 8 False = Some m \<and> map_elements m = []"
proof -
  obtain m :: "nat hash_map" where m: "map_init (\<lambda>_. True) 4 8 False = Some m"
    by (simp add: map_init_def pointer_align_def size_add_overflow_def)
  from map_init_wf [OF this] have "map_wf m" "entries m = []" by simp_all
  then show ?thesis using hash_map_iterates_in_order [of m] m by auto
qed

end
