(* ===== verification/Arena.thy ===== *)
theory Arena
  imports HashMap
begin

text \<open>
  \<open>libks/arena.c\<close>: allocation from frames that a stack of scopes gives back. Addresses and sizes are
  natural numbers below $2^{64}$, \<open>None\<close> is the end of the program by \<open>err(3)\<close> or a trap.
\<close>

section \<open>State\<close>

text \<open>A frame is identified by its address; its header is in its first bytes.\<close>

record arena_frame =
  af_ptr :: nat
  af_size :: nat
  af_len :: nat

record counter =
  ct_now :: nat
  ct_max :: nat
  ct_total :: nat

text \<open>The frames, the newest first, and the contents of memory.\<close>

record arena =
  ar_frame :: "arena_frame list"
  ar_frame_size :: nat
  ar_poison :: nat
  ar_refs :: int
  ar_locations :: "(string \<times> int) option list"
  ar_bytes :: counter
  ar_frames :: counter
  ar_scopes :: counter
  ar_mem :: "nat \<Rightarrow> char"

text \<open>A cleanup is a function and its argument; the last one that was added runs first.\<close>

type_synonym cleanup = "string \<times> nat"

record arena_scope =
  as_frame :: "nat option"
  as_cleanup :: "cleanup list"
  as_frame_len :: nat
  as_bytes :: nat
  as_frames :: nat
  as_scopes :: nat
  as_id :: int

text \<open>What \<open>malloc(3)\<close> returns depends on the blocks that are in use.\<close>

type_synonym malloc = "arena_frame list \<Rightarrow> nat \<Rightarrow> nat option"

abbreviation MAX_SOURCE_LOCATIONS :: nat where "MAX_SOURCE_LOCATIONS \<equiv> 8"
abbreviation maxalign :: nat where "maxalign \<equiv> 8"
abbreviation sizeof_frame :: nat where "sizeof_frame \<equiv> 32"
abbreviation sizeof_cleanup :: nat where "sizeof_cleanup \<equiv> 24"
abbreviation word64 :: nat where "word64 \<equiv> 18446744073709551616"

definition size_mul_overflow :: "nat \<Rightarrow> nat \<Rightarrow> nat option" where
  "size_mul_overflow a b = (if a * b \<le> ULONG_MAX then Some (a * b) else None)"

section \<open>Statistics\<close>

definition count_up :: "nat \<Rightarrow> counter \<Rightarrow> counter" where
  "count_up n c =
     (let now = (ct_now c + n) mod word64
      in \<lparr>ct_now = now, ct_max = (if now > ct_max c then now else ct_max c),
          ct_total = (ct_total c + n) mod word64\<rparr>)"

definition arena_stats_bytes :: "nat \<Rightarrow> arena \<Rightarrow> arena" where
  "arena_stats_bytes bytes a = a\<lparr>ar_bytes := count_up bytes (ar_bytes a)\<rparr>"

definition arena_stats_frames :: "nat \<Rightarrow> arena \<Rightarrow> arena" where
  "arena_stats_frames frames a = a\<lparr>ar_frames := count_up frames (ar_frames a)\<rparr>"

definition arena_stats_scopes :: "arena \<Rightarrow> arena" where
  "arena_stats_scopes a = a\<lparr>ar_scopes := count_up 1 (ar_scopes a)\<rparr>"

section \<open>Allocation\<close>

definition align_address :: "arena \<Rightarrow> nat \<Rightarrow> nat" where
  "align_address a addr =
     (let al = (addr + maxalign - 1) mod word64 div maxalign * maxalign
      in if ar_poison a > 0 \<and> (al + word64 - addr) mod word64 < ar_poison a
         then (al + ar_poison a) mod word64 else al)"

definition arena_push :: "arena \<Rightarrow> arena_frame \<Rightarrow> nat \<Rightarrow> (nat \<times> arena \<times> arena_frame) option" where
  "arena_push a frame sz =
     (case size_add_overflow (af_len frame) sz of
        None \<Rightarrow> None
      | Some oldlen \<Rightarrow>
          if oldlen > af_size frame then None
          else
            (let newlen = align_address a oldlen
             in Some (af_ptr frame + af_len frame,
                  arena_stats_bytes ((sz + (newlen + word64 - oldlen) mod word64) mod word64) a,
                  frame\<lparr>af_len := if newlen > af_size frame then af_size frame else newlen\<rparr>)))"

text \<open>Pushes on the newest frame.\<close>

definition push_top :: "arena \<Rightarrow> nat \<Rightarrow> (nat \<times> arena) option" where
  "push_top a sz =
     (case ar_frame a of
        [] \<Rightarrow> None
      | frame # frames \<Rightarrow>
          map_option (\<lambda>(ptr, a1, frame1). (ptr, a1\<lparr>ar_frame := frame1 # frames\<rparr>)) (arena_push a frame sz))"

definition arena_frame_alloc :: "malloc \<Rightarrow> arena \<Rightarrow> nat \<Rightarrow> arena option" where
  "arena_frame_alloc mem a frame_size =
     Option.bind (mem (ar_frame a) frame_size) (\<lambda>ptr.
       map_option (\<lambda>(_, a1, frame). arena_stats_frames 1 (a1\<lparr>ar_frame := frame # ar_frame a1\<rparr>))
         (arena_push a \<lparr>af_ptr = ptr, af_size = frame_size, af_len = 0\<rparr> sizeof_frame))"

definition arena_alloc :: "malloc \<Rightarrow> nat \<Rightarrow> nat \<Rightarrow> arena option" where
  "arena_alloc mem page_size poison =
     (let zero = \<lparr>ct_now = 0, ct_max = 0, ct_total = 0\<rparr>; frame_size = 16 * page_size
      in arena_frame_alloc mem
           \<lparr>ar_frame = [], ar_frame_size = frame_size, ar_poison = poison, ar_refs = 1,
            ar_locations = replicate MAX_SOURCE_LOCATIONS None,
            ar_bytes = zero, ar_frames = zero, ar_scopes = zero, ar_mem = (\<lambda>_. NUL)\<rparr> frame_size)"

text \<open>Allocating from a scope with a nested scope is a trap.\<close>

definition arena_scope_validate :: "arena \<Rightarrow> arena_scope \<Rightarrow> bool" where
  "arena_scope_validate a s \<longleftrightarrow> as_id s = ar_refs a"

definition arena_malloc :: "malloc \<Rightarrow> arena \<Rightarrow> arena_scope \<Rightarrow> nat \<Rightarrow> (nat \<times> arena) option" where
  "arena_malloc mem a s sz =
     (if \<not> arena_scope_validate a s then None
      else
        (case push_top a sz of
           Some r \<Rightarrow> Some r
         | None \<Rightarrow>
             Option.bind (size_add_overflow sz sizeof_frame) (\<lambda>total.
             Option.bind (size_add_overflow (ar_poison a) total) (\<lambda>total_size.
             Option.bind (double_until (ar_frame_size a) total_size) (\<lambda>frame_size.
             Option.bind (arena_frame_alloc mem a frame_size) (\<lambda>a1. push_top a1 sz))))))"

definition store :: "(nat \<Rightarrow> char) \<Rightarrow> nat \<Rightarrow> string \<Rightarrow> nat \<Rightarrow> char" where
  "store m ptr str = (\<lambda>x. if ptr \<le> x \<and> x < ptr + length str then str ! (x - ptr) else m x)"

definition load :: "(nat \<Rightarrow> char) \<Rightarrow> nat \<Rightarrow> nat \<Rightarrow> string" where
  "load m ptr n = map (\<lambda>i. m (ptr + i)) [0..<n]"

definition arena_write :: "nat \<Rightarrow> string \<Rightarrow> arena \<Rightarrow> arena" where
  "arena_write ptr str a = a\<lparr>ar_mem := store (ar_mem a) ptr str\<rparr>"

definition arena_calloc :: "malloc \<Rightarrow> arena \<Rightarrow> arena_scope \<Rightarrow> nat \<Rightarrow> nat \<Rightarrow> (nat \<times> arena) option" where
  "arena_calloc mem a s nmemb sz =
     Option.bind (size_mul_overflow nmemb sz) (\<lambda>total_size.
       map_option (\<lambda>(ptr, a1). (ptr, arena_write ptr (replicate total_size NUL) a1))
         (arena_malloc mem a s total_size))"

text \<open>\<open>None\<close> when the object cannot stay where it is.\<close>

definition arena_realloc_fast :: "arena \<Rightarrow> nat \<Rightarrow> nat \<Rightarrow> nat \<Rightarrow> arena option" where
  "arena_realloc_fast a ptr old_size new_size =
     (if new_size \<le> old_size then Some a
      else
        (case ar_frame a of
           [] \<Rightarrow> None
         | frame # frames \<Rightarrow>
             if align_address a ((ptr + old_size) mod word64) \<noteq> af_ptr frame + af_len frame then None
             else
               map_option (\<lambda>(_, a1, frame1). a1\<lparr>ar_frame := frame1 # frames\<rparr>)
                 (arena_push a (frame\<lparr>af_len := (ptr + word64 - af_ptr frame) mod word64\<rparr>) new_size)))"

text \<open>The address 0 is NULL.\<close>

definition arena_realloc ::
  "malloc \<Rightarrow> arena \<Rightarrow> arena_scope \<Rightarrow> nat \<Rightarrow> nat \<Rightarrow> nat \<Rightarrow> (nat \<times> arena) option" where
  "arena_realloc mem a s ptr old_size new_size =
     (if ptr mod maxalign \<noteq> 0 then None
      else
        (case (if ptr = 0 then None else arena_realloc_fast a ptr old_size new_size) of
           Some a1 \<Rightarrow> Some (ptr, a1)
         | None \<Rightarrow>
             map_option (\<lambda>(new_ptr, a1).
                 (new_ptr, if ptr = 0 then a1 else arena_write new_ptr (load (ar_mem a1) ptr old_size) a1))
               (arena_malloc mem a s new_size)))"

definition arena_strndup :: "malloc \<Rightarrow> arena \<Rightarrow> arena_scope \<Rightarrow> string \<Rightarrow> nat \<Rightarrow> (nat \<times> arena) option" where
  "arena_strndup mem a s src len =
     Option.bind (size_add_overflow len 1) (\<lambda>total_size.
       map_option (\<lambda>(dst, a1). (dst, arena_write dst (take (total_size - 1) src @ [NUL]) a1))
         (arena_malloc mem a s total_size))"

definition arena_strdup :: "malloc \<Rightarrow> arena \<Rightarrow> arena_scope \<Rightarrow> string \<Rightarrow> (nat \<times> arena) option" where
  "arena_strdup mem a s src = arena_strndup mem a s src (length (cstr src))"

text \<open>The argument is what the format yields, or \<open>None\<close> when \<open>vsnprintf(3)\<close> fails.\<close>

definition arena_sprintf :: "malloc \<Rightarrow> arena \<Rightarrow> arena_scope \<Rightarrow> string option \<Rightarrow> (nat \<times> arena) option" where
  "arena_sprintf mem a s formatted =
     Option.bind formatted (\<lambda>str.
       map_option (\<lambda>(ptr, a1). (ptr, arena_write ptr (str @ [NUL]) a1)) (arena_malloc mem a s (length str + 1)))"

definition arena_cleanup ::
  "malloc \<Rightarrow> arena \<Rightarrow> arena_scope \<Rightarrow> cleanup \<Rightarrow> (arena_scope \<times> arena) option" where
  "arena_cleanup mem a s c =
     map_option (\<lambda>(_, a1). (s\<lparr>as_cleanup := c # as_cleanup s\<rparr>, a1)) (arena_malloc mem a s sizeof_cleanup)"

definition arena_capacity :: "arena \<Rightarrow> nat" where
  "arena_capacity a = (case ar_frame a of [] \<Rightarrow> 0 | frame # _ \<Rightarrow> af_size frame - af_len frame)"

section \<open>Scopes\<close>

definition set_location :: "(string \<times> int) option \<Rightarrow> arena \<Rightarrow> arena" where
  "set_location l a =
     (if ar_refs a < int MAX_SOURCE_LOCATIONS
      then a\<lparr>ar_locations := (ar_locations a)[nat (ar_refs a) := l]\<rparr> else a)"

definition arena_scope_enter :: "arena \<Rightarrow> string \<Rightarrow> int \<Rightarrow> arena_scope \<times> arena" where
  "arena_scope_enter a fn lno =
     (let a1 = set_location (Some (fn, lno)) a; a2 = a1\<lparr>ar_refs := ar_refs a1 + 1\<rparr>
      in (\<lparr>as_frame = (case ar_frame a2 of [] \<Rightarrow> None | frame # _ \<Rightarrow> Some (af_ptr frame)), as_cleanup = [],
           as_frame_len = (case ar_frame a2 of [] \<Rightarrow> 0 | frame # _ \<Rightarrow> af_len frame),
           as_bytes = ct_now (ar_bytes a2), as_frames = ct_now (ar_frames a2),
           as_scopes = ct_now (ar_scopes a2), as_id = ar_refs a2\<rparr>,
          arena_stats_scopes a2))"

text \<open>The arena is gone after its last reference.\<close>

definition arena_rele :: "arena \<Rightarrow> arena option" where
  "arena_rele a = (if ar_refs a - 1 > 0 then Some (a\<lparr>ar_refs := ar_refs a - 1\<rparr>) else None)"

definition rewind :: "nat \<Rightarrow> arena_frame list \<Rightarrow> arena_frame list" where
  "rewind frame_len frames =
     (case frames of
        [] \<Rightarrow> []
      | frame # rest \<Rightarrow> frame\<lparr>af_len := if frame_len \<le> af_len frame then frame_len else 0\<rparr> # rest)"

text \<open>The cleanups that run, and what is left of the arena.\<close>

definition arena_scope_leave :: "arena \<Rightarrow> arena_scope \<Rightarrow> cleanup list \<times> arena option" where
  "arena_scope_leave a s =
     (let a1 = set_location None a;
          last_frame = (if ar_refs a1 = 1 then None else as_frame s);
          frames = dropWhile (\<lambda>frame. Some (af_ptr frame) \<noteq> last_frame) (ar_frame a1)
      in (as_cleanup s, arena_rele (a1\<lparr>ar_frame := rewind (as_frame_len s) frames,
            ar_bytes := (ar_bytes a1)\<lparr>ct_now := as_bytes s\<rparr>,
            ar_frames := (ar_frames a1)\<lparr>ct_now := as_frames s\<rparr>,
            ar_scopes := (ar_scopes a1)\<lparr>ct_now := as_scopes s\<rparr>\<rparr>)))"

definition arena_free :: "arena option \<Rightarrow> arena option" where
  "arena_free a =
     (case a of
        None \<Rightarrow> None
      | Some a \<Rightarrow>
          if ar_refs a > 1 then arena_rele a
          else snd (arena_scope_leave a \<lparr>as_frame = None, as_cleanup = [], as_frame_len = 0, as_bytes = 0,
            as_frames = 0, as_scopes = 0, as_id = 0\<rparr>))"

section \<open>Invariant\<close>

text \<open>
  What \<open>malloc(3)\<close> promises: an aligned block that overlaps no other, in the half of the address space
  that belongs to the process.
\<close>

definition malloc_ok :: "malloc \<Rightarrow> bool" where
  "malloc_ok mem \<longleftrightarrow>
     (\<forall>fs n p. mem fs n = Some p \<longrightarrow>
        p mod maxalign = 0 \<and> 0 < p \<and> p + n + 16 \<le> 2 ^ 63 \<and>
        (\<forall>f \<in> set fs. p + n \<le> af_ptr f \<or> af_ptr f + af_size f \<le> p))"

definition frame_wf :: "arena_frame \<Rightarrow> bool" where
  "frame_wf f \<longleftrightarrow>
     af_ptr f mod maxalign = 0 \<and> 0 < af_ptr f \<and> af_ptr f + af_size f + 16 \<le> 2 ^ 63 \<and>
     sizeof_frame \<le> af_len f \<and> af_len f \<le> af_size f \<and> (af_len f mod maxalign = 0 \<or> af_len f = af_size f)"

definition frames_apart :: "arena_frame \<Rightarrow> arena_frame \<Rightarrow> bool" where
  "frames_apart f g \<longleftrightarrow> af_ptr f + af_size f \<le> af_ptr g \<or> af_ptr g + af_size g \<le> af_ptr f"

definition frames_wf :: "arena_frame list \<Rightarrow> bool" where
  "frames_wf fs \<longleftrightarrow> fs \<noteq> [] \<and> (\<forall>f \<in> set fs. frame_wf f) \<and> sorted_wrt frames_apart fs"

definition arena_wf :: "arena \<Rightarrow> bool" where
  "arena_wf a \<longleftrightarrow> frames_wf (ar_frame a) \<and> ar_poison a \<in> {0, 8} \<and> 0 < ar_frame_size a"

text \<open>A region of memory that was handed out and not given back; regions that do not overlap.\<close>

definition in_use :: "arena \<Rightarrow> nat \<Rightarrow> nat \<Rightarrow> bool" where
  "in_use a p n \<longleftrightarrow> (\<exists>f \<in> set (ar_frame a). af_ptr f + sizeof_frame \<le> p \<and> p + n \<le> af_ptr f + af_len f)"

definition apart :: "nat \<Rightarrow> nat \<Rightarrow> nat \<Rightarrow> nat \<Rightarrow> bool" where
  "apart p n q k \<longleftrightarrow> p + n \<le> q \<or> q + k \<le> p"

lemma round_up:
  "(n::nat) \<le> (n + 7) div 8 * 8" "(n + 7) div 8 * 8 \<le> n + 7" "(n + 7) div 8 * 8 mod 8 = 0"
  by presburger+

lemma align_address_small:
  assumes "ar_poison a \<in> {0, 8}" "n < 2 ^ 63"
  shows "align_address a n =
     (if ar_poison a > 0 \<and> (n + 7) div 8 * 8 - n < ar_poison a then (n + 7) div 8 * 8 + ar_poison a
      else (n + 7) div 8 * 8)"
proof -
  define up where "up = (n + 7) div 8 * 8"
  have al: "n \<le> up" "up \<le> n + 7" unfolding up_def by (rule round_up)+
  have n: "n < 9223372036854775808" using assms(2) by simp
  have "(n + maxalign - 1) mod word64 = n + 7" using n by (subst mod_less) simp_all
  then have e: "(n + maxalign - 1) mod word64 div maxalign * maxalign = up" by (simp only: up_def)
  have "up + word64 - n = (up - n) + word64" using al(1) by linarith
  moreover have "up - n < word64" using al(2) by linarith
  ultimately have d: "(up + word64 - n) mod word64 = up - n" by (metis mod_add_self2 mod_less)
  have "ar_poison a \<le> 8" using assms(1) by auto
  then have "up + ar_poison a < word64" using al(2) n by linarith
  then have p: "(up + ar_poison a) mod word64 = up + ar_poison a" by (rule mod_less)
  show ?thesis unfolding align_address_def Let_def e d p up_def [symmetric] ..
qed

lemma align_address_bounds:
  assumes "ar_poison a \<in> {0, 8}" "n < 2 ^ 63"
  shows "n \<le> align_address a n" "align_address a n mod 8 = 0" "align_address a n \<le> n + 15"
proof -
  obtain up where up: "up = (n + 7) div 8 * 8" by blast
  note al = round_up [of n, folded up]
  have "align_address a n = up \<or> align_address a n = up + 8"
    using assms(1) unfolding align_address_small [OF assms] up [symmetric] by auto
  then show "n \<le> align_address a n" "align_address a n mod 8 = 0" "align_address a n \<le> n + 15"
    using al by (elim disjE; simp)+
qed

section \<open>Pushing\<close>

lemma push_Some:
  assumes "arena_push a f n = Some (p, a', f')" "ar_poison a \<in> {0, 8}" "af_size f < 2 ^ 63"
  shows "p = af_ptr f + af_len f" "af_len f + n \<le> af_size f" "\<exists>k. a' = arena_stats_bytes k a"
    "af_ptr f' = af_ptr f" "af_size f' = af_size f" "af_len f + n \<le> af_len f'" "af_len f' \<le> af_size f"
    "af_len f' mod maxalign = 0 \<or> af_len f' = af_size f"
proof -
  have n: "af_len f + n \<le> af_size f" "p = af_ptr f + af_len f" "\<exists>k. a' = arena_stats_bytes k a"
    "f' = f\<lparr>af_len := if align_address a (af_len f + n) > af_size f then af_size f else align_address a (af_len f + n)\<rparr>"
    using assms(1) by (auto simp: arena_push_def size_add_overflow_def Let_def split: if_splits option.splits)
  moreover have "af_len f + n < 2 ^ 63" using n(1) assms(3) by simp
  note align_address_bounds [OF assms(2) this]
  ultimately show "p = af_ptr f + af_len f" "af_len f + n \<le> af_size f" "\<exists>k. a' = arena_stats_bytes k a"
    "af_ptr f' = af_ptr f" "af_size f' = af_size f" "af_len f + n \<le> af_len f'" "af_len f' \<le> af_size f"
    "af_len f' mod maxalign = 0 \<or> af_len f' = af_size f" by auto
qed

lemma push_len:
  assumes "arena_push a f n = Some (p, a', f')"
  shows "af_len f' = (if align_address a (af_len f + n) > af_size f then af_size f else align_address a (af_len f + n))"
  using assms by (auto simp: arena_push_def size_add_overflow_def Let_def split: if_splits)

lemma push_fits:
  assumes "af_len f + n \<le> af_size f" "af_size f < 2 ^ 63"
  shows "\<exists>a' f'. arena_push a f n = Some (af_ptr f + af_len f, a', f')"
  using assms by (auto simp: arena_push_def size_add_overflow_def Let_def)

lemma stats_bytes_simps [simp]:
  "ar_frame (arena_stats_bytes k a) = ar_frame a" "ar_frame_size (arena_stats_bytes k a) = ar_frame_size a"
  "ar_poison (arena_stats_bytes k a) = ar_poison a" "ar_refs (arena_stats_bytes k a) = ar_refs a"
  "ar_mem (arena_stats_bytes k a) = ar_mem a" "ar_frames (arena_stats_bytes k a) = ar_frames a"
  "ar_scopes (arena_stats_bytes k a) = ar_scopes a" "ar_locations (arena_stats_bytes k a) = ar_locations a"
  by (simp_all add: arena_stats_bytes_def)

lemma stats_frames_simps [simp]:
  "ar_frame (arena_stats_frames k a) = ar_frame a" "ar_frame_size (arena_stats_frames k a) = ar_frame_size a"
  "ar_poison (arena_stats_frames k a) = ar_poison a" "ar_refs (arena_stats_frames k a) = ar_refs a"
  "ar_mem (arena_stats_frames k a) = ar_mem a" "ar_scopes (arena_stats_frames k a) = ar_scopes a"
  "ar_locations (arena_stats_frames k a) = ar_locations a"
  by (simp_all add: arena_stats_frames_def)

text \<open>What an allocation leaves alone.\<close>

definition same_base :: "arena \<Rightarrow> arena \<Rightarrow> bool" where
  "same_base a a' \<longleftrightarrow>
     ar_frame_size a' = ar_frame_size a \<and> ar_poison a' = ar_poison a \<and> ar_refs a' = ar_refs a \<and>
     ar_locations a' = ar_locations a \<and> ar_scopes a' = ar_scopes a"

lemma push_top_Some:
  assumes "push_top a n = Some (p, a')" "arena_wf a"
  obtains f f' fs where "ar_frame a = f # fs" "ar_frame a' = f' # fs" "p = af_ptr f + af_len f"
    "af_ptr f' = af_ptr f" "af_size f' = af_size f" "af_len f + n \<le> af_len f'" "frame_wf f'"
    "same_base a a'" "ar_mem a' = ar_mem a"
proof -
  obtain f fs where f: "ar_frame a = f # fs" using assms(2) by (cases "ar_frame a") (auto simp: arena_wf_def frames_wf_def)
  with assms(1) obtain a1 f' where p: "arena_push a f n = Some (p, a1, f')" "a' = a1\<lparr>ar_frame := f' # fs\<rparr>"
    by (auto simp: push_top_def)
  have wf: "frame_wf f" "ar_poison a \<in> {0, 8}" using assms(2) f by (auto simp: arena_wf_def frames_wf_def)
  then have "af_size f < 2 ^ 63" by (auto simp: frame_wf_def)
  note facts = push_Some [OF p(1) wf(2) this]
  from facts(3) obtain k where "a1 = arena_stats_bytes k a" by blast
  then have "same_base a a'" "ar_mem a' = ar_mem a" "ar_frame a' = f' # fs" using p(2) by (auto simp: same_base_def)
  moreover have "frame_wf f'" using wf(1) facts by (auto simp: frame_wf_def)
  ultimately show thesis using that f facts by blast
qed

lemma frames_wf_top:
  "frames_wf (f # fs) \<Longrightarrow> frame_wf f' \<Longrightarrow> af_ptr f' = af_ptr f \<Longrightarrow> af_size f' = af_size f \<Longrightarrow> frames_wf (f' # fs)"
  by (auto simp: frames_wf_def frames_apart_def)

lemma push_top_safe:
  assumes "push_top a n = Some (p, a')" "arena_wf a"
  shows "arena_wf a'" "in_use a' p n" "0 < n \<Longrightarrow> p mod maxalign = 0"
    "in_use a q k \<Longrightarrow> in_use a' q k \<and> apart q k p n" "same_base a a'" "ar_mem a' = ar_mem a"
proof -
  obtain f f' fs where f: "ar_frame a = f # fs" "ar_frame a' = f' # fs" "p = af_ptr f + af_len f"
    "af_ptr f' = af_ptr f" "af_size f' = af_size f" "af_len f + n \<le> af_len f'" "frame_wf f'"
    "same_base a a'" "ar_mem a' = ar_mem a" using push_top_Some [OF assms] .
  then show "same_base a a'" "ar_mem a' = ar_mem a" by simp_all
  have wf: "frames_wf (f # fs)" "frame_wf f" using assms(2) f(1) by (auto simp: arena_wf_def frames_wf_def)
  show "arena_wf a'" using assms(2) f frames_wf_top [OF wf(1) f(7,4,5)] by (simp add: arena_wf_def same_base_def)
  show "in_use a' p n" using f wf(2) by (auto simp: in_use_def frame_wf_def)
  show "p mod maxalign = 0" if "0 < n"
    using that wf(2) f by (auto simp: frame_wf_def mod_add_eq [of "af_ptr f" 8 "af_len f", symmetric])
  show "in_use a' q k \<and> apart q k p n" if q: "in_use a q k"
  proof -
    obtain g where g: "g \<in> set (f # fs)" "af_ptr g + sizeof_frame \<le> q" "q + k \<le> af_ptr g + af_len g"
      using q f(1) by (auto simp: in_use_def)
    show ?thesis
    proof (cases "g = f")
      case True
      with g f show ?thesis by (auto simp: in_use_def apart_def)
    next
      case False
      then have "frames_apart f g" "frame_wf g" "g \<in> set fs" using g(1) wf(1) by (auto simp: frames_wf_def)
      with g f wf(2) show ?thesis by (auto simp: in_use_def apart_def frames_apart_def frame_wf_def)
    qed
  qed
qed


section \<open>New frames\<close>

lemma frame_alloc_Some:
  assumes "arena_frame_alloc mem a n = Some a'" "malloc_ok mem" "ar_poison a \<in> {0, 8}"
  obtains f where "ar_frame a' = f # ar_frame a" "frame_wf f" "af_size f = n" "af_len f \<le> sizeof_frame + 15"
    "\<forall>g \<in> set (ar_frame a). frames_apart f g" "same_base a a'" "ar_mem a' = ar_mem a"
proof -
  obtain p where p: "mem (ar_frame a) n = Some p" using assms(1) by (auto simp: arena_frame_alloc_def bind_eq_Some_conv)
  have ok: "p mod maxalign = 0" "0 < p" "p + n + 16 \<le> 2 ^ 63"
    "\<forall>f \<in> set (ar_frame a). p + n \<le> af_ptr f \<or> af_ptr f + af_size f \<le> p"
    using assms(2) p unfolding malloc_ok_def by blast+
  let ?f = "\<lparr>af_ptr = p, af_size = n, af_len = 0\<rparr>"
  obtain q a1 f where q: "arena_push a ?f sizeof_frame = Some (q, a1, f)"
    "a' = arena_stats_frames 1 (a1\<lparr>ar_frame := f # ar_frame a1\<rparr>)"
    using assms(1) p by (auto simp: arena_frame_alloc_def)
  have "af_size ?f < 2 ^ 63" using ok(2,3) by simp
  note facts = push_Some [OF q(1) assms(3) this]
  from facts(3) obtain k where k: "a1 = arena_stats_bytes k a" by blast
  have "af_len f \<le> align_address a sizeof_frame"
    using push_len [OF q(1)] by simp
  also have "\<dots> \<le> sizeof_frame + 15" by (rule align_address_bounds [OF assms(3)]) simp
  finally have "af_len f \<le> sizeof_frame + 15" .
  moreover have "frame_wf f" using facts ok(1-3) by (simp add: frame_wf_def)
  moreover have "ar_frame a' = f # ar_frame a" "same_base a a'" "ar_mem a' = ar_mem a"
    using q(2) k by (simp_all add: same_base_def)
  moreover have "\<forall>g \<in> set (ar_frame a). frames_apart f g" using ok(4) facts by (simp add: frames_apart_def)
  ultimately show thesis using that facts(5) by auto
qed

lemma arena_frame_alloc_safe:
  assumes "arena_frame_alloc mem a n = Some a'" "malloc_ok mem" "arena_wf a"
  shows "arena_wf a'" "in_use a q k \<Longrightarrow> in_use a' q k" "same_base a a'" "ar_mem a' = ar_mem a"
proof -
  have "ar_poison a \<in> {0, 8}" using assms(3) by (simp add: arena_wf_def)
  from frame_alloc_Some [OF assms(1,2) this] obtain f where f: "ar_frame a' = f # ar_frame a" "frame_wf f"
    "\<forall>g \<in> set (ar_frame a). frames_apart f g" "same_base a a'" "ar_mem a' = ar_mem a" by metis
  then show "same_base a a'" "ar_mem a' = ar_mem a" by simp_all
  show "arena_wf a'" using f assms(3) by (auto simp: arena_wf_def frames_wf_def same_base_def)
  show "in_use a q k \<Longrightarrow> in_use a' q k" using f by (auto simp: in_use_def)
qed

lemma same_base_trans: "same_base a b \<Longrightarrow> same_base b c \<Longrightarrow> same_base a c"
  by (simp add: same_base_def)

text \<open>An allocation is a push on the newest frame, or on a new one.\<close>

lemma arena_malloc_cases:
  assumes "arena_malloc mem a s n = Some (p, a')"
  obtains "as_id s = ar_refs a" "push_top a n = Some (p, a')"
  | a1 frame_size where "as_id s = ar_refs a" "arena_frame_alloc mem a frame_size = Some a1" "push_top a1 n = Some (p, a')"
  using assms by (auto simp: arena_malloc_def arena_scope_validate_def bind_eq_Some_conv split: if_splits option.splits)

lemma arena_malloc_lemmas:
  assumes "arena_malloc mem a s n = Some (p, a')" "malloc_ok mem" "arena_wf a"
  shows "arena_wf a'" "in_use a' p n" "0 < n \<Longrightarrow> p mod maxalign = 0"
    "in_use a q k \<Longrightarrow> in_use a' q k \<and> apart q k p n" "same_base a a'" "ar_mem a' = ar_mem a" "as_id s = ar_refs a"
proof -
  have "arena_wf a' \<and> in_use a' p n \<and> (0 < n \<longrightarrow> p mod maxalign = 0) \<and>
    (in_use a q k \<longrightarrow> in_use a' q k \<and> apart q k p n) \<and> same_base a a' \<and> ar_mem a' = ar_mem a \<and> as_id s = ar_refs a"
    using assms(1)
  proof (cases rule: arena_malloc_cases)
    case 1
    from push_top_safe [OF this(2) assms(3)] this(1) show ?thesis by blast
  next
    case (2 a1 frame_size)
    note new = arena_frame_alloc_safe [OF 2(2) assms(2,3)]
    note push = push_top_safe [OF 2(3) new(1)]
    from push(1-3) push(4) [of q k] new(2) [of q k] 2(1) same_base_trans [OF new(3) push(5)] push(6) new(4)
    show ?thesis by simp
  qed
  then show "arena_wf a'" "in_use a' p n" "0 < n \<Longrightarrow> p mod maxalign = 0"
    "in_use a q k \<Longrightarrow> in_use a' q k \<and> apart q k p n" "same_base a a'" "ar_mem a' = ar_mem a" "as_id s = ar_refs a"
    by blast+
qed


section \<open>Reallocation\<close>

lemma align_address_mono:
  assumes "ar_poison a \<in> {0, 8}" "m < 2 ^ 63" "n \<le> m"
  shows "align_address a n \<le> align_address a m"
proof -
  have "(n + 7) div 8 * 8 \<le> (m + 7) div 8 * 8" using assms(3) by (intro mult_le_mono1 div_le_mono) simp
  moreover have "(k + 7) div 8 * 8 - k < 8" for k :: nat using round_up(2) [of k] by linarith
  moreover have "n < 2 ^ 63" using assms(2,3) by simp
  note e = align_address_small [OF assms(1) this] align_address_small [OF assms(1,2)]
  ultimately show ?thesis using assms(1) unfolding e by auto
qed

lemma round_up_shift:
  assumes "(p::nat) mod 8 = 0"
  shows "(p + n + 7) div 8 * 8 = p + (n + 7) div 8 * 8"
proof -
  obtain c where "p = 8 * c" using assms by blast
  moreover have "(8 * c + (n + 7)) div 8 = c + (n + 7) div 8" by (rule div_mult_self4) simp
  ultimately show ?thesis by (simp add: add.assoc)
qed

lemma align_address_shift:
  assumes "ar_poison a \<in> {0, 8}" "p + n < 2 ^ 63" "p mod 8 = 0"
  shows "align_address a (p + n) = p + align_address a n"
proof -
  have "n < 2 ^ 63" using assms(2) by simp
  note e = align_address_small [OF assms(1) this] align_address_small [OF assms(1,2)]
  obtain up where up: "up = (n + 7) div 8 * 8" by blast
  have "n \<le> up" unfolding up by (rule round_up)
  have shift: "(p + n + 7) div 8 * 8 = p + up" unfolding up by (rule round_up_shift [OF assms(3)])
  show ?thesis unfolding e shift up [symmetric] by simp
qed

text \<open>The object that a fast reallocation grows is the last one of the newest frame.\<close>

lemma realloc_fast_cases:
  assumes "arena_realloc_fast a ptr old_size new_size = Some a'" "arena_wf a" "in_use a ptr old_size"
  obtains "new_size \<le> old_size" "a' = a"
  | f fs f' where "old_size < new_size" "ar_frame a = f # fs" "ar_frame a' = f' # fs" "af_ptr f + sizeof_frame \<le> ptr"
    "align_address a (ptr + old_size) = af_ptr f + af_len f" "ptr + new_size \<le> af_ptr f' + af_len f'"
    "af_ptr f' = af_ptr f" "af_size f' = af_size f" "af_len f \<le> af_len f'" "frame_wf f'"
    "same_base a a'" "ar_mem a' = ar_mem a"
proof (cases "new_size \<le> old_size")
  case True
  then show ?thesis using assms(1) that(1) by (simp add: arena_realloc_fast_def)
next
  case False
  obtain f fs where f: "ar_frame a = f # fs" using assms(2) by (cases "ar_frame a") (auto simp: arena_wf_def frames_wf_def)
  have poison: "ar_poison a \<in> {0, 8}" and wf: "frame_wf f" "\<forall>g \<in> set fs. frame_wf g \<and> frames_apart f g"
    using assms(2) f by (auto simp: arena_wf_def frames_wf_def)
  obtain g where g: "g \<in> set (f # fs)" "af_ptr g + sizeof_frame \<le> ptr" "ptr + old_size \<le> af_ptr g + af_len g"
    using assms(3) f by (auto simp: in_use_def)
  have gwf: "frame_wf g" using g(1) wf by auto
  then have small: "ptr + old_size + 16 \<le> 2 ^ 63" using g(3) by (auto simp: frame_wf_def)
  then have mod: "(ptr + old_size) mod word64 = ptr + old_size" by (intro mod_less) simp
  let ?f = "f\<lparr>af_len := (ptr + word64 - af_ptr f) mod word64\<rparr>"
  from assms(1) f False have last: "align_address a (ptr + old_size) = af_ptr f + af_len f"
    by (simp add: arena_realloc_fast_def mod split: if_splits)
  with assms(1) f False obtain q a1 f' where push: "arena_push a ?f new_size = Some (q, a1, f')"
    "a' = a1\<lparr>ar_frame := f' # fs\<rparr>" by (auto simp: arena_realloc_fast_def mod)
  have "ptr + old_size < 2 ^ 63" using small by simp
  note bounds = align_address_bounds [OF poison this]
  have "g = f"
  proof (rule ccontr)
    assume "g \<noteq> f"
    with g(1) wf(2) have "frames_apart f g" by auto
    with g gwf wf(1) bounds last show False by (auto simp: frames_apart_def frame_wf_def)
  qed
  with g(2,3) have ptr: "af_ptr f + sizeof_frame \<le> ptr" "ptr + old_size \<le> af_ptr f + af_len f" by simp_all
  obtain off where off: "ptr = af_ptr f + off" using ptr(1) by (metis add_leD1 le_Suc_ex)
  have "ptr + word64 - af_ptr f = off + word64" using off by simp
  moreover have "off < word64" using off small by simp
  ultimately have len: "af_len ?f = off" by simp
  have fsize: "af_size ?f < 2 ^ 63" using wf(1) by (simp add: frame_wf_def)
  have facts: "q = af_ptr f + off" "off + new_size \<le> af_size f" "\<exists>k. a1 = arena_stats_bytes k a"
    "af_ptr f' = af_ptr f" "af_size f' = af_size f" "off + new_size \<le> af_len f'" "af_len f' \<le> af_size f"
    "af_len f' mod maxalign = 0 \<or> af_len f' = af_size f"
    using push_Some [OF push(1) poison fsize] unfolding len by simp_all
  from facts(3) obtain k where k: "a1 = arena_stats_bytes k a" by blast
  have "af_len f \<le> af_len f'"
  proof -
    have "af_ptr f + af_len f = af_ptr f + align_address a (off + old_size)"
      using last off small wf(1) align_address_shift [OF poison, of "af_ptr f" "off + old_size"]
      by (simp add: frame_wf_def add.assoc)
    moreover have "off + new_size < 2 ^ 63" using facts(2) fsize by simp
    then have "align_address a (off + old_size) \<le> align_address a (off + new_size)"
      using False by (intro align_address_mono [OF poison]) simp_all
    moreover have "af_len f' = (if align_address a (off + new_size) > af_size f then af_size f
        else align_address a (off + new_size))"
      using push_len [OF push(1)] unfolding len by simp
    ultimately show ?thesis using wf(1) by (auto simp: frame_wf_def)
  qed
  then have "frame_wf f'" using facts wf(1) by (auto simp: frame_wf_def)
  have a': "ar_frame a' = f' # fs" "same_base a a'" "ar_mem a' = ar_mem a"
    using push(2) k by (simp_all add: same_base_def)
  have shape: "old_size < new_size" "ptr + new_size \<le> af_ptr f' + af_len f'" "af_ptr f' = af_ptr f" "af_size f' = af_size f"
    using False off facts(4-6) by simp_all
  show ?thesis
    by (rule that(2) [OF shape(1) f a'(1) ptr(1) last shape(2-4) \<open>af_len f \<le> af_len f'\<close> \<open>frame_wf f'\<close> a'(2,3)])
qed


section \<open>Contents\<close>

lemma load_store:
  "n \<le> length str \<Longrightarrow> load (store m p str) p n = take n str"
  by (intro nth_equalityI) (simp_all add: load_def store_def)

lemma load_store_apart:
  "apart r k p (length str) \<Longrightarrow> load (store m p str) r k = load m r k"
  by (auto simp: load_def store_def apart_def)

lemma length_load [simp]: "length (load m p n) = n"
  by (simp add: load_def)

lemma take_load: "k \<le> n \<Longrightarrow> take k (load m p n) = load m p k"
  by (simp add: load_def take_map)

lemma arena_write_simps [simp]:
  "ar_frame (arena_write p str a) = ar_frame a" "ar_mem (arena_write p str a) = store (ar_mem a) p str"
  "ar_refs (arena_write p str a) = ar_refs a" "ar_poison (arena_write p str a) = ar_poison a"
  "ar_frame_size (arena_write p str a) = ar_frame_size a" "arena_wf (arena_write p str a) = arena_wf a"
  "in_use (arena_write p str a) q n = in_use a q n" "same_base a (arena_write p str b) = same_base a b"
  by (simp_all add: arena_write_def arena_wf_def in_use_def same_base_def)

lemma apart_sym: "apart p n q k \<longleftrightarrow> apart q k p n"
  by (auto simp: apart_def)

text \<open>The object, and the padding behind it.\<close>

definition clear_of :: "arena \<Rightarrow> nat \<Rightarrow> nat \<Rightarrow> nat \<Rightarrow> nat \<Rightarrow> bool" where
  "clear_of a r k ptr n \<longleftrightarrow> ptr = 0 \<or> r + k \<le> ptr \<or> align_address a (ptr + n) \<le> r"

definition valid_object :: "arena \<Rightarrow> nat \<Rightarrow> nat \<Rightarrow> bool" where
  "valid_object a ptr n \<longleftrightarrow> ptr = 0 \<or> in_use a ptr n"

lemma realloc_fast_lemmas:
  assumes "arena_realloc_fast a ptr old_size new_size = Some a'" "arena_wf a" "in_use a ptr old_size"
  shows "arena_wf a'" "in_use a' ptr new_size" "same_base a a'" "ar_mem a' = ar_mem a"
    "in_use a r k \<Longrightarrow> in_use a' r k"
    "in_use a r k \<Longrightarrow> r + k \<le> ptr \<or> align_address a (ptr + old_size) \<le> r \<Longrightarrow> 0 < k \<Longrightarrow> apart r k ptr new_size"
proof -
  have "arena_wf a' \<and> in_use a' ptr new_size \<and> same_base a a' \<and> ar_mem a' = ar_mem a \<and> (in_use a r k \<longrightarrow> in_use a' r k) \<and>
    (in_use a r k \<longrightarrow> r + k \<le> ptr \<or> align_address a (ptr + old_size) \<le> r \<longrightarrow> 0 < k \<longrightarrow> apart r k ptr new_size)"
  proof (rule realloc_fast_cases [OF assms])
    assume le: "new_size \<le> old_size" and same: "a' = a"
    have in_new: "in_use a ptr new_size" using assms(3) le by (auto simp: in_use_def)
    have "ptr + old_size < 2 ^ 63" using assms(2,3) by (auto simp: in_use_def arena_wf_def frames_wf_def frame_wf_def)
    moreover have "ar_poison a \<in> {0, 8}" using assms(2) by (simp add: arena_wf_def)
    ultimately have "ptr + old_size \<le> align_address a (ptr + old_size)" by (intro align_address_bounds)
    then show ?thesis using le same assms(2) in_new by (auto simp: same_base_def apart_def)
  next
    fix f fs f'
    assume f: "ar_frame a = f # fs" "ar_frame a' = f' # fs" "af_ptr f + sizeof_frame \<le> ptr"
      and last: "align_address a (ptr + old_size) = af_ptr f + af_len f" and fits: "ptr + new_size \<le> af_ptr f' + af_len f'"
      and f': "af_ptr f' = af_ptr f" "af_size f' = af_size f" "af_len f \<le> af_len f'" "frame_wf f'"
      and same: "same_base a a'" "ar_mem a' = ar_mem a"
    have wf: "frames_wf (f # fs)" using assms(2) f(1) by (simp add: arena_wf_def)
    have 1: "arena_wf a'" using frames_wf_top [OF wf f'(4,1,2)] assms(2) f(2) same(1) by (simp add: arena_wf_def same_base_def)
    have 2: "in_use a' ptr new_size" using f(2,3) fits f'(1) by (auto simp: in_use_def)
    have 3: "in_use a' r k" if "in_use a r k" using that f(1,2) f' by (auto simp: in_use_def)
    have 4: "apart r k ptr new_size"
      if use: "in_use a r k" and clear: "r + k \<le> ptr \<or> align_address a (ptr + old_size) \<le> r" and k: "0 < k"
    proof -
      obtain g where g: "g \<in> set (f # fs)" "af_ptr g + sizeof_frame \<le> r" "r + k \<le> af_ptr g + af_len g"
        using use f(1) by (auto simp: in_use_def)
      show ?thesis
      proof (cases "g = f")
        case True
        then show ?thesis using g clear last k by (auto simp: apart_def)
      next
        case False
        then have "frames_apart f g" "frame_wf g" using g(1) wf by (auto simp: frames_wf_def)
        then show ?thesis using g f(3) fits f' by (auto simp: apart_def frames_apart_def frame_wf_def)
      qed
    qed
    from 1 2 3 4 same show ?thesis by blast
  qed
  then show "arena_wf a'" "in_use a' ptr new_size" "same_base a a'" "ar_mem a' = ar_mem a"
    "in_use a r k \<Longrightarrow> in_use a' r k"
    "in_use a r k \<Longrightarrow> r + k \<le> ptr \<or> align_address a (ptr + old_size) \<le> r \<Longrightarrow> 0 < k \<Longrightarrow> apart r k ptr new_size"
    by blast+
qed

text \<open>Either the object stays, or its bytes are copied to a larger one.\<close>

lemma arena_realloc_cases:
  assumes "arena_realloc mem a s ptr old_size new_size = Some (q, a')"
  obtains "ptr \<noteq> 0" "arena_realloc_fast a ptr old_size new_size = Some a'" "q = ptr"
  | a1 where "ptr \<noteq> 0" "old_size < new_size" "arena_malloc mem a s new_size = Some (q, a1)"
      "a' = arena_write q (load (ar_mem a1) ptr old_size) a1"
  | "ptr = 0" "arena_malloc mem a s new_size = Some (q, a')"
proof (cases "ptr = 0")
  case True
  then show ?thesis using assms that(3) by (auto simp: arena_realloc_def)
next
  case False
  show ?thesis
  proof (cases "arena_realloc_fast a ptr old_size new_size")
    case None
    then have "old_size < new_size" by (auto simp: arena_realloc_fast_def split: if_splits)
    then show ?thesis using assms False None that(2) by (auto simp: arena_realloc_def split: if_splits)
  next
    case (Some a1)
    then show ?thesis using assms False that(1) by (auto simp: arena_realloc_def split: if_splits)
  qed
qed

lemma arena_realloc_lemmas:
  assumes "arena_realloc mem a s ptr old_size new_size = Some (q, a')" "malloc_ok mem" "arena_wf a" "valid_object a ptr old_size"
  shows "arena_wf a'" "in_use a' q new_size" "same_base a a'" "in_use a r k \<Longrightarrow> in_use a' r k"
    "in_use a r k \<Longrightarrow> clear_of a r k ptr old_size \<Longrightarrow> 0 < k \<Longrightarrow> apart r k q new_size \<and> load (ar_mem a') r k = load (ar_mem a) r k"
    "ptr \<noteq> 0 \<Longrightarrow> n \<le> old_size \<Longrightarrow> load (ar_mem a') q n = load (ar_mem a) ptr n"
proof -
  have "arena_wf a' \<and> in_use a' q new_size \<and> same_base a a' \<and> (in_use a r k \<longrightarrow> in_use a' r k) \<and>
    (in_use a r k \<longrightarrow> clear_of a r k ptr old_size \<longrightarrow> 0 < k \<longrightarrow>
       apart r k q new_size \<and> load (ar_mem a') r k = load (ar_mem a) r k) \<and>
    (ptr \<noteq> 0 \<longrightarrow> n \<le> old_size \<longrightarrow> load (ar_mem a') q n = load (ar_mem a) ptr n)"
    using assms(1)
  proof (cases rule: arena_realloc_cases)
    case 1
    then have "in_use a ptr old_size" using assms(4) by (simp add: valid_object_def)
    note fast = realloc_fast_lemmas [OF 1(2) assms(3) this]
    show ?thesis using fast(1-4) fast(5,6) [of r k] 1(1,3) by (auto simp: clear_of_def)
  next
    case (2 a1)
    note new = arena_malloc_lemmas [OF 2(3) assms(2,3)]
    have "in_use a r k \<Longrightarrow> load (ar_mem a') r k = load (ar_mem a) r k"
      using new(4) [of r k] new(6) 2(2,4) by (auto intro!: load_store_apart simp: apart_def)
    moreover have "n \<le> old_size \<Longrightarrow> load (ar_mem a') q n = load (ar_mem a) ptr n"
      using 2(4) new(6) by (simp add: load_store take_load)
    ultimately show ?thesis using new(1,2,5) new(4) [of r k] 2(4) by simp
  next
    case 3
    note new = arena_malloc_lemmas [OF 3(2) assms(2,3)]
    show ?thesis using new(1,2,5,6) new(4) [of r k] 3 by simp
  qed
  then show "arena_wf a'" "in_use a' q new_size" "same_base a a'" "in_use a r k \<Longrightarrow> in_use a' r k"
    "in_use a r k \<Longrightarrow> clear_of a r k ptr old_size \<Longrightarrow> 0 < k \<Longrightarrow> apart r k q new_size \<and> load (ar_mem a') r k = load (ar_mem a) r k"
    "ptr \<noteq> 0 \<Longrightarrow> n \<le> old_size \<Longrightarrow> load (ar_mem a') q n = load (ar_mem a) ptr n"
    by blast+
qed


section \<open>Scopes\<close>

text \<open>What a program does between entering and leaving a scope; scopes nest.\<close>

inductive scope_run :: "malloc \<Rightarrow> arena \<Rightarrow> arena_scope \<Rightarrow> arena \<Rightarrow> arena_scope \<Rightarrow> bool" for mem where
  stay: "scope_run mem a s a s"
| malloc: "scope_run mem a s b t \<Longrightarrow> arena_malloc mem b t n = Some (p, c) \<Longrightarrow> scope_run mem a s c t"
| realloc: "scope_run mem a s b t \<Longrightarrow> valid_object b p m \<Longrightarrow> arena_realloc mem b t p m n = Some (q, c) \<Longrightarrow>
    scope_run mem a s c t"
| fill: "scope_run mem a s b t \<Longrightarrow> in_use b p (length str) \<Longrightarrow> scope_run mem a s (arena_write p str b) t"
| cleanup: "scope_run mem a s b t \<Longrightarrow> arena_cleanup mem b t fn = Some (u, c) \<Longrightarrow> scope_run mem a s c u"
| nested: "scope_run mem a s b t \<Longrightarrow> arena_scope_enter b fn lno = (u, c) \<Longrightarrow> scope_run mem c u d v \<Longrightarrow>
    arena_scope_leave d v = (fns, Some e) \<Longrightarrow> scope_run mem a s e t"

definition frames_extend :: "arena_frame list \<Rightarrow> arena_frame list \<Rightarrow> bool" where
  "frames_extend fs gs \<longleftrightarrow>
     (\<exists>new f g rest. fs = f # rest \<and> gs = new @ g # rest \<and> af_ptr g = af_ptr f \<and> af_size g = af_size f \<and> af_len f \<le> af_len g)"

definition same_marks :: "arena_scope \<Rightarrow> arena_scope \<Rightarrow> bool" where
  "same_marks s t \<longleftrightarrow> t\<lparr>as_cleanup := as_cleanup s\<rparr> = s"

lemma frames_extend_refl: "fs \<noteq> [] \<Longrightarrow> frames_extend fs fs"
  by (cases fs) (auto simp: frames_extend_def)

lemma frames_extend_trans:
  assumes "frames_extend fs gs" "frames_extend gs hs"
  shows "frames_extend fs hs"
proof -
  obtain new f g rest where 1: "fs = f # rest" "gs = new @ g # rest" "af_ptr g = af_ptr f" "af_size g = af_size f"
    "af_len f \<le> af_len g" using assms(1) by (auto simp: frames_extend_def)
  obtain new' f' g' rest' where 2: "gs = f' # rest'" "hs = new' @ g' # rest'" "af_ptr g' = af_ptr f'"
    "af_size g' = af_size f'" "af_len f' \<le> af_len g'" using assms(2) by (auto simp: frames_extend_def)
  show ?thesis
  proof (cases new)
    case Nil
    then show ?thesis using 1 2 unfolding frames_extend_def by force
  next
    case (Cons x xs)
    then have "hs = (new' @ g' # xs) @ g # rest" using 1(2) 2(1,2) by simp
    then show ?thesis using 1 unfolding frames_extend_def by blast
  qed
qed

lemma push_top_extends: "push_top a n = Some (p, a') \<Longrightarrow> arena_wf a \<Longrightarrow> frames_extend (ar_frame a) (ar_frame a')"
  by (erule (1) push_top_Some) (auto simp: frames_extend_def)

lemma arena_malloc_extends:
  assumes "arena_malloc mem a s n = Some (p, a')" "malloc_ok mem" "arena_wf a"
  shows "frames_extend (ar_frame a) (ar_frame a')"
  using assms(1)
proof (cases rule: arena_malloc_cases)
  case 1
  then show ?thesis using push_top_extends assms(3) by blast
next
  case (2 a1 frame_size)
  have ne: "ar_frame a \<noteq> []" and "ar_poison a \<in> {0, 8}" using assms(3) by (simp_all add: arena_wf_def frames_wf_def)
  from frame_alloc_Some [OF 2(2) assms(2) this(2)] obtain f where "ar_frame a1 = f # ar_frame a" by metis
  then have "frames_extend (ar_frame a) (ar_frame a1)" using ne by (cases "ar_frame a") (auto simp: frames_extend_def)
  moreover have "arena_wf a1" by (rule arena_frame_alloc_safe [OF 2(2) assms(2,3)])
  ultimately show ?thesis using push_top_extends 2(3) frames_extend_trans by blast
qed

lemma arena_realloc_extends:
  assumes "arena_realloc mem a s ptr m n = Some (q, a')" "malloc_ok mem" "arena_wf a" "valid_object a ptr m"
  shows "frames_extend (ar_frame a) (ar_frame a')"
  using assms(1)
proof (cases rule: arena_realloc_cases)
  case 1
  then have "in_use a ptr m" using assms(4) by (simp add: valid_object_def)
  show ?thesis
    by (rule realloc_fast_cases [OF 1(2) assms(3) \<open>in_use a ptr m\<close>])
      (use assms(3) in \<open>auto simp: frames_extend_def arena_wf_def frames_wf_def neq_Nil_conv\<close>)
next
  case (2 a1)
  then show ?thesis using arena_malloc_extends [OF 2(3) assms(2,3)] by simp
next
  case 3
  then show ?thesis using arena_malloc_extends [OF 3(2) assms(2,3)] by simp
qed

text \<open>Leaving a scope drops what was added behind its mark.\<close>

lemma frames_wf_new:
  assumes "frames_wf (new @ g # rest)"
  shows "\<forall>h \<in> set new. af_ptr h \<noteq> af_ptr g"
proof
  fix h assume "h \<in> set new"
  then have "frames_apart h g" "frame_wf h" "frame_wf g" using assms by (auto simp: frames_wf_def sorted_wrt_append)
  then show "af_ptr h \<noteq> af_ptr g" by (auto simp: frames_apart_def frame_wf_def)
qed

lemma set_location_simps [simp]:
  "ar_frame (set_location l a) = ar_frame a" "ar_refs (set_location l a) = ar_refs a"
  "ar_bytes (set_location l a) = ar_bytes a" "ar_frames (set_location l a) = ar_frames a"
  "ar_scopes (set_location l a) = ar_scopes a" "ar_poison (set_location l a) = ar_poison a"
  "ar_frame_size (set_location l a) = ar_frame_size a" "ar_mem (set_location l a) = ar_mem a"
  by (simp_all add: set_location_def)

lemma leave_extends:
  assumes "frames_wf (ar_frame b)" "frames_extend (f # rest) (ar_frame b)" "as_frame s = Some (af_ptr f)"
    "as_frame_len s = af_len f" "1 < ar_refs b"
  obtains a' where "arena_scope_leave b s = (as_cleanup s, Some a')" "ar_frame a' = f # rest" "ar_refs a' = ar_refs b - 1"
    "ct_now (ar_bytes a') = as_bytes s" "ct_now (ar_frames a') = as_frames s" "ct_now (ar_scopes a') = as_scopes s"
    "ar_poison a' = ar_poison b" "ar_frame_size a' = ar_frame_size b" "ar_mem a' = ar_mem b"
proof -
  obtain new g where g: "ar_frame b = new @ g # rest" "af_ptr g = af_ptr f" "af_size g = af_size f" "af_len f \<le> af_len g"
    using assms(2) by (auto simp: frames_extend_def)
  have "dropWhile (\<lambda>frame. Some (af_ptr frame) \<noteq> as_frame s) (ar_frame b) = g # rest"
    using frames_wf_new [of new g rest] assms(1,3) g by (simp add: dropWhile_append3 dropWhile_append2)
  moreover have "rewind (as_frame_len s) (g # rest) = f # rest" using g assms(4) by (simp add: rewind_def)
  ultimately show thesis using that assms(5) by (simp add: arena_scope_leave_def Let_def arena_rele_def)
qed


lemma arena_scope_enter_simps:
  assumes "arena_scope_enter a fn lno = (s, b)" "arena_wf a"
  shows "ar_frame b = ar_frame a" "ar_refs b = ar_refs a + 1" "as_id s = ar_refs b" "as_cleanup s = []"
    "as_frame s = Some (af_ptr (hd (ar_frame a)))" "as_frame_len s = af_len (hd (ar_frame a))"
    "as_bytes s = ct_now (ar_bytes a)" "as_frames s = ct_now (ar_frames a)" "as_scopes s = ct_now (ar_scopes a)"
    "arena_wf b" "ar_mem b = ar_mem a" "ar_poison b = ar_poison a" "ar_frame_size b = ar_frame_size a"
  using assms
  by (auto simp: arena_scope_enter_def Let_def arena_stats_scopes_def arena_wf_def frames_wf_def split: list.splits)

definition scope_kept :: "arena \<Rightarrow> arena_scope \<Rightarrow> arena \<Rightarrow> arena_scope \<Rightarrow> bool" where
  "scope_kept a s b t \<longleftrightarrow> arena_wf b \<and> frames_extend (ar_frame a) (ar_frame b) \<and> ar_refs b = ar_refs a \<and>
     ar_poison b = ar_poison a \<and> ar_frame_size b = ar_frame_size a \<and> same_marks s t"

lemma scope_kept_refl: "arena_wf a \<Longrightarrow> scope_kept a s a s"
  by (simp add: scope_kept_def frames_extend_refl arena_wf_def frames_wf_def same_marks_def)

lemma same_marks_trans: "same_marks s t \<Longrightarrow> same_marks t u \<Longrightarrow> same_marks s u"
  by (cases s; cases t; cases u) (simp add: same_marks_def)

lemma scope_kept_step:
  "scope_kept a s b t \<Longrightarrow> arena_wf c \<Longrightarrow> frames_extend (ar_frame b) (ar_frame c) \<Longrightarrow> ar_refs c = ar_refs b \<Longrightarrow>
     ar_poison c = ar_poison b \<Longrightarrow> ar_frame_size c = ar_frame_size b \<Longrightarrow> same_marks t u \<Longrightarrow> scope_kept a s c u"
  by (auto simp: scope_kept_def intro: frames_extend_trans same_marks_trans)

lemma same_marks_refl [simp]: "same_marks s s"
  by (simp add: same_marks_def)

text \<open>Leaving after a run, as the enter before it.\<close>

lemma leave_after_run:
  assumes "arena_scope_enter a fn lno = (s, b)" "arena_wf a" "0 < ar_refs a" "scope_kept b s b' s'"
  obtains a' where "arena_scope_leave b' s' = (as_cleanup s', Some a')" "ar_frame a' = ar_frame a" "ar_refs a' = ar_refs a"
    "ct_now (ar_bytes a') = ct_now (ar_bytes a)" "ct_now (ar_frames a') = ct_now (ar_frames a)"
    "ct_now (ar_scopes a') = ct_now (ar_scopes a)" "arena_wf a'" "ar_poison a' = ar_poison a"
    "ar_frame_size a' = ar_frame_size a" "ar_mem a' = ar_mem b'"
proof -
  obtain f rest where f: "ar_frame a = f # rest" using assms(2) by (cases "ar_frame a") (auto simp: arena_wf_def frames_wf_def)
  note enter = arena_scope_enter_simps [OF assms(1,2)]
  have wf: "frames_wf (ar_frame b')" and ext: "frames_extend (f # rest) (ar_frame b')" and refs: "1 < ar_refs b'"
    using assms(3,4) enter(1,2) f by (simp_all add: scope_kept_def arena_wf_def)
  have "s'\<lparr>as_cleanup := as_cleanup s\<rparr> = s" using assms(4) by (simp add: scope_kept_def same_marks_def)
  then have marks: "as_frame s' = as_frame s" "as_frame_len s' = as_frame_len s" "as_bytes s' = as_bytes s"
    "as_frames s' = as_frames s" "as_scopes s' = as_scopes s" by (metis arena_scope.ext_inject arena_scope.surjective arena_scope.update_convs(2))+
  have "as_frame s' = Some (af_ptr f)" "as_frame_len s' = af_len f" using marks enter f by simp_all
  from leave_extends [OF wf ext this refs] obtain a' where a': "arena_scope_leave b' s' = (as_cleanup s', Some a')"
    "ar_frame a' = f # rest" "ar_refs a' = ar_refs b' - 1" "ct_now (ar_bytes a') = as_bytes s'"
    "ct_now (ar_frames a') = as_frames s'" "ct_now (ar_scopes a') = as_scopes s'"
    "ar_poison a' = ar_poison b'" "ar_frame_size a' = ar_frame_size b'" "ar_mem a' = ar_mem b'" by blast
  have "arena_wf a'" using assms(2) a' f assms(4) enter by (simp add: arena_wf_def scope_kept_def)
  then show thesis using that a' f marks enter assms(4) by (simp add: scope_kept_def)
qed

lemma scope_run_kept:
  assumes "scope_run mem a s b t" "malloc_ok mem" "arena_wf a" "0 < ar_refs a"
  shows "scope_kept a s b t"
  using assms(1,3,4)
proof (induction rule: scope_run.induct)
  case (stay a s)
  then show ?case by (intro scope_kept_refl)
next
  case (malloc a s b t n p c)
  then have kept: "scope_kept a s b t" by simp
  then have wf: "arena_wf b" by (simp add: scope_kept_def)
  note new = arena_malloc_lemmas [OF malloc.hyps(2) assms(2) wf]
  show ?case using scope_kept_step [OF kept new(1) arena_malloc_extends [OF malloc.hyps(2) assms(2) wf]] new(5)
    by (simp add: same_base_def)
next
  case (realloc a s b t p m n q c)
  then have kept: "scope_kept a s b t" by simp
  then have wf: "arena_wf b" by (simp add: scope_kept_def)
  note new = arena_realloc_lemmas [OF realloc.hyps(3) assms(2) wf realloc.hyps(2)]
  show ?case
    using scope_kept_step [OF kept new(1) arena_realloc_extends [OF realloc.hyps(3) assms(2) wf realloc.hyps(2)]] new(3)
    by (simp add: same_base_def)
next
  case (fill a s b t p str)
  then show ?case by (simp add: scope_kept_def)
next
  case (cleanup a s b t fn u c)
  then have kept: "scope_kept a s b t" by simp
  then have wf: "arena_wf b" by (simp add: scope_kept_def)
  obtain p where p: "arena_malloc mem b t sizeof_cleanup = Some (p, c)" "u = t\<lparr>as_cleanup := fn # as_cleanup t\<rparr>"
    using cleanup.hyps(2) by (auto simp: arena_cleanup_def)
  note new = arena_malloc_lemmas [OF p(1) assms(2) wf]
  show ?case using scope_kept_step [OF kept new(1) arena_malloc_extends [OF p(1) assms(2) wf]] new(5) p(2)
    by (simp add: same_base_def same_marks_def)
next
  case (nested a s b t fn lno u c d v fns e)
  then have kept: "scope_kept a s b t" by simp
  then have wf: "arena_wf b" and refs: "0 < ar_refs b" using nested.prems by (simp_all add: scope_kept_def)
  note enter = arena_scope_enter_simps [OF nested.hyps(2) wf]
  have "scope_kept c u d v" using nested.IH(2) enter(2,10) refs by simp
  from leave_after_run [OF nested.hyps(2) wf refs this] obtain e' where e': "arena_scope_leave d v = (as_cleanup v, Some e')"
    "ar_frame e' = ar_frame b" "ar_refs e' = ar_refs b" "arena_wf e'" "ar_poison e' = ar_poison b"
    "ar_frame_size e' = ar_frame_size b" by metis
  then have "e' = e" using nested.hyps(4) by simp
  moreover have "ar_frame b \<noteq> []" using wf by (simp add: arena_wf_def frames_wf_def)
  ultimately show ?case using scope_kept_step [OF kept e'(4)] e' frames_extend_refl by simp
qed


section \<open>Properties\<close>

text \<open>An arena to evaluate: blocks of memory next to each other, pages of 64 bytes, two scopes.\<close>

definition bump :: malloc where
  "bump fs n =
     (let top = (case fs of [] \<Rightarrow> 4096 | f # _ \<Rightarrow> (af_ptr f + af_size f + 7) div 8 * 8 + 8)
      in if top + n + 16 \<le> 2 ^ 63 \<and> (\<forall>f \<in> set fs. af_ptr f + af_size f \<le> top) then Some top else None)"

lemma bump_ok: "malloc_ok bump"
proof -
  have "((n::nat) + 7) div 8 * 8 mod 8 = 0" for n by (rule round_up)
  then show ?thesis by (auto simp: malloc_ok_def bump_def Let_def split: if_splits list.splits)
qed

lemma arena_alloc_wf:
  assumes "arena_alloc mem page_size poison = Some a" "malloc_ok mem" "poison \<in> {0, 8}" "0 < page_size"
  shows "arena_wf a" "ar_refs a = 1" "ar_frames a = \<lparr>ct_now = 1, ct_max = 1, ct_total = 1\<rparr>"
proof -
  let ?zero = "\<lparr>ct_now = 0, ct_max = 0, ct_total = 0\<rparr>"
  let ?a = "\<lparr>ar_frame = [], ar_frame_size = 16 * page_size, ar_poison = poison, ar_refs = 1,
    ar_locations = replicate MAX_SOURCE_LOCATIONS None, ar_bytes = ?zero, ar_frames = ?zero, ar_scopes = ?zero,
    ar_mem = (\<lambda>_. NUL)\<rparr>"
  have alloc: "arena_frame_alloc mem ?a (16 * page_size) = Some a"
    using assms(1) by (simp add: arena_alloc_def Let_def)
  have "ar_poison ?a \<in> {0, 8}" using assms(3) by simp
  from frame_alloc_Some [OF alloc assms(2) this] obtain f where
    f: "ar_frame a = [f]" "frame_wf f" "same_base ?a a" by (metis arena.select_convs(1))
  then show "arena_wf a" "ar_refs a = 1"
    using assms(3,4) by (auto simp: arena_wf_def frames_wf_def same_base_def)
  show "ar_frames a = \<lparr>ct_now = 1, ct_max = 1, ct_total = 1\<rparr>"
    using alloc by (auto simp: arena_frame_alloc_def bind_eq_Some_conv arena_push_def Let_def arena_stats_frames_def
        count_up_def split: option.splits if_splits)
qed

definition demo :: arena where
  "demo = \<lparr>ar_frame = [\<lparr>af_ptr = 4096, af_size = 1024, af_len = 32\<rparr>], ar_frame_size = 1024, ar_poison = 0, ar_refs = 1,
     ar_locations = replicate 8 None, ar_bytes = \<lparr>ct_now = 32, ct_max = 32, ct_total = 32\<rparr>,
     ar_frames = \<lparr>ct_now = 1, ct_max = 1, ct_total = 1\<rparr>, ar_scopes = \<lparr>ct_now = 0, ct_max = 0, ct_total = 0\<rparr>,
     ar_mem = (\<lambda>_. NUL)\<rparr>"

lemma demo: "arena_alloc bump 64 0 = Some demo"
  by (simp add: arena_alloc_def Let_def demo_def arena_frame_alloc_def bump_def arena_push_def size_add_overflow_def
      align_address_def arena_stats_bytes_def arena_stats_frames_def count_up_def)

lemma demo_wf: "arena_wf demo"
  by (rule arena_alloc_wf [OF demo bump_ok]) simp_all

text \<open>The arena with one scope, and an object of five bytes in it.\<close>

definition demo_scope :: arena_scope where "demo_scope = fst (arena_scope_enter demo ''f'' 1)"
definition demo_in :: arena where "demo_in = snd (arena_scope_enter demo ''f'' 1)"
definition demo_object :: arena where "demo_object = snd (the (arena_malloc bump demo_in demo_scope 5))"

lemma demo_enter: "arena_scope_enter demo ''f'' 1 = (demo_scope, demo_in)"
  by (simp add: demo_scope_def demo_in_def)

lemmas arena_eval = demo_def arena_scope_enter_def Let_def set_location_def arena_stats_scopes_def count_up_def
  arena_malloc_def arena_scope_validate_def push_top_def arena_push_def size_add_overflow_def align_address_def
  arena_stats_bytes_def demo_scope_def demo_in_def demo_object_def

lemma demo_malloc: "arena_malloc bump demo_in demo_scope 5 = Some (4128, demo_object)"
  by (simp add: arena_eval)

lemma demo_wfs: "arena_wf demo_in" "arena_wf demo_object" "0 < ar_refs demo"
  using arena_scope_enter_simps(10) [OF demo_enter demo_wf]
    arena_malloc_lemmas(1) [OF demo_malloc bump_ok arena_scope_enter_simps(10) [OF demo_enter demo_wf]]
  by (simp_all add: demo_def)

text \<open>C19: a block that is handed out is aligned, lies in memory of the arena, and overlaps no other.\<close>

theorem arena_malloc_safe:
  assumes "arena_malloc mem a s n = Some (p, a')" "malloc_ok mem" "arena_wf a"
  shows "arena_wf a' \<and> in_use a' p n \<and> (0 < n \<longrightarrow> p mod maxalign = 0) \<and>
    (\<forall>q k. in_use a q k \<longrightarrow> in_use a' q k \<and> apart q k p n \<and> load (ar_mem a') q k = load (ar_mem a) q k)"
  using arena_malloc_lemmas [OF assms] by simp

theorem arena_malloc_safe_witness:
  "in_use demo_object 4128 5 \<and> (4128::nat) mod maxalign = 0"
  using arena_malloc_safe [OF demo_malloc bump_ok demo_wfs(1)] by simp

text \<open>C21: reallocation keeps the bytes of the object and what is in other objects.\<close>

theorem arena_realloc_keeps:
  assumes "arena_realloc mem a s ptr old_size new_size = Some (q, a')" "malloc_ok mem" "arena_wf a"
    "valid_object a ptr old_size"
  shows "arena_wf a' \<and> in_use a' q new_size \<and>
    (ptr \<noteq> 0 \<longrightarrow> load (ar_mem a') q old_size = load (ar_mem a) ptr old_size) \<and>
    (\<forall>r k. in_use a r k \<longrightarrow> 0 < k \<longrightarrow> clear_of a r k ptr old_size \<longrightarrow>
      in_use a' r k \<and> apart r k q new_size \<and> load (ar_mem a') r k = load (ar_mem a) r k)"
  using arena_realloc_lemmas [OF assms] by blast

lemma demo_valid: "valid_object demo_object 4128 5"
  using arena_malloc_lemmas(2) [OF demo_malloc bump_ok demo_wfs(1)] by (simp add: valid_object_def)

definition demo_grown :: arena where
  "demo_grown = snd (the (arena_realloc bump demo_object demo_scope 4128 5 2000))"

lemma demo_realloc: "arena_realloc bump demo_object demo_scope 4128 5 2000 = Some (5160, demo_grown)"
  by (simp add: demo_grown_def arena_eval arena_realloc_def arena_realloc_fast_def bump_def arena_frame_alloc_def
      double_until.simps arena_stats_frames_def)

theorem arena_realloc_keeps_witness:
  "in_use demo_grown 5160 2000 \<and> load (ar_mem demo_grown) 5160 5 = load (ar_mem demo_object) 4128 5"
  using arena_realloc_keeps [OF demo_realloc bump_ok demo_wfs(2) demo_valid] by simp

text \<open>C20: a scope gives back what was allocated in it.\<close>

theorem arena_scope_restores:
  assumes "arena_scope_enter a fn lno = (s, b)" "scope_run mem b s b' s'" "malloc_ok mem" "arena_wf a" "0 < ar_refs a"
  shows "\<exists>a'. arena_scope_leave b' s' = (as_cleanup s', Some a') \<and> ar_frame a' = ar_frame a \<and> ar_refs a' = ar_refs a \<and>
    ct_now (ar_bytes a') = ct_now (ar_bytes a) \<and> ct_now (ar_frames a') = ct_now (ar_frames a) \<and>
    ct_now (ar_scopes a') = ct_now (ar_scopes a) \<and> ar_mem a' = ar_mem b'"
proof -
  note enter = arena_scope_enter_simps [OF assms(1,4)]
  have "scope_kept b s b' s'" using scope_run_kept [OF assms(2,3)] enter(2,10) assms(5) by simp
  from leave_after_run [OF assms(1,4,5) this] show ?thesis by metis
qed


theorem arena_scope_restores_witness:
  "\<exists>a'. arena_scope_leave demo_object demo_scope = ([], Some a') \<and> ar_frame a' = ar_frame demo"
proof -
  have "scope_run bump demo_in demo_scope demo_object demo_scope"
    by (rule scope_run.malloc [OF scope_run.stay demo_malloc])
  from arena_scope_restores [OF demo_enter this bump_ok demo_wf demo_wfs(3)]
  show ?thesis using arena_scope_enter_simps(4) [OF demo_enter demo_wf] by auto
qed


lemma arena_malloc_returns_lemma:
  assumes wf: "arena_wf a" and mem: "malloc_ok mem" and s: "as_id s = ar_refs a"
    and n: "n + 40 \<le> 2 ^ 61" "ar_frame_size a \<le> 2 ^ 61"
    and more: "\<forall>k. k \<le> max (ar_frame_size a) (2 * (n + 40)) \<longrightarrow> mem (ar_frame a) k \<noteq> None"
  shows "\<exists>p a'. arena_malloc mem a s n = Some (p, a')"
proof (cases "push_top a n")
  case (Some r)
  then show ?thesis using s by (cases r) (simp add: arena_malloc_def arena_scope_validate_def)
next
  case None
  have poison: "ar_poison a \<in> {0, 8}" and size: "0 < ar_frame_size a" using wf by (simp_all add: arena_wf_def)
  let ?total = "ar_poison a + (n + sizeof_frame)"
  have total: "?total \<le> n + 40" using poison by auto
  have ov: "size_add_overflow n sizeof_frame = Some (n + sizeof_frame)"
    "size_add_overflow (ar_poison a) (n + sizeof_frame) = Some ?total"
    using n total by (simp_all add: size_add_overflow_def)
  have "2 * ?total \<le> ULONG_MAX" using n total by simp
  then obtain fsize where fsize: "double_until (ar_frame_size a) ?total = Some fsize"
    using double_until_ok [of "ar_frame_size a" ?total] size by auto
  have le: "?total \<le> fsize" "fsize \<le> max (ar_frame_size a) (2 * ?total)"
    using double_until_Some(1,3) [OF fsize] size by (auto simp: le_max_iff_disj)
  have "fsize \<le> max (ar_frame_size a) (2 * (n + 40))" using le(2) total by simp
  then obtain ptr where ptr: "mem (ar_frame a) fsize = Some ptr" using more by blast
  let ?f = "\<lparr>af_ptr = ptr, af_size = fsize, af_len = 0\<rparr>"
  have ok: "ptr + fsize + 16 \<le> 2 ^ 63" using mem ptr unfolding malloc_ok_def by blast
  have fits: "af_len ?f + sizeof_frame \<le> af_size ?f" "af_size ?f < 2 ^ 63" using le(1) ok by simp_all
  obtain a1 f where push: "arena_push a ?f sizeof_frame = Some (ptr, a1, f)" using push_fits [OF fits, of a] by auto
  then obtain a2 where a2: "arena_frame_alloc mem a fsize = Some a2" "ar_frame a2 = f # ar_frame a1"
    by (simp add: arena_frame_alloc_def ptr)
  have al: "align_address a sizeof_frame = sizeof_frame + ar_poison a"
    using poison by (auto simp: align_address_small)
  have len: "af_len f + n \<le> af_size f" "af_size f < 2 ^ 63"
    using push_len [OF push] push_Some(5) [OF push poison fits(2)] le(1) al fits(2) by (simp_all add: split: if_splits)
  obtain q a3 f3 where "arena_push a2 f n = Some (q, a3, f3)" using push_fits [OF len] by metis
  then have "push_top a2 n = Some (q, a3\<lparr>ar_frame := f3 # ar_frame a1\<rparr>)" using a2(2) by (simp add: push_top_def)
  then show ?thesis using None s ov fsize a2(1) by (simp add: arena_malloc_def arena_scope_validate_def)
qed

text \<open> An allocation succeeds as long as \<open>malloc(3)\<close> has memory for a new frame.\<close>

lemma arena_malloc_returns:
  assumes "arena_wf a" "malloc_ok mem" "as_id s = ar_refs a" "n + 40 \<le> 2 ^ 61" "ar_frame_size a \<le> 2 ^ 61"
    "\<forall>k. k \<le> max (ar_frame_size a) (2 * (n + 40)) \<longrightarrow> mem (ar_frame a) k \<noteq> None"
  shows "\<exists>p a'. arena_malloc mem a s n = Some (p, a')"
  using arena_malloc_returns_lemma [OF assms] .

lemma outer_realloc_lemma:
  assumes a: "arena_wf a" "malloc_ok mem" "0 < ar_refs a" and s: "as_id s = ar_refs a"
    and obj: "in_use a ptr m" "ptr \<noteq> 0" and enter: "arena_scope_enter a fn lno = (t, b)"
    and grow: "arena_realloc mem b s ptr m n = Some (ptr, c)" "align_address a (ptr + m) < ptr + n"
    and leave: "arena_scope_leave c t = (fns, Some d)"
    and again: "arena_malloc mem d s k = Some (r, e)" "0 < k" "k \<le> arena_capacity a"
  shows "\<not> apart ptr n r k"
proof -
  note en = arena_scope_enter_simps [OF enter a(1)]
  have obj': "in_use b ptr m" "valid_object b ptr m" using obj en(1) by (simp_all add: in_use_def valid_object_def)
  have "ptr + m < 2 ^ 63" using a(1) obj(1) by (auto simp: in_use_def arena_wf_def frames_wf_def frame_wf_def)
  moreover have poison: "ar_poison a \<in> {0, 8}" using a(1) by (simp add: arena_wf_def)
  ultimately have "ptr + m \<le> align_address a (ptr + m)" by (intro align_address_bounds)
  then have mn: "m < n" using grow(2) by simp
  have not_malloc: "arena_malloc mem b s n = None" using s en(2) by (simp add: arena_malloc_def arena_scope_validate_def)
  have fast: "arena_realloc_fast b ptr m n = Some c"
    using grow(1) obj(2) not_malloc by (auto simp: arena_realloc_def split: if_splits option.splits)
  obtain f fs where f: "ar_frame b = f # fs" "align_address b (ptr + m) = af_ptr f + af_len f" "af_ptr f + sizeof_frame \<le> ptr"
    using realloc_fast_cases [OF fast en(10) obj'(1)] mn by (metis not_le)
  have al: "align_address b (ptr + m) = align_address a (ptr + m)" unfolding align_address_def en(12) ..
  note grown = arena_realloc_lemmas [OF grow(1) a(2) en(10) obj'(2)]
  have kept: "scope_kept b t c t"
    using scope_kept_step [OF scope_kept_refl [OF en(10)] grown(1) arena_realloc_extends [OF grow(1) a(2) en(10) obj'(2)]]
      grown(3) by (simp add: same_base_def)
  from leave_after_run [OF enter a(1,3) kept] obtain d' where
    d': "arena_scope_leave c t = (as_cleanup t, Some d')" "ar_frame d' = ar_frame a" "ar_refs d' = ar_refs a" by metis
  then have d: "ar_frame d = f # fs" "as_id s = ar_refs d" using leave f(1) en(1) s by simp_all
  have "frame_wf f" using a(1) f(1) en(1) by (simp add: arena_wf_def frames_wf_def)
  then have "af_len f + k \<le> af_size f" "af_size f < 2 ^ 63"
    using again(3) f(1) en(1) by (auto simp: arena_capacity_def frame_wf_def)
  from push_fits [OF this, of d] obtain e' f' where "arena_push d f k = Some (af_ptr f + af_len f, e', f')" by blast
  then have "r = af_ptr f + af_len f"
    using again(1) d by (simp add: arena_malloc_def arena_scope_validate_def push_top_def)
  then have "r = align_address a (ptr + m)" using f(2) al by simp
  then show ?thesis using \<open>ptr + m \<le> align_address a (ptr + m)\<close> grow(2) again(2) by (simp add: apart_def)
qed

text \<open>C29: an object of an outer scope can be grown while a nested scope is alive, which allocating cannot; leaving the nested
  scope then gives a part of the object back, and the next allocation overlaps it.\<close>

theorem outer_realloc_is_cut:
  assumes "arena_wf a" "malloc_ok mem" "0 < ar_refs a" "as_id s = ar_refs a" "in_use a ptr m" "ptr \<noteq> 0"
    "arena_scope_enter a fn lno = (t, b)" "arena_realloc mem b s ptr m n = Some (ptr, c)"
    "align_address a (ptr + m) < ptr + n" "arena_scope_leave c t = (fns, Some d)"
    "arena_malloc mem d s k = Some (r, e)" "0 < k" "k \<le> arena_capacity a"
  shows "arena_malloc mem b s n = None \<and> \<not> apart ptr n r k"
  using outer_realloc_lemma [OF assms(1-13)] assms(4) arena_scope_enter_simps(2) [OF assms(7,1)]
  by (simp add: arena_malloc_def arena_scope_validate_def)

definition demo_nested :: "arena_scope \<times> arena" where "demo_nested = arena_scope_enter demo_object ''g'' 2"
definition demo_outer :: arena where
  "demo_outer = snd (the (arena_realloc bump (snd demo_nested) demo_scope 4128 5 64))"
definition demo_left :: arena where "demo_left = the (snd (arena_scope_leave demo_outer (fst demo_nested)))"

theorem outer_realloc_is_cut_witness:
  "arena_malloc bump (snd demo_nested) demo_scope 64 = None \<and> \<not> apart 4128 64 4136 16"
proof -
  have enter: "arena_scope_enter demo_object ''g'' 2 = (fst demo_nested, snd demo_nested)"
    by (simp add: demo_nested_def)
  have grow: "arena_realloc bump (snd demo_nested) demo_scope 4128 5 64 = Some (4128, demo_outer)"
    by (simp add: demo_outer_def demo_nested_def arena_eval arena_realloc_def arena_realloc_fast_def)
  have leave: "arena_scope_leave demo_outer (fst demo_nested) = ([], Some demo_left)"
    by (simp add: demo_left_def demo_outer_def demo_nested_def arena_eval arena_realloc_def arena_realloc_fast_def
        arena_scope_leave_def arena_rele_def)
  obtain e where again: "arena_malloc bump demo_left demo_scope 16 = Some (4136, e)"
    by (simp add: demo_left_def demo_outer_def demo_nested_def arena_eval arena_realloc_def arena_realloc_fast_def
        arena_scope_leave_def arena_rele_def rewind_def)
  have "in_use demo_object 4128 5" using demo_valid by (simp add: valid_object_def)
  moreover have "0 < ar_refs demo_object" "as_id demo_scope = ar_refs demo_object" "16 \<le> arena_capacity demo_object"
    "align_address demo_object (4128 + 5) < 4128 + 64" by (simp_all add: arena_eval arena_capacity_def)
  ultimately show ?thesis
    using outer_realloc_is_cut [OF demo_wfs(2) bump_ok _ _ _ _ enter grow _ leave again] by simp
qed

lemma demo_room: "\<forall>k. k \<le> max (ar_frame_size demo_in) (2 * (100 + 40)) \<longrightarrow> bump (ar_frame demo_in) k \<noteq> None"
  by (simp add: arena_eval bump_def)

theorem arena_malloc_returns_witness:
  "\<exists>p a'. arena_malloc bump demo_in demo_scope 100 = Some (p, a')"
proof -
  have "as_id demo_scope = ar_refs demo_in" "(100::nat) + 40 \<le> 2 ^ 61" "ar_frame_size demo_in \<le> 2 ^ 61"
    by (simp_all add: arena_eval)
  then show ?thesis using arena_malloc_returns [OF demo_wfs(1) bump_ok _ _ _ demo_room] by blast
qed

text \<open>\<open>strndup\<close> leaves a NUL-terminated copy.\<close>

lemma arena_strndup_copies:
  assumes "arena_strndup mem a s src n = Some (p, a')" "malloc_ok mem" "arena_wf a" "n \<le> length src"
  shows "arena_wf a'" "in_use a' p (n + 1)" "load (ar_mem a') p (n + 1) = take n src @ [NUL]"
proof -
  have n: "size_add_overflow n 1 = Some (n + 1)"
    using assms(1) by (auto simp: arena_strndup_def size_add_overflow_def split: if_splits)
  with assms(1) obtain a1 where a1: "arena_malloc mem a s (n + 1) = Some (p, a1)"
    "a' = arena_write p (take n src @ [NUL]) a1" by (auto simp: arena_strndup_def)
  note new = arena_malloc_lemmas [OF a1(1) assms(2,3)]
  show "arena_wf a'" "in_use a' p (n + 1)" using new(1,2) a1(2) by simp_all
  show "load (ar_mem a') p (n + 1) = take n src @ [NUL]" using a1(2) assms(4) by (simp add: load_store)
qed

end
