(* ===== verification/Vector.thy ===== *)
theory Vector
  imports Prelude
begin

text \<open>
  \<open>libks/vector.c\<close>: vectors that double their capacity, behind every \<open>VECTOR\<close> of the program.
  A vector is its live elements (\<open>vc_elems\<close>, whose length is \<open>p.len\<close>), its capacity, the size of
  an element and the kind of allocator. Whether the allocator can serve a request is the parameter
  \<open>ok\<close> of the operations that allocate: \<open>ok n\<close> says that a request for \<open>n\<close> bytes succeeds.

  The last section states what the components rely on as a locale, so that the rest of the
  development may treat a vector as the list of its elements.
\<close>

section \<open>Data\<close>

datatype vector_type = VECTOR_DEFAULT | VECTOR_ARENA

datatype vector_error = VECTOR_REALLOCATED | VECTOR_SUCCESS | VECTOR_ERROR

record 'a vector =
  vc_siz :: nat
  vc_elems :: "'a list"
  vc_stride :: nat
  vc_type :: vector_type

abbreviation vc_len :: "'a vector \<Rightarrow> nat" where
  "vc_len v \<equiv> length (vc_elems v)"

text \<open>\<open>sizeof(struct vector)\<close> on a 64 bit platform: four callback words, the capacity, and the
  public part of three words.\<close>

definition vector_header :: nat where
  "vector_header = 64"

section \<open>Operations\<close>

definition vector_init_impl ::
  "(nat \<Rightarrow> bool) \<Rightarrow> vector_type \<Rightarrow> nat \<Rightarrow> 'a vector option" where
  "vector_init_impl ok type stride =
     (if ok vector_header
      then Some \<lparr>vc_siz = 0, vc_elems = [], vc_stride = stride, vc_type = type\<rparr>
      else None)"

definition vector_init :: "(nat \<Rightarrow> bool) \<Rightarrow> nat \<Rightarrow> 'a vector option" where
  "vector_init ok stride = vector_init_impl ok VECTOR_DEFAULT stride"

definition vector_reserve1 ::
  "(nat \<Rightarrow> bool) \<Rightarrow> 'a vector \<Rightarrow> nat \<Rightarrow> vector_error \<times> 'a vector" where
  "vector_reserve1 ok vc len =
     (if vc_len vc > ULONG_MAX - len then (VECTOR_ERROR, vc)
      else if vc_len vc + len \<le> vc_siz vc then (VECTOR_SUCCESS, vc)
      else
        (case double_until (if vc_siz vc \<noteq> 0 then vc_siz vc else 16) (vc_len vc + len) of
           None \<Rightarrow> (VECTOR_ERROR, vc)
         | Some newsiz \<Rightarrow>
             if newsiz > ULONG_MAX div vc_stride vc then (VECTOR_ERROR, vc)
             else if newsiz * vc_stride vc > ULONG_MAX - vector_header then (VECTOR_ERROR, vc)
             else if \<not> ok (newsiz * vc_stride vc + vector_header) then (VECTOR_ERROR, vc)
             else (VECTOR_REALLOCATED, vc\<lparr>vc_siz := newsiz\<rparr>)))"

text \<open>Non-zero on failure.\<close>

definition vector_reserve ::
  "(nat \<Rightarrow> bool) \<Rightarrow> 'a vector \<Rightarrow> nat \<Rightarrow> bool \<times> 'a vector" where
  "vector_reserve ok vc n =
     (case vector_reserve1 ok vc n of
        (VECTOR_REALLOCATED, vc') \<Rightarrow> (False, vc')
      | (VECTOR_SUCCESS, vc') \<Rightarrow> (False, vc')
      | (VECTOR_ERROR, vc') \<Rightarrow> (True, vc'))"

text \<open>
  Returns the index of the new element, \<open>ULONG_MAX\<close> on failure. The new element is the argument
  \<open>x\<close>: what \<open>VECTOR_CALLOC\<close> zeroes, or what the caller of \<open>VECTOR_ALLOC\<close> writes through the
  returned pointer.
\<close>

definition vector_alloc ::
  "(nat \<Rightarrow> bool) \<Rightarrow> 'a vector \<Rightarrow> 'a \<Rightarrow> nat \<times> 'a vector" where
  "vector_alloc ok vc x =
     (case vector_reserve1 ok vc 1 of
        (VECTOR_ERROR, vc') \<Rightarrow> (ULONG_MAX, vc')
      | (_, vc') \<Rightarrow> (vc_len vc', vc'\<lparr>vc_elems := vc_elems vc' @ [x]\<rparr>))"

definition vector_copy :: "(nat \<Rightarrow> bool) \<Rightarrow> 'a vector \<Rightarrow> 'a vector option" where
  "vector_copy ok src =
     (case vector_init_impl ok (vc_type src) (vc_stride src) of
        None \<Rightarrow> None
      | Some dst \<Rightarrow>
          (case vector_reserve ok dst (vc_len src) of
             (True, _) \<Rightarrow> None
           | (False, dst') \<Rightarrow> Some (dst'\<lparr>vc_elems := vc_elems src\<rparr>)))"

definition vector_pop :: "'a vector \<Rightarrow> nat \<times> 'a vector" where
  "vector_pop vc =
     (if vc_len vc = 0 then (ULONG_MAX, vc)
      else (vc_len vc - 1, vc\<lparr>vc_elems := butlast (vc_elems vc)\<rparr>))"

text \<open>\<open>VECTOR_POP\<close>: NULL, or a pointer to the element that was the last one.\<close>

definition VECTOR_POP :: "'a vector \<Rightarrow> 'a option \<times> 'a vector" where
  "VECTOR_POP vc =
     (case vector_pop vc of (i, vc') \<Rightarrow>
        (if i = ULONG_MAX then None else Some (vc_elems vc ! i), vc'))"

definition vector_clear :: "'a vector \<Rightarrow> 'a vector" where
  "vector_clear vc = vc\<lparr>vc_elems := []\<rparr>"

definition vector_sort :: "'a vector \<Rightarrow> ('a \<Rightarrow> 'a \<Rightarrow> int) \<Rightarrow> 'a vector" where
  "vector_sort vc cmp =
     (if vc_len vc > 0 then vc\<lparr>vc_elems := c_qsort cmp (vc_elems vc)\<rparr> else vc)"

definition vector_first :: "'a vector \<Rightarrow> nat" where
  "vector_first vc = (if vc_len vc = 0 then ULONG_MAX else 0)"

definition vector_last :: "'a vector \<Rightarrow> nat" where
  "vector_last vc = (if vc_len vc = 0 then ULONG_MAX else vc_len vc - 1)"

text \<open>Afterwards the caller's pointer is NULL.\<close>

definition vector_free :: "'a vector option \<Rightarrow> 'a vector option" where
  "vector_free vc = None"

section \<open>Invariant and refinement\<close>

definition vector_wf :: "'a vector \<Rightarrow> bool" where
  "vector_wf v \<longleftrightarrow>
     0 < vc_stride v \<and> vc_len v \<le> vc_siz v \<and>
     vc_siz v * vc_stride v + vector_header \<le> ULONG_MAX \<and>
     (vc_siz v = 0 \<or> (\<exists>k. vc_siz v = 16 * 2 ^ k))"

lemma vector_wf_len: "vector_wf v \<Longrightarrow> vc_len v < ULONG_MAX"
  using le_mult_pos [of "vc_stride v" "vc_siz v"]
  unfolding vector_wf_def vector_header_def by linarith

lemma vector_init_wf:
  "vector_init_impl ok t stride = Some v \<Longrightarrow> 0 < stride \<Longrightarrow> vector_wf v \<and> vc_elems v = []"
  by (auto simp: vector_init_impl_def vector_wf_def vector_header_def split: if_splits)

lemma vector_reserve1_elems:
  "vector_reserve1 ok v n = (e, v') \<Longrightarrow>
   vc_elems v' = vc_elems v \<and> vc_stride v' = vc_stride v \<and> (e = VECTOR_ERROR \<longrightarrow> v' = v)"
  by (auto simp: vector_reserve1_def split: if_splits option.splits)

lemma vector_reserve1_wf:
  assumes "vector_wf v" "vector_reserve1 ok v n = (e, v')"
  shows "vector_wf v'" "e \<noteq> VECTOR_ERROR \<Longrightarrow> vc_len v + n \<le> vc_siz v'"
proof -
  let ?start = "if vc_siz v \<noteq> 0 then vc_siz v else 16"
  have "vector_wf v' \<and> (e \<noteq> VECTOR_ERROR \<longrightarrow> vc_len v + n \<le> vc_siz v')"
  proof (cases "e = VECTOR_REALLOCATED")
    case True
    then obtain m where m: "double_until ?start (vc_len v + n) = Some m"
      and v': "v' = v\<lparr>vc_siz := m\<rparr>"
      and fits: "m * vc_stride v \<le> ULONG_MAX - vector_header"
      using assms(2) unfolding vector_reserve1_def
      by (auto split: if_splits option.splits simp: not_less)
    have start: "\<exists>j. ?start = 16 * 2 ^ j"
      using assms(1) by (auto simp: vector_wf_def intro: exI [of _ 0])
    then obtain j where j: "?start = 16 * 2 ^ j" by blast
    have "0 < ?start" by simp
    from double_until_Some [OF m this] obtain k where
      "vc_len v + n \<le> m" "m = ?start * 2 ^ k" by blast
    moreover from this j have "m = 16 * 2 ^ (j + k)"
      by (simp add: power_add)
    then have "m = 0 \<or> (\<exists>k. m = 16 * 2 ^ k)" by blast
    moreover have "vc_stride v > 0" "vector_header \<le> ULONG_MAX"
      using assms(1) by (simp_all add: vector_wf_def vector_header_def)
    ultimately show ?thesis
      using fits unfolding v' vector_wf_def by simp
  next
    case False
    then show ?thesis
      using assms by (auto simp: vector_reserve1_def split: if_splits option.splits)
  qed
  then show "vector_wf v'" "e \<noteq> VECTOR_ERROR \<Longrightarrow> vc_len v + n \<le> vc_siz v'" by blast+
qed

lemma vector_alloc_cases:
  assumes "vector_wf v" "vector_alloc ok v x = (i, v')"
  shows "(i = ULONG_MAX \<and> v' = v) \<or>
    (i = vc_len v \<and> vc_elems v' = vc_elems v @ [x] \<and> vector_wf v' \<and> vc_stride v' = vc_stride v)"
proof -
  obtain e w where r: "vector_reserve1 ok v 1 = (e, w)" by (cases "vector_reserve1 ok v 1")
  note elems = vector_reserve1_elems [OF r]
  show ?thesis
  proof (cases "e = VECTOR_ERROR")
    case True
    with assms(2) r elems show ?thesis by (simp add: vector_alloc_def)
  next
    case False
    with assms(2) r have v': "v' = w\<lparr>vc_elems := vc_elems w @ [x]\<rparr>" and i: "i = vc_len w"
      by (cases e; simp add: vector_alloc_def)+
    have "vector_wf v'"
      using vector_reserve1_wf [OF assms(1) r] False elems unfolding v'
      by (simp add: vector_wf_def)
    with i v' elems show ?thesis by simp
  qed
qed

lemma VECTOR_POP_eq:
  assumes "vector_wf v"
  shows "VECTOR_POP v =
    (if vc_elems v = [] then None else Some (last (vc_elems v)),
     v\<lparr>vc_elems := butlast (vc_elems v)\<rparr>)"
  using vector_wf_len [OF assms]
  by (auto simp: VECTOR_POP_def vector_pop_def last_conv_nth)

lemma vector_pop_wf: "vector_wf v \<Longrightarrow> vector_wf (snd (vector_pop v))"
  by (auto simp: vector_pop_def vector_wf_def)

section \<open>The interface the components use\<close>

text \<open>
  A stack of elements: what a component may assume of the vectors it appends to with
  \<open>VECTOR_ALLOC\<close> and drains with \<open>VECTOR_POP\<close>.
\<close>

locale element_stack =
  fixes elems :: "'v \<Rightarrow> 'a list"
    and wf :: "'v \<Rightarrow> bool"
    and push :: "'v \<Rightarrow> 'a \<Rightarrow> 'v option"
    and pop :: "'v \<Rightarrow> 'a option \<times> 'v"
  assumes push_elems: "wf v \<Longrightarrow> push v x = Some v' \<Longrightarrow> wf v' \<and> elems v' = elems v @ [x]"
    and pop_empty: "wf v \<Longrightarrow> elems v = [] \<Longrightarrow> fst (pop v) = None"
    and pop_last: "wf v \<Longrightarrow> elems v \<noteq> [] \<Longrightarrow> fst (pop v) = Some (last (elems v))"
    and pop_rest: "wf v \<Longrightarrow> wf (snd (pop v)) \<and> elems (snd (pop v)) = butlast (elems v)"
begin

lemma push_pop: "wf v \<Longrightarrow> push v x = Some v' \<Longrightarrow>
  fst (pop v') = Some x \<and> elems (snd (pop v')) = elems v"
  by (simp add: push_elems pop_last pop_rest)

text \<open>Popping until NULL, as the walks of the program do, visits the elements from last to
  first.\<close>

fun walk :: "nat \<Rightarrow> 'v \<Rightarrow> 'a list" where
  "walk 0 v = []"
| "walk (Suc n) v =
     (case pop v of (None, _) \<Rightarrow> [] | (Some x, v') \<Rightarrow> x # walk n v')"

lemma walk_rev: "wf v \<Longrightarrow> length (elems v) \<le> n \<Longrightarrow> walk n v = rev (elems v)"
proof (induction n arbitrary: v)
  case (Suc n)
  obtain o' v' where p: "pop v = (o', v')" by (cases "pop v")
  show ?case
  proof (cases "elems v = []")
    case True
    with pop_empty [OF Suc.prems(1)] p show ?thesis by simp
  next
    case False
    have "walk n v' = rev (butlast (elems v))"
      using Suc.IH [of v'] pop_rest [OF Suc.prems(1)] Suc.prems(2) p by simp
    with pop_last [OF Suc.prems(1) False] p False show ?thesis
      by (cases "elems v" rule: rev_cases) auto
  qed
qed simp

fun push_all :: "'v \<Rightarrow> 'a list \<Rightarrow> 'v option" where
  "push_all v [] = Some v"
| "push_all v (x # xs) = (case push v x of None \<Rightarrow> None | Some v' \<Rightarrow> push_all v' xs)"

lemma push_all_elems: "wf v \<Longrightarrow> push_all v xs = Some v' \<Longrightarrow> wf v' \<and> elems v' = elems v @ xs"
  by (induction xs arbitrary: v) (auto dest: push_elems split: option.splits)

end

definition VECTOR_PUSH :: "(nat \<Rightarrow> bool) \<Rightarrow> 'a vector \<Rightarrow> 'a \<Rightarrow> 'a vector option" where
  "VECTOR_PUSH ok v x =
     (case vector_alloc ok v x of (i, v') \<Rightarrow> if i = ULONG_MAX then None else Some v')"

interpretation vec: element_stack vc_elems vector_wf "VECTOR_PUSH ok" VECTOR_POP for ok
proof
  fix v v' :: "'a vector" and x
  assume wf: "vector_wf v"
  show "VECTOR_PUSH ok v x = Some v' \<Longrightarrow> vector_wf v' \<and> vc_elems v' = vc_elems v @ [x]"
    using vector_alloc_cases [OF wf, of ok x] by (auto simp: VECTOR_PUSH_def split: if_splits prod.splits)
  show "vc_elems v = [] \<Longrightarrow> fst (VECTOR_POP v) = None"
    "vc_elems v \<noteq> [] \<Longrightarrow> fst (VECTOR_POP v) = Some (last (vc_elems v))"
    by (simp_all add: VECTOR_POP_eq [OF wf])
  show "vector_wf (snd (VECTOR_POP v)) \<and> vc_elems (snd (VECTOR_POP v)) = butlast (vc_elems v)"
    using vector_pop_wf [OF wf]
    by (simp add: VECTOR_POP_eq [OF wf] VECTOR_POP_def vector_pop_def vector_wf_def split: if_splits)
qed

section \<open>Properties\<close>

text \<open> An allocation in a well-formed vector either fails and leaves the vector as it was, or
  returns the index one past the old elements, keeps all of these, and leaves a well-formed vector
  (elements within the capacity, the whole object within \<open>size_t\<close>).\<close>

lemma vector_alloc_refines_append:
  assumes "vector_wf v"
  shows "(case vector_alloc ok v x of (i, v') \<Rightarrow>
     if i = ULONG_MAX then v' = v
     else i = vc_len v \<and> vc_elems v' = vc_elems v @ [x] \<and> vector_wf v')"
  using vector_alloc_cases [OF assms, of ok x] vector_wf_len [OF assms]
  by (auto split: prod.splits)

theorem vector_alloc_refines_append_witness:
  "vector_wf \<lparr>vc_siz = 16, vc_elems = [7 :: nat], vc_stride = 8, vc_type = VECTOR_DEFAULT\<rparr> \<and>
   (case vector_alloc (\<lambda>_. True)
      \<lparr>vc_siz = 16, vc_elems = [7 :: nat], vc_stride = 8, vc_type = VECTOR_DEFAULT\<rparr> 9 of (i, v') \<Rightarrow>
     if i = ULONG_MAX
     then v' = \<lparr>vc_siz = 16, vc_elems = [7 :: nat], vc_stride = 8, vc_type = VECTOR_DEFAULT\<rparr>
     else i = 1 \<and> vc_elems v' = [7, 9] \<and> vector_wf v')"
proof -
  let ?v = "\<lparr>vc_siz = 16, vc_elems = [7 :: nat], vc_stride = 8, vc_type = VECTOR_DEFAULT\<rparr>"
  have "vector_wf ?v" by (auto simp: vector_wf_def vector_header_def intro: exI [of _ 0])
  then show ?thesis using vector_alloc_refines_append [where v = ?v and ok = "\<lambda>_. True" and x = 9]
    by (auto split: prod.splits)
qed

text \<open>While the allocator serves every request, allocations succeed and the capacity stays
  below 16 or twice the number of elements, as long as the doubled need fits in \<open>size_t\<close>.\<close>

lemma vector_growth_bound:
  assumes "vector_wf v" and "\<And>n. ok n"
    and "(2 * (vc_len v + 1) + 16) * vc_stride v + vector_header \<le> ULONG_MAX"
    and "vc_siz v \<le> max 16 (2 * vc_len v)"
  shows "fst (vector_alloc ok v x) = vc_len v \<and>
    vc_siz (snd (vector_alloc ok v x)) \<le> max 16 (2 * vc_len (snd (vector_alloc ok v x)))"
proof -
  let ?need = "vc_len v + 1" and ?start = "if vc_siz v \<noteq> 0 then vc_siz v else 16"
  have stride: "0 < vc_stride v" using assms(1) by (simp add: vector_wf_def)
  have mono: "a * vc_stride v + vector_header \<le> ULONG_MAX" if "a \<le> 2 * ?need + 16" for a
    using assms(3) mult_le_mono1 [OF that, of "vc_stride v"] by linarith
  have small: "a \<le> ULONG_MAX - vector_header" if "a \<le> 2 * ?need + 16" for a
    using mono [OF that] le_mult_pos [OF stride, of a] by linarith
  have "?need \<le> ULONG_MAX div 2 + 1"
    using small [of "2 * ?need"] by (simp add: vector_header_def)
  then obtain m where m: "double_until ?start ?need = Some m"
    using double_until_ok [of ?start ?need] by (cases "vc_siz v = 0") auto
  have le: "m \<le> max ?start (2 * ?need)"
    using double_until_Some(3) [OF m] by auto
  with assms(4) have bound: "m \<le> max 16 (2 * ?need)" by (auto split: if_splits)
  then have bound2: "m \<le> 2 * ?need + 16" by auto
  have fit: "m * vc_stride v \<le> ULONG_MAX - vector_header"
    using mono [OF bound2] by linarith
  then have "m \<le> ULONG_MAX div vc_stride v"
    using stride by (simp add: less_eq_div_iff_mult_less_eq)
  moreover have "\<not> ULONG_MAX - 1 < vc_len v"
    using small [of "?need"] by (simp add: vector_header_def)
  ultimately show ?thesis
    using m fit bound assms(2,4)
    by (auto simp: vector_alloc_def vector_reserve1_def not_less)
qed

theorem vector_growth_bound_witness:
  "fst (vector_alloc (\<lambda>_. True)
      \<lparr>vc_siz = 0, vc_elems = [] :: nat list, vc_stride = 8, vc_type = VECTOR_DEFAULT\<rparr> 9) = 0"
proof -
  let ?v = "\<lparr>vc_siz = 0, vc_elems = [] :: nat list, vc_stride = 8, vc_type = VECTOR_DEFAULT\<rparr>"
  have "vector_wf ?v" by (auto simp: vector_wf_def vector_header_def)
  then show ?thesis
    using vector_growth_bound [where v = ?v and ok = "\<lambda>_. True" and x = 9] by (simp add: vector_header_def)
qed

end
