(* ===== verification/ArenaVector.thy ===== *)
theory ArenaVector
  imports Arena Vector
begin

text \<open>
  \<open>libks/arena-vector.c\<close>: vectors whose memory is an object of an arena. The state is the arena and the
  header of the vector; the elements are bytes of the memory behind the header. \<open>None\<close> is the end of
  the program by an allocation that fails, which therefore never returns NULL to the vector.
\<close>

section \<open>State\<close>

record arena_vector =
  av_ptr :: nat
  av_siz :: nat
  av_len :: nat
  av_stride :: nat
  av_type :: vector_type

abbreviation av_bytes :: "arena_vector \<Rightarrow> nat \<Rightarrow> nat" where
  "av_bytes v n \<equiv> vector_header + n * av_stride v"

abbreviation av_slot :: "arena_vector \<Rightarrow> nat \<Rightarrow> nat" where
  "av_slot v i \<equiv> av_ptr v + av_bytes v i"

section \<open>Operations\<close>

definition av_reserve1 ::
  "malloc \<Rightarrow> arena \<Rightarrow> arena_scope \<Rightarrow> arena_vector \<Rightarrow> nat \<Rightarrow> (vector_error \<times> arena_vector \<times> arena) option" where
  "av_reserve1 mem a s v len =
     (if av_len v > ULONG_MAX - len then Some (VECTOR_ERROR, v, a)
      else if av_len v + len \<le> av_siz v then Some (VECTOR_SUCCESS, v, a)
      else
        (case double_until (if av_siz v \<noteq> 0 then av_siz v else 16) (av_len v + len) of
           None \<Rightarrow> Some (VECTOR_ERROR, v, a)
         | Some newsiz \<Rightarrow>
             if newsiz > ULONG_MAX div av_stride v then Some (VECTOR_ERROR, v, a)
             else if newsiz * av_stride v > ULONG_MAX - vector_header then Some (VECTOR_ERROR, v, a)
             else
               map_option (\<lambda>(ptr, a1). (VECTOR_REALLOCATED, v\<lparr>av_ptr := ptr, av_siz := newsiz\<rparr>, a1))
                 (arena_realloc mem a s (av_ptr v) (av_bytes v (av_len v)) (newsiz * av_stride v + vector_header))))"

text \<open>The result of the reservation is not looked at.\<close>

definition arena_vector_init ::
  "malloc \<Rightarrow> arena \<Rightarrow> arena_scope \<Rightarrow> nat \<Rightarrow> nat \<Rightarrow> (arena_vector \<times> arena) option" where
  "arena_vector_init mem a s stride n =
     Option.bind (arena_calloc mem a s 1 vector_header) (\<lambda>(ptr, a1).
       let v = \<lparr>av_ptr = ptr, av_siz = 0, av_len = 0, av_stride = stride, av_type = VECTOR_ARENA\<rparr>
       in if n > 0 then map_option snd (av_reserve1 mem a1 s v n) else Some (v, a1))"

definition av_alloc ::
  "malloc \<Rightarrow> arena \<Rightarrow> arena_scope \<Rightarrow> arena_vector \<Rightarrow> bool \<Rightarrow> (nat \<times> arena_vector \<times> arena) option" where
  "av_alloc mem a s v zero =
     map_option (\<lambda>(e, v1, a1).
         if e = VECTOR_ERROR then (ULONG_MAX, v1, a1)
         else
           (av_len v1, v1\<lparr>av_len := av_len v1 + 1\<rparr>,
            if zero then arena_write (av_slot v1 (av_len v1)) (replicate (av_stride v1) NUL) a1 else a1))
       (av_reserve1 mem a s v 1)"

definition arena_vector_alloc ::
  "malloc \<Rightarrow> arena \<Rightarrow> arena_scope \<Rightarrow> arena_vector \<Rightarrow> (nat \<times> arena_vector \<times> arena) option" where
  "arena_vector_alloc mem a s v = (if av_type v \<noteq> VECTOR_ARENA then None else av_alloc mem a s v False)"

definition arena_vector_calloc ::
  "malloc \<Rightarrow> arena \<Rightarrow> arena_scope \<Rightarrow> arena_vector \<Rightarrow> (nat \<times> arena_vector \<times> arena) option" where
  "arena_vector_calloc mem a s v = (if av_type v \<noteq> VECTOR_ARENA then None else av_alloc mem a s v True)"

text \<open>What callers do: allocate an element and store it through the pointer to it.\<close>

definition arena_vector_push ::
  "malloc \<Rightarrow> arena_scope \<Rightarrow> string \<Rightarrow> arena_vector \<times> arena \<Rightarrow> (arena_vector \<times> arena) option" where
  "arena_vector_push mem s x va =
     Option.bind (arena_vector_alloc mem (snd va) s (fst va)) (\<lambda>(i, v, a).
       if i = ULONG_MAX then None else Some (v, arena_write (av_slot v i) x a))"

fun arena_vector_fill ::
  "malloc \<Rightarrow> arena_scope \<Rightarrow> string list \<Rightarrow> arena_vector \<times> arena \<Rightarrow> (arena_vector \<times> arena) option" where
  "arena_vector_fill mem s [] va = Some va"
| "arena_vector_fill mem s (x # xs) va = Option.bind (arena_vector_push mem s x va) (arena_vector_fill mem s xs)"

section \<open>Abstraction\<close>

definition av_elems :: "arena \<Rightarrow> arena_vector \<Rightarrow> string list" where
  "av_elems a v = map (\<lambda>i. load (ar_mem a) (av_slot v i) (av_stride v)) [0..<av_len v]"

definition av_abs :: "arena \<Rightarrow> arena_vector \<Rightarrow> string vector" where
  "av_abs a v = \<lparr>vc_siz = av_siz v, vc_elems = av_elems a v, vc_stride = av_stride v, vc_type = av_type v\<rparr>"

definition av_wf :: "arena \<Rightarrow> arena_vector \<Rightarrow> bool" where
  "av_wf a v \<longleftrightarrow>
     av_ptr v \<noteq> 0 \<and> in_use a (av_ptr v) (av_bytes v (av_siz v)) \<and> 0 < av_stride v \<and> av_len v \<le> av_siz v"

text \<open>A region of memory that belongs to something else than the vector.\<close>

definition av_clear :: "arena \<Rightarrow> arena_vector \<Rightarrow> nat \<Rightarrow> nat \<Rightarrow> bool" where
  "av_clear a v r k \<longleftrightarrow> 0 < k \<and> in_use a r k \<and> clear_of a r k (av_ptr v) (av_bytes v (av_siz v))"

section \<open>Regions behind the padding\<close>

lemma in_use_small: "arena_wf a \<Longrightarrow> in_use a p n \<Longrightarrow> p + n + 16 \<le> 2 ^ 63"
  by (auto simp: in_use_def arena_wf_def frames_wf_def frame_wf_def)

lemma in_use_mono: "in_use a p n \<Longrightarrow> k \<le> n \<Longrightarrow> in_use a p k"
  by (auto simp: in_use_def)

lemma clear_of_mono:
  assumes "clear_of a r k p n" "m \<le> n" "arena_wf a" "in_use a p n"
  shows "clear_of a r k p m"
proof -
  have "p + n < 2 ^ 63" using in_use_small [OF assms(3,4)] by simp
  then have "align_address a (p + m) \<le> align_address a (p + n)"
    using assms(2,3) by (intro align_address_mono) (simp_all add: arena_wf_def)
  then show ?thesis using assms(1) by (auto simp: clear_of_def)
qed

lemma clear_of_apart:
  assumes "clear_of a r k p n" "p \<noteq> 0" "arena_wf a" "in_use a p n"
  shows "apart r k p n"
proof -
  have "p + n < 2 ^ 63" using in_use_small [OF assms(3,4)] by simp
  then have "p + n \<le> align_address a (p + n)"
    using assms(3) by (intro align_address_bounds) (simp_all add: arena_wf_def)
  then show ?thesis using assms(1,2) by (auto simp: clear_of_def apart_def)
qed

lemma push_top_clear:
  assumes "push_top a n = Some (p, a')" "arena_wf a" "in_use a r k"
  shows "clear_of a r k p n"
proof -
  obtain f f' fs where f: "ar_frame a = f # fs" "p = af_ptr f + af_len f" "af_ptr f' = af_ptr f" "af_size f' = af_size f"
    "af_len f + n \<le> af_len f'" "frame_wf f'" using push_top_Some [OF assms(1,2)] .
  have wf: "frames_wf (f # fs)" using assms(2) f(1) by (simp add: arena_wf_def)
  obtain g where g: "g \<in> set (f # fs)" "af_ptr g + sizeof_frame \<le> r" "r + k \<le> af_ptr g + af_len g"
    using assms(3) f(1) by (auto simp: in_use_def)
  show ?thesis
  proof (cases "g = f")
    case True
    then show ?thesis using g(3) f(2) by (simp add: clear_of_def)
  next
    case False
    then have apart: "frames_apart f g" "frame_wf g" "frame_wf f" using g(1) wf by (auto simp: frames_wf_def)
    have top: "p + n \<le> af_ptr f + af_size f" using f(2-6) by (auto simp: frame_wf_def)
    have "p + n < 2 ^ 63" using top apart(3) by (auto simp: frame_wf_def)
    then have "align_address a (p + n) \<le> p + n + 15"
      using assms(2) by (intro align_address_bounds) (simp_all add: arena_wf_def)
    then show ?thesis using apart g top f(2) by (auto simp: clear_of_def frames_apart_def frame_wf_def)
  qed
qed

lemma same_base_clear:
  assumes "same_base a b"
  shows "clear_of b r k p n = clear_of a r k p n"
proof -
  have "ar_poison b = ar_poison a" using assms by (simp add: same_base_def)
  then have "align_address b (p + n) = align_address a (p + n)" by (simp only: align_address_def)
  then show ?thesis by (simp only: clear_of_def)
qed

lemma arena_malloc_clear:
  assumes "arena_malloc mem a s n = Some (p, a')" "malloc_ok mem" "arena_wf a" "in_use a r k"
  shows "clear_of a r k p n"
  using assms(1)
proof (cases rule: arena_malloc_cases)
  case 1
  then show ?thesis using push_top_clear assms(3,4) by blast
next
  case (2 a1 frame_size)
  note new = arena_frame_alloc_safe [OF 2(2) assms(2,3)]
  have "clear_of a1 r k p n" by (rule push_top_clear [OF 2(3) new(1) new(2) [OF assms(4)]])
  then show ?thesis using same_base_clear [OF new(3)] by simp
qed

lemma arena_realloc_clear:
  assumes "arena_realloc mem a s ptr m n = Some (q, a')" "malloc_ok mem" "arena_wf a" "valid_object a ptr m"
    and r: "in_use a r k" "clear_of a r k ptr m" "0 < k"
  shows "clear_of a r k q n"
  using assms(1)
proof (cases rule: arena_realloc_cases)
  case 1
  then have use: "in_use a ptr m" using assms(4) by (simp add: valid_object_def)
  show ?thesis
  proof (rule realloc_fast_cases [OF 1(2) assms(3) use])
    assume "n \<le> m"
    then show ?thesis using clear_of_mono [OF r(2) _ assms(3) use] 1(3) by simp
  next
    fix f fs f'
    assume f: "ar_frame a = f # fs" "af_ptr f + sizeof_frame \<le> ptr" "align_address a (ptr + m) = af_ptr f + af_len f"
      "ptr + n \<le> af_ptr f' + af_len f'" "af_ptr f' = af_ptr f" "af_size f' = af_size f" "frame_wf f'"
    have wf: "frames_wf (f # fs)" using assms(3) f(1) by (simp add: arena_wf_def)
    obtain g where g: "g \<in> set (f # fs)" "af_ptr g + sizeof_frame \<le> r" "r + k \<le> af_ptr g + af_len g"
      using r(1) f(1) by (auto simp: in_use_def)
    show ?thesis
    proof (cases "g = f")
      case True
      then show ?thesis using r(2,3) g(3) f(3) 1(1,3) by (auto simp: clear_of_def)
    next
      case False
      then have apart: "frames_apart f g" "frame_wf g" "frame_wf f" using g(1) wf by (auto simp: frames_wf_def)
      have top: "ptr + n \<le> af_ptr f + af_size f" using f(4-7) by (auto simp: frame_wf_def)
      have "ptr + n < 2 ^ 63" using top apart(3) by (auto simp: frame_wf_def)
      then have "align_address a (ptr + n) \<le> ptr + n + 15"
        using assms(3) by (intro align_address_bounds) (simp_all add: arena_wf_def)
      then show ?thesis using apart g top f(2) 1(3) by (auto simp: clear_of_def frames_apart_def frame_wf_def)
    qed
  qed
next
  case (2 a1)
  then show ?thesis using arena_malloc_clear [OF 2(3) assms(2,3) r(1)] by simp
next
  case 3
  then show ?thesis using arena_malloc_clear [OF 3(2) assms(2,3) r(1)] by simp
qed


section \<open>Growing\<close>

text \<open>What an operation on the vector must keep of the rest of the arena.\<close>

definition av_keeps :: "arena \<Rightarrow> arena_vector \<Rightarrow> arena \<Rightarrow> arena_vector \<Rightarrow> bool" where
  "av_keeps a v a' v' \<longleftrightarrow>
     arena_wf a' \<and> av_wf a' v' \<and> av_stride v' = av_stride v \<and> av_type v' = av_type v \<and>
     (\<forall>r k. av_clear a v r k \<longrightarrow> av_clear a' v' r k \<and> load (ar_mem a') r k = load (ar_mem a) r k)"

lemma av_keeps_refl: "arena_wf a \<Longrightarrow> av_wf a v \<Longrightarrow> av_keeps a v a v"
  by (simp add: av_keeps_def)

lemma av_keeps_trans: "av_keeps a v b w \<Longrightarrow> av_keeps b w c x \<Longrightarrow> av_keeps a v c x"
  by (simp add: av_keeps_def)

lemma load_load: "k + off \<le> n \<Longrightarrow> load m p n = load m' q n \<Longrightarrow> load m (p + off) k = load m' (q + off) k"
proof -
  have e: "load m (p + off) k = take k (drop off (load m p n))" if "k + off \<le> n" for m p
    using that by (intro nth_equalityI) (simp_all add: load_def add.assoc)
  show "k + off \<le> n \<Longrightarrow> load m p n = load m' q n \<Longrightarrow> load m (p + off) k = load m' (q + off) k"
    by (simp add: e)
qed

lemma slot_end: "i < n \<Longrightarrow> n \<le> m \<Longrightarrow> i * c + c \<le> m * (c::nat)"
proof -
  assume "i < n" "n \<le> m"
  then have "(i + 1) * c \<le> m * c" by (intro mult_le_mono1) simp
  then show ?thesis by simp
qed

lemma av_elems_moved:
  assumes "load (ar_mem a') q (av_bytes v (av_len v)) = load (ar_mem a) (av_ptr v) (av_bytes v (av_len v))"
  shows "av_elems a' (v\<lparr>av_ptr := q, av_siz := n\<rparr>) = av_elems a v"
proof -
  have "load (ar_mem a') (q + av_bytes v i) (av_stride v) = load (ar_mem a) (av_slot v i) (av_stride v)"
    if "i < av_len v" for i
    using slot_end [OF that, of "av_len v" "av_stride v"] by (intro load_load [OF _ assms]) simp
  then show ?thesis by (simp add: av_elems_def)
qed

lemma av_reserve1_refines:
  assumes "av_reserve1 mem a s v len = Some (e, v', a')" "malloc_ok mem" "arena_wf a" "av_wf a v"
  shows "av_keeps a v a' v'" "vector_reserve1 (\<lambda>_. True) (av_abs a v) len = (e, av_abs a' v')"
    "av_len v' = av_len v" "e \<noteq> VECTOR_ERROR \<Longrightarrow> av_len v + len \<le> av_siz v'"
proof -
  have len: "vc_len (av_abs a v) = av_len v" by (simp add: av_abs_def av_elems_def)
  have fields: "vc_siz (av_abs a v) = av_siz v" "vc_stride (av_abs a v) = av_stride v" by (simp_all add: av_abs_def)
  note abs = vector_reserve1_def [of "\<lambda>_. True" "av_abs a v" len, unfolded len fields]
  have "av_keeps a v a' v' \<and> vector_reserve1 (\<lambda>_. True) (av_abs a v) len = (e, av_abs a' v') \<and> av_len v' = av_len v \<and>
    (e \<noteq> VECTOR_ERROR \<longrightarrow> av_len v + len \<le> av_siz v')"
  proof (cases "e = VECTOR_REALLOCATED")
    case False
    then have "v' = v \<and> a' = a \<and> vector_reserve1 (\<lambda>_. True) (av_abs a v) len = (e, av_abs a v) \<and>
        (e \<noteq> VECTOR_ERROR \<longrightarrow> av_len v + len \<le> av_siz v)"
      using assms(1) unfolding abs by (auto simp: av_reserve1_def split: if_splits option.splits)
    then show ?thesis using av_keeps_refl [OF assms(3,4)] by simp
  next
    case True
    let ?start = "if av_siz v \<noteq> 0 then av_siz v else 16"
    obtain newsiz q where n: "\<not> av_len v > ULONG_MAX - len" "\<not> av_len v + len \<le> av_siz v"
      "double_until ?start (av_len v + len) = Some newsiz" "\<not> newsiz > ULONG_MAX div av_stride v"
      "\<not> newsiz * av_stride v > ULONG_MAX - vector_header"
      and re: "arena_realloc mem a s (av_ptr v) (av_bytes v (av_len v)) (newsiz * av_stride v + vector_header) = Some (q, a')"
      and v': "v' = v\<lparr>av_ptr := q, av_siz := newsiz\<rparr>"
      using assms(1) True by (auto simp: av_reserve1_def split: if_splits option.splits)
    have wf: "av_ptr v \<noteq> 0" "in_use a (av_ptr v) (av_bytes v (av_siz v))" "0 < av_stride v" "av_len v \<le> av_siz v"
      using assms(4) by (simp_all add: av_wf_def)
    have old: "av_bytes v (av_len v) \<le> av_bytes v (av_siz v)" using wf(4) by (simp add: mult_le_mono1)
    then have valid: "valid_object a (av_ptr v) (av_bytes v (av_len v))"
      using wf(2) in_use_mono by (simp add: valid_object_def)
    have "0 < ?start" by simp
    from double_until_Some(1) [OF n(3) this] have grown: "av_len v + len \<le> newsiz" .
    note re_facts = arena_realloc_lemmas [OF re assms(2,3) valid]
    note re_clear = arena_realloc_clear [OF re assms(2,3) valid]
    have q: "q \<noteq> 0" using re_facts(1,2) by (auto simp: in_use_def)
    have wf': "av_wf a' v'"
      using re_facts(2) q wf(3) grown by (simp add: av_wf_def v' add.commute)
    have elems: "av_elems a' v' = av_elems a v"
      unfolding v' by (rule av_elems_moved) (rule re_facts(6) [OF wf(1) order_refl])
    have "av_clear a' v' r k \<and> load (ar_mem a') r k = load (ar_mem a) r k" if "av_clear a v r k" for r k
    proof -
      have r: "0 < k" "in_use a r k" "clear_of a r k (av_ptr v) (av_bytes v (av_siz v))"
        using that by (simp_all add: av_clear_def)
      have c: "clear_of a r k (av_ptr v) (av_bytes v (av_len v))" by (rule clear_of_mono [OF r(3) old assms(3) wf(2)])
      show ?thesis
        using re_facts(4) [OF r(2)] re_facts(5) [OF r(2) c r(1)] re_clear [OF r(2) c r(1)] r(1)
          same_base_clear [OF re_facts(3)]
        by (simp add: av_clear_def v' add.commute)
    qed
    then have "av_keeps a v a' v'" using re_facts(1) wf' by (simp add: av_keeps_def v')
    moreover have "vector_reserve1 (\<lambda>_. True) (av_abs a v) len = (e, av_abs a' v')"
      unfolding abs using n True elems by (simp add: av_abs_def v')
    ultimately show ?thesis using grown by (simp add: v')
  qed
  then show "av_keeps a v a' v'" "vector_reserve1 (\<lambda>_. True) (av_abs a v) len = (e, av_abs a' v')"
    "av_len v' = av_len v" "e \<noteq> VECTOR_ERROR \<Longrightarrow> av_len v + len \<le> av_siz v'" by blast+
qed


section \<open>Appending\<close>

text \<open>Storing an element behind the others.\<close>

lemma av_store:
  assumes "arena_wf a" "av_wf a v" "length x = av_stride v" "av_len v + 1 \<le> av_siz v"
  shows "av_keeps a v (arena_write (av_slot v (av_len v)) x a) (v\<lparr>av_len := av_len v + 1\<rparr>)"
    "av_elems (arena_write (av_slot v (av_len v)) x a) (v\<lparr>av_len := av_len v + 1\<rparr>) = av_elems a v @ [x]"
proof -
  let ?a = "arena_write (av_slot v (av_len v)) x a" and ?v = "v\<lparr>av_len := av_len v + 1\<rparr>"
  have wf: "av_ptr v \<noteq> 0" "in_use a (av_ptr v) (av_bytes v (av_siz v))" using assms(2) by (simp_all add: av_wf_def)
  have fits: "av_len v * av_stride v + av_stride v \<le> av_siz v * av_stride v"
    using slot_end [of "av_len v" "av_siz v"] assms(4) by simp
  have "av_clear ?a ?v r k \<and> load (ar_mem ?a) r k = load (ar_mem a) r k" if c: "av_clear a v r k" for r k
  proof -
    have r: "in_use a r k" "clear_of a r k (av_ptr v) (av_bytes v (av_siz v))" using c by (simp_all add: av_clear_def)
    have "apart r k (av_ptr v) (av_bytes v (av_siz v))" by (rule clear_of_apart [OF r(2) wf(1) assms(1) wf(2)])
    then have "apart r k (av_slot v (av_len v)) (length x)" using fits assms(3) by (auto simp: apart_def)
    then have "load (ar_mem ?a) r k = load (ar_mem a) r k" by (simp add: load_store_apart)
    moreover have "same_base a a" by (simp add: same_base_def)
    then have "same_base a ?a" by simp
    ultimately show ?thesis using c same_base_clear [of a ?a] by (simp add: av_clear_def)
  qed
  then show "av_keeps a v ?a ?v" using assms by (simp add: av_keeps_def av_wf_def)
  have "load (ar_mem ?a) (av_slot v i) (av_stride v) = load (ar_mem a) (av_slot v i) (av_stride v)" if "i < av_len v" for i
    using slot_end [OF that, of "av_len v" "av_stride v"] by (simp add: load_store_apart apart_def)
  then show "av_elems ?a ?v = av_elems a v @ [x]" using assms(3) by (simp add: av_elems_def load_store)
qed

lemma av_keeps_len: "av_keeps a v b w \<Longrightarrow> av_stride w = av_stride v"
  by (simp add: av_keeps_def)

lemma av_keepsD: "av_keeps a v b w \<Longrightarrow> arena_wf b \<and> av_wf b w"
  by (simp add: av_keeps_def)

lemma arena_vector_push_lemma:
  assumes "arena_vector_push mem s x (v, a) = Some (v', a')" "malloc_ok mem" "arena_wf a" "av_wf a v"
    "length x = av_stride v"
  shows "av_keeps a v a' v'" "vector_alloc (\<lambda>_. True) (av_abs a v) x = (av_len v, av_abs a' v')"
    "av_elems a' v' = av_elems a v @ [x]"
proof -
  obtain i w b where alloc: "av_alloc mem a s v False = Some (i, w, b)" "i \<noteq> ULONG_MAX"
    "v' = w" "a' = arena_write (av_slot w i) x b"
    using assms(1) by (auto simp: arena_vector_push_def arena_vector_alloc_def bind_eq_Some_conv split: if_splits)
  then obtain e u where u: "av_reserve1 mem a s v 1 = Some (e, u, b)" "e \<noteq> VECTOR_ERROR" "i = av_len u"
    "w = u\<lparr>av_len := av_len u + 1\<rparr>"
    by (auto simp: av_alloc_def split: if_splits)
  note re = av_reserve1_refines [OF u(1) assms(2-4)]
  have wf: "arena_wf b" "av_wf b u" "length x = av_stride u"
    using av_keepsD [OF re(1)] av_keeps_len [OF re(1)] assms(5) by simp_all
  have "av_len u + 1 \<le> av_siz u" using re(3) re(4) [OF u(2)] by simp
  note st = av_store [OF wf this]
  have v': "v' = u\<lparr>av_len := av_len u + 1\<rparr>" and a': "a' = arena_write (av_slot u (av_len u)) x b"
    using alloc(3,4) u(3,4) by simp_all
  show "av_keeps a v a' v'" unfolding v' a' by (rule av_keeps_trans [OF re(1) st(1)])
  have elems: "av_elems a' v' = av_elems b u @ [x]" unfolding v' a' by (rule st(2))
  have same: "av_elems b u = av_elems a v"
    using vector_reserve1_elems [OF re(2)] by (simp add: av_abs_def)
  then show "av_elems a' v' = av_elems a v @ [x]" using elems by simp
  have "vc_len (av_abs b u) = av_len v" using re(3) by (simp add: av_abs_def av_elems_def)
  then show "vector_alloc (\<lambda>_. True) (av_abs a v) x = (av_len v, av_abs a' v')"
    using re(2) u(2) elems by (cases e) (simp_all add: vector_alloc_def av_abs_def v')
qed

lemma arena_vector_fill_lemma:
  assumes "malloc_ok mem"
  shows "arena_vector_fill mem s xs (v, a) = Some (v', a') \<Longrightarrow> arena_wf a \<Longrightarrow> av_wf a v \<Longrightarrow>
    \<forall>x \<in> set xs. length x = av_stride v \<Longrightarrow> av_keeps a v a' v' \<and> av_elems a' v' = av_elems a v @ xs"
proof (induction xs arbitrary: v a)
  case Nil
  then show ?case by (simp add: av_keeps_refl)
next
  case (Cons x xs)
  obtain w b where w: "arena_vector_push mem s x (v, a) = Some (w, b)" "arena_vector_fill mem s xs (w, b) = Some (v', a')"
    using Cons.prems(1) by (auto simp: bind_eq_Some_conv)
  have "length x = av_stride v" using Cons.prems(4) by simp
  note push = arena_vector_push_lemma [OF w(1) assms Cons.prems(2,3) this]
  have "\<forall>x \<in> set xs. length x = av_stride w" using Cons.prems(4) av_keeps_len [OF push(1)] by simp
  then have "av_keeps b w a' v' \<and> av_elems a' v' = av_elems b w @ xs"
    using Cons.IH [OF w(2)] av_keepsD [OF push(1)] by simp
  then show ?case using av_keeps_trans [OF push(1)] push(3) by simp
qed

text \<open>A new vector is empty and overlaps nothing.\<close>

lemma arena_vector_init_lemma:
  assumes "arena_vector_init mem a s stride n = Some (v, a')" "malloc_ok mem" "arena_wf a" "0 < stride"
  shows "arena_wf a'" "av_wf a' v" "av_elems a' v = []" "av_type v = VECTOR_ARENA" "av_stride v = stride"
    "in_use a r k \<Longrightarrow> 0 < k \<Longrightarrow> av_clear a' v r k \<and> load (ar_mem a') r k = load (ar_mem a) r k"
proof -
  obtain ptr b where calloc: "arena_calloc mem a s 1 vector_header = Some (ptr, b)"
    using assms(1) by (auto simp: arena_vector_init_def bind_eq_Some_conv)
  then obtain b0 where b0: "arena_malloc mem a s vector_header = Some (ptr, b0)"
    "b = arena_write ptr (replicate vector_header NUL) b0"
    by (auto simp: arena_calloc_def size_mul_overflow_def vector_header_def)
  note new = arena_malloc_lemmas [OF b0(1) assms(2,3)]
  define u where "u = \<lparr>av_ptr = ptr, av_siz = 0, av_len = 0, av_stride = stride, av_type = VECTOR_ARENA\<rparr>"
  have wf: "arena_wf b" "av_wf b u" using new(1,2) assms(4) b0(2) by (auto simp: av_wf_def u_def in_use_def)
  have clear: "av_clear b u r k \<and> load (ar_mem b) r k = load (ar_mem a) r k" if "in_use a r k" "0 < k" for r k
  proof -
    have "clear_of a r k ptr vector_header" by (rule arena_malloc_clear [OF b0(1) assms(2,3) that(1)])
    moreover have "same_base a b" using new(5) b0(2) by simp
    moreover have "load (ar_mem b) r k = load (ar_mem a) r k"
      using new(4) [OF that(1)] new(6) b0(2) by (simp add: load_store_apart)
    ultimately show ?thesis using that new(4) [OF that(1)] same_base_clear [of a b] b0(2) by (simp add: av_clear_def u_def)
  qed
  have "(if n > 0 then map_option snd (av_reserve1 mem b s u n) else Some (u, b)) = Some (v, a')"
    using assms(1) calloc unfolding u_def by (auto simp: arena_vector_init_def split: if_splits)
  then have "(n = 0 \<and> v = u \<and> a' = b) \<or> (\<exists>e. av_reserve1 mem b s u n = Some (e, v, a'))"
    by (auto split: if_splits)
  then have "av_keeps b u a' v \<and> av_len v = 0"
    using av_keeps_refl [OF wf] av_reserve1_refines(1,3) [OF _ assms(2) wf] by (auto simp: u_def)
  then have keeps: "av_keeps b u a' v" "av_len v = 0" by simp_all
  then show "arena_wf a'" "av_wf a' v" "av_elems a' v = []" "av_type v = VECTOR_ARENA" "av_stride v = stride"
    by (simp_all add: av_keeps_def av_elems_def u_def)
  show "in_use a r k \<Longrightarrow> 0 < k \<Longrightarrow> av_clear a' v r k \<and> load (ar_mem a') r k = load (ar_mem a) r k"
    using clear [of r k] keeps(1) by (simp add: av_keeps_def)
qed


section \<open>Properties\<close>

text \<open>C22: appending to a vector in an arena is appending to the list of its elements, wherever the vector moves, and other objects of the arena keep their contents and do not overlap it.\<close>

theorem arena_vector_push_refines:
  assumes "arena_vector_push mem s x (v, a) = Some (v', a')" "malloc_ok mem" "arena_wf a" "av_wf a v"
    "length x = av_stride v"
  shows "vector_alloc (\<lambda>_. True) (av_abs a v) x = (av_len v, av_abs a' v') \<and>
    av_elems a' v' = av_elems a v @ [x] \<and> arena_wf a' \<and> av_wf a' v' \<and>
    (\<forall>r k. av_clear a v r k \<longrightarrow> av_clear a' v' r k \<and> load (ar_mem a') r k = load (ar_mem a) r k)"
  using arena_vector_push_lemma [OF assms] by (simp add: av_keeps_def)

text \<open>A vector that is filled from the start.\<close>

lemma arena_vector_collects:
  assumes "arena_vector_init mem a s stride n = Some (v, b)" "arena_vector_fill mem s xs (v, b) = Some (w, c)"
    "malloc_ok mem" "arena_wf a" "0 < stride" "\<forall>x \<in> set xs. length x = stride"
  shows "av_elems c w = xs" "arena_wf c" "av_wf c w"
    "in_use a r k \<Longrightarrow> 0 < k \<Longrightarrow> av_clear c w r k \<and> load (ar_mem c) r k = load (ar_mem a) r k"
proof -
  note init = arena_vector_init_lemma [OF assms(1,3-5)]
  have "\<forall>x \<in> set xs. length x = av_stride v" using assms(6) init(5) by simp
  from arena_vector_fill_lemma [OF assms(3,2) init(1,2) this]
  have fill: "av_keeps b v c w" "av_elems c w = xs" using init(3) by simp_all
  then show "av_elems c w = xs" "arena_wf c" "av_wf c w" by (simp_all add: av_keeps_def)
  show "in_use a r k \<Longrightarrow> 0 < k \<Longrightarrow> av_clear c w r k \<and> load (ar_mem c) r k = load (ar_mem a) r k"
    using init(6) [of r k] fill(1) by (simp add: av_keeps_def)
qed

definition demo_vector :: "arena_vector \<times> arena" where
  "demo_vector = the (arena_vector_init bump demo_object demo_scope 8 0)"

lemma demo_vector: "arena_vector_init bump demo_object demo_scope 8 0 = Some (fst demo_vector, snd demo_vector)"
  "arena_vector_push bump demo_scope ''elements'' (fst demo_vector, snd demo_vector) \<noteq> None"
  by (simp_all add: demo_vector_def arena_vector_init_def arena_calloc_def size_mul_overflow_def vector_header_def arena_eval
      arena_vector_push_def arena_vector_alloc_def av_alloc_def av_reserve1_def double_until.simps arena_realloc_def
      arena_realloc_fast_def arena_write_def)

theorem arena_vector_push_refines_witness:
  "\<exists>v a. arena_vector_push bump demo_scope ''elements'' (fst demo_vector, snd demo_vector) = Some (v, a) \<and>
     av_elems a v = [''elements'']"
proof -
  note init = arena_vector_init_lemma [OF demo_vector(1) bump_ok demo_wfs(2)]
  obtain v a where p: "arena_vector_push bump demo_scope ''elements'' (fst demo_vector, snd demo_vector) = Some (v, a)"
    using demo_vector(2) by auto
  have "length ''elements'' = av_stride (fst demo_vector)" using init(5) by simp
  from arena_vector_push_refines [OF p bump_ok init(1,2) this] show ?thesis using p init(3) by auto
qed

end
