(* ===== verification/Lexer.thy ===== *)
theory Lexer
  imports Prelude
begin

text \<open>
  \<open>lexer.c\<close>, \<open>token.h\<close> and the lists of \<open>libks/list.h\<close> it uses: a lexer reads the whole input into
  a list of tokens with a callback of its client, and then is a cursor over that list. The client's
  token types are the parameter \<open>'t\<close>. The cursor \<open>lx_tk\<close> is the index of the current token, so
  \<open>LIST_NEXT\<close> and \<open>LIST_PREV\<close> move it by one, and \<open>LIST_PREV\<close> of the first token is NULL.
\<close>

section \<open>Data\<close>

datatype 't token_type = LEXER_EOF | Tok 't

record 't token =
  tk_type :: "'t token_type"
  tk_lno :: int
  tk_str :: string
  tk_int :: int

record 't lexer =
  lx_tokens :: "'t token list"
  lx_tk :: "nat option"
  lx_buf :: string
  lx_off :: nat
  lx_lno :: int
  lx_err :: nat
  lx_eof :: nat
  lx_log :: "(int \<times> string) list"

record lexer_state =
  ls_lno :: int

abbreviation lx_len :: "'t lexer \<Rightarrow> nat" where
  "lx_len lx \<equiv> length (lx_buf lx)"

section \<open>Reading the input\<close>

definition token_alloc :: "'t token_type \<Rightarrow> 't token" where
  "token_alloc type = \<lparr>tk_type = type, tk_lno = 0, tk_str = [], tk_int = 0\<rparr>"

definition lexer_emit :: "lexer_state \<Rightarrow> 't token_type \<Rightarrow> 't token" where
  "lexer_emit s type = (token_alloc type)\<lparr>tk_lno := ls_lno s\<rparr>"

text \<open>The result is non-zero when the end of file was reached before. The source tests the offset for
  equality with the length, which it never exceeds.\<close>

definition lexer_getc :: "'t lexer \<Rightarrow> bool \<times> char \<times> 't lexer" where
  "lexer_getc lx =
     (if lx_off lx \<ge> lx_len lx then (lx_eof lx > 0, NUL, lx\<lparr>lx_eof := lx_eof lx + 1\<rparr>)
      else
        let c = lx_buf lx ! lx_off lx;
            lx' = lx\<lparr>lx_off := lx_off lx + 1\<rparr>
        in (False, c, if c = NL then lx'\<lparr>lx_lno := lx_lno lx' + 1\<rparr> else lx'))"

definition lexer_ungetc :: "'t lexer \<Rightarrow> char \<Rightarrow> 't lexer" where
  "lexer_ungetc lx ch =
     (if lx_eof lx > 0 then lx
      else
        let lx' = (if ch = NL \<and> lx_lno lx > 1 then lx\<lparr>lx_lno := lx_lno lx - 1\<rparr> else lx)
        in if lx_off lx' > 0 then lx'\<lparr>lx_off := lx_off lx' - 1\<rparr> else lx')"

definition lexer_get_error :: "'t lexer \<Rightarrow> nat" where
  "lexer_get_error lx = lx_err lx"

definition lexer_get_state :: "'t lexer \<Rightarrow> lexer_state" where
  "lexer_get_state lx = \<lparr>ls_lno = lx_lno lx\<rparr>"

definition lexer_error :: "'t lexer \<Rightarrow> int \<Rightarrow> string \<Rightarrow> 't lexer" where
  "lexer_error lx lno msg = lx\<lparr>lx_err := lx_err lx + 1, lx_log := lx_log lx @ [(lno, msg)]\<rparr>"

text \<open>
  The loop of \<open>lexer_alloc\<close>: \<open>None\<close> when it does not end, \<open>Some None\<close> when the callback fails. The
  callback may keep a state of its own.
\<close>

type_synonym ('t, 's) reader = "'t lexer \<Rightarrow> 's \<Rightarrow> 't token option \<times> 't lexer \<times> 's"

partial_function (option) lexer_read_all ::
  "('t, 's) reader \<Rightarrow> 't lexer \<Rightarrow> 's \<Rightarrow> ('t lexer \<times> 's \<times> bool) option" where
  "lexer_read_all rd lx s =
     (case rd lx s of
        (None, lx', s') \<Rightarrow> Some (lx', s', False)
      | (Some tk, lx', s') \<Rightarrow>
          let lx'' = lx'\<lparr>lx_tokens := lx_tokens lx' @ [tk]\<rparr>
          in if tk_type tk = LEXER_EOF then Some (lx'', s', True) else lexer_read_all rd lx'' s')"

definition lexer_init :: "string \<Rightarrow> 't lexer" where
  "lexer_init buf =
     \<lparr>lx_tokens = [], lx_tk = None, lx_buf = buf, lx_off = 0, lx_lno = 1, lx_err = 0, lx_eof = 0,
      lx_log = []\<rparr>"

text \<open>The input is \<open>None\<close> when the file cannot be read. The flag of the result is false when
  \<open>lexer_alloc\<close> returns NULL; the lexer is kept for the messages it logged.\<close>

definition lexer_alloc ::
  "('t, 's) reader \<Rightarrow> string option \<Rightarrow> 's \<Rightarrow> ('t lexer \<times> 's \<times> bool) option" where
  "lexer_alloc rd input s =
     (case input of
        None \<Rightarrow> Some (lexer_init [], s, False)
      | Some buf \<Rightarrow> lexer_read_all rd (lexer_init buf) s)"

section \<open>The cursor\<close>

definition tk_at :: "'t lexer \<Rightarrow> nat \<Rightarrow> 't token" where
  "tk_at lx i = lx_tokens lx ! i"

definition list_prev :: "nat \<Rightarrow> nat option" where
  "list_prev i = (if i = 0 then None else Some (i - 1))"

definition lexer_back :: "'t lexer \<Rightarrow> 't token option" where
  "lexer_back lx = map_option (tk_at lx) (lx_tk lx)"

definition lexer_next :: "'t lexer \<Rightarrow> 't token option \<times> 't lexer" where
  "lexer_next lx =
     (let cur =
        (case lx_tk lx of
           None \<Rightarrow> if lx_tokens lx = [] then None else Some 0
         | Some i \<Rightarrow>
             if tk_type (tk_at lx i) \<noteq> LEXER_EOF
             then (if Suc i < length (lx_tokens lx) then Some (Suc i) else None)
             else Some i)
      in (map_option (tk_at lx) cur, lx\<lparr>lx_tk := cur\<rparr>))"

text \<open>\<open>ser\<close> is the serialize callback.\<close>

definition lexer_serialize :: "('t \<Rightarrow> string) \<Rightarrow> 't token_type \<Rightarrow> string" where
  "lexer_serialize ser ty = (case ty of LEXER_EOF \<Rightarrow> ''EOF'' | Tok t \<Rightarrow> ser t)"

definition lexer_expect ::
  "('t \<Rightarrow> string) \<Rightarrow> 't lexer \<Rightarrow> 't token_type \<Rightarrow> 't token option \<times> 't lexer" where
  "lexer_expect ser lx exp =
     (case lexer_next lx of
        (None, lx') \<Rightarrow> (None, lx')
      | (Some tk, lx') \<Rightarrow>
          if exp \<noteq> tk_type tk then
            (None, lexer_error lx' (tk_lno tk)
              (''want '' @ lexer_serialize ser exp @ '', got '' @ lexer_serialize ser (tk_type tk)))
          else (Some tk, lx'))"

definition lexer_peek :: "'t lexer \<Rightarrow> 't token_type \<Rightarrow> bool \<times> 't lexer" where
  "lexer_peek lx type =
     (case lexer_next lx of
        (None, lx') \<Rightarrow> (False, lx')
      | (Some tk, lx') \<Rightarrow>
          (tk_type tk = type, lx'\<lparr>lx_tk := list_prev (the (lx_tk lx'))\<rparr>))"

definition lexer_if :: "'t lexer \<Rightarrow> 't token_type \<Rightarrow> 't token option \<times> 't lexer" where
  "lexer_if lx type =
     (case lexer_next lx of
        (None, lx') \<Rightarrow> (None, lx')
      | (Some tk, lx') \<Rightarrow>
          if tk_type tk \<noteq> type then (None, lx'\<lparr>lx_tk := list_prev (the (lx_tk lx'))\<rparr>)
          else (Some tk, lx'))"

section \<open>The cursor as a stream of tokens\<close>

text \<open>What the reader builds: tokens that end with the first end of file.\<close>

definition lexer_wf :: "'t lexer \<Rightarrow> bool" where
  "lexer_wf lx \<longleftrightarrow>
     (\<exists>ts e. lx_tokens lx = ts @ [e] \<and> tk_type e = LEXER_EOF \<and>
        (\<forall>t \<in> set ts. tk_type t \<noteq> LEXER_EOF)) \<and>
     (case lx_tk lx of None \<Rightarrow> True | Some i \<Rightarrow> i < length (lx_tokens lx))"

text \<open>The tokens that are left; the end of file is never used up.\<close>

definition lexer_rest :: "'t lexer \<Rightarrow> 't token list" where
  "lexer_rest lx =
     (case lx_tk lx of
        None \<Rightarrow> lx_tokens lx
      | Some i \<Rightarrow> if Suc i < length (lx_tokens lx) then drop (Suc i) (lx_tokens lx)
                  else drop i (lx_tokens lx))"

lemma lexer_wf_rest: "lexer_wf lx \<Longrightarrow> lexer_rest lx \<noteq> []"
  by (auto simp: lexer_wf_def lexer_rest_def split: option.splits)

lemma lexer_wf_EOF:
  assumes "lexer_wf lx" "i < length (lx_tokens lx)"
  shows "tk_type (tk_at lx i) = LEXER_EOF \<longleftrightarrow> Suc i = length (lx_tokens lx)"
proof -
  obtain ts e where ts: "lx_tokens lx = ts @ [e]" "tk_type e = LEXER_EOF"
    "\<forall>t \<in> set ts. tk_type t \<noteq> LEXER_EOF" using assms(1) by (auto simp: lexer_wf_def)
  then show ?thesis
    using assms(2) by (auto simp: tk_at_def nth_append)
qed

lemma lexer_next_index:
  assumes "lexer_wf lx"
  obtains i where "lexer_next lx = (Some (tk_at lx i), lx\<lparr>lx_tk := Some i\<rparr>)"
    "i < length (lx_tokens lx)" "lexer_rest lx = drop i (lx_tokens lx)"
    "lx_tk lx = list_prev i \<or> Suc i = length (lx_tokens lx) \<and> lx_tk lx = Some i"
proof (cases "lx_tk lx")
  case None
  then show ?thesis
    using assms that [of 0] by (auto simp: lexer_next_def lexer_rest_def lexer_wf_def list_prev_def)
next
  case (Some i)
  then have i: "i < length (lx_tokens lx)" using assms by (simp add: lexer_wf_def)
  show ?thesis
  proof (cases "Suc i = length (lx_tokens lx)")
    case True
    then show ?thesis
      using that [of i] Some lexer_wf_EOF [OF assms i]
      by (simp add: lexer_next_def lexer_rest_def)
  next
    case False
    then show ?thesis
      using that [of "Suc i"] Some lexer_wf_EOF [OF assms i] i
      by (simp add: lexer_next_def lexer_rest_def list_prev_def)
  qed
qed

lemma lexer_wf_at: "lexer_wf lx \<Longrightarrow> i < length (lx_tokens lx) \<Longrightarrow> lexer_wf (lx\<lparr>lx_tk := Some i\<rparr>)"
  by (simp add: lexer_wf_def)

lemma lexer_wf_prev:
  "lexer_wf lx \<Longrightarrow> i < length (lx_tokens lx) \<Longrightarrow> lexer_wf (lx\<lparr>lx_tk := list_prev i\<rparr>)"
  by (auto simp: lexer_wf_def list_prev_def)

lemma lexer_rest_prev:
  "i < length (lx_tokens lx) \<Longrightarrow> lexer_rest (lx\<lparr>lx_tk := list_prev i\<rparr>) = drop i (lx_tokens lx)"
  by (auto simp: lexer_rest_def list_prev_def)

lemma lexer_rest_at:
  assumes "lexer_wf lx" "i < length (lx_tokens lx)"
  shows "lexer_rest (lx\<lparr>lx_tk := Some i\<rparr>) =
    (if tk_type (tk_at lx i) = LEXER_EOF then drop i (lx_tokens lx) else tl (drop i (lx_tokens lx)))"
  using lexer_wf_EOF [OF assms] assms(2)
  by (auto simp: lexer_rest_def tl_drop drop_Suc)

definition same_input :: "'t lexer \<Rightarrow> 't lexer \<Rightarrow> bool" where
  "same_input lx lx' \<longleftrightarrow> lx_tokens lx' = lx_tokens lx \<and> lx_buf lx' = lx_buf lx"

lemma lexer_next_wf:
  assumes "lexer_wf lx"
  shows "\<exists>lx'. lexer_next lx = (Some (hd (lexer_rest lx)), lx') \<and> lexer_wf lx' \<and>
    lexer_rest lx' = (if tk_type (hd (lexer_rest lx)) = LEXER_EOF then lexer_rest lx
                      else tl (lexer_rest lx)) \<and>
    lx_err lx' = lx_err lx \<and> lx_log lx' = lx_log lx"
proof -
  obtain i where i: "lexer_next lx = (Some (tk_at lx i), lx\<lparr>lx_tk := Some i\<rparr>)"
    "i < length (lx_tokens lx)" "lexer_rest lx = drop i (lx_tokens lx)"
    using lexer_next_index [OF assms] by blast
  then have "hd (lexer_rest lx) = tk_at lx i" by (simp add: hd_drop_conv_nth tk_at_def)
  with i lexer_wf_at [OF assms i(2)] lexer_rest_at [OF assms i(2)] show ?thesis by simp
qed

lemma lexer_peek_wf:
  assumes "lexer_wf lx"
  shows "\<exists>lx'. lexer_peek lx ty = (tk_type (hd (lexer_rest lx)) = ty, lx') \<and> lexer_wf lx' \<and>
    lexer_rest lx' = lexer_rest lx \<and> lx_err lx' = lx_err lx \<and> lx_log lx' = lx_log lx"
proof -
  obtain i where i: "lexer_next lx = (Some (tk_at lx i), lx\<lparr>lx_tk := Some i\<rparr>)"
    "i < length (lx_tokens lx)" "lexer_rest lx = drop i (lx_tokens lx)"
    using lexer_next_index [OF assms] by blast
  then have "hd (lexer_rest lx) = tk_at lx i" by (simp add: hd_drop_conv_nth tk_at_def)
  with i lexer_wf_prev [OF assms i(2)] lexer_rest_prev [OF i(2)] show ?thesis
    by (simp add: lexer_peek_def)
qed

lemma lexer_if_wf:
  assumes "lexer_wf lx"
  shows "\<exists>lx'. lexer_if lx ty =
      (if tk_type (hd (lexer_rest lx)) = ty then Some (hd (lexer_rest lx)) else None, lx') \<and>
    lexer_wf lx' \<and>
    lexer_rest lx' = (if tk_type (hd (lexer_rest lx)) = ty \<and> ty \<noteq> LEXER_EOF
                      then tl (lexer_rest lx) else lexer_rest lx) \<and>
    lx_err lx' = lx_err lx \<and> lx_log lx' = lx_log lx"
proof -
  obtain i where i: "lexer_next lx = (Some (tk_at lx i), lx\<lparr>lx_tk := Some i\<rparr>)"
    "i < length (lx_tokens lx)" "lexer_rest lx = drop i (lx_tokens lx)"
    using lexer_next_index [OF assms] by blast
  then have "hd (lexer_rest lx) = tk_at lx i" by (simp add: hd_drop_conv_nth tk_at_def)
  with i lexer_wf_prev [OF assms i(2)] lexer_rest_prev [OF i(2)]
    lexer_wf_at [OF assms i(2)] lexer_rest_at [OF assms i(2)] show ?thesis
    by (auto simp: lexer_if_def)
qed

lemma lexer_expect_wf:
  assumes "lexer_wf lx"
  shows "\<exists>lx'. lexer_expect ser lx ty =
      (if tk_type (hd (lexer_rest lx)) = ty then Some (hd (lexer_rest lx)) else None, lx') \<and>
    lexer_wf lx' \<and>
    lexer_rest lx' = (if tk_type (hd (lexer_rest lx)) = LEXER_EOF then lexer_rest lx
                      else tl (lexer_rest lx)) \<and>
    lx_err lx' = (if tk_type (hd (lexer_rest lx)) = ty then lx_err lx else lx_err lx + 1)"
proof -
  obtain lx1 where n: "lexer_next lx = (Some (hd (lexer_rest lx)), lx1)" "lexer_wf lx1"
    "lexer_rest lx1 = (if tk_type (hd (lexer_rest lx)) = LEXER_EOF then lexer_rest lx
                      else tl (lexer_rest lx))" "lx_err lx1 = lx_err lx"
    using lexer_next_wf [OF assms] by blast
  have "lexer_wf (lexer_error lx1 l msg) \<and> lexer_rest (lexer_error lx1 l msg) = lexer_rest lx1" for l msg
    using n(2) by (auto simp: lexer_error_def lexer_wf_def lexer_rest_def split: option.splits)
  with n show ?thesis by (auto simp: lexer_expect_def lexer_error_def)
qed


lemma lexer_rest_last:
  assumes "lexer_wf lx"
  shows "tk_type (last (lexer_rest lx)) = LEXER_EOF \<and>
    (\<forall>t \<in> set (butlast (lexer_rest lx)). tk_type t \<noteq> LEXER_EOF)"
proof -
  obtain ts e where ts: "lx_tokens lx = ts @ [e]" "tk_type e = LEXER_EOF"
    "\<forall>t \<in> set ts. tk_type t \<noteq> LEXER_EOF" using assms by (auto simp: lexer_wf_def)
  show ?thesis
  proof (cases "lx_tk lx")
    case None
    with ts show ?thesis by (simp add: lexer_rest_def)
  next
    case (Some i)
    with assms have i: "i \<le> length ts" by (simp add: lexer_wf_def ts(1))
    show ?thesis
    proof (cases "Suc i < length (lx_tokens lx)")
      case True
      with Some i have "lexer_rest lx = drop (Suc i) ts @ [e]"
        by (simp add: lexer_rest_def ts(1))
      with ts show ?thesis by (auto dest: in_set_dropD)
    next
      case False
      with Some i have "lexer_rest lx = drop i ts @ [e]"
        by (simp add: lexer_rest_def ts(1))
      with ts show ?thesis by (auto dest: in_set_dropD)
    qed
  qed
qed

section \<open>The interface the parsers use\<close>

text \<open>
  A stream of tokens that ends in an end of file which is never used up: what the parsers of the
  step file and of the configuration file may assume of the lexer.
\<close>

locale token_stream =
  fixes wf :: "'l \<Rightarrow> bool"
    and rest :: "'l \<Rightarrow> 'tok list"
    and ty :: "'tok \<Rightarrow> 'ty"
    and eof :: 'ty
    and next_tok :: "'l \<Rightarrow> 'tok option \<times> 'l"
    and peek :: "'l \<Rightarrow> 'ty \<Rightarrow> bool \<times> 'l"
    and accept :: "'l \<Rightarrow> 'ty \<Rightarrow> 'tok option \<times> 'l"
  assumes rest_nonempty: "wf l \<Longrightarrow> rest l \<noteq> []"
    and rest_ends: "wf l \<Longrightarrow> ty (last (rest l)) = eof"
    and next_law: "wf l \<Longrightarrow> next_tok l = (r, l') \<Longrightarrow>
      wf l' \<and> r = Some (hd (rest l)) \<and>
      rest l' = (if ty (hd (rest l)) = eof then rest l else tl (rest l))"
    and peek_law: "wf l \<Longrightarrow> peek l t = (b, l') \<Longrightarrow>
      wf l' \<and> b = (ty (hd (rest l)) = t) \<and> rest l' = rest l"
    and accept_law: "wf l \<Longrightarrow> accept l t = (r, l') \<Longrightarrow>
      wf l' \<and> r = (if ty (hd (rest l)) = t then Some (hd (rest l)) else None) \<and>
      rest l' = (if ty (hd (rest l)) = t \<and> t \<noteq> eof then tl (rest l) else rest l)"
begin

lemma peek_again: "wf l \<Longrightarrow> peek l t = (b, l') \<Longrightarrow> fst (peek l' u) = (ty (hd (rest l)) = u)"
  using peek_law [of l t b l'] peek_law [of l' u "fst (peek l' u)" "snd (peek l' u)"] by simp

lemma peek_then_next: "wf l \<Longrightarrow> peek l t = (True, l') \<Longrightarrow> \<exists>k. fst (next_tok l') = Some k \<and> ty k = t"
  using peek_law [of l t True l'] next_law [of l' "fst (next_tok l')" "snd (next_tok l')"] by simp

lemma accept_iff_peek:
  "wf l \<Longrightarrow> fst (accept l t) \<noteq> None \<longleftrightarrow> fst (peek l t)"
  using peek_law [of l t "fst (peek l t)" "snd (peek l t)"]
    accept_law [of l t "fst (accept l t)" "snd (accept l t)"] by simp

text \<open>Every accepted token other than the end of file leaves fewer tokens, which bounds the loops of
  the parsers.\<close>

lemma accept_progress:
  assumes "wf l" "accept l t = (Some k, l')" "t \<noteq> eof"
  shows "length (rest l') < length (rest l)"
  using accept_law [OF assms(1,2)] assms(3) rest_nonempty [OF assms(1)]
  by (cases "rest l") (auto split: if_splits)

lemma next_progress:
  assumes "wf l" "next_tok l = (Some k, l')" "ty k \<noteq> eof"
  shows "length (rest l') < length (rest l)"
  using next_law [OF assms(1,2)] assms(3) rest_nonempty [OF assms(1)]
  by (cases "rest l") (auto split: if_splits)

text \<open>Taking tokens until the end of file.\<close>

fun drain :: "nat \<Rightarrow> 'l \<Rightarrow> 'tok list" where
  "drain 0 l = []"
| "drain (Suc n) l =
     (case next_tok l of
        (None, _) \<Rightarrow> []
      | (Some k, l') \<Rightarrow> if ty k = eof then [] else k # drain n l')"

lemma drain_all:
  assumes "wf l" "rest l = ts @ [e]" "\<forall>t \<in> set ts. ty t \<noteq> eof" "length ts < n"
  shows "drain n l = ts"
  using assms
proof (induction n arbitrary: l ts)
  case (Suc n)
  obtain r l' where n: "next_tok l = (r, l')" by (cases "next_tok l")
  note law = next_law [OF Suc.prems(1) n]
  show ?case
  proof (cases ts)
    case Nil
    then have "ty e = eof" using rest_ends [OF Suc.prems(1)] Suc.prems(2) by simp
    then show ?thesis using law n Suc.prems(2) Nil by simp
  next
    case (Cons t us)
    then have "drain n l' = us" using Suc.IH [of l' us] Suc.prems law by simp
    then show ?thesis using law n Suc.prems Cons by simp
  qed
qed simp

end

interpretation lx: token_stream lexer_wf lexer_rest tk_type LEXER_EOF lexer_next lexer_peek lexer_if
proof
  fix l l' :: "'t lexer" and r t b
  assume wf: "lexer_wf l"
  show "lexer_rest l \<noteq> []" by (rule lexer_wf_rest [OF wf])
  show "tk_type (last (lexer_rest l)) = LEXER_EOF" using lexer_rest_last [OF wf] by simp
  show "lexer_next l = (r, l') \<Longrightarrow>
      lexer_wf l' \<and> r = Some (hd (lexer_rest l)) \<and>
      lexer_rest l' = (if tk_type (hd (lexer_rest l)) = LEXER_EOF then lexer_rest l
                       else tl (lexer_rest l))"
    using lexer_next_wf [OF wf] by auto
  show "lexer_peek l t = (b, l') \<Longrightarrow>
      lexer_wf l' \<and> b = (tk_type (hd (lexer_rest l)) = t) \<and> lexer_rest l' = lexer_rest l"
    using lexer_peek_wf [OF wf, of t] by auto
  show "lexer_if l t = (r, l') \<Longrightarrow>
      lexer_wf l' \<and>
      r = (if tk_type (hd (lexer_rest l)) = t then Some (hd (lexer_rest l)) else None) \<and>
      lexer_rest l' = (if tk_type (hd (lexer_rest l)) = t \<and> t \<noteq> LEXER_EOF
                       then tl (lexer_rest l) else lexer_rest l)"
    using lexer_if_wf [OF wf, of t] by auto
qed

text \<open>
  The same with tokens that are required, and errors that are counted. A parser moves a stream when
  it leaves it well-formed, no longer than before and with no error forgotten; it consumes when the
  stream gets shorter.
\<close>

locale token_parser = token_stream +
  fixes expect :: "'a \<Rightarrow> 'c \<Rightarrow> 'b option \<times> 'a"
    and errors :: "'a \<Rightarrow> nat"
  assumes expect_law: "wf l \<Longrightarrow> expect l t = (r, l') \<Longrightarrow>
      wf l' \<and> r = (if ty (hd (rest l)) = t then Some (hd (rest l)) else None) \<and>
      rest l' = (if ty (hd (rest l)) = eof then rest l else tl (rest l)) \<and>
      errors l' = (if ty (hd (rest l)) = t then errors l else errors l + 1)"
    and peek_errors: "wf l \<Longrightarrow> peek l t = (b, l') \<Longrightarrow> errors l' = errors l"
    and accept_errors: "wf l \<Longrightarrow> accept l t = (r, l') \<Longrightarrow> errors l' = errors l"
    and next_errors: "wf l \<Longrightarrow> next_tok l = (r, l') \<Longrightarrow> errors l' = errors l"
begin

definition moves :: "'a \<Rightarrow> 'a \<Rightarrow> bool" where
  "moves l l' \<longleftrightarrow> wf l' \<and> length (rest l') \<le> length (rest l) \<and> errors l \<le> errors l'"

definition consumes :: "'a \<Rightarrow> 'a \<Rightarrow> bool" where
  "consumes l l' \<longleftrightarrow> wf l' \<and> length (rest l') < length (rest l) \<and> errors l \<le> errors l'"

lemma moves_refl: "wf l \<Longrightarrow> moves l l"
  by (simp add: moves_def)

lemma moves_trans: "moves a b \<Longrightarrow> moves b c \<Longrightarrow> moves a c"
  by (simp add: moves_def)

lemma consumes_moves: "consumes a b \<Longrightarrow> moves a b"
  by (simp add: moves_def consumes_def)

lemma consumes_trans1: "consumes a b \<Longrightarrow> moves b c \<Longrightarrow> consumes a c"
  by (simp add: moves_def consumes_def)

lemma consumes_trans2: "moves a b \<Longrightarrow> consumes b c \<Longrightarrow> consumes a c"
  by (simp add: moves_def consumes_def)

lemma moves_wf: "moves a b \<Longrightarrow> wf b"
  by (simp add: moves_def)

lemma consumes_wf: "consumes a b \<Longrightarrow> wf b"
  by (simp add: consumes_def)

lemma peek_moves: "wf l \<Longrightarrow> peek l t = (b, l') \<Longrightarrow> moves l l'"
  using peek_law [of l t b l'] peek_errors [of l t b l'] by (simp add: moves_def)

lemma next_moves: "wf l \<Longrightarrow> next_tok l = (r, l') \<Longrightarrow> moves l l'"
  using next_law [of l r l'] next_errors [of l r l'] by (simp add: moves_def)

lemma accept_moves: "wf l \<Longrightarrow> accept l t = (r, l') \<Longrightarrow> moves l l'"
  using accept_law [of l t r l'] accept_errors [of l t r l'] by (simp add: moves_def)

lemma accept_consumes: "wf l \<Longrightarrow> accept l t = (Some k, l') \<Longrightarrow> t \<noteq> eof \<Longrightarrow> consumes l l'"
  using accept_law [of l t "Some k" l'] accept_progress [of l t k l'] accept_errors [of l t "Some k" l']
  by (simp add: consumes_def)

lemma expect_moves: "wf l \<Longrightarrow> expect l t = (r, l') \<Longrightarrow> moves l l'"
  using expect_law [of l t r l'] by (auto simp: moves_def)

lemma expect_consumes: "wf l \<Longrightarrow> expect l t = (Some k, l') \<Longrightarrow> t \<noteq> eof \<Longrightarrow> consumes l l'"
  using expect_law [of l t "Some k" l'] rest_nonempty [of l]
  by (cases "rest l") (auto simp: consumes_def split: if_splits)

lemma expect_type: "wf l \<Longrightarrow> expect l t = (Some k, l') \<Longrightarrow> ty k = t"
  using expect_law [of l t "Some k" l'] by (auto split: if_splits)

text \<open>A required token that is missing is counted as an error.\<close>

lemma expect_fails: "wf l \<Longrightarrow> expect l t = (None, l') \<Longrightarrow> errors l < errors l'"
  using expect_law [of l t None l'] by (auto split: if_splits)

end

lemma lexer_error_wf: "lexer_wf l \<Longrightarrow> lexer_wf (lexer_error l lno msg)"
  by (simp add: lexer_wf_def lexer_error_def split: option.splits)

lemma lexer_error_rest [simp]: "lexer_rest (lexer_error l lno msg) = lexer_rest l"
  by (simp add: lexer_rest_def lexer_error_def split: option.split)

lemma lexer_error_err [simp]: "lx_err (lexer_error l lno msg) = lx_err l + 1"
  by (simp add: lexer_error_def)

interpretation lp: token_parser lexer_wf lexer_rest tk_type LEXER_EOF lexer_next lexer_peek lexer_if
  "lexer_expect ser" lx_err for ser :: "'t \<Rightarrow> string"
proof
  fix l l' :: "'t lexer" and r t b
  assume wf: "lexer_wf l"
  show "lexer_expect ser l t = (r, l') \<Longrightarrow>
      lexer_wf l' \<and>
      r = (if tk_type (hd (lexer_rest l)) = t then Some (hd (lexer_rest l)) else None) \<and>
      lexer_rest l' = (if tk_type (hd (lexer_rest l)) = LEXER_EOF then lexer_rest l
                       else tl (lexer_rest l)) \<and>
      lx_err l' = (if tk_type (hd (lexer_rest l)) = t then lx_err l else lx_err l + 1)"
    using lexer_expect_wf [OF wf, of ser t] by auto
  show "lexer_peek l t = (b, l') \<Longrightarrow> lx_err l' = lx_err l"
    using lexer_peek_wf [OF wf, of t] by auto
  show "lexer_if l t = (r, l') \<Longrightarrow> lx_err l' = lx_err l"
    using lexer_if_wf [OF wf, of t] by auto
  show "lexer_next l = (r, l') \<Longrightarrow> lx_err l' = lx_err l"
    using lexer_next_wf [OF wf] by auto
qed

lemma lexer_error_moves: "lexer_wf l \<Longrightarrow> lp.moves l (lexer_error l lno msg)"
  by (simp add: lp.moves_def lexer_error_wf)

section \<open>Reading all tokens\<close>

text \<open>If every token costs the reader part of the input, the loop ends; what it builds is
  well-formed when it succeeds.\<close>

definition reader_progress :: "('t, 's) reader \<Rightarrow> bool" where
  "reader_progress rd \<longleftrightarrow>
     (\<forall>lx s tk lx' s'. lx_off lx \<le> lx_len lx \<longrightarrow> rd lx s = (Some tk, lx', s') \<longrightarrow>
        lx_tokens lx' = lx_tokens lx \<and> lx_tk lx' = lx_tk lx \<and> lx_buf lx' = lx_buf lx \<and>
        lx_off lx' \<le> lx_len lx' \<and> (tk_type tk \<noteq> LEXER_EOF \<longrightarrow> lx_off lx < lx_off lx'))"

lemma lexer_read_all_wf:
  assumes "reader_progress rd" "lx_off lx \<le> lx_len lx"
    "\<forall>t \<in> set (lx_tokens lx). tk_type t \<noteq> LEXER_EOF" "lx_tk lx = None"
  shows "\<exists>lx' s' ok. lexer_read_all rd lx s = Some (lx', s', ok) \<and>
    (ok \<longrightarrow> lexer_wf lx' \<and> lexer_rest lx' = lx_tokens lx')"
  using assms(2-)
proof (induction "lx_len lx - lx_off lx" arbitrary: lx s rule: less_induct)
  case less
  obtain r lx1 s1 where r: "rd lx s = (r, lx1, s1)" by (cases "rd lx s")
  show ?case
  proof (cases r)
    case None
    with r show ?thesis
      by (intro exI [of _ lx1] exI [of _ s1] exI [of _ False])
        (simp add: lexer_read_all.simps [of rd lx])
  next
    case (Some tk)
    note p = assms(1) [unfolded reader_progress_def, rule_format, OF less.prems(1) r [unfolded Some]]
    let ?lx = "lx1\<lparr>lx_tokens := lx_tokens lx1 @ [tk]\<rparr>"
    show ?thesis
    proof (cases "tk_type tk = LEXER_EOF")
      case True
      then have "lexer_wf ?lx \<and> lexer_rest ?lx = lx_tokens ?lx"
        using p less.prems(2,3) by (auto simp: lexer_wf_def lexer_rest_def)
      with True r Some show ?thesis
        by (intro exI [of _ ?lx] exI [of _ s1] exI [of _ True])
          (simp add: lexer_read_all.simps [of rd lx] Let_def)
    next
      case False
      then have "lx_len ?lx - lx_off ?lx < lx_len lx - lx_off lx"
        using p less.prems(1) by auto
      moreover have "\<forall>t \<in> set (lx_tokens ?lx). tk_type t \<noteq> LEXER_EOF"
        using less.prems(2) p False by simp
      moreover have "lx_off ?lx \<le> lx_len ?lx" "lx_tk ?lx = None"
        using p less.prems(3) by auto
      ultimately have "\<exists>lx' s' ok. lexer_read_all rd ?lx s1 = Some (lx', s', ok) \<and>
          (ok \<longrightarrow> lexer_wf lx' \<and> lexer_rest lx' = lx_tokens lx')"
        using less.hyps [of ?lx s1] by blast
      with False r Some show ?thesis by (simp add: lexer_read_all.simps [of rd lx] Let_def)
    qed
  qed
qed

lemma lexer_alloc_wf:
  assumes "reader_progress rd"
  shows "\<exists>lx s' ok. lexer_alloc rd input s = Some (lx, s', ok) \<and>
    (ok \<longrightarrow> lexer_wf lx \<and> lexer_rest lx = lx_tokens lx)"
  using lexer_read_all_wf [OF assms, of "lexer_init (the input)" s]
  by (cases input) (auto simp: lexer_alloc_def lexer_init_def)

section \<open>Reading characters\<close>

text \<open>The characters a lexer still has to read, and what reading leaves alone.\<close>

definition lexer_at :: "'t lexer \<Rightarrow> string \<Rightarrow> bool" where
  "lexer_at lx r \<longleftrightarrow> drop (lx_off lx) (lx_buf lx) = r \<and> lx_off lx \<le> lx_len lx \<and> lx_eof lx = 0"

definition lexer_frame :: "'t lexer \<Rightarrow> 't lexer \<Rightarrow> bool" where
  "lexer_frame lx lx' \<longleftrightarrow> lx_tokens lx' = lx_tokens lx \<and> lx_tk lx' = lx_tk lx \<and> lx_buf lx' = lx_buf lx"

lemma lexer_frame_trans: "lexer_frame a b \<Longrightarrow> lexer_frame b c \<Longrightarrow> lexer_frame a c"
  by (simp add: lexer_frame_def)

lemma lexer_frame_error [simp]: "lexer_frame lx (lexer_error lx l m)"
  by (simp add: lexer_frame_def lexer_error_def)

lemma lexer_getc_frame: "lexer_getc lx = (e, c, lx1) \<Longrightarrow> lexer_frame lx lx1"
  by (auto simp: lexer_getc_def lexer_frame_def Let_def split: if_splits)

lemma lexer_ungetc_frame: "lexer_frame lx (lexer_ungetc lx c)"
  by (simp add: lexer_ungetc_def lexer_frame_def Let_def)

lemma lexer_getc_at:
  assumes "lexer_at lx (c # r)"
  shows "\<exists>lx1. lexer_getc lx = (False, c, lx1) \<and> lexer_at lx1 r \<and> lexer_frame lx lx1 \<and>
    lexer_at (lexer_ungetc lx1 c) (c # r)"
proof -
  have off: "lx_off lx < lx_len lx"
    using assms by (auto simp: lexer_at_def) (metis drop_all list.distinct(1) not_less)
  then have c: "lx_buf lx ! lx_off lx = c" and r: "drop (Suc (lx_off lx)) (lx_buf lx) = r"
    using assms by (auto simp: lexer_at_def Cons_nth_drop_Suc [symmetric])
  show ?thesis
    using assms off c r
    by (auto simp: lexer_getc_def lexer_at_def lexer_frame_def lexer_ungetc_def Let_def)
qed

lemma lexer_getc_end: "lexer_at lx [] \<Longrightarrow> \<exists>lx1. lexer_getc lx = (False, NUL, lx1) \<and> lexer_frame lx lx1"
  by (auto simp: lexer_at_def lexer_getc_def lexer_frame_def)

lemma lexer_getc_progress:
  "lexer_getc lx = (False, c, lx1) \<Longrightarrow> c \<noteq> NUL \<Longrightarrow> lx_off lx1 = Suc (lx_off lx) \<and> lx_off lx1 \<le> lx_len lx1"
  by (auto simp: lexer_getc_def Let_def split: if_splits)

lemma lexer_getc_bounded:
  "lexer_getc lx = (e, c, lx1) \<Longrightarrow> lx_off lx \<le> lx_len lx \<Longrightarrow>
   lx_off lx \<le> lx_off lx1 \<and> lx_off lx1 \<le> lx_len lx1"
  by (auto simp: lexer_getc_def Let_def split: if_splits)

lemma lexer_ungetc_off:
  "lx_off lx - 1 \<le> lx_off (lexer_ungetc lx c) \<and> lx_off (lexer_ungetc lx c) \<le> lx_off lx"
  by (simp add: lexer_ungetc_def Let_def)

section \<open>Properties\<close>

text \<open>C4: the cursor operations are those of a stream of tokens: \<open>lexer_peek\<close> looks at the next
  token and leaves the stream as it was, also at its end, \<open>lexer_if\<close> takes the next token exactly
  when it has the type asked for, and \<open>lexer_next\<close> takes it in any case but never moves past the end
  of file.\<close>

theorem lexer_cursor_is_stream:
  assumes "lexer_wf lx"
  shows "(case lexer_peek lx ty of (b, lx') \<Rightarrow>
      b = (tk_type (hd (lexer_rest lx)) = ty) \<and> lexer_rest lx' = lexer_rest lx) \<and>
    (case lexer_if lx ty of
       (None, lx') \<Rightarrow> tk_type (hd (lexer_rest lx)) \<noteq> ty \<and> lexer_rest lx' = lexer_rest lx
     | (Some tk, lx') \<Rightarrow> tk_type tk = ty \<and>
         (ty \<noteq> LEXER_EOF \<longrightarrow> lexer_rest lx = tk # lexer_rest lx')) \<and>
    (case lexer_next lx of
       (None, _) \<Rightarrow> False
     | (Some tk, lx') \<Rightarrow>
         if tk_type tk = LEXER_EOF then lexer_rest lx' = lexer_rest lx
         else lexer_rest lx = tk # lexer_rest lx')"
  using lexer_peek_wf [OF assms, of ty] lexer_if_wf [OF assms, of ty] lexer_next_wf [OF assms]
    lexer_wf_rest [OF assms]
  by auto

theorem lexer_cursor_is_stream_witness:
  "fst (lexer_peek (lexer_init []\<lparr>lx_tokens := [token_alloc (Tok (0 :: nat)), token_alloc LEXER_EOF]\<rparr>)
     (Tok 0))"
proof -
  let ?lx = "lexer_init []\<lparr>lx_tokens := [token_alloc (Tok (0 :: nat)), token_alloc LEXER_EOF]\<rparr>"
  have "lexer_wf ?lx"
    by (auto simp: lexer_wf_def lexer_init_def token_alloc_def intro!: exI [of _ "[token_alloc (Tok 0)]"])
  moreover have "tk_type (hd (lexer_rest ?lx)) = Tok 0"
    by (simp add: lexer_rest_def lexer_init_def token_alloc_def)
  ultimately show ?thesis
    using lexer_cursor_is_stream [of ?lx "Tok 0"] by (auto split: prod.splits)
qed

end
