(* ===== verification/LinkedList.thy ===== *)
theory LinkedList
  imports Lexer
begin

text \<open>
  \<open>libks/list.h\<close>: tail queues linked through their elements. A head and the entry of an element have the
  same two words, the first or next element and the address of a word that points at an element, so
  both are nodes of one heap. The address of the first word of a node is written as the node itself,
  and 0 is NULL; an element is identified with its entry.
\<close>

section \<open>Data\<close>

record heap =
  first :: "nat \<Rightarrow> nat"
  ptr :: "nat \<Rightarrow> nat"

text \<open>The words of a node: \<open>tqh_first\<close> or \<open>tqe_next\<close>, and \<open>tqh_last\<close> or \<open>tqe_prev\<close>.\<close>

definition set_first :: "nat \<Rightarrow> nat \<Rightarrow> heap \<Rightarrow> heap" where
  "set_first n x m = m\<lparr>first := (first m)(n := x)\<rparr>"

definition set_ptr :: "nat \<Rightarrow> nat \<Rightarrow> heap \<Rightarrow> heap" where
  "set_ptr n x m = m\<lparr>ptr := (ptr m)(n := x)\<rparr>"

section \<open>Operations\<close>

definition LIST_FIRST :: "heap \<Rightarrow> nat \<Rightarrow> nat" where
  "LIST_FIRST m head = first m head"

definition LIST_LAST :: "heap \<Rightarrow> nat \<Rightarrow> nat" where
  "LIST_LAST m head = first m (ptr m (ptr m head))"

definition LIST_PREV :: "heap \<Rightarrow> nat \<Rightarrow> nat" where
  "LIST_PREV m elm = first m (ptr m (ptr m elm))"

definition LIST_NEXT :: "heap \<Rightarrow> nat \<Rightarrow> nat" where
  "LIST_NEXT m elm = first m elm"

definition LIST_EMPTY :: "heap \<Rightarrow> nat \<Rightarrow> bool" where
  "LIST_EMPTY m head \<longleftrightarrow> LIST_FIRST m head = 0"

definition LIST_LINKED :: "heap \<Rightarrow> nat \<Rightarrow> bool" where
  "LIST_LINKED m elm \<longleftrightarrow> first m elm \<noteq> 0 \<or> ptr m elm \<noteq> 0"

definition LIST_INIT :: "nat \<Rightarrow> heap \<Rightarrow> heap" where
  "LIST_INIT head m = set_ptr head head (set_first head 0 m)"

definition LIST_INSERT_HEAD :: "nat \<Rightarrow> nat \<Rightarrow> heap \<Rightarrow> heap" where
  "LIST_INSERT_HEAD head elm m =
     (let m1 = set_first elm (first m head) m;
          m2 = (if first m1 elm \<noteq> 0 then set_ptr (first m1 head) elm m1 else set_ptr head elm m1)
      in set_ptr elm head (set_first head elm m2))"

definition LIST_INSERT_TAIL :: "nat \<Rightarrow> nat \<Rightarrow> heap \<Rightarrow> heap" where
  "LIST_INSERT_TAIL head elm m =
     (let m1 = set_first elm 0 m;
          m2 = set_ptr elm (ptr m1 head) m1;
          m3 = set_first (ptr m2 head) elm m2
      in set_ptr head elm m3)"

definition LIST_INSERT_AFTER :: "nat \<Rightarrow> nat \<Rightarrow> nat \<Rightarrow> heap \<Rightarrow> heap" where
  "LIST_INSERT_AFTER head listelm elm m =
     (let m1 = set_first elm (first m listelm) m;
          m2 = (if first m1 elm \<noteq> 0 then set_ptr (first m1 elm) elm m1 else set_ptr head elm m1)
      in set_ptr elm listelm (set_first listelm elm m2))"

definition LIST_INSERT_BEFORE :: "nat \<Rightarrow> nat \<Rightarrow> heap \<Rightarrow> heap" where
  "LIST_INSERT_BEFORE listelm elm m =
     (let m1 = set_ptr elm (ptr m listelm) m;
          m2 = set_first elm listelm m1;
          m3 = set_first (ptr m2 listelm) elm m2
      in set_ptr listelm elm m3)"

definition LIST_REMOVE :: "nat \<Rightarrow> nat \<Rightarrow> heap \<Rightarrow> heap" where
  "LIST_REMOVE head elm m =
     (let m1 = (if first m elm \<noteq> 0 then set_ptr (first m elm) (ptr m elm) m else set_ptr head (ptr m elm) m);
          m2 = set_first (ptr m1 elm) (first m1 elm) m1
      in set_first elm 0 (set_ptr elm 0 m2))"

definition LIST_CONCAT :: "nat \<Rightarrow> nat \<Rightarrow> heap \<Rightarrow> heap" where
  "LIST_CONCAT head1 head2 m =
     (if LIST_EMPTY m head2 then m
      else
        let m1 = set_first (ptr m head1) (first m head2) m;
            m2 = set_ptr (first m1 head2) (ptr m1 head1) m1;
            m3 = set_ptr head1 (ptr m2 head2) m2
        in LIST_INIT head2 m3)"

text \<open>The loops visit at most \<open>n\<close> elements; a body may change the heap in the safe ones.\<close>

fun LIST_FOREACH_from :: "nat \<Rightarrow> heap \<Rightarrow> nat \<Rightarrow> nat list" where
  "LIST_FOREACH_from 0 m var = []"
| "LIST_FOREACH_from (Suc n) m var = (if var = 0 then [] else var # LIST_FOREACH_from n m (LIST_NEXT m var))"

definition LIST_FOREACH :: "nat \<Rightarrow> heap \<Rightarrow> nat \<Rightarrow> nat list" where
  "LIST_FOREACH n m head = LIST_FOREACH_from n m (LIST_FIRST m head)"

fun LIST_FOREACH_REVERSE_from :: "nat \<Rightarrow> heap \<Rightarrow> nat \<Rightarrow> nat list" where
  "LIST_FOREACH_REVERSE_from 0 m var = []"
| "LIST_FOREACH_REVERSE_from (Suc n) m var =
     (if var = 0 then [] else var # LIST_FOREACH_REVERSE_from n m (LIST_PREV m var))"

definition LIST_FOREACH_REVERSE :: "nat \<Rightarrow> heap \<Rightarrow> nat \<Rightarrow> nat list" where
  "LIST_FOREACH_REVERSE n m head = LIST_FOREACH_REVERSE_from n m (LIST_LAST m head)"

fun LIST_FOREACH_SAFE_from :: "nat \<Rightarrow> (nat \<Rightarrow> heap \<Rightarrow> heap) \<Rightarrow> heap \<Rightarrow> nat \<Rightarrow> heap" where
  "LIST_FOREACH_SAFE_from 0 body m var = m"
| "LIST_FOREACH_SAFE_from (Suc n) body m var =
     (if var = 0 then m
      else let tvar = LIST_NEXT m var in LIST_FOREACH_SAFE_from n body (body var m) tvar)"

definition LIST_FOREACH_SAFE :: "nat \<Rightarrow> (nat \<Rightarrow> heap \<Rightarrow> heap) \<Rightarrow> heap \<Rightarrow> nat \<Rightarrow> heap" where
  "LIST_FOREACH_SAFE n body m head = LIST_FOREACH_SAFE_from n body m (LIST_FIRST m head)"

section \<open>Abstraction\<close>

text \<open>The nodes \<open>xs\<close> follow the node \<open>p\<close>.\<close>

fun links :: "heap \<Rightarrow> nat \<Rightarrow> nat list \<Rightarrow> bool" where
  "links m p [] \<longleftrightarrow> True"
| "links m p (x # xs) \<longleftrightarrow> first m p = x \<and> ptr m x = p \<and> links m x xs"

definition queue :: "heap \<Rightarrow> nat \<Rightarrow> nat list \<Rightarrow> bool" where
  "queue m head xs \<longleftrightarrow>
     distinct (head # xs) \<and> 0 \<notin> set (head # xs) \<and> links m head xs \<and> first m (last (head # xs)) = 0 \<and>
     ptr m head = last (head # xs)"

lemma node_simps [simp]:
  "first (set_first n x m) = (first m)(n := x)" "ptr (set_first n x m) = ptr m"
  "first (set_ptr n x m) = first m" "ptr (set_ptr n x m) = (ptr m)(n := x)"
  by (simp_all add: set_first_def set_ptr_def)

lemma links_append [simp]:
  "links m p (xs @ ys) \<longleftrightarrow> links m p xs \<and> links m (last (p # xs)) ys"
  by (induction xs arbitrary: p) auto

lemma links_cong:
  "\<forall>x \<in> set (butlast (p # xs)). first m' x = first m x \<Longrightarrow> \<forall>x \<in> set xs. ptr m' x = ptr m x \<Longrightarrow>
     links m' p xs \<longleftrightarrow> links m p xs"
  by (induction xs arbitrary: p) (auto split: if_splits)

text \<open>A list is not affected by writes to other nodes.\<close>

lemma queue_frame:
  assumes "\<forall>x \<in> set (head # xs). first m' x = first m x \<and> ptr m' x = ptr m x"
  shows "queue m' head xs \<longleftrightarrow> queue m head xs"
proof -
  have "\<forall>x \<in> set (butlast (head # xs)). first m' x = first m x" "\<forall>x \<in> set xs. ptr m' x = ptr m x"
    using assms in_set_butlastD by fastforce+
  moreover have "last (head # xs) \<in> set (head # xs)" by (rule last_in_set) simp
  then have "first m' (last (head # xs)) = first m (last (head # xs))" "ptr m' head = ptr m head"
    using assms by simp_all
  ultimately show ?thesis unfolding queue_def using links_cong by metis
qed

lemma links_set_first [simp]: "n \<notin> set (butlast (p # xs)) \<Longrightarrow> links (set_first n x m) p xs \<longleftrightarrow> links m p xs"
  by (rule links_cong) auto

lemma links_set_ptr [simp]: "n \<notin> set xs \<Longrightarrow> links (set_ptr n x m) p xs \<longleftrightarrow> links m p xs"
  by (rule links_cong) auto

lemma last_notin_butlast: "distinct (p # xs) \<Longrightarrow> last (p # xs) \<notin> set (butlast (p # xs))"
  by (induction xs arbitrary: p) (auto split: if_splits)

lemma notin_butlast: "x \<notin> set xs \<Longrightarrow> x \<notin> set (butlast xs)"
  by (blast dest: in_set_butlastD)

lemma queueD:
  assumes "queue m head xs"
  shows "distinct (head # xs)" "0 \<notin> set (head # xs)" "links m head xs" "first m (last (head # xs)) = 0"
    "ptr m head = last (head # xs)" "last (head # xs) \<in> set (head # xs)"
proof -
  show "last (head # xs) \<in> set (head # xs)" by (rule last_in_set) simp
qed (use assms in \<open>simp_all only: queue_def simp_thms\<close>)

lemma queueI:
  assumes "distinct (head # xs)" "0 \<notin> set (head # xs)" "links m head xs" "first m (last (head # xs)) = 0"
    "ptr m head = last (head # xs)"
  shows "queue m head xs"
  using assms by (simp only: queue_def simp_thms)

lemma notin_butlast_Cons: "x \<notin> set (p # xs) \<Longrightarrow> x \<notin> set (butlast (p # xs))"
  by (rule notin_butlast)

section \<open>Refinement\<close>

lemma queue_init: "head \<noteq> 0 \<Longrightarrow> queue (LIST_INIT head m) head []"
  by (simp add: queue_def LIST_INIT_def)

lemma queue_insert_tail:
  assumes "queue m head xs" "elm \<notin> set (head # xs)" "elm \<noteq> 0"
  shows "queue (LIST_INSERT_TAIL head elm m) head (xs @ [elm])"
proof -
  note q = queueD [OF assms(1)]
  obtain l where l: "l = last (head # xs)" by simp
  note q' = q [folded l]
  have m: "LIST_INSERT_TAIL head elm m = set_ptr head elm (set_first l elm (set_ptr elm l (set_first elm 0 m)))"
    using assms(2) q'(5) by (auto simp: LIST_INSERT_TAIL_def)
  have "links (LIST_INSERT_TAIL head elm m) head xs"
    using q'(1,3) assms(2) last_notin_butlast [OF q'(1)] notin_butlast [OF assms(2)] unfolding m l [symmetric] by simp
  then show ?thesis using q'(1,2,6) assms(2,3) l unfolding queue_def by (auto simp: m)
qed


lemma queue_insert_head:
  assumes "queue m head xs" "elm \<notin> set (head # xs)" "elm \<noteq> 0"
  shows "queue (LIST_INSERT_HEAD head elm m) head (elm # xs)"
proof (cases xs)
  case Nil
  then have m: "LIST_INSERT_HEAD head elm m = set_ptr elm head (set_first head elm (set_ptr head elm (set_first elm 0 m)))"
    using queueD(4) [OF assms(1)] by (simp add: LIST_INSERT_HEAD_def)
  show ?thesis using queueD [OF assms(1)] assms(2,3) Nil unfolding queue_def by (auto simp: m)
next
  case (Cons x ys)
  note q = queueD [OF assms(1), unfolded Cons]
  have m: "LIST_INSERT_HEAD head elm m = set_ptr elm head (set_first head elm (set_ptr x elm (set_first elm x m)))"
    using q(2,3) assms(2) Cons by (auto simp: LIST_INSERT_HEAD_def)
  have "head \<notin> set (butlast (x # ys))" "elm \<notin> set (butlast (x # ys))"
    using q(1) assms(2) Cons by (auto dest: in_set_butlastD split: if_splits)
  then have "links (LIST_INSERT_HEAD head elm m) x ys" using q(1,3) assms(2) Cons unfolding m by simp
  then show ?thesis using q assms(2,3) Cons unfolding queue_def by (auto simp: m)
qed

lemma queue_insert_after:
  assumes "queue m head (xs @ l # ys)" "elm \<notin> set (head # xs @ l # ys)" "elm \<noteq> 0"
  shows "queue (LIST_INSERT_AFTER head l elm m) head (xs @ l # elm # ys)"
proof -
  note q = queueD [OF assms(1)]
  have nb: "l \<notin> set (butlast (head # xs))" "elm \<notin> set (butlast (head # xs))"
    using q(1) assms(2) by (intro notin_butlast_Cons; auto)+
  have ne: "last (head # xs) \<noteq> l" "last (head # xs) \<noteq> elm"
    using q(1) assms(2) last_in_set [of "head # xs"] by auto
  have set: "distinct (head # xs @ l # elm # ys)" "0 \<notin> set (head # xs @ l # elm # ys)" using q(1,2) assms(2,3) by auto
  show ?thesis
  proof (cases ys)
    case Nil
    then have m: "LIST_INSERT_AFTER head l elm m = set_ptr elm l (set_first l elm (set_ptr head elm (set_first elm 0 m)))"
      using q(4) by (simp add: LIST_INSERT_AFTER_def)
    have lk: "links (LIST_INSERT_AFTER head l elm m) head xs" using q(1,3) nb assms(2) unfolding m by simp
    show ?thesis
    proof (rule queueI [OF set])
      show "links (LIST_INSERT_AFTER head l elm m) head (xs @ l # elm # ys)"
        using lk ne q(1,3) assms(2) Nil by (simp add: m del: last.simps)
    qed (use q(1) assms(2) Nil in \<open>simp_all add: m\<close>)
  next
    case (Cons y zs)
    note q = q [unfolded Cons]
    have m: "LIST_INSERT_AFTER head l elm m = set_ptr elm l (set_first l elm (set_ptr y elm (set_first elm y m)))"
      using q(2,3) by (auto simp: LIST_INSERT_AFTER_def)
    have "l \<notin> set (butlast (y # zs))" "elm \<notin> set (butlast (y # zs))"
      using q(1) assms(2) Cons by (intro notin_butlast_Cons; simp)+
    then have lk: "links (LIST_INSERT_AFTER head l elm m) y zs" "links (LIST_INSERT_AFTER head l elm m) head xs"
      using q(1,3) nb assms(2) Cons unfolding m by simp_all
    have last: "last (y # zs) \<noteq> l" "last (y # zs) \<noteq> elm"
      using q(1) assms(2) Cons last_in_set [of "y # zs"] by auto
    show ?thesis
    proof (rule queueI [OF set])
      show "links (LIST_INSERT_AFTER head l elm m) head (xs @ l # elm # ys)"
        using lk ne q(1,3) assms(2) Cons by (simp add: m del: last.simps)
    qed (use q(1,4,5) last assms(2) Cons in \<open>simp_all add: m\<close>)
  qed
qed

lemma queue_insert_before:
  assumes "queue m head (xs @ l # ys)" "elm \<notin> set (head # xs @ l # ys)" "elm \<noteq> 0"
  shows "queue (LIST_INSERT_BEFORE l elm m) head (xs @ elm # l # ys)"
proof -
  note q = queueD [OF assms(1)]
  obtain p where p: "last (head # xs) = p" by simp
  have in_p: "p \<in> set (head # xs)" unfolding p [symmetric] by (rule last_in_set) simp
  have ptr_l: "ptr m l = p" "first m p = l" "links m head xs" "links m l ys" using q(3) p by simp_all
  have ne: "p \<noteq> l" "p \<noteq> elm" "l \<noteq> elm" "head \<noteq> l" "head \<noteq> elm" using q(1) in_p assms(2) by auto
  have m: "LIST_INSERT_BEFORE l elm m = set_ptr l elm (set_first p elm (set_first elm l (set_ptr elm p m)))"
    using ptr_l ne by (simp add: LIST_INSERT_BEFORE_def)
  have "distinct (head # xs)" using q(1) by simp
  from last_notin_butlast [OF this] have nb: "p \<notin> set (butlast (head # xs))" unfolding p .
  have nb2: "elm \<notin> set (butlast (head # xs))" using assms(2) by (intro notin_butlast_Cons) simp
  have nb3: "p \<notin> set (butlast (l # ys))" "elm \<notin> set (butlast (l # ys))"
    using q(1) assms(2) in_p by (intro notin_butlast_Cons; auto)+
  have lk: "links (LIST_INSERT_BEFORE l elm m) l ys" "links (LIST_INSERT_BEFORE l elm m) head xs"
    using q(1) ptr_l(3,4) nb nb2 nb3 assms(2) unfolding m by simp_all
  have set: "distinct (head # xs @ elm # l # ys)" "0 \<notin> set (head # xs @ elm # l # ys)" using q(1,2) assms(2,3) by auto
  obtain e where e: "last (head # xs @ l # ys) = e" "last (l # ys) = e" by simp
  have ne2: "e \<in> set (l # ys)" unfolding e(2) [symmetric] by (rule last_in_set) simp
  then have ne3: "e \<noteq> p" "e \<noteq> elm" using q(1) in_p assms(2) by auto
  have e': "last (head # xs @ elm # l # ys) = e" using e(2) by simp
  show ?thesis
  proof (rule queueI [OF set], unfold e')
    show "links (LIST_INSERT_BEFORE l elm m) head (xs @ elm # l # ys)"
      using lk ne by (simp add: p del: last.simps) (simp add: m ne ne [symmetric])
    show "first (LIST_INSERT_BEFORE l elm m) e = 0" using q(4) [unfolded e] ne3 by (simp add: m)
    show "ptr (LIST_INSERT_BEFORE l elm m) head = e" using q(5) [unfolded e] ne by (simp add: m)
  qed
qed

lemma queue_remove:
  assumes "queue m head (xs @ elm # ys)"
  shows "queue (LIST_REMOVE head elm m) head (xs @ ys)" "\<not> LIST_LINKED (LIST_REMOVE head elm m) elm"
proof -
  note q = queueD [OF assms]
  obtain p where p: "last (head # xs) = p" by simp
  have in_p: "p \<in> set (head # xs)" unfolding p [symmetric] by (rule last_in_set) simp
  have ne: "p \<noteq> elm" "head \<noteq> elm" using q(1) in_p by auto
  show "\<not> LIST_LINKED (LIST_REMOVE head elm m) elm" by (simp add: LIST_LINKED_def LIST_REMOVE_def Let_def)
  have ptr_e: "ptr m elm = p" "first m p = elm" "links m head xs" "links m elm ys" using q(3) p by simp_all
  have "distinct (head # xs)" using q(1) by simp
  from last_notin_butlast [OF this] have nb: "p \<notin> set (butlast (head # xs))" unfolding p .
  have nb2: "elm \<notin> set (butlast (head # xs))" using q(1) by (intro notin_butlast_Cons) auto
  have set: "distinct (head # xs @ ys)" "0 \<notin> set (head # xs @ ys)" using q(1,2) by auto
  show "queue (LIST_REMOVE head elm m) head (xs @ ys)"
  proof (cases ys)
    case Nil
    then have m: "LIST_REMOVE head elm m = set_first elm 0 (set_ptr elm 0 (set_first p 0 (set_ptr head p m)))"
      using q(4) ptr_e ne by (simp add: LIST_REMOVE_def)
    have lk: "links (LIST_REMOVE head elm m) head xs" using q(1) ptr_e(3) nb nb2 unfolding m by simp
    show ?thesis
    proof (rule queueI [OF set])
      show "links (LIST_REMOVE head elm m) head (xs @ ys)" using lk Nil by simp
    qed (use ne Nil p in \<open>simp_all add: m\<close>)
  next
    case (Cons y zs)
    note q = q [unfolded Cons]
    have y: "first m elm = y" "y \<noteq> 0" "y \<noteq> elm" "y \<noteq> head" "y \<noteq> p" "links m y zs"
      using ptr_e(4) q(1,2) in_p Cons by auto
    have m: "LIST_REMOVE head elm m = set_first elm 0 (set_ptr elm 0 (set_first p y (set_ptr y p m)))"
      using y ptr_e ne by (simp add: LIST_REMOVE_def)
    have "p \<notin> set (butlast (y # zs))" "elm \<notin> set (butlast (y # zs))"
      using q(1) in_p by (intro notin_butlast_Cons; auto)+
    then have lk: "links (LIST_REMOVE head elm m) y zs" "links (LIST_REMOVE head elm m) head xs"
      using q(1) ptr_e(3) y nb nb2 unfolding m by simp_all
    have last: "last (y # zs) \<noteq> p" "last (y # zs) \<noteq> elm" using q(1) in_p last_in_set [of "y # zs"] by auto
    show ?thesis
    proof (rule queueI [OF set])
      show "links (LIST_REMOVE head elm m) head (xs @ ys)"
        using lk y ne Cons by (simp add: p del: last.simps) (simp add: m ne y)
    qed (use q(4,5) last ne y Cons in \<open>simp_all add: m\<close>)
  qed
qed

lemma queue_concat:
  assumes "queue m h1 xs" "queue m h2 ys" "set (h1 # xs) \<inter> set (h2 # ys) = {}"
  shows "queue (LIST_CONCAT h1 h2 m) h1 (xs @ ys)" "queue (LIST_CONCAT h1 h2 m) h2 []"
proof -
  note q = queueD [OF assms(1)] and r = queueD [OF assms(2)]
  obtain p where p: "last (h1 # xs) = p" by simp
  have in_p: "p \<in> set (h1 # xs)" unfolding p [symmetric] by (rule last_in_set) simp
  have "queue (LIST_CONCAT h1 h2 m) h1 (xs @ ys) \<and> queue (LIST_CONCAT h1 h2 m) h2 []"
  proof (cases ys)
    case Nil
    then show ?thesis using assms(1,2) r(4) by (simp add: LIST_CONCAT_def LIST_EMPTY_def LIST_FIRST_def)
  next
    case (Cons y zs)
    note r = r [unfolded Cons]
    have ne: "h2 \<noteq> h1" "p \<noteq> h2" "y \<noteq> h1" "y \<noteq> h2" "y \<noteq> p" using assms(3) in_p r(1) Cons by auto
    have y: "first m h2 = y" "y \<noteq> 0" "ptr m h2 = last (y # zs)" "links m y zs" using r(2,3,5) by auto
    have m: "LIST_CONCAT h1 h2 m =
        set_ptr h2 h2 (set_first h2 0 (set_ptr h1 (last (y # zs)) (set_ptr y p (set_first p y m))))"
      using q(5) y ne p by (simp add: LIST_CONCAT_def LIST_EMPTY_def LIST_FIRST_def LIST_INIT_def Let_def)
    have l: "last (y # zs) \<in> set (y # zs)" by (rule last_in_set) simp
    have nb: "p \<notin> set (butlast (h1 # xs))" using last_notin_butlast [OF q(1)] unfolding p .
    have nb2: "h2 \<notin> set (butlast (h1 # xs))" "p \<notin> set (butlast (y # zs))" "h2 \<notin> set (butlast (y # zs))"
      using r(1) assms(3) in_p Cons by (intro notin_butlast_Cons; auto)+
    have "y \<notin> set xs" "h2 \<notin> set xs" "h1 \<notin> set zs" "h2 \<notin> set zs" "y \<notin> set zs" using assms(3) r(1) Cons by auto
    then have lk: "links (LIST_CONCAT h1 h2 m) y zs" "links (LIST_CONCAT h1 h2 m) h1 xs"
      using q(1,3) y(4) nb nb2 unfolding m by simp_all
    have last: "last (y # zs) \<noteq> p" "last (y # zs) \<noteq> h2" using l in_p assms(3) r(1) Cons by auto
    have set: "distinct (h1 # xs @ ys)" "0 \<notin> set (h1 # xs @ ys)" using q(1,2) r(1,2) assms(3) Cons by auto
    have "queue (LIST_CONCAT h1 h2 m) h1 (xs @ ys)"
    proof (rule queueI [OF set])
      show "links (LIST_CONCAT h1 h2 m) h1 (xs @ ys)" using lk ne Cons by (simp add: p del: last.simps) (simp add: m ne)
    qed (use r(4) last ne y Cons in \<open>simp_all add: m\<close>)
    moreover have "queue (LIST_CONCAT h1 h2 m) h2 []" using r(2) by (simp add: queue_def m)
    ultimately show ?thesis ..
  qed
  then show "queue (LIST_CONCAT h1 h2 m) h1 (xs @ ys)" "queue (LIST_CONCAT h1 h2 m) h2 []" by blast+
qed


section \<open>Access and iteration\<close>

lemma queue_first: "queue m head xs \<Longrightarrow> LIST_FIRST m head = (if xs = [] then 0 else hd xs)"
  by (cases xs) (simp_all add: queue_def LIST_FIRST_def)

lemma queue_empty: "queue m head xs \<Longrightarrow> LIST_EMPTY m head \<longleftrightarrow> xs = []"
  by (cases xs) (auto simp: queue_def LIST_EMPTY_def LIST_FIRST_def)

lemma queue_next: "queue m head (xs @ x # ys) \<Longrightarrow> LIST_NEXT m x = (if ys = [] then 0 else hd ys)"
  by (cases ys) (auto simp: queue_def LIST_NEXT_def)

text \<open>The node before the previous one points at the previous one, which is NULL before the first element.\<close>

lemma links_ptr: "links m p (xs @ x # ys) \<Longrightarrow> ptr m x = last (p # xs)"
  by simp

lemma queue_prev:
  assumes "queue m head (xs @ x # ys)"
  shows "LIST_PREV m x = (if xs = [] then 0 else last xs)"
proof (cases xs rule: rev_cases)
  case Nil
  then show ?thesis using queueD [OF assms] by (auto simp: LIST_PREV_def)
next
  case (snoc zs z)
  then have "links m head zs" "first m (last (head # zs)) = z" "ptr m z = last (head # zs)" "ptr m x = z"
    using queueD(3) [OF assms] by simp_all
  then show ?thesis using snoc by (simp add: LIST_PREV_def)
qed

lemma queue_last:
  assumes "queue m head xs"
  shows "LIST_LAST m head = (if xs = [] then 0 else last xs)"
proof (cases xs rule: rev_cases)
  case Nil
  then show ?thesis using queueD [OF assms] by (simp add: LIST_LAST_def)
next
  case (snoc zs z)
  then have "first m (last (head # zs)) = z" "ptr m z = last (head # zs)" "ptr m head = z"
    using queueD(3,5) [OF assms] by simp_all
  then show ?thesis using snoc by (simp add: LIST_LAST_def)
qed

lemma queue_linked: "queue m head xs \<Longrightarrow> x \<in> set xs \<Longrightarrow> LIST_LINKED m x"
proof -
  assume q: "queue m head xs" and "x \<in> set xs"
  then obtain ys zs where "xs = ys @ x # zs" by (metis split_list)
  then have "ptr m x \<in> set (head # ys)" using queueD(3) [OF q] last_in_set [of "head # ys"] by simp
  then show ?thesis using queueD(2) [OF q] \<open>xs = ys @ x # zs\<close> by (auto simp: LIST_LINKED_def)
qed

lemma foreach_from:
  "queue m head (xs @ ys) \<Longrightarrow> length ys \<le> n \<Longrightarrow> LIST_FOREACH_from n m (if ys = [] then 0 else hd ys) = ys"
proof (induction ys arbitrary: xs n)
  case Nil
  then show ?case by (cases n) simp_all
next
  case (Cons y ys)
  then obtain k where k: "n = Suc k" "length ys \<le> k" by (cases n) auto
  have "y \<noteq> 0" using Cons.prems(1) by (auto simp: queue_def)
  then show ?case using Cons.IH [of "xs @ [y]" k] Cons.prems(1) queue_next [OF Cons.prems(1)] k by simp
qed

lemma foreach_reverse_from:
  "queue m head (xs @ ys) \<Longrightarrow> length xs \<le> n \<Longrightarrow>
     LIST_FOREACH_REVERSE_from n m (if xs = [] then 0 else last xs) = rev xs"
proof (induction xs arbitrary: ys n rule: rev_induct)
  case Nil
  then show ?case by (cases n) simp_all
next
  case (snoc x xs)
  then obtain k where k: "n = Suc k" "length xs \<le> k" by (cases n) auto
  have q: "queue m head (xs @ x # ys)" using snoc.prems(1) by simp
  then have "x \<noteq> 0" by (auto simp: queue_def)
  then show ?case using snoc.IH [of "x # ys" k] q queue_prev [OF q] k by simp
qed

lemma queue_foreach: "queue m head xs \<Longrightarrow> length xs \<le> n \<Longrightarrow> LIST_FOREACH n m head = xs"
  using foreach_from [of m head "[]" xs n] by (simp add: LIST_FOREACH_def queue_first)

lemma queue_foreach_reverse: "queue m head xs \<Longrightarrow> length xs \<le> n \<Longrightarrow> LIST_FOREACH_REVERSE n m head = rev xs"
  using foreach_reverse_from [of m head xs "[]" n] by (simp add: LIST_FOREACH_REVERSE_def queue_last)

text \<open>The safe loop may remove the element it visits.\<close>

lemma foreach_remove_from:
  "queue m head xs \<Longrightarrow> length xs \<le> n \<Longrightarrow>
     queue (LIST_FOREACH_SAFE_from n (LIST_REMOVE head) m (if xs = [] then 0 else hd xs)) head []"
proof (induction xs arbitrary: m n)
  case Nil
  then show ?case by (cases n) simp_all
next
  case (Cons x xs)
  then obtain k where k: "n = Suc k" "length xs \<le> k" by (cases n) auto
  have "queue m head ([] @ x # xs)" using Cons.prems(1) by simp
  then have "queue (LIST_REMOVE head x m) head xs" "x \<noteq> 0" "LIST_NEXT m x = (if xs = [] then 0 else hd xs)"
    using queue_remove(1) [of m head "[]"] queue_next [of m head "[]"] by (auto simp: queue_def)
  then show ?case using Cons.IH [of _ k] k by simp
qed

lemma queue_foreach_remove:
  "queue m head xs \<Longrightarrow> length xs \<le> n \<Longrightarrow> queue (LIST_FOREACH_SAFE n (LIST_REMOVE head) m head) head []"
  using foreach_remove_from [of m head xs n] by (simp add: LIST_FOREACH_SAFE_def queue_first)


section \<open>What the lexer uses\<close>

text \<open>A queue that only grows, with a cursor that moves in both directions.\<close>

locale element_queue =
  fixes repr :: "'m \<Rightarrow> 'e list \<Rightarrow> bool"
    and valid :: "'e \<Rightarrow> bool"
    and null :: 'e
    and add :: "'e \<Rightarrow> 'm \<Rightarrow> 'm"
    and front :: "'m \<Rightarrow> 'e"
    and after :: "'m \<Rightarrow> 'e \<Rightarrow> 'e"
    and before :: "'m \<Rightarrow> 'e \<Rightarrow> 'e"
  assumes repr_add: "repr m xs \<Longrightarrow> valid e \<Longrightarrow> e \<notin> set xs \<Longrightarrow> repr (add e m) (xs @ [e])"
    and front_repr: "repr m xs \<Longrightarrow> front m = (if xs = [] then null else hd xs)"
    and after_repr: "repr m (xs @ x # ys) \<Longrightarrow> after m x = (if ys = [] then null else hd ys)"
    and before_repr: "repr m (xs @ x # ys) \<Longrightarrow> before m x = (if xs = [] then null else last xs)"
begin

lemma repr_fold:
  "repr m xs \<Longrightarrow> distinct (xs @ es) \<Longrightarrow> \<forall>e \<in> set es. valid e \<Longrightarrow> repr (fold add es m) (xs @ es)"
proof (induction es arbitrary: m xs)
  case Nil
  then show ?case by simp
next
  case (Cons e es)
  then have "repr (add e m) (xs @ [e])" by (intro repr_add) auto
  then show ?case using Cons.IH [of "add e m" "xs @ [e]"] Cons.prems(2,3) by simp
qed

text \<open>The cursor as an index: \<open>list_prev\<close> is what the lexer moves back by.\<close>

definition element :: "'e list \<Rightarrow> nat option \<Rightarrow> 'e" where
  "element xs i = (case i of None \<Rightarrow> null | Some i \<Rightarrow> xs ! i)"

lemma cursor_moves:
  assumes "repr m xs" "i < length xs"
  shows "after m (xs ! i) = element xs (if Suc i < length xs then Some (Suc i) else None)"
    "before m (xs ! i) = element xs (list_prev i)"
proof -
  have r: "repr m (take i xs @ xs ! i # drop (Suc i) xs)" using assms by (simp add: id_take_nth_drop [symmetric])
  show "after m (xs ! i) = element xs (if Suc i < length xs then Some (Suc i) else None)"
    using after_repr [OF r] by (auto simp: element_def hd_drop_conv_nth)
  show "before m (xs ! i) = element xs (list_prev i)"
    using before_repr [OF r] assms(2) by (cases i) (auto simp: element_def list_prev_def take_Suc_conv_app_nth)
qed

end

interpretation lq: element_queue "\<lambda>m. queue m head" "\<lambda>e. e \<noteq> 0 \<and> e \<noteq> head" 0 "LIST_INSERT_TAIL head"
  "\<lambda>m. LIST_FIRST m head" LIST_NEXT LIST_PREV for head
  by unfold_locales (auto intro: queue_insert_tail simp: queue_first queue_next queue_prev)

section \<open>Properties\<close>

lemma queue_operations:
  assumes "queue m head (xs @ x # ys)" "elm \<notin> set (head # xs @ x # ys)" "elm \<noteq> 0"
  shows "queue (LIST_INSERT_HEAD head elm m) head (elm # xs @ x # ys)"
    "queue (LIST_INSERT_TAIL head elm m) head (xs @ x # ys @ [elm])"
    "queue (LIST_INSERT_AFTER head x elm m) head (xs @ x # elm # ys)"
    "queue (LIST_INSERT_BEFORE x elm m) head (xs @ elm # x # ys)"
    "queue (LIST_REMOVE head x m) head (xs @ ys)"
  using queue_insert_head [OF assms] queue_insert_tail [OF assms] queue_insert_after [OF assms]
    queue_insert_before [OF assms] queue_remove(1) [OF assms(1)] by simp_all


definition blank :: heap where "blank = \<lparr>first = (\<lambda>_. 0), ptr = (\<lambda>_. 0)\<rparr>"

lemma blank_queue: "queue (fold (LIST_INSERT_TAIL 1) [2, 3, 4] (LIST_INIT 1 blank)) 1 [2, 3, 4]"
  using lq.repr_fold [OF queue_init, of 1 "[2, 3, 4]" blank] by simp


text \<open>C24: the tokens that the lexer inserts one after the other are found by moving its cursor as along the indices of a list.\<close>

theorem token_list_is_indexed:
  assumes "head \<noteq> 0" "distinct (head # tks)" "0 \<notin> set tks" "m = fold (LIST_INSERT_TAIL head) tks (LIST_INIT head m0)"
  shows "LIST_FOREACH (length tks) m head = tks \<and> LIST_FOREACH_REVERSE (length tks) m head = rev tks \<and>
    LIST_FIRST m head = (if tks = [] then 0 else tks ! 0) \<and>
    (\<forall>i < length tks.
       LIST_NEXT m (tks ! i) = (if Suc i < length tks then tks ! Suc i else 0) \<and>
       LIST_PREV m (tks ! i) = (case list_prev i of None \<Rightarrow> 0 | Some j \<Rightarrow> tks ! j))"
proof -
  have "e \<noteq> 0 \<and> e \<noteq> head" if "e \<in> set tks" for e using assms(2,3) that by (metis distinct.simps(2))
  then have "queue m head tks" using lq.repr_fold [OF queue_init, of head tks m0] assms(1,2,4) by simp
  then show ?thesis
    using lq.cursor_moves [of m head tks]
    by (auto simp: queue_foreach queue_foreach_reverse queue_first hd_conv_nth lq.element_def)
qed

theorem token_list_is_indexed_witness:
  "LIST_PREV (fold (LIST_INSERT_TAIL 1) [2, 3, 4] (LIST_INIT 1 blank)) 3 = 2 \<and>
   LIST_PREV (fold (LIST_INSERT_TAIL 1) [2, 3, 4] (LIST_INIT 1 blank)) 2 = 0"
proof -
  let ?m = "fold (LIST_INSERT_TAIL 1) [2, 3, 4] (LIST_INIT 1 blank)"
  have "\<forall>i < 3. LIST_PREV ?m ([2, 3, 4] ! i) = (case list_prev i of None \<Rightarrow> 0 | Some j \<Rightarrow> [2, 3, 4] ! j)"
    using token_list_is_indexed [of 1 "[2, 3, 4]" ?m blank] by simp
  from this [THEN spec, of 0] this [THEN spec, of 1] show ?thesis by (simp add: list_prev_def)
qed

end
