(* ===== verification/Invocation.thy ===== *)
theory Invocation
  imports Vector
begin

text \<open>
  \<open>invocation.c\<close>: the directories below \<open>robsddir\<close> that earlier invocations left, in the order
  they are walked, and the tags of an invocation.
\<close>

section \<open>Directories\<close>

text \<open>What \<open>readdir(3)\<close> gives for a directory: its entries, and whether it failed after them; \<open>None\<close>
  when the directory cannot be opened. \<open>PATH_MAX\<close> and \<open>NAME_MAX\<close> are those of OpenBSD.\<close>

record dirent =
  de_name :: string
  de_is_dir :: bool

type_synonym directories = "string \<Rightarrow> (dirent list \<times> bool) option"

definition PATH_MAX :: nat where "PATH_MAX = 1024"
definition NAME_MAX :: nat where "NAME_MAX = 255"

record invocation_entry =
  ie_path :: string
  ie_basename :: string

record invocation_state =
  is_robsdir :: string
  is_keepdir :: string
  is_directories :: "invocation_entry list"

datatype invocation_sort = INVOCATION_SORT_NONE | INVOCATION_SORT_ASC | INVOCATION_SORT_DESC

text \<open>What \<open>snprintf(3)\<close> leaves in an array of \<open>n\<close> bytes.\<close>

definition snprintf :: "nat \<Rightarrow> string \<Rightarrow> string" where
  "snprintf n s = take (n - 1) s"

definition entry_path :: "string \<Rightarrow> string \<Rightarrow> string" where
  "entry_path directory name = snprintf PATH_MAX (directory @ CHR ''/'' # name)"

fun hidden :: "string \<Rightarrow> bool" where
  "hidden (c # _) \<longleftrightarrow> c = CHR ''.''"
| "hidden [] \<longleftrightarrow> False"

text \<open>The program ends when memory for an entry is lacking.\<close>

fun invocation_entries :: "string \<Rightarrow> (dirent \<Rightarrow> bool) \<Rightarrow> dirent list \<Rightarrow> invocation_entry list \<Rightarrow> invocation_entry list" where
  "invocation_entries directory match_fn [] entries = entries"
| "invocation_entries directory match_fn (de # des) entries =
     (if hidden (de_name de) then invocation_entries directory match_fn des entries
      else if \<not> match_fn de then invocation_entries directory match_fn des entries
      else invocation_entries directory match_fn des
        (entries @ [\<lparr>ie_path = entry_path directory (de_name de),
                     ie_basename = snprintf (NAME_MAX + 1) (de_name de)\<rparr>]))"

definition invocation_read ::
  "directories \<Rightarrow> invocation_state \<Rightarrow> string \<Rightarrow> (dirent \<Rightarrow> bool) \<Rightarrow> bool \<times> invocation_state" where
  "invocation_read rd is directory match_fn =
     (case rd directory of
        None \<Rightarrow> (True, is)
      | Some (des, err) \<Rightarrow>
          (err, is\<lparr>is_directories := invocation_entries directory match_fn des (is_directories is)\<rparr>))"

definition match_directory :: "invocation_state \<Rightarrow> dirent \<Rightarrow> bool" where
  "match_directory is de \<longleftrightarrow>
     de_is_dir de \<and> entry_path (is_robsdir is) (de_name de) \<noteq> is_keepdir is"

definition directory_asc_cmp :: "invocation_entry \<Rightarrow> invocation_entry \<Rightarrow> int" where
  "directory_asc_cmp a b = - strcmp (ie_path a) (ie_path b)"

definition directory_desc_cmp :: "invocation_entry \<Rightarrow> invocation_entry \<Rightarrow> int" where
  "directory_desc_cmp a b = strcmp (ie_path a) (ie_path b)"

definition invocation_alloc ::
  "directories \<Rightarrow> string \<Rightarrow> string \<Rightarrow> invocation_sort \<Rightarrow> invocation_state option" where
  "invocation_alloc rd robsddir keepdir flags =
     (let is = \<lparr>is_robsdir = robsddir, is_keepdir = keepdir, is_directories = []\<rparr>
      in case invocation_read rd is robsddir (match_directory is) of
           (True, _) \<Rightarrow> None
         | (False, is') \<Rightarrow>
             Some (case flags of
                     INVOCATION_SORT_ASC \<Rightarrow>
                       is'\<lparr>is_directories := c_qsort directory_asc_cmp (is_directories is')\<rparr>
                   | INVOCATION_SORT_DESC \<Rightarrow>
                       is'\<lparr>is_directories := c_qsort directory_desc_cmp (is_directories is')\<rparr>
                   | INVOCATION_SORT_NONE \<Rightarrow> is'))"

definition invocation_walk :: "invocation_state \<Rightarrow> invocation_entry option \<times> invocation_state" where
  "invocation_walk is =
     (if is_directories is = [] then (None, is)
      else (Some (last (is_directories is)), is\<lparr>is_directories := butlast (is_directories is)\<rparr>))"

text \<open>\<open>fnmatch(3)\<close> for patterns without brackets. Here \<open>*\<close> also matches slashes and dots.\<close>

fun fnmatch :: "string \<Rightarrow> string \<Rightarrow> bool" where
  "fnmatch [] s \<longleftrightarrow> s = []"
| "fnmatch (p # ps) s \<longleftrightarrow>
     (if p = CHR ''*'' then (\<exists>i \<in> set [0..<Suc (length s)]. fnmatch ps (drop i s))
      else if p = CHR ''?'' then s \<noteq> [] \<and> fnmatch ps (tl s)
      else s \<noteq> [] \<and> hd s = p \<and> fnmatch ps (tl s))"

definition match_glob :: "string \<Rightarrow> dirent \<Rightarrow> bool" where
  "match_glob pattern de \<longleftrightarrow> fnmatch pattern (de_name de)"

definition invocation_find :: "directories \<Rightarrow> string \<Rightarrow> string \<Rightarrow> invocation_state option" where
  "invocation_find rd directory pattern =
     (case invocation_read rd \<lparr>is_robsdir = [], is_keepdir = [], is_directories = []\<rparr> directory
        (match_glob pattern) of
        (True, _) \<Rightarrow> None
      | (False, is) \<Rightarrow> Some is)"

section \<open>Walking\<close>

text \<open>What a loop over \<open>invocation_walk\<close> sees.\<close>

function walk_all :: "invocation_state \<Rightarrow> invocation_entry list" where
  "walk_all is =
     (case invocation_walk is of
        (None, _) \<Rightarrow> []
      | (Some e, is') \<Rightarrow> e # walk_all is')"
  by pat_completeness auto
termination
  by (relation "measure (\<lambda>is. length (is_directories is))") (auto simp: invocation_walk_def split: if_splits)

declare walk_all.simps [simp del]

lemma walk_all_eq: "walk_all is = rev (is_directories is)"
proof (induction "is_directories is" arbitrary: "is" rule: rev_induct)
  case Nil
  then show ?case by (simp add: walk_all.simps [of "is"] invocation_walk_def)
next
  case (snoc x xs)
  then show ?case
    using snoc(1) [of "is\<lparr>is_directories := xs\<rparr>"] snoc(2) [symmetric]
    by (simp add: walk_all.simps [of "is"] invocation_walk_def)
qed

lemma invocation_entries_eq:
  "invocation_entries directory match_fn des entries =
   entries @ map (\<lambda>de. \<lparr>ie_path = entry_path directory (de_name de), ie_basename = snprintf (NAME_MAX + 1) (de_name de)\<rparr>)
     (filter (\<lambda>de. \<not> hidden (de_name de) \<and> match_fn de) des)"
  by (induction des arbitrary: entries) auto

text \<open>The paths of the invocations: the directories that are neither hidden nor the keep directory.\<close>

definition invocation_paths :: "dirent list \<Rightarrow> string \<Rightarrow> string \<Rightarrow> string list" where
  "invocation_paths des robsddir keepdir =
     filter (\<lambda>p. p \<noteq> keepdir)
       (map (\<lambda>de. entry_path robsddir (de_name de)) (filter (\<lambda>de. de_is_dir de \<and> \<not> hidden (de_name de)) des))"

lemma asc_preorder: "cmp_preorder directory_asc_cmp"
  unfolding cmp_preorder_def directory_asc_cmp_def
  by (simp add: strcmp_swap [symmetric] cstring_simps) (metis linear order_trans)

lemma desc_preorder: "cmp_preorder directory_desc_cmp"
  by (rule cmp_preorder_key [where key = ie_path]) (simp add: directory_desc_cmp_def cstring_simps)

lemma sorted_desc: "sorted (map ie_path (c_qsort directory_desc_cmp es))"
  using qs.vsort_sorted [OF desc_preorder, of es]
  by (simp add: sorted_wrt_map directory_desc_cmp_def cstring_simps)

lemma sorted_asc: "sorted (rev (map ie_path (c_qsort directory_asc_cmp es)))"
  using qs.vsort_sorted [OF asc_preorder, of es]
  by (simp add: sorted_wrt_rev sorted_wrt_map directory_asc_cmp_def strcmp_swap [symmetric] cstring_simps)

lemma walk_sorted:
  assumes "rd robsddir = Some (des, False)"
  shows walk_asc: "\<exists>is. invocation_alloc rd robsddir keepdir INVOCATION_SORT_ASC = Some is \<and>
      map ie_path (walk_all is) = sort (invocation_paths des robsddir keepdir)"
    and walk_desc: "\<exists>is. invocation_alloc rd robsddir keepdir INVOCATION_SORT_DESC = Some is \<and>
      map ie_path (walk_all is) = rev (sort (invocation_paths des robsddir keepdir))"
proof -
  define es where "es = map (\<lambda>de. \<lparr>ie_path = entry_path robsddir (de_name de), ie_basename = snprintf (NAME_MAX + 1) (de_name de)\<rparr>)
     (filter (\<lambda>de. \<not> hidden (de_name de) \<and> de_is_dir de \<and> entry_path robsddir (de_name de) \<noteq> keepdir) des)"
  have paths: "map ie_path es = invocation_paths des robsddir keepdir"
    unfolding es_def invocation_paths_def by (induction des) auto
  have m: "mset (map ie_path (c_qsort cmp es)) = mset (invocation_paths des robsddir keepdir)" for cmp
    using paths qs.vsort_mset [of cmp es] by (metis mset_map)
  have "map ie_path (c_qsort directory_desc_cmp es) = sort (invocation_paths des robsddir keepdir)"
    using m sorted_desc by (metis properties_for_sort)
  then show "\<exists>is. invocation_alloc rd robsddir keepdir INVOCATION_SORT_DESC = Some is \<and>
      map ie_path (walk_all is) = rev (sort (invocation_paths des robsddir keepdir))"
    using assms
    by (simp add: invocation_alloc_def invocation_read_def Let_def invocation_entries_eq match_directory_def es_def
        walk_all_eq rev_map [symmetric])
  have "rev (map ie_path (c_qsort directory_asc_cmp es)) = sort (invocation_paths des robsddir keepdir)"
    using m sorted_asc by (metis properties_for_sort mset_rev)
  then show "\<exists>is. invocation_alloc rd robsddir keepdir INVOCATION_SORT_ASC = Some is \<and>
      map ie_path (walk_all is) = sort (invocation_paths des robsddir keepdir)"
    using assms
    by (simp add: invocation_alloc_def invocation_read_def Let_def invocation_entries_eq match_directory_def es_def
        walk_all_eq rev_map [symmetric])
qed

text \<open> The invocations are walked from the oldest to the newest, or the other way round: what the
  loop sees are the paths of all directories that are neither hidden nor the keep directory, each as
  often as it was read, in ascending or in descending order of the paths.\<close>

lemma invocation_walk_order:
  assumes "rd robsddir = Some (des, False)"
  shows "(\<exists>is. invocation_alloc rd robsddir keepdir INVOCATION_SORT_ASC = Some is \<and>
      map ie_path (walk_all is) = sort (invocation_paths des robsddir keepdir)) \<and>
    (\<exists>is. invocation_alloc rd robsddir keepdir INVOCATION_SORT_DESC = Some is \<and>
      map ie_path (walk_all is) = rev (sort (invocation_paths des robsddir keepdir)))"
  using walk_asc [where rd = rd, OF assms] walk_desc [where rd = rd, OF assms] by blast

theorem invocation_walk_order_witness:
  "\<exists>is. invocation_alloc (\<lambda>_. Some ([\<lparr>de_name = ''2024-01-02'', de_is_dir = True\<rparr>,
       \<lparr>de_name = ''attic'', de_is_dir = True\<rparr>, \<lparr>de_name = ''2024-01-01'', de_is_dir = True\<rparr>,
       \<lparr>de_name = ''.running'', de_is_dir = False\<rparr>], False)) ''/r'' ''/r/attic'' INVOCATION_SORT_ASC = Some is \<and>
     map ie_path (walk_all is) = [''/r/2024-01-01'', ''/r/2024-01-02'']"
proof -
  let ?des = "[\<lparr>de_name = ''2024-01-02'', de_is_dir = True\<rparr>,
       \<lparr>de_name = ''attic'', de_is_dir = True\<rparr>, \<lparr>de_name = ''2024-01-01'', de_is_dir = True\<rparr>,
       \<lparr>de_name = ''.running'', de_is_dir = False\<rparr>]"
  have "sort (invocation_paths ?des ''/r'' ''/r/attic'') = [''/r/2024-01-01'', ''/r/2024-01-02'']"
    by (rule properties_for_sort)
      (simp_all add: invocation_paths_def entry_path_def snprintf_def PATH_MAX_def strcmp_le [symmetric] flip: strcmp_le)
  with invocation_walk_order [of "\<lambda>_. Some (?des, False)" "''/r''" ?des "''/r/attic''"]
  show ?thesis by metis
qed

section \<open>Tags\<close>

text \<open>\<open>tags\<close> is the content of the file \<open>tags\<close>, \<open>None\<close> when it cannot be read.\<close>

definition invocation_has_tag :: "string option \<Rightarrow> string \<Rightarrow> bool" where
  "invocation_has_tag tags tag =
     (case tags of
        None \<Rightarrow> False
      | Some content \<Rightarrow>
          (let buf = cstr content in
           case strstr buf tag of
             None \<Rightarrow> False
           | Some i \<Rightarrow>
               (i = 0 \<or> buf ! (i - 1) = CHR '' '') \<and>
               (let rest = drop (i + length tag) buf in
                rest = [] \<or> hd rest = CHR '' '' \<or> hd rest = NL)))"

text \<open>A tag stands between spaces and the ends of the file or the line.\<close>

definition tag_at :: "string \<Rightarrow> string \<Rightarrow> bool" where
  "tag_at buf tag \<longleftrightarrow>
     (\<exists>u v. buf = u @ tag @ v \<and> (u = [] \<or> last u = CHR '' '') \<and> (v = [] \<or> hd v \<in> {CHR '' '', NL}))"

lemma strstr_split:
  assumes "strstr s p = Some i"
  shows "s = take i s @ p @ drop (i + length p) s" "i + length p \<le> length s"
proof -
  from strstr_Some_least [OF assms] obtain t where t: "drop i s = p @ t" and le: "i + length p \<le> length s"
    by blast
  have "drop (i + length p) s = drop (length p) (drop i s)" by (simp add: add.commute)
  then have "drop (i + length p) s = t" by (simp add: t)
  with t show "s = take i s @ p @ drop (i + length p) s" by (metis append_take_drop_id)
  show "i + length p \<le> length s" by (rule le)
qed

lemma last_take: "0 < i \<Longrightarrow> i \<le> length s \<Longrightarrow> last (take i s) = s ! (i - 1)"
  by (cases "take i s = []") (simp_all add: last_conv_nth min_def)

lemma has_tag_sound:
  assumes "invocation_has_tag (Some content) tag"
  shows "tag_at (cstr content) tag"
proof -
  from assms obtain i where i: "strstr (cstr content) tag = Some i"
    and edges: "i = 0 \<or> cstr content ! (i - 1) = CHR '' ''"
      "drop (i + length tag) (cstr content) = [] \<or> hd (drop (i + length tag) (cstr content)) \<in> {CHR '' '', NL}"
    by (auto simp: invocation_has_tag_def Let_def split: option.splits)
  have "take i (cstr content) = [] \<or> last (take i (cstr content)) = CHR '' ''"
    using edges(1) last_take [of i "cstr content"] strstr_split(2) [OF i] by (cases "i = 0") auto
  with strstr_split(1) [OF i] edges(2) show ?thesis unfolding tag_at_def by blast
qed

text \<open>Only the first occurrence is looked at.\<close>

lemma has_tag_first:
  assumes "cstr content = u @ tag @ v" "u = [] \<or> last u = CHR '' ''" "v = [] \<or> hd v \<in> {CHR '' '', NL}"
    and first: "\<forall>j < length u. \<not> is_prefix tag (drop j (cstr content))"
  shows "invocation_has_tag (Some content) tag"
proof -
  have "is_prefix tag (drop (length u) (cstr content))" by (simp add: assms(1) is_prefix_def)
  moreover from this have "strstr (cstr content) tag \<noteq> None"
    by (auto simp: strstr_None_iff assms(1))
  then obtain i where i: "strstr (cstr content) tag = Some i" by blast
  have "is_prefix tag (drop i (cstr content))"
    using strstr_Some_least [OF i] by (auto simp: is_prefix_iff)
  with first strstr_Some_least [OF i] calculation have "i = length u"
    by (meson linorder_neqE_nat)
  with i assms(2,3) show ?thesis
    by (cases u rule: rev_cases) (auto simp: invocation_has_tag_def assms(1) nth_append)
qed



end
