(* ===== verification/Strtonum.thy ===== *)
theory Strtonum
  imports Prelude
begin

text \<open>
  \<open>compat-strtonum.c\<close>: reading a decimal within bounds. \<open>strtoll\<close> is modelled as the C standard
  states it: leading white space, an optional sign, digits, saturation with \<open>ERANGE\<close>. Strings are
  C strings, so the end of the list is the terminating NUL.
\<close>

section \<open>Operations\<close>

datatype strtonum_error = INVALID | TOOSMALL | TOOLARGE

definition split_sign :: "string \<Rightarrow> bool \<times> string" where
  "split_sign s =
     (case s of
        [] \<Rightarrow> (False, [])
      | c # t \<Rightarrow> if c = CHR ''-'' then (True, t) else if c = CHR ''+'' then (False, t) else (False, s))"

text \<open>The value, whether \<open>errno\<close> becomes \<open>ERANGE\<close>, and the rest of the string at \<open>ep\<close>.\<close>

definition strtoll :: "string \<Rightarrow> int \<times> bool \<times> string" where
  "strtoll numstr =
     (case split_sign (dropWhile is_space numstr) of (neg, t) \<Rightarrow>
        let ds = takeWhile is_digit t;
            ep = dropWhile is_digit t;
            v = (if neg then - int (read_nat ds) else int (read_nat ds))
        in if ds = [] then (0, False, numstr)
           else if v < LLONG_MIN then (LLONG_MIN, True, ep)
           else if v > LLONG_MAX then (LLONG_MAX, True, ep)
           else (v, False, ep))"

definition strtonum :: "string \<Rightarrow> int \<Rightarrow> int \<Rightarrow> int \<times> strtonum_error option" where
  "strtonum numstr minval maxval =
     (if minval > maxval then (0, Some INVALID)
      else
        (case strtoll numstr of (ll, erange, ep) \<Rightarrow>
           if ep = numstr \<or> ep \<noteq> [] then (0, Some INVALID)
           else if ll = LLONG_MIN \<and> erange \<or> ll < minval then (0, Some TOOSMALL)
           else if ll = LLONG_MAX \<and> erange \<or> ll > maxval then (0, Some TOOLARGE)
           else (ll, None)))"

fun strtonum_errstr :: "strtonum_error \<Rightarrow> string" where
  "strtonum_errstr INVALID = ''invalid''"
| "strtonum_errstr TOOSMALL = ''too small''"
| "strtonum_errstr TOOLARGE = ''too large''"

section \<open>Specification\<close>

text \<open>The numerals and the number each denotes.\<close>

inductive numeral_of :: "string \<Rightarrow> int \<Rightarrow> bool" where
  plain: "numeral_of (sp @ ds) (int (read_nat ds))"
    if "\<forall>c \<in> set sp. is_space c" "ds \<noteq> []" "\<forall>c \<in> set ds. is_digit c"
| plus: "numeral_of (sp @ CHR ''+'' # ds) (int (read_nat ds))"
    if "\<forall>c \<in> set sp. is_space c" "ds \<noteq> []" "\<forall>c \<in> set ds. is_digit c"
| minus: "numeral_of (sp @ CHR ''-'' # ds) (- int (read_nat ds))"
    if "\<forall>c \<in> set sp. is_space c" "ds \<noteq> []" "\<forall>c \<in> set ds. is_digit c"

lemma takeWhile_digits:
  assumes "\<forall>c \<in> set ds. is_digit c"
  shows "takeWhile is_digit ds = ds" "dropWhile is_digit ds = []"
  using assms by (simp_all add: takeWhile_eq_all_conv dropWhile_eq_Nil_conv)

lemma dropWhile_spaces:
  "\<forall>c \<in> set sp. is_space c \<Longrightarrow> \<not> is_space c \<Longrightarrow> dropWhile is_space (sp @ c # t) = c # t"
  by (simp add: dropWhile_append_stop)

lemma sign_not_space: "\<not> is_space (CHR ''-'')" "\<not> is_space (CHR ''+'')"
  by (simp_all add: is_space_def)

lemma numeral_split:
  assumes "numeral_of s v"
  shows "\<exists>neg ds. split_sign (dropWhile is_space s) = (neg, ds) \<and> ds \<noteq> [] \<and>
    (\<forall>c \<in> set ds. is_digit c) \<and> v = (if neg then - int (read_nat ds) else int (read_nat ds))"
  using assms
proof cases
  case (plain sp ds)
  then obtain d ds' where ds: "ds = d # ds'" "is_digit d" by (cases ds) auto
  then have "dropWhile is_space s = ds"
    using plain dropWhile_spaces [of sp d ds'] is_space_not_digit by simp
  then have "split_sign (dropWhile is_space s) = (False, ds)"
    using ds is_digit_neq [OF ds(2)] by (simp add: split_sign_def)
  with plain show ?thesis by (intro exI [of _ False] exI [of _ ds]) simp
next
  case (plus sp ds)
  then have "split_sign (dropWhile is_space s) = (False, ds)"
    by (simp add: dropWhile_spaces sign_not_space split_sign_def)
  with plus show ?thesis by (intro exI [of _ False] exI [of _ ds]) simp
next
  case (minus sp ds)
  then have "split_sign (dropWhile is_space s) = (True, ds)"
    by (simp add: dropWhile_spaces sign_not_space split_sign_def)
  with minus show ?thesis by (intro exI [of _ True] exI [of _ ds]) simp
qed

lemma numeral_unique: "numeral_of s v \<Longrightarrow> numeral_of s w \<Longrightarrow> v = w"
  using numeral_split [of s v] numeral_split [of s w] by auto

lemma split_numeral:
  assumes "split_sign (dropWhile is_space s) = (neg, ds)" "ds \<noteq> []" "\<forall>c \<in> set ds. is_digit c"
  shows "numeral_of s (if neg then - int (read_nat ds) else int (read_nat ds))"
proof -
  have s: "s = takeWhile is_space s @ dropWhile is_space s" by simp
  have sp: "\<forall>c \<in> set (takeWhile is_space s). is_space c" by (auto dest: set_takeWhileD)
  obtain c t where ct: "dropWhile is_space s = c # t"
    using assms(1,2) by (cases "dropWhile is_space s") (auto simp: split_sign_def)
  consider "c = CHR ''-''" "neg" "ds = t" | "c = CHR ''+''" "\<not> neg" "ds = t" | "\<not> neg" "ds = c # t"
    using assms(1) ct by (auto simp: split_sign_def split: if_splits)
  then show ?thesis
  proof cases
    case 1
    then show ?thesis using minus [OF sp assms(2,3)] s ct by simp
  next
    case 2
    then show ?thesis using plus [OF sp assms(2,3)] s ct by simp
  next
    case 3
    then show ?thesis using plain [OF sp assms(2,3)] s ct by simp
  qed
qed

lemma strtoll_numeral:
  assumes "numeral_of s v"
  shows "strtoll s = (if v < LLONG_MIN then (LLONG_MIN, True, [])
    else if v > LLONG_MAX then (LLONG_MAX, True, []) else (v, False, []))" and "s \<noteq> []"
proof -
  obtain neg ds where n: "split_sign (dropWhile is_space s) = (neg, ds)" "ds \<noteq> []"
    "\<forall>c \<in> set ds. is_digit c" "v = (if neg then - int (read_nat ds) else int (read_nat ds))"
    using numeral_split [OF assms] by blast
  then show "strtoll s = (if v < LLONG_MIN then (LLONG_MIN, True, [])
    else if v > LLONG_MAX then (LLONG_MAX, True, []) else (v, False, []))"
    unfolding strtoll_def n(1) prod.case takeWhile_digits [OF n(3)] Let_def by auto
  show "s \<noteq> []" using n(1,2) by (auto simp: split_sign_def)
qed

lemma dropWhile_is_suffix: "\<exists>u. s = u @ dropWhile P s"
  by (metis takeWhile_dropWhile_id)

lemma strtoll_complete:
  assumes "strtoll s = (v, erange, [])" "s \<noteq> []"
  shows "\<exists>w. numeral_of s w"
proof -
  obtain neg t where n: "split_sign (dropWhile is_space s) = (neg, t)"
    by (cases "split_sign (dropWhile is_space s)")
  have "takeWhile is_digit t \<noteq> []" "dropWhile is_digit t = []"
    using assms n by (auto simp: strtoll_def Let_def split: if_splits)
  then have "t \<noteq> []" "\<forall>c \<in> set t. is_digit c" by (auto simp: dropWhile_eq_Nil_conv)
  from split_numeral [OF n this] show ?thesis by blast
qed

lemma strtonum_cases:
  assumes "numeral_of s v" "LLONG_MIN \<le> lo" "lo \<le> hi" "hi \<le> LLONG_MAX"
  shows "strtonum s lo hi = (if v < lo then (0, Some TOOSMALL)
    else if v > hi then (0, Some TOOLARGE) else (v, None))"
  using strtoll_numeral [OF assms(1)] assms(2-) by (auto simp: strtonum_def)

lemma strtonum_invalid:
  assumes "\<nexists>v. numeral_of s v"
  shows "strtonum s lo hi = (0, Some INVALID)"
  using strtoll_complete [of s] assms by (auto simp: strtonum_def split: prod.splits)

lemma numeral_show_int: "numeral_of (show_int v) v"
proof (cases "v < 0")
  case True
  then have "numeral_of ([] @ CHR ''-'' # show_nat (nat (- v))) (- int (read_nat (show_nat (nat (- v)))))"
    by (intro minus) (auto dest: show_nat_digits)
  then show ?thesis using True by (simp add: show_int_def read_show_nat)
next
  case False
  then have "numeral_of ([] @ show_nat (nat v)) (int (read_nat (show_nat (nat v))))"
    by (intro plain) (auto dest: show_nat_digits)
  then show ?thesis using False by (simp add: show_int_def read_show_nat)
qed

lemma strtonum_show_int [decimal_simps]:
  "LLONG_MIN \<le> lo \<Longrightarrow> lo \<le> v \<Longrightarrow> v \<le> hi \<Longrightarrow> hi \<le> LLONG_MAX \<Longrightarrow> strtonum (show_int v) lo hi = (v, None)"
  using strtonum_cases [OF numeral_show_int, of lo hi v] by simp

lemma strtonum_range:
  "strtonum s lo hi = (v, None) \<Longrightarrow> lo \<le> v \<and> v \<le> hi"
  by (auto simp: strtonum_def split: if_splits prod.splits)

section \<open>Properties\<close>

text \<open>C6: within bounds that fit \<open>long long\<close>, \<open>strtonum\<close> accepts exactly the decimal numerals whose
  value lies in the bounds, returns that value, and reads back every number that was printed; it
  tells numerals out of bounds from strings that are no numerals.\<close>

theorem strtonum_exact:
  assumes "LLONG_MIN \<le> lo" and "lo \<le> hi" and "hi \<le> LLONG_MAX"
  shows "(strtonum s lo hi = (v, None) \<longleftrightarrow> numeral_of s v \<and> lo \<le> v \<and> v \<le> hi) \<and>
    (snd (strtonum s lo hi) = Some INVALID \<longleftrightarrow> (\<nexists>w. numeral_of s w)) \<and>
    (lo \<le> v \<and> v \<le> hi \<longrightarrow> strtonum (show_int v) lo hi = (v, None))"
proof (cases "\<exists>w. numeral_of s w")
  case True
  then obtain w where w: "numeral_of s w" by blast
  then have "numeral_of s v \<longleftrightarrow> v = w" using numeral_unique by blast
  then show ?thesis
    using w assms unfolding strtonum_cases [OF w assms]
    by (auto simp: strtonum_show_int)
next
  case False
  then show ?thesis
    using assms unfolding strtonum_invalid [OF False, of lo hi] by (auto simp: strtonum_show_int)
qed

theorem strtonum_exact_witness:
  "strtonum (show_int (- 42)) (- 100) 100 = (- 42, None)"
  using strtonum_exact [of "- 100" 100 "''x''" "- 42"] by simp

end
