(* ===== verification/Getopt.thy ===== *)
theory Getopt
  imports Prelude
begin

text \<open>
  \<open>getopt(3)\<close>, which all programs parse their arguments with, and the loop around it. Arguments
  after the first that is no option are left alone, as POSIX has it and OpenBSD does; setting
  \<open>optind\<close> to 0 starts again.
\<close>

section \<open>One option\<close>

text \<open>\<open>place\<close> is what is left of the argument that is being scanned.\<close>

record getopt_state =
  go_ind :: nat
  go_place :: string

definition getopt_start :: getopt_state where
  "getopt_start = \<lparr>go_ind = 1, go_place = []\<rparr>"

definition getopt_reset :: getopt_state where
  "getopt_reset = \<lparr>go_ind = 0, go_place = []\<rparr>"

text \<open>-1, a question mark, or the option with its argument.\<close>

datatype getopt_result = GEnd | GBad | GOpt char string

definition takes_argument :: "string \<Rightarrow> char \<Rightarrow> bool" where
  "takes_argument options c \<longleftrightarrow>
     (case strchr options c of
        None \<Rightarrow> False
      | Some i \<Rightarrow> Suc i < length options \<and> options ! Suc i = CHR '':'')"

text \<open>Takes the next character of an argument with options.\<close>

definition getopt_char :: "string list \<Rightarrow> string \<Rightarrow> getopt_state \<Rightarrow> getopt_result \<times> getopt_state" where
  "getopt_char argv options st =
     (let i = go_ind st; c = hd (go_place st); p = tl (go_place st);
          moved = \<lparr>go_ind = (if p = [] then Suc i else i), go_place = p\<rparr>
      in if c = CHR '':'' \<or> (c = CHR ''-'' \<and> p \<noteq> []) \<or> strchr options c = None then
           (if c = CHR ''-'' \<and> p = [] then (GEnd, \<lparr>go_ind = i, go_place = p\<rparr>) else (GBad, moved))
         else if \<not> takes_argument options c then (GOpt c [], moved)
         else if p \<noteq> [] then (GOpt c p, \<lparr>go_ind = Suc i, go_place = []\<rparr>)
         else if length argv \<le> Suc i then (GBad, \<lparr>go_ind = Suc i, go_place = []\<rparr>)
         else (GOpt c (argv ! Suc i), \<lparr>go_ind = Suc (Suc i), go_place = []\<rparr>))"

definition getopt :: "string list \<Rightarrow> string \<Rightarrow> getopt_state \<Rightarrow> getopt_result \<times> getopt_state" where
  "getopt argv options st0 =
     (let st = (if go_ind st0 = 0 then getopt_start else st0);
          i = go_ind st
      in if go_place st \<noteq> [] then getopt_char argv options st
         else if length argv \<le> i then (GEnd, st)
         else
           (case argv ! i of
              [] \<Rightarrow> (GEnd, st)
            | [c] \<Rightarrow>
                if c = CHR ''-'' \<and> strchr options c \<noteq> None
                then getopt_char argv options (st\<lparr>go_place := [c]\<rparr>)
                else (GEnd, st)
            | c # d # ds \<Rightarrow>
                if c \<noteq> CHR ''-'' then (GEnd, st)
                else if d = CHR ''-'' \<and> ds = [] then (GEnd, st\<lparr>go_ind := Suc i\<rparr>)
                else getopt_char argv options (st\<lparr>go_place := d # ds\<rparr>)))"

section \<open>The loop\<close>

text \<open>How much is left to scan.\<close>

definition getopt_left :: "string list \<Rightarrow> getopt_state \<Rightarrow> nat" where
  "getopt_left argv st =
     (let i = (if go_ind st = 0 then 1 else go_ind st) in
      if go_ind st \<noteq> 0 \<and> go_place st \<noteq> []
      then length (go_place st) + sum_list (map (\<lambda>a. Suc (length a)) (drop (Suc i) argv))
      else sum_list (map (\<lambda>a. Suc (length a)) (drop i argv)))"

lemma sum_drop_Suc: "sum_list (drop (Suc i) xs) \<le> sum_list (drop i (xs :: nat list))"
  by (cases "i < length xs") (simp_all add: Cons_nth_drop_Suc [symmetric])

lemma getopt_char_left:
  assumes "getopt_char argv options st = (r, st')" "r \<noteq> GEnd" "go_place st \<noteq> []" "go_ind st \<noteq> 0"
  shows "getopt_left argv st' < getopt_left argv st \<and> go_ind st' \<noteq> 0"
  using assms sum_drop_Suc [of "Suc (go_ind st)" "map (\<lambda>a. Suc (length a)) argv"]
  by (cases "go_place st")
    (auto simp: getopt_char_def getopt_left_def Let_def drop_map split: if_splits)

lemma getopt_left_less:
  assumes "getopt argv options st0 = (r, st')" "r \<noteq> GEnd"
  shows "getopt_left argv st' < getopt_left argv st0"
proof -
  define st where "st = (if go_ind st0 = 0 then getopt_start else st0)"
  have left: "getopt_left argv st0 = getopt_left argv st" "go_ind st \<noteq> 0"
    by (cases "go_ind st0 = 0"; simp add: st_def getopt_left_def getopt_start_def)+
  show ?thesis
  proof (cases "go_place st = []")
    case False
    with assms have "getopt_char argv options st = (r, st')"
      by (simp add: getopt_def Let_def st_def split: if_splits)
    from getopt_char_left [OF this assms(2) False left(2)] left(1) show ?thesis by simp
  next
    case True
    with assms obtain p where p: "getopt_char argv options (st\<lparr>go_place := p\<rparr>) = (r, st')"
      "p \<noteq> []" "go_ind st < length argv" "length p \<le> length (argv ! go_ind st)"
      by (auto simp: getopt_def Let_def st_def [symmetric] split: if_splits list.splits)
    have "getopt_left argv (st\<lparr>go_place := p\<rparr>) \<le> getopt_left argv st"
      using p(3,4) True left(2)
      by (simp add: getopt_left_def Let_def Cons_nth_drop_Suc [symmetric])
    with getopt_char_left [OF p(1) assms(2)] p(2) left show ?thesis by simp
  qed
qed

text \<open>
  The loop of a program: \<open>handle\<close> is its \<open>switch\<close>, which may leave the function with \<open>Inl\<close>; an
  unknown option leaves it with \<open>bad\<close>, or only the loop when that is \<open>None\<close>.
\<close>

function getopt_loop ::
  "(char \<Rightarrow> string \<Rightarrow> 'a \<Rightarrow> 'e + 'a) \<Rightarrow> 'e option \<Rightarrow> string \<Rightarrow> string list \<Rightarrow> getopt_state \<Rightarrow> 'a \<Rightarrow>
   ('e + 'a) \<times> getopt_state" where
  "getopt_loop handle bad options argv st acc =
     (case getopt argv options st of
        (GEnd, st') \<Rightarrow> (Inr acc, st')
      | (GBad, st') \<Rightarrow> (case bad of None \<Rightarrow> (Inr acc, st') | Some e \<Rightarrow> (Inl e, st'))
      | (GOpt c a, st') \<Rightarrow>
          (case handle c a acc of
             Inl e \<Rightarrow> (Inl e, st')
           | Inr acc' \<Rightarrow> getopt_loop handle bad options argv st' acc'))"
  by pat_completeness auto
termination
  by (relation "measure (\<lambda>(handle, bad, options, argv, st, acc). getopt_left argv st)")
    (auto dest: getopt_left_less [OF sym])

declare getopt_loop.simps [simp del]

text \<open>The loop of a program whose \<open>switch\<close> has no default: it goes on after an option it does not know.\<close>

function getopt_lenient ::
  "(char \<Rightarrow> string \<Rightarrow> 'a \<Rightarrow> 'a) \<Rightarrow> string \<Rightarrow> string list \<Rightarrow> getopt_state \<Rightarrow> 'a \<Rightarrow> 'a \<times> getopt_state" where
  "getopt_lenient handle options argv st acc =
     (case getopt argv options st of
        (GEnd, st') \<Rightarrow> (acc, st')
      | (GBad, st') \<Rightarrow> getopt_lenient handle options argv st' acc
      | (GOpt c a, st') \<Rightarrow> getopt_lenient handle options argv st' (handle c a acc))"
  by pat_completeness auto
termination
  by (relation "measure (\<lambda>(handle, options, argv, st, acc). getopt_left argv st)")
    (auto dest: getopt_left_less [OF sym])

declare getopt_lenient.simps [simp del]

text \<open>What is left of the arguments after the loop: \<open>argv += optind\<close>.\<close>

definition remaining :: "string list \<Rightarrow> getopt_state \<Rightarrow> string list" where
  "remaining argv st = drop (go_ind st) argv"

section \<open>Well-formed arguments\<close>

text \<open>An option with its argument in a word of its own, as the usage messages show them.\<close>

datatype opt = Flag char | Arg char string

fun opt_words :: "opt \<Rightarrow> string list" where
  "opt_words (Flag c) = [[CHR ''-'', c]]"
| "opt_words (Arg c a) = [[CHR ''-'', c], a]"

fun opt_ok :: "string \<Rightarrow> opt \<Rightarrow> bool" where
  "opt_ok options (Flag c) =
     (c \<noteq> CHR '':'' \<and> c \<noteq> CHR ''-'' \<and> strchr options c \<noteq> None \<and> \<not> takes_argument options c)"
| "opt_ok options (Arg c a) =
     (c \<noteq> CHR '':'' \<and> c \<noteq> CHR ''-'' \<and> strchr options c \<noteq> None \<and> takes_argument options c)"

fun opt_result :: "opt \<Rightarrow> getopt_result" where
  "opt_result (Flag c) = GOpt c []"
| "opt_result (Arg c a) = GOpt c a"

definition at_word :: "getopt_state \<Rightarrow> nat \<Rightarrow> bool" where
  "at_word st i \<longleftrightarrow> 0 < i \<and> (go_ind st = 0 \<and> i = 1 \<or> go_ind st = i \<and> go_place st = [])"

lemma at_word_start: "at_word getopt_start 1" "at_word getopt_reset 1"
  by (simp_all add: at_word_def getopt_start_def getopt_reset_def)

lemma getopt_at:
  assumes "at_word st i"
  shows "getopt argv options st =
    (if length argv \<le> i then (GEnd, \<lparr>go_ind = i, go_place = []\<rparr>)
     else
       (case argv ! i of
          [] \<Rightarrow> (GEnd, \<lparr>go_ind = i, go_place = []\<rparr>)
        | [c] \<Rightarrow>
            if c = CHR ''-'' \<and> strchr options c \<noteq> None
            then getopt_char argv options \<lparr>go_ind = i, go_place = [c]\<rparr>
            else (GEnd, \<lparr>go_ind = i, go_place = []\<rparr>)
        | c # d # ds \<Rightarrow>
            if c \<noteq> CHR ''-'' then (GEnd, \<lparr>go_ind = i, go_place = []\<rparr>)
            else if d = CHR ''-'' \<and> ds = [] then (GEnd, \<lparr>go_ind = Suc i, go_place = []\<rparr>)
            else getopt_char argv options \<lparr>go_ind = i, go_place = d # ds\<rparr>))"
proof -
  have "(if go_ind st = 0 then getopt_start else st) = \<lparr>go_ind = i, go_place = []\<rparr>"
    using assms by (cases st) (auto simp: at_word_def getopt_start_def)
  then show ?thesis by (simp only: getopt_def Let_def) (auto split: list.split)
qed

lemma getopt_opt:
  assumes "opt_ok options o'" "drop i argv = opt_words o' @ rest" "at_word st i"
  shows "getopt argv options st =
    (opt_result o', \<lparr>go_ind = i + length (opt_words o'), go_place = []\<rparr>)"
proof -
  have i: "i < length argv" "argv ! i = hd (opt_words o')"
    using assms(2) by (cases o'; cases "i < length argv"; simp add: Cons_nth_drop_Suc [symmetric])+
  have a: "Suc i < length argv \<and> argv ! Suc i = a" if "o' = Arg c a" for c a
  proof -
    have "drop i argv ! 1 = a" "1 < length (drop i argv)" using assms(2) that by simp_all
    then show ?thesis by simp
  qed
  show ?thesis
  proof (cases o')
    case (Flag c)
    with assms(1) i getopt_at [OF assms(3), of argv options] show ?thesis
      by (simp add: getopt_char_def Let_def)
  next
    case (Arg c x)
    with assms(1) i a [OF Arg] getopt_at [OF assms(3), of argv options] show ?thesis
      by (simp add: getopt_char_def Let_def)
  qed
qed

text \<open>A fold over the options, which stops at the first that leaves the function.\<close>

fun handle_opts :: "(char \<Rightarrow> string \<Rightarrow> 'a \<Rightarrow> 'e + 'a) \<Rightarrow> opt list \<Rightarrow> 'a \<Rightarrow> 'e + 'a" where
  "handle_opts handle [] acc = Inr acc"
| "handle_opts handle (o' # os) acc =
     (case (case o' of Flag c \<Rightarrow> handle c [] acc | Arg c a \<Rightarrow> handle c a acc) of
        Inl e \<Rightarrow> Inl e
      | Inr acc' \<Rightarrow> handle_opts handle os acc')"

lemma getopt_loop_step:
  assumes "opt_ok options o'" "drop i argv = opt_words o' @ rest" "at_word st i"
  shows "\<exists>st'. at_word st' (i + length (opt_words o')) \<and> drop (i + length (opt_words o')) argv = rest \<and>
    getopt_loop handle bad options argv st acc =
      (case handle_opts handle [o'] acc of
         Inl e \<Rightarrow> (Inl e, st')
       | Inr acc' \<Rightarrow> getopt_loop handle bad options argv st' acc')"
proof -
  let ?st = "\<lparr>go_ind = i + length (opt_words o'), go_place = []\<rparr>"
  have "drop (length (opt_words o')) (drop i argv) = rest" unfolding assms(2) by simp
  then have "drop (i + length (opt_words o')) argv = rest" by (simp add: add.commute)
  moreover have "at_word ?st (i + length (opt_words o'))" by (cases o') (simp_all add: at_word_def)
  ultimately show ?thesis
    using getopt_opt [OF assms]
    by (intro exI [of _ ?st], cases o')
      (simp_all add: getopt_loop.simps [of handle bad options argv st] split: sum.split)
qed

lemma getopt_loop_opts:
  assumes "\<forall>o' \<in> set os. opt_ok options o'" "drop i argv = concat (map opt_words os) @ rest" "at_word st i"
    and "handle_opts handle os acc = Inr acc'"
  shows "\<exists>st' j. at_word st' j \<and> drop j argv = rest \<and> j = i + length (concat (map opt_words os)) \<and>
    getopt_loop handle bad options argv st acc = getopt_loop handle bad options argv st' acc'"
  using assms
proof (induction os arbitrary: i st acc)
  case Nil
  then show ?case by auto
next
  case (Cons o' os)
  obtain st1 where 1: "at_word st1 (i + length (opt_words o'))"
    "drop (i + length (opt_words o')) argv = concat (map opt_words os) @ rest"
    "getopt_loop handle bad options argv st acc =
      (case handle_opts handle [o'] acc of
         Inl e \<Rightarrow> (Inl e, st1)
       | Inr acc' \<Rightarrow> getopt_loop handle bad options argv st1 acc')"
    using getopt_loop_step [of options o' i argv "concat (map opt_words os) @ rest" st handle bad acc]
      Cons.prems(1-3) by auto
  obtain acc1 where acc1: "handle_opts handle [o'] acc = Inr acc1" "handle_opts handle os acc1 = Inr acc'"
    using Cons.prems(4) by (auto split: sum.splits)
  from Cons.IH [OF _ 1(2,1) acc1(2)] Cons.prems(1) 1(3) acc1(1) show ?case
    by (auto simp: add.assoc)
qed

lemma getopt_end:
  assumes "at_word st i" "drop i argv = rest" "rest = [] \<or> (\<exists>a as. rest = a # as \<and> (a = [] \<or> hd a \<noteq> CHR ''-''))"
  shows "\<exists>st'. getopt_loop handle bad options argv st acc = (Inr acc, st') \<and> remaining argv st' = rest"
proof -
  have "length argv \<le> i \<or> (i < length argv \<and> (argv ! i = [] \<or> hd (argv ! i) \<noteq> CHR ''-''))"
    using assms(2,3) by (cases "i < length argv") (auto simp: Cons_nth_drop_Suc [symmetric])
  note nd = this
  have "\<exists>st'. getopt argv options st = (GEnd, st') \<and> go_ind st' = i"
    using getopt_at [OF assms(1), of argv options] nd
    by (cases "length argv \<le> i"; cases "argv ! i"; cases "tl (argv ! i)") auto
  then show ?thesis
    using assms(2) by (auto simp: getopt_loop.simps [of handle bad options argv st] remaining_def)
qed

lemma getopt_dashes:
  assumes "at_word st i" "drop i argv = ''--'' # rest"
  shows "\<exists>st'. getopt_loop handle bad options argv st acc = (Inr acc, st') \<and> remaining argv st' = rest"
proof -
  have i: "i < length argv" "argv ! i = ''--''" "drop (Suc i) argv = rest"
    using assms(2) by (cases "i < length argv"; simp add: Cons_nth_drop_Suc [symmetric])+
  then have "\<exists>st'. getopt argv options st = (GEnd, st') \<and> go_ind st' = Suc i"
    using getopt_at [OF assms(1), of argv options] by simp
  then show ?thesis
    using i(3) by (auto simp: getopt_loop.simps [of handle bad options argv st] remaining_def)
qed

lemma getopt_unknown:
  assumes "at_word st i" "drop i argv = [CHR ''-'', c] # rest" "c \<noteq> CHR ''-''" "strchr options c = None"
  shows "getopt argv options st = (GBad, \<lparr>go_ind = Suc i, go_place = []\<rparr>)"
proof -
  have i: "i < length argv" "argv ! i = [CHR ''-'', c]"
    using assms(2) by (cases "i < length argv"; simp add: Cons_nth_drop_Suc [symmetric])+
  then show ?thesis
    using assms(3,4) getopt_at [OF assms(1), of argv options] by (simp add: getopt_char_def Let_def)
qed

end
