(* ===== verification/Stat.thy ===== *)
theory Stat
  imports Complex_Main Invocation Strtonum Getopt
begin

text \<open>
  \<open>robsd-stat.c\<close>, which samples the system in an endless loop and prints a line for each sample. What the
  kernel answers to the calls of one round is a record; the rounds are a list, so that a result without an exit
  status is a program that is still running after the last of them. Numbers of type \<open>double\<close> are rationals
  with the infinities and the not-a-number of IEEE arithmetic; they are not rounded.
\<close>

section \<open>State\<close>

datatype cpustate = CP_USER | CP_NICE | CP_SYS | CP_SPIN | CP_INTR | CP_IDLE

text \<open>The loops over the states go through them in this order.\<close>

instantiation cpustate :: enum
begin

definition enum_cpustate :: "cpustate list" where
  "enum_cpustate = [CP_USER, CP_NICE, CP_SYS, CP_SPIN, CP_INTR, CP_IDLE]"

definition enum_all_cpustate :: "(cpustate \<Rightarrow> bool) \<Rightarrow> bool" where
  "enum_all_cpustate P \<longleftrightarrow> P CP_USER \<and> P CP_NICE \<and> P CP_SYS \<and> P CP_SPIN \<and> P CP_INTR \<and> P CP_IDLE"

definition enum_ex_cpustate :: "(cpustate \<Rightarrow> bool) \<Rightarrow> bool" where
  "enum_ex_cpustate P \<longleftrightarrow> P CP_USER \<or> P CP_NICE \<or> P CP_SYS \<or> P CP_SPIN \<or> P CP_INTR \<or> P CP_IDLE"

instance
proof
  have "x \<in> set [CP_USER, CP_NICE, CP_SYS, CP_SPIN, CP_INTR, CP_IDLE]" for x by (cases x) simp_all
  then have univ: "UNIV = set [CP_USER, CP_NICE, CP_SYS, CP_SPIN, CP_INTR, CP_IDLE]" by blast
  then show "(UNIV :: cpustate set) = set enum_class.enum" by (simp add: enum_cpustate_def)
  show "distinct (enum_class.enum :: cpustate list)" by (simp add: enum_cpustate_def)
  show "enum_class.enum_all P \<longleftrightarrow> Ball UNIV P" for P :: "cpustate \<Rightarrow> bool"
    unfolding enum_all_cpustate_def univ by simp
  show "enum_class.enum_ex P \<longleftrightarrow> Bex UNIV P" for P :: "cpustate \<Rightarrow> bool"
    unfolding enum_ex_cpustate_def univ by simp
qed

end

datatype double = Fin rat | Inf bool | NaN

record stat_context =
  sc_directory :: string
  sc_time :: int
  sc_loadavg :: double
  sc_nprocs :: int
  sc_nthreads :: int
  sc_abs :: "cpustate \<Rightarrow> int"
  sc_rel :: "cpustate \<Rightarrow> double"
  sc_entries :: "(int \<times> int) list option"
  sc_used :: double

text \<open>A process: its identifier and the name of its program.\<close>

type_synonym proc = "int \<times> string"

text \<open>The answers of one round; \<open>None\<close> is a call that fails.\<close>

record sample =
  sm_time :: "(int \<times> int) option"
  sm_cpu :: "(cpustate \<Rightarrow> int) option"
  sm_load :: "(nat \<times> nat) option"
  sm_ncpu :: "int option"
  sm_nprocs :: "int option"
  sm_nthreads :: "int option"
  sm_user :: "string \<Rightarrow> int option"
  sm_count :: "int \<Rightarrow> nat option"
  sm_procs :: "int \<Rightarrow> nat \<Rightarrow> proc list option"
  sm_cwd :: "int \<Rightarrow> string option"
  sm_nswap :: "nat option"
  sm_swap :: "(int \<times> int) list option"

section \<open>Arithmetic\<close>

fun double_add :: "double \<Rightarrow> double \<Rightarrow> double" where
  "double_add (Fin a) (Fin b) = Fin (a + b)"
| "double_add (Inf s) (Inf t) = (if s = t then Inf s else NaN)"
| "double_add (Inf s) (Fin b) = Inf s"
| "double_add (Fin a) (Inf t) = Inf t"
| "double_add _ _ = NaN"

text \<open>Dividing by the conversion of an integer, whose zero is positive.\<close>

fun double_div :: "double \<Rightarrow> int \<Rightarrow> double" where
  "double_div (Fin a) n =
     (if n \<noteq> 0 then Fin (a / of_int n) else if a = 0 then NaN else Inf (a < 0))"
| "double_div (Inf s) n = Inf (s \<noteq> (n < 0))"
| "double_div NaN n = NaN"

text \<open>The directive \<open>%.2f\<close>, ties to even.\<close>

definition hundredths :: "rat \<Rightarrow> int" where
  "hundredths x =
     (let f = \<lfloor>x * 100\<rfloor>; d = x * 100 - of_int f
      in if d < 1 / 2 then f else if d > 1 / 2 then f + 1 else if even f then f else f + 1)"

fun show_double :: "double \<Rightarrow> string" where
  "show_double (Fin x) =
     (let h = hundredths (abs x)
      in (if x < 0 then ''-'' else []) @ show_int (h div 100) @ ''.'' @ show_int (h mod 100 div 10) @ show_int (h mod 10))"
| "show_double (Inf s) = (if s then ''-inf'' else ''inf'')"
| "show_double NaN = ''nan''"

section \<open>One round\<close>

text \<open>Every routine says whether it failed.\<close>

definition stat_time :: "sample \<Rightarrow> stat_context \<Rightarrow> bool \<times> stat_context" where
  "stat_time sm c =
     (case sm_time sm of
        None \<Rightarrow> (True, c)
      | Some (sec, nsec) \<Rightarrow> (False, c\<lparr>sc_time := (sec + nsec div 1000000000) mod 2 ^ 64\<rparr>))"

fun cpustate_shown :: "cpustate \<Rightarrow> cpustate" where
  "cpustate_shown CP_NICE = CP_USER"
| "cpustate_shown s = s"

definition cpu_total :: "(cpustate \<Rightarrow> int) \<Rightarrow> (cpustate \<Rightarrow> int) \<Rightarrow> int" where
  "cpu_total old cpu = sum_list (map (\<lambda>i. if old i = 0 then 0 else cpu i - old i) Enum.enum)"

definition cpu_share :: "(cpustate \<Rightarrow> int) \<Rightarrow> (cpustate \<Rightarrow> int) \<Rightarrow> cpustate \<Rightarrow> (cpustate \<Rightarrow> double) \<Rightarrow> cpustate \<Rightarrow> double" where
  "cpu_share old cpu i rel =
     (if old i = 0 then rel
      else rel(cpustate_shown i :=
        double_add (rel (cpustate_shown i)) (double_div (Fin (of_int (cpu i - old i))) (cpu_total old cpu))))"

definition stat_cpu :: "sample \<Rightarrow> stat_context \<Rightarrow> bool \<times> stat_context" where
  "stat_cpu sm c =
     (case sm_cpu sm of
        None \<Rightarrow> (True, c)
      | Some cpu \<Rightarrow>
          (False, c\<lparr>sc_rel := fold (cpu_share (sc_abs c) cpu) Enum.enum (\<lambda>_. Fin 0), sc_abs := cpu\<rparr>))"

definition stat_loadavg :: "sample \<Rightarrow> stat_context \<Rightarrow> bool \<times> stat_context" where
  "stat_loadavg sm c =
     (case sm_load sm of
        None \<Rightarrow> (True, c)
      | Some (ldavg, fscale) \<Rightarrow>
          let c1 = c\<lparr>sc_loadavg := double_div (Fin (of_nat ldavg)) (int fscale)\<rparr>
          in (case sm_ncpu sm of
                None \<Rightarrow> (True, c1)
              | Some ncpu \<Rightarrow> (False, c1\<lparr>sc_loadavg := double_div (sc_loadavg c1) ncpu\<rparr>)))"

definition stat_procs_and_threads :: "sample \<Rightarrow> stat_context \<Rightarrow> bool \<times> stat_context" where
  "stat_procs_and_threads sm c =
     (case sm_nprocs sm of
        None \<Rightarrow> (True, c)
      | Some nprocs \<Rightarrow>
          let c1 = c\<lparr>sc_nprocs := nprocs\<rparr>
          in (case sm_nthreads sm of
                None \<Rightarrow> (True, c1)
              | Some nthreads \<Rightarrow> (False, c1\<lparr>sc_nthreads := nthreads\<rparr>)))"

text \<open>The size of a directory counts its NUL; a process without an answer is gone by now.\<close>

fun longest_cwd :: "(int \<Rightarrow> string option) \<Rightarrow> proc list \<Rightarrow> nat \<Rightarrow> string \<Rightarrow> nat \<times> string" where
  "longest_cwd cwd_of [] maxlen dir = (maxlen, dir)"
| "longest_cwd cwd_of ((pid, comm) # ps) maxlen dir =
     (if comm \<noteq> ''make'' \<and> comm \<noteq> ''gmake'' then longest_cwd cwd_of ps maxlen dir
      else
        (case cwd_of pid of
           None \<Rightarrow> longest_cwd cwd_of ps maxlen dir
         | Some cwd \<Rightarrow>
             if length cwd + 1 > maxlen then longest_cwd cwd_of ps (length cwd + 1) (take (PATH_MAX - 1) cwd)
             else longest_cwd cwd_of ps maxlen dir))"

text \<open>-1, 0 and 1.\<close>

datatype found = Failed | NotFound | Found

definition stat_directory1 :: "sample \<Rightarrow> string \<Rightarrow> stat_context \<Rightarrow> found \<times> stat_context" where
  "stat_directory1 sm user c =
     (let c1 = c\<lparr>sc_directory := []\<rparr> in
      case sm_user sm user of
        None \<Rightarrow> (Failed, c1)
      | Some uid \<Rightarrow>
          (case sm_count sm uid of
             None \<Rightarrow> (Failed, c1)
           | Some nprocs \<Rightarrow>
               if nprocs = 0 then (NotFound, c1)
               else
                 (case sm_procs sm uid (nprocs + nprocs div 8) of
                    None \<Rightarrow> (Failed, c1)
                  | Some ps \<Rightarrow>
                      (case longest_cwd (sm_cwd sm) ps 0 [] of (maxlen, dir) \<Rightarrow>
                         (if maxlen > 0 then Found else NotFound, c1\<lparr>sc_directory := dir\<rparr>)))))"

fun stat_directory :: "sample \<Rightarrow> string list \<Rightarrow> stat_context \<Rightarrow> bool \<times> stat_context" where
  "stat_directory sm [] c = (False, c)"
| "stat_directory sm (user # users) c =
     (case stat_directory1 sm user c of
        (Failed, c1) \<Rightarrow> (True, c1)
      | (NotFound, c1) \<Rightarrow> stat_directory sm users c1
      | (Found, c1) \<Rightarrow> (False, c1))"

text \<open>The entries are allocated in the first round, and a later answer with fewer leaves the others as they were.\<close>

definition stat_swap_alloc :: "sample \<Rightarrow> stat_context \<Rightarrow> (int \<times> int) list option" where
  "stat_swap_alloc sm c =
     (case sc_entries c of
        Some entries \<Rightarrow> Some entries
      | None \<Rightarrow> map_option (\<lambda>n. replicate n (0, 0)) (sm_nswap sm))"

definition stat_swap :: "sample \<Rightarrow> stat_context \<Rightarrow> bool \<times> stat_context" where
  "stat_swap sm c =
     (case stat_swap_alloc sm c of
        None \<Rightarrow> (True, c)
      | Some old \<Rightarrow>
          (case sm_swap sm of
             None \<Rightarrow> (True, c\<lparr>sc_entries := Some old\<rparr>)
           | Some answer \<Rightarrow>
               let new = take (length old) answer @ drop (length answer) old;
                   used = sum_list (map fst new);
                   total = sum_list (map snd new);
                   c1 = c\<lparr>sc_entries := Some new\<rparr>
               in (False, if total > 0 then c1\<lparr>sc_used := double_div (Fin (of_int used)) total\<rparr> else c1)))"

definition stat_print :: "stat_context \<Rightarrow> string" where
  "stat_print c =
     show_int (sc_time c) @ '','' @ show_double (sc_loadavg c) @ '','' @ show_double (sc_rel c CP_USER) @ '','' @
     show_double (sc_rel c CP_SYS) @ '','' @ show_double (sc_rel c CP_SPIN) @ '','' @ show_double (sc_rel c CP_INTR) @ '','' @
     show_double (sc_rel c CP_IDLE) @ '','' @ show_double (sc_used c) @ '','' @ show_int (sc_nprocs c) @ '','' @
     show_int (sc_nthreads c) @ '','' @ sc_directory c @ [NL]"

section \<open>The program\<close>

definition stat_round :: "string list \<Rightarrow> sample \<Rightarrow> stat_context \<Rightarrow> bool \<times> stat_context" where
  "stat_round users sm c =
     (case stat_time sm c of (True, c) \<Rightarrow> (True, c) | (False, c) \<Rightarrow>
     (case stat_cpu sm c of (True, c) \<Rightarrow> (True, c) | (False, c) \<Rightarrow>
     (case stat_loadavg sm c of (True, c) \<Rightarrow> (True, c) | (False, c) \<Rightarrow>
     (case stat_procs_and_threads sm c of (True, c) \<Rightarrow> (True, c) | (False, c) \<Rightarrow>
     (case stat_directory sm users c of (True, c) \<Rightarrow> (True, c) | (False, c) \<Rightarrow>
     stat_swap sm c)))))"

fun stat_loop :: "string list \<Rightarrow> sample list \<Rightarrow> stat_context \<Rightarrow> string \<times> int option" where
  "stat_loop users [] c = ([], None)"
| "stat_loop users (sm # sms) c =
     (case stat_round users sm c of
        (True, c1) \<Rightarrow> ([], Some 1)
      | (False, c1) \<Rightarrow> (case stat_loop users sms c1 of (out, status) \<Rightarrow> (stat_print c1 @ out, status)))"

definition stat_start :: stat_context where
  "stat_start = \<lparr>sc_directory = [], sc_time = 0, sc_loadavg = Fin 0, sc_nprocs = 0, sc_nthreads = 0,
     sc_abs = (\<lambda>_. 0), sc_rel = (\<lambda>_. Fin 0), sc_entries = None, sc_used = Fin 0\<rparr>"

text \<open>The options: whether to print the header, the interval and the users.\<close>

definition stat_opt :: "char \<Rightarrow> string \<Rightarrow> bool \<times> int \<times> string list \<Rightarrow> unit + bool \<times> int \<times> string list" where
  "stat_opt c optarg acc =
     (case acc of (doheader, interval, users) \<Rightarrow>
        if c = CHR ''H'' then Inr (True, interval, users)
        else if c = CHR ''i'' then
          (let num = fst (strtonum optarg 1 INT_MAX) in if num = 0 then Inl () else Inr (doheader, num, users))
        else if c = CHR ''u'' then Inr (doheader, interval, users @ [optarg])
        else Inl ())"

definition stat_header :: string where
  "stat_header = ''time,load,user,sys,spin,intr,idle,swap,nprocs,nthreads,directory'' @ [NL]"

definition robsd_stat_main :: "sample list \<Rightarrow> string list \<Rightarrow> string \<times> int option" where
  "robsd_stat_main samples argv =
     (case getopt_loop stat_opt (Some ()) ''Hi:u:'' argv getopt_start (False, 0, []) of
        (Inl _, _) \<Rightarrow> ([], Some 1)
      | (Inr (doheader, interval, users), go) \<Rightarrow>
          if remaining argv go \<noteq> [] \<or> (\<not> doheader \<and> interval = 0) then ([], Some 1)
          else if doheader then (stat_header, Some 0)
          else if users = [] then ([], Some 1)
          else stat_loop users samples stat_start)"

text \<open>The microseconds between two rounds, in an \<open>unsigned int\<close>.\<close>

definition stat_sleep :: "int \<Rightarrow> int" where
  "stat_sleep interval = interval * 1000 * 1000 mod 2 ^ 32"


section \<open>Processor states\<close>

lemma fold_shares:
  assumes "cpu_total old cpu \<noteq> 0" "\<forall>j. rel j = Fin (r j)"
  shows "fold (cpu_share old cpu) is rel j =
    Fin (r j + sum_list (map (\<lambda>i. if old i \<noteq> 0 \<and> cpustate_shown i = j
      then of_int (cpu i - old i) / of_int (cpu_total old cpu) else 0) is))"
  using assms(2)
proof (induction "is" arbitrary: rel r)
  case Nil
  then show ?case by simp
next
  case (Cons i "is")
  let ?d = "of_int (cpu i - old i) / of_int (cpu_total old cpu) :: rat"
  have "\<forall>j. cpu_share old cpu i rel j = Fin (r j + (if old i \<noteq> 0 \<and> cpustate_shown i = j then ?d else 0))"
    using Cons.prems assms(1) by (auto simp: cpu_share_def)
  from Cons.IH [OF this] show ?case by (simp add: add.assoc)
qed

text \<open>What the line says about the processor: the share of each state of the time that passed.\<close>

definition shown_states :: "cpustate list" where
  "shown_states = [CP_USER, CP_SYS, CP_SPIN, CP_INTR, CP_IDLE]"

definition elapsed :: "(cpustate \<Rightarrow> int) \<Rightarrow> (cpustate \<Rightarrow> int) \<Rightarrow> cpustate \<Rightarrow> int" where
  "elapsed old cpu s = sum_list (map (\<lambda>i. if old i \<noteq> 0 \<and> cpustate_shown i = s then cpu i - old i else 0) Enum.enum)"

lemma elapsed_total: "sum_list (map (elapsed old cpu) shown_states) = cpu_total old cpu"
  by (simp add: elapsed_def cpu_total_def shown_states_def enum_cpustate_def)

lemma elapsed_share:
  "sum_list (map (\<lambda>i. if old i \<noteq> 0 \<and> cpustate_shown i = s then of_int (cpu i - old i) / t else 0) xs) =
   of_int (sum_list (map (\<lambda>i. if old i \<noteq> 0 \<and> cpustate_shown i = s then cpu i - old i else 0) xs)) / (t :: rat)"
  by (induction xs) (simp_all add: add_divide_distrib)

lemma stat_cpu_shares_lemma:
  assumes "sm_cpu sm = Some cpu" "stat_cpu sm c = (e, c')" "cpu_total (sc_abs c) cpu \<noteq> 0"
  shows "\<not> e" "sc_abs c' = cpu"
    "sc_rel c' s = Fin (of_int (elapsed (sc_abs c) cpu s) / of_int (cpu_total (sc_abs c) cpu))"
proof -
  have "\<forall>j. Fin (0 :: rat) = Fin ((\<lambda>_. 0) j)" by simp
  from fold_shares [OF assms(3) this]
  have "fold (cpu_share (sc_abs c) cpu) Enum.enum (\<lambda>_. Fin 0) s =
      Fin (of_int (elapsed (sc_abs c) cpu s) / of_int (cpu_total (sc_abs c) cpu))"
    by (simp add: elapsed_share elapsed_def)
  then show "\<not> e" "sc_abs c' = cpu"
    "sc_rel c' s = Fin (of_int (elapsed (sc_abs c) cpu s) / of_int (cpu_total (sc_abs c) cpu))"
    using assms(1,2) by (auto simp: stat_cpu_def)
qed

lemma sum_div: "sum_list (map (\<lambda>s. of_int (f s) / t) xs) = of_int (sum_list (map f xs)) / (t :: rat)"
  by (induction xs) (simp_all add: add_divide_distrib)


section \<open>The directory\<close>

text \<open>The directories of the make processes of a user, as far as the kernel knows them.\<close>

definition make_dirs :: "sample \<Rightarrow> int \<Rightarrow> string list" where
  "make_dirs sm uid =
     (case sm_count sm uid of
        None \<Rightarrow> []
      | Some n \<Rightarrow>
          (case sm_procs sm uid (n + n div 8) of
             None \<Rightarrow> []
           | Some ps \<Rightarrow> if n = 0 then [] else
               concat (map (\<lambda>(pid, comm). if comm = ''make'' \<or> comm = ''gmake''
                 then (case sm_cwd sm pid of None \<Rightarrow> [] | Some d \<Rightarrow> [d]) else []) ps)))"

text \<open>The first of the longest.\<close>

definition first_longest :: "string list \<Rightarrow> string \<Rightarrow> bool" where
  "first_longest ds d \<longleftrightarrow>
     (\<exists>before after. ds = before @ d # after \<and> (\<forall>d' \<in> set before. length d' < length d) \<and>
       (\<forall>d' \<in> set after. length d' \<le> length d))"

fun longest_of :: "string list \<Rightarrow> nat \<Rightarrow> string \<Rightarrow> nat \<times> string" where
  "longest_of [] maxlen dir = (maxlen, dir)"
| "longest_of (d # ds) maxlen dir = (if length d + 1 > maxlen then longest_of ds (length d + 1) d else longest_of ds maxlen dir)"

lemma longest_cwd_dirs:
  assumes "\<forall>(pid, comm) \<in> set ps. \<forall>d. cwd_of pid = Some d \<longrightarrow> length d < PATH_MAX"
  shows "longest_cwd cwd_of ps maxlen dir =
    longest_of (concat (map (\<lambda>(pid, comm). if comm = ''make'' \<or> comm = ''gmake''
      then (case cwd_of pid of None \<Rightarrow> [] | Some d \<Rightarrow> [d]) else []) ps)) maxlen dir"
  using assms
proof (induction cwd_of ps maxlen dir rule: longest_cwd.induct)
  case (1 cwd_of maxlen dir)
  then show ?case by simp
next
  case (2 cwd_of pid comm ps maxlen dir)
  then show ?case by (auto split: option.splits)
qed

lemma longest_of_first:
  "longest_of ds m dir = (m', dir') \<Longrightarrow>
     (m' = m \<and> dir' = dir \<and> (\<forall>d \<in> set ds. length d < m)) \<or>
     (m < m' \<and> m' = length dir' + 1 \<and> first_longest ds dir')"
proof (induction ds m dir rule: longest_of.induct)
  case (1 m dir)
  then show ?case by simp
next
  case (2 d ds m dir)
  show ?case
  proof (cases "length d + 1 > m")
    case True
    then have r: "longest_of ds (length d + 1) d = (m', dir')" using "2.prems" by simp
    from "2.IH"(1) [OF True r] show ?thesis
    proof (elim disjE conjE)
      assume "m' = length d + 1" "dir' = d" "\<forall>d' \<in> set ds. length d' < length d + 1"
      then have "first_longest (d # ds) dir'" unfolding first_longest_def by (intro exI [of _ "[]"] exI [of _ ds]) auto
      then show ?thesis using \<open>m' = length d + 1\<close> \<open>dir' = d\<close> True by simp
    next
      assume m: "length d + 1 < m'" "m' = length dir' + 1" and "first_longest ds dir'"
      then obtain before after where "ds = before @ dir' # after" "\<forall>d' \<in> set before. length d' < length dir'"
        "\<forall>d' \<in> set after. length d' \<le> length dir'" by (auto simp: first_longest_def)
      then have "first_longest (d # ds) dir'"
        unfolding first_longest_def using m by (intro exI [of _ "d # before"] exI [of _ after]) auto
      then show ?thesis using m True by simp
    qed
  next
    case False
    then have r: "longest_of ds m dir = (m', dir')" using "2.prems" by simp
    from "2.IH"(2) [OF False r] show ?thesis
    proof (elim disjE conjE)
      assume "m' = m" "dir' = dir" "\<forall>d' \<in> set ds. length d' < m"
      then show ?thesis using False by auto
    next
      assume m: "m < m'" "m' = length dir' + 1" and "first_longest ds dir'"
      then obtain before after where "ds = before @ dir' # after" "\<forall>d' \<in> set before. length d' < length dir'"
        "\<forall>d' \<in> set after. length d' \<le> length dir'" by (auto simp: first_longest_def)
      then have "first_longest (d # ds) dir'"
        unfolding first_longest_def using m False by (intro exI [of _ "d # before"] exI [of _ after]) auto
      then show ?thesis using m by simp
    qed
  qed
qed

text \<open>The kernel answers about known users, and its directories fit.\<close>

definition users_known :: "sample \<Rightarrow> string list \<Rightarrow> bool" where
  "users_known sm users \<longleftrightarrow>
     (\<forall>u \<in> set users. \<exists>uid n ps. sm_user sm u = Some uid \<and> sm_count sm uid = Some n \<and>
        sm_procs sm uid (n + n div 8) = Some ps) \<and>
     (\<forall>pid d. sm_cwd sm pid = Some d \<longrightarrow> length d < PATH_MAX)"

definition user_dirs :: "sample \<Rightarrow> string \<Rightarrow> string list" where
  "user_dirs sm user = (case sm_user sm user of None \<Rightarrow> [] | Some uid \<Rightarrow> make_dirs sm uid)"

lemma stat_directory1_dirs:
  assumes "users_known sm users" "user \<in> set users"
  shows "\<exists>d. stat_directory1 sm user c =
    (if user_dirs sm user = [] then NotFound else Found, c\<lparr>sc_directory := d\<rparr>) \<and>
    (if user_dirs sm user = [] then d = [] else first_longest (user_dirs sm user) d)"
proof -
  obtain uid n ps where u: "sm_user sm user = Some uid" "sm_count sm uid = Some n" "sm_procs sm uid (n + n div 8) = Some ps"
    using assms by (auto simp: users_known_def)
  show ?thesis
  proof (cases "n = 0")
    case True
    then show ?thesis using u by (auto simp: stat_directory1_def user_dirs_def make_dirs_def)
  next
    case False
    let ?ds = "user_dirs sm user"
    have ds: "?ds = concat (map (\<lambda>(pid, comm). if comm = ''make'' \<or> comm = ''gmake''
        then (case sm_cwd sm pid of None \<Rightarrow> [] | Some d \<Rightarrow> [d]) else []) ps)"
      using u False by (simp add: user_dirs_def make_dirs_def)
    obtain m d where r: "longest_of ?ds 0 [] = (m, d)" by (cases "longest_of ?ds 0 []")
    have fits: "\<forall>(pid, comm) \<in> set ps. \<forall>d. sm_cwd sm pid = Some d \<longrightarrow> length d < PATH_MAX"
      using assms(1) by (simp add: users_known_def split_beta)
    have cwd: "longest_cwd (sm_cwd sm) ps 0 [] = (m, d)"
      using longest_cwd_dirs [where cwd_of = "sm_cwd sm" and maxlen = 0 and dir = "[]", OF fits, folded ds] r by simp
    have "stat_directory1 sm user c = (if m > 0 then Found else NotFound, c\<lparr>sc_directory := d\<rparr>)"
      using u False cwd by (simp add: stat_directory1_def)
    moreover have "(m = 0 \<and> d = [] \<and> ?ds = []) \<or> (0 < m \<and> first_longest ?ds d)"
      using longest_of_first [OF r] by auto
    moreover have "?ds \<noteq> []" if "first_longest ?ds d" using that by (auto simp: first_longest_def)
    ultimately show ?thesis by auto
  qed
qed

lemma stat_directory_lemma:
  assumes "users_known sm users"
  shows "us \<noteq> [] \<Longrightarrow> set us \<subseteq> set users \<Longrightarrow> \<exists>d. stat_directory sm us c = (False, c\<lparr>sc_directory := d\<rparr>) \<and>
    (case dropWhile (\<lambda>u. user_dirs sm u = []) us of [] \<Rightarrow> d = [] | u # _ \<Rightarrow> first_longest (user_dirs sm u) d)"
proof (induction us arbitrary: c)
  case Nil
  then show ?case by simp
next
  case (Cons u us)
  obtain d where d: "stat_directory1 sm u c = (if user_dirs sm u = [] then NotFound else Found, c\<lparr>sc_directory := d\<rparr>)"
    "if user_dirs sm u = [] then d = [] else first_longest (user_dirs sm u) d"
    using stat_directory1_dirs [OF assms, of u c] Cons.prems(2) by auto
  show ?case
  proof (cases "user_dirs sm u = [] \<and> us \<noteq> []")
    case True
    then show ?thesis using Cons.IH [of "c\<lparr>sc_directory := d\<rparr>"] Cons.prems(2) d by simp
  next
    case False
    then show ?thesis using d by (cases "user_dirs sm u = []") auto
  qed
qed

text \<open>C28: the printed directory is the longest working directory of a make process, the first of them when there are several, of the first given user who runs one, and empty when no user does.\<close>

theorem stat_directory_longest:
  assumes "users_known sm users" "users \<noteq> []"
  shows "\<exists>d. stat_directory sm users c = (False, c\<lparr>sc_directory := d\<rparr>) \<and>
    (case dropWhile (\<lambda>u. user_dirs sm u = []) users of [] \<Rightarrow> d = [] | u # _ \<Rightarrow> first_longest (user_dirs sm u) d)"
  using stat_directory_lemma [OF assms(1,2)] by simp


section \<open>The program\<close>

text \<open>The contexts that are printed, and an answer to every call of a round.\<close>

fun stat_contexts :: "string list \<Rightarrow> sample list \<Rightarrow> stat_context \<Rightarrow> stat_context list" where
  "stat_contexts users [] c = []"
| "stat_contexts users (sm # sms) c =
     (case stat_round users sm c of (True, c1) \<Rightarrow> [] | (False, c1) \<Rightarrow> c1 # stat_contexts users sms c1)"

definition answered :: "string list \<Rightarrow> sample \<Rightarrow> bool" where
  "answered users sm \<longleftrightarrow>
     sm_time sm \<noteq> None \<and> sm_cpu sm \<noteq> None \<and> sm_load sm \<noteq> None \<and> sm_ncpu sm \<noteq> None \<and> sm_nprocs sm \<noteq> None \<and>
     sm_nthreads sm \<noteq> None \<and> users_known sm users \<and> sm_nswap sm \<noteq> None \<and> sm_swap sm \<noteq> None"

definition unanswered :: "sample \<Rightarrow> bool" where
  "unanswered sm \<longleftrightarrow>
     sm_time sm = None \<or> sm_cpu sm = None \<or> sm_load sm = None \<or> sm_ncpu sm = None \<or> sm_nprocs sm = None \<or>
     sm_nthreads sm = None \<or> sm_swap sm = None"

definition sample_time :: "sample \<Rightarrow> int" where
  "sample_time sm = (case sm_time sm of None \<Rightarrow> 0 | Some (sec, nsec) \<Rightarrow> (sec + nsec div 1000000000) mod 2 ^ 64)"

lemma stat_directory_time: "stat_directory sm users c = (e, c') \<Longrightarrow> sc_time c' = sc_time c"
proof (induction users arbitrary: c)
  case Nil
  then show ?case by simp
next
  case (Cons u us)
  obtain r c1 where r: "stat_directory1 sm u c = (r, c1)" by (cases "stat_directory1 sm u c")
  then have "sc_time c1 = sc_time c"
    by (auto simp: stat_directory1_def Let_def split: option.splits if_splits prod.splits)
  then show ?case using Cons r by (cases r) auto
qed

lemma stat_round_answered:
  assumes "answered users sm" "users \<noteq> []"
  obtains c' where "stat_round users sm c = (False, c')" "sc_time c' = sample_time sm"
proof -
  obtain sec nsec where time: "sm_time sm = Some (sec, nsec)" using assms(1) by (auto simp: answered_def)
  then obtain c1 where 1: "stat_time sm c = (False, c1)" "sc_time c1 = sample_time sm"
    by (simp add: stat_time_def sample_time_def)
  obtain c2 where 2: "stat_cpu sm c1 = (False, c2)" "sc_time c2 = sc_time c1"
    using assms(1) by (auto simp: stat_cpu_def answered_def)
  obtain c3 where 3: "stat_loadavg sm c2 = (False, c3)" "sc_time c3 = sc_time c2"
    using assms(1) by (auto simp: stat_loadavg_def answered_def Let_def)
  obtain c4 where 4: "stat_procs_and_threads sm c3 = (False, c4)" "sc_time c4 = sc_time c3"
    using assms(1) by (auto simp: stat_procs_and_threads_def answered_def Let_def)
  have "users_known sm users" using assms(1) by (simp add: answered_def)
  from stat_directory_lemma [OF this assms(2) order_refl, of c4]
  obtain d where 5: "stat_directory sm users c4 = (False, c4\<lparr>sc_directory := d\<rparr>)" by blast
  have "\<exists>old. stat_swap_alloc sm (c4\<lparr>sc_directory := d\<rparr>) = Some old"
    using assms(1) by (auto simp: stat_swap_alloc_def answered_def split: option.splits)
  moreover obtain answer where "sm_swap sm = Some answer" using assms(1) by (auto simp: answered_def)
  ultimately have "\<exists>c6. stat_swap sm (c4\<lparr>sc_directory := d\<rparr>) = (False, c6) \<and> sc_time c6 = sc_time c4"
    by (auto simp: stat_swap_def Let_def)
  then obtain c6 where 6: "stat_swap sm (c4\<lparr>sc_directory := d\<rparr>) = (False, c6)" "sc_time c6 = sc_time c4" by blast
  show thesis by (rule that [of c6]) (use 1 2 3 4 5 6 in \<open>simp_all add: stat_round_def\<close>)
qed

lemma stat_round_unanswered:
  assumes "unanswered sm"
  shows "fst (stat_round users sm c)"
proof -
  have time: "sm_time sm = None \<Longrightarrow> fst (stat_time sm c)" for c by (simp add: stat_time_def)
  have cpu: "sm_cpu sm = None \<Longrightarrow> fst (stat_cpu sm c)" for c by (simp add: stat_cpu_def)
  have load: "sm_load sm = None \<or> sm_ncpu sm = None \<Longrightarrow> fst (stat_loadavg sm c)" for c
    by (auto simp: stat_loadavg_def Let_def split: option.splits)
  have procs: "sm_nprocs sm = None \<or> sm_nthreads sm = None \<Longrightarrow> fst (stat_procs_and_threads sm c)" for c
    by (auto simp: stat_procs_and_threads_def Let_def split: option.splits)
  have swap: "sm_swap sm = None \<Longrightarrow> fst (stat_swap sm c)" for c
    by (auto simp: stat_swap_def split: option.splits)
  obtain e1 c1 where 1: "stat_time sm c = (e1, c1)" by fastforce
  obtain e2 c2 where 2: "stat_cpu sm c1 = (e2, c2)" by fastforce
  obtain e3 c3 where 3: "stat_loadavg sm c2 = (e3, c3)" by fastforce
  obtain e4 c4 where 4: "stat_procs_and_threads sm c3 = (e4, c4)" by fastforce
  obtain e5 c5 where 5: "stat_directory sm users c4 = (e5, c5)" by fastforce
  have "e1 \<or> e2 \<or> e3 \<or> e4 \<or> fst (stat_swap sm c5)"
    using assms time [of c] cpu [of c1] load [of c2] procs [of c3] swap [of c5] 1 2 3 4 by (auto simp: unanswered_def)
  then show ?thesis
    using 1 2 3 4 5 by (cases e1; cases e2; cases e3; cases e4; cases e5) (simp_all add: stat_round_def)
qed

lemma stat_loop_answered:
  assumes "users \<noteq> []"
  shows "\<forall>sm \<in> set sms. answered users sm \<Longrightarrow>
    map sc_time (stat_contexts users sms c) = map sample_time sms \<and>
    stat_loop users (sms @ rest) c =
      (concat (map stat_print (stat_contexts users sms c)) @ fst (stat_loop users rest (last (c # stat_contexts users sms c))),
       snd (stat_loop users rest (last (c # stat_contexts users sms c))))"
proof (induction sms arbitrary: c)
  case Nil
  then show ?case by simp
next
  case (Cons sm sms)
  obtain c' where "stat_round users sm c = (False, c')" "sc_time c' = sample_time sm"
    using stat_round_answered [OF _ assms, of sm c] Cons.prems by auto
  then show ?case using Cons.IH [of c'] Cons.prems by (simp add: split_beta)
qed

lemma stat_words:
  assumes "users \<noteq> []" "1 \<le> n" "n \<le> INT_MAX"
  shows "robsd_stat_main sms (''robsd-stat'' # [''-i'', show_int n] @ concat (map (\<lambda>u. [''-u'', u]) users)) =
    stat_loop users sms stat_start"
proof -
  let ?argv = "''robsd-stat'' # [''-i'', show_int n] @ concat (map (\<lambda>u. [''-u'', u]) users)"
  let ?opts = "Arg (CHR ''i'') (show_int n) # map (Arg (CHR ''u'')) users"
  have ok: "\<forall>o' \<in> set ?opts. opt_ok ''Hi:u:'' o'" by (auto simp: takes_argument_def strchr_Cons)
  have d: "drop 1 ?argv = concat (map opt_words ?opts) @ []" by (simp add: comp_def)
  have us: "handle_opts stat_opt (map (Arg (CHR ''u'')) users) (b, k, vs) = Inr (b, k, vs @ users)" for b k vs
    by (induction users arbitrary: vs) (simp_all add: stat_opt_def)
  have "strtonum (show_int n) 1 INT_MAX = (n, None)" using assms(2,3) by (simp add: strtonum_show_int)
  then have h: "handle_opts stat_opt ?opts (False, 0, []) = Inr (False, n, users)"
    using assms(2) us [of False n "[]"] by (simp add: stat_opt_def)
  obtain st j where st: "at_word st j" "drop j ?argv = []"
    "getopt_loop stat_opt (Some ()) ''Hi:u:'' ?argv getopt_start (False, 0, []) =
     getopt_loop stat_opt (Some ()) ''Hi:u:'' ?argv st (False, n, users)"
    using getopt_loop_opts [where bad = "Some ()", OF ok d at_word_start(1) h] by blast
  from getopt_end [where handle = stat_opt and bad = "Some ()" and options = "''Hi:u:''" and acc = "(False, n, users)",
      OF st(1,2) disjI1 [OF refl]]
  obtain st' where "getopt_loop stat_opt (Some ()) ''Hi:u:'' ?argv st (False, n, users) = (Inr (False, n, users), st')"
    "remaining ?argv st' = []" by (elim exE conjE)
  with st(3) assms(1,2) show ?thesis by (simp add: robsd_stat_main_def)
qed


definition demo_sample :: "int \<Rightarrow> sample" where
  "demo_sample t = \<lparr>sm_time = Some (t, 5), sm_cpu = Some (\<lambda>_. 10 * t), sm_load = Some (512, 2048), sm_ncpu = Some 4,
     sm_nprocs = Some 90, sm_nthreads = Some 200, sm_user = (\<lambda>_. Some 21), sm_count = (\<lambda>_. Some 8),
     sm_procs = (\<lambda>_ _. Some [(7, ''sh''), (8, ''make''), (9, ''gmake'')]),
     sm_cwd = (\<lambda>pid. if pid = 8 then Some ''/usr/src'' else Some ''/usr/src/bin''), sm_nswap = Some 1, sm_swap = Some [(1, 4)]\<rparr>"

lemma demo_answered: "answered [''build''] (demo_sample t)"
  by (auto simp: answered_def users_known_def demo_sample_def PATH_MAX_def)



theorem stat_directory_longest_witness:
  "\<exists>d. stat_directory (demo_sample 1) [''build''] stat_start = (False, stat_start\<lparr>sc_directory := d\<rparr>) \<and>
     first_longest [''/usr/src'', ''/usr/src/bin''] d"
proof -
  have "user_dirs (demo_sample 1) ''build'' = [''/usr/src'', ''/usr/src/bin'']"
    by (simp add: user_dirs_def make_dirs_def demo_sample_def)
  moreover have "users_known (demo_sample 1) [''build'']" using demo_answered by (simp add: answered_def)
  ultimately show ?thesis using stat_directory_longest [of "demo_sample 1" "[''build'']" stat_start] by simp
qed

text \<open>The time between two rounds is the interval up to 4294 seconds, and wraps around above.\<close>

lemma stat_sleep_exact:
  assumes "1 \<le> n"
  shows "stat_sleep n = n * 1000000 \<longleftrightarrow> n \<le> 4294"
proof (cases "n \<le> 4294")
  case True
  then have "n * 1000 * 1000 mod 2 ^ 32 = n * 1000 * 1000" using assms by (intro mod_pos_pos_trivial) simp_all
  then show ?thesis using True by (simp add: stat_sleep_def)
next
  case False
  have "n * 1000 * 1000 mod 2 ^ 32 < (2 ^ 32 :: int)" by (rule pos_mod_bound) simp
  then show ?thesis using False by (simp add: stat_sleep_def)
qed

end
