(* ===== verification/Fs.thy ===== *)
theory Fs
  imports Invocation
begin

text \<open>
  \<open>libks/fs.c\<close>: replacing a file through a hidden temporary file, and temporary files without a name. The
  file system maps names to inodes and inodes to files; the answers of the system are a record. A run is
  the list of the states of the file system between its calls, the last one first, so that what another process sees,
  or what a crash leaves, is any of them.
\<close>

section \<open>The file system\<close>

record inode =
  in_data :: string
  in_mode :: nat
  in_uid :: nat
  in_gid :: nat

record fs =
  fs_names :: "string \<Rightarrow> nat option"
  fs_inodes :: "nat \<Rightarrow> inode option"
  fs_umask :: nat

type_synonym history = "fs list"

text \<open>
  What the calls answer: whether a file can be opened, the name and the inode of a temporary file, how many bytes each
  \<open>write(2)\<close> takes, and whether the others succeed.
\<close>

record fs_env =
  fe_open :: bool
  fe_mkstemp :: "(string \<times> nat) option"
  fe_writes :: "nat option list"
  fe_fstat_src :: bool
  fe_fstat_dst :: bool
  fe_fchmod :: bool
  fe_fchown :: bool
  fe_rename :: bool
  fe_unlink :: bool
  fe_lseek :: bool

definition lookup :: "fs \<Rightarrow> string \<Rightarrow> inode option" where
  "lookup fs path = Option.bind (fs_names fs path) (fs_inodes fs)"

definition fs_update :: "nat \<Rightarrow> (inode \<Rightarrow> inode) \<Rightarrow> fs \<Rightarrow> fs" where
  "fs_update i f fs = fs\<lparr>fs_inodes := (fs_inodes fs)(i := map_option f (fs_inodes fs i))\<rparr>"

definition fs_create :: "string \<Rightarrow> nat \<Rightarrow> nat \<Rightarrow> nat \<Rightarrow> fs \<Rightarrow> fs" where
  "fs_create path i uid gid fs =
     fs\<lparr>fs_names := (fs_names fs)(path \<mapsto> i),
       fs_inodes := (fs_inodes fs)(i \<mapsto> \<lparr>in_data = [], in_mode = 384, in_uid = uid, in_gid = gid\<rparr>)\<rparr>"

definition fs_unlink :: "string \<Rightarrow> fs \<Rightarrow> fs" where
  "fs_unlink path fs = fs\<lparr>fs_names := (fs_names fs)(path := None)\<rparr>"

definition fs_rename :: "string \<Rightarrow> string \<Rightarrow> fs \<Rightarrow> fs" where
  "fs_rename old new fs =
     (case fs_names fs old of
        None \<Rightarrow> fs
      | Some i \<Rightarrow> fs\<lparr>fs_names := (fs_names fs)(old := None, new \<mapsto> i)\<rparr>)"

definition step_fs :: "(fs \<Rightarrow> fs) \<Rightarrow> history \<Rightarrow> history" where
  "step_fs f h = f (hd h) # h"

section \<open>Operations\<close>

text \<open>The part up to the last slash, and the rest.\<close>

definition split_path :: "string \<Rightarrow> string \<times> string" where
  "split_path path =
     (rev (dropWhile (\<lambda>c. c \<noteq> CHR ''/'') (rev path)), rev (takeWhile (\<lambda>c. c \<noteq> CHR ''/'') (rev path)))"

text \<open>Whether it failed, and what is in the buffer.\<close>

definition construct_hidden_path :: "string \<Rightarrow> nat \<Rightarrow> bool \<times> string" where
  "construct_hidden_path path bufsiz =
     (case split_path path of (prefix, suffix) \<Rightarrow>
        if length prefix \<ge> PATH_MAX then (True, [])
        else
          let s = prefix @ ''.'' @ suffix @ ''.XXXXXX''
          in (length s \<ge> bufsiz, snprintf bufsiz s))"

text \<open>The loop around \<open>write(2)\<close>: \<open>None\<close> as a result is a call that has not returned.\<close>

fun write_loop :: "nat \<Rightarrow> string \<Rightarrow> nat option list \<Rightarrow> history \<Rightarrow> bool option \<times> history" where
  "write_loop fd [] ws h = (Some True, h)"
| "write_loop fd (c # cs) [] h = (None, h)"
| "write_loop fd (c # cs) (None # ws) h = (Some False, h)"
| "write_loop fd (c # cs) (Some nw # ws) h =
     write_loop fd (drop nw (c # cs)) ws
       (step_fs (fs_update fd (\<lambda>f. f\<lparr>in_data := in_data f @ take nw (c # cs)\<rparr>)) h)"

text \<open>True when it fails.\<close>

definition inherit_ownership_and_permissions :: "fs_env \<Rightarrow> nat \<Rightarrow> nat \<Rightarrow> history \<Rightarrow> bool \<times> history" where
  "inherit_ownership_and_permissions env src dst h =
     (if \<not> fe_fstat_src env \<or> \<not> fe_fstat_dst env then (True, h)
      else
        (case (fs_inodes (hd h) src, fs_inodes (hd h) dst) of
           (Some s, Some d) \<Rightarrow>
             (let (e, h1) =
                (if in_mode s \<noteq> in_mode d then
                   (if fe_fchmod env then (False, step_fs (fs_update dst (\<lambda>f. f\<lparr>in_mode := in_mode s\<rparr>)) h) else (True, h))
                 else (False, h))
              in if e then (True, h1)
                 else if in_uid s \<noteq> in_uid d \<or> in_gid s \<noteq> in_gid d then
                   (if fe_fchown env
                    then (False, step_fs (fs_update dst (\<lambda>f. f\<lparr>in_uid := in_uid s, in_gid := in_gid s\<rparr>)) h1)
                    else (True, h1))
                 else (False, h1))
         | _ \<Rightarrow> (True, h)))"

text \<open>The mask is set around \<open>mkstemp(3)\<close> and restored.\<close>

definition with_umask :: "nat \<Rightarrow> (fs \<Rightarrow> fs) \<Rightarrow> history \<Rightarrow> history" where
  "with_umask new f h =
     (let old = fs_umask (hd h)
      in step_fs (\<lambda>fs. fs\<lparr>fs_umask := old\<rparr>) (step_fs f (step_fs (\<lambda>fs. fs\<lparr>fs_umask := new\<rparr>) h)))"

definition unlink_tmp :: "fs_env \<Rightarrow> string \<Rightarrow> history \<Rightarrow> history" where
  "unlink_tmp env tmppath h = (if tmppath \<noteq> [] \<and> fe_unlink env then step_fs (fs_unlink tmppath) h else h)"

text \<open>The result is whether it failed. The process runs as the user \<open>uid\<close> and the group \<open>gid\<close>.\<close>

definition KS_fs_replace :: "fs_env \<Rightarrow> nat \<Rightarrow> nat \<Rightarrow> string \<Rightarrow> string \<Rightarrow> fs \<Rightarrow> bool option \<times> history" where
  "KS_fs_replace env uid gid path buf fs =
     (case (if fe_open env then fs_names fs path else None) of
        None \<Rightarrow> (Some True, [fs])
      | Some srcfd \<Rightarrow>
          (case construct_hidden_path path PATH_MAX of
             (True, left) \<Rightarrow> (Some True, unlink_tmp env left [fs])
           | (False, template) \<Rightarrow>
               (case fe_mkstemp env of
                  None \<Rightarrow> (Some True, unlink_tmp env template (with_umask 18 (\<lambda>fs. fs) [fs]))
                | Some (tmppath, tmpfd) \<Rightarrow>
                    (case write_loop tmpfd buf (fe_writes env) (with_umask 18 (fs_create tmppath tmpfd uid gid) [fs]) of
                       (None, h) \<Rightarrow> (None, h)
                     | (Some False, h) \<Rightarrow> (Some True, unlink_tmp env tmppath h)
                     | (Some True, h) \<Rightarrow>
                         (case inherit_ownership_and_permissions env srcfd tmpfd h of
                            (True, h1) \<Rightarrow> (Some True, unlink_tmp env tmppath h1)
                          | (False, h1) \<Rightarrow>
                              if \<not> fe_rename env then (Some True, unlink_tmp env tmppath h1)
                              else (Some False, unlink_tmp env tmppath (step_fs (fs_rename tmppath path) h1)))))))"

text \<open>The descriptor and the path to it; the offset is at the start then.\<close>

definition KS_fs_tmpfd ::
  "fs_env \<Rightarrow> nat \<Rightarrow> nat \<Rightarrow> nat \<Rightarrow> string \<Rightarrow> nat \<Rightarrow> fs \<Rightarrow> (nat \<times> string) option option \<times> history" where
  "KS_fs_tmpfd env uid gid fd buf pathsiz fs =
     (case fe_mkstemp env of
        None \<Rightarrow> (Some None, with_umask 18 (\<lambda>fs. fs) [fs])
      | Some (tmppath, i) \<Rightarrow>
          (let h = with_umask 18 (fs_create tmppath i uid gid) [fs] in
           if \<not> fe_unlink env then (Some None, h)
           else
             (case write_loop i buf (fe_writes env) (step_fs (fs_unlink tmppath) h) of
                (None, h1) \<Rightarrow> (None, h1)
              | (Some False, h1) \<Rightarrow> (Some None, h1)
              | (Some True, h1) \<Rightarrow>
                  if \<not> fe_lseek env then (Some None, h1)
                  else
                    let p = ''/dev/fd/'' @ show_nat fd
                    in (Some (if length p \<ge> pathsiz then None else Some (fd, p)), h1))))"


section \<open>Runs\<close>

lemma construct_hidden_path_fits:
  assumes "length path + 8 < PATH_MAX"
  obtains template where "construct_hidden_path path PATH_MAX = (False, template)" "length template = length path + 8"
    "template \<noteq> path"
proof -
  obtain prefix suffix where sp: "split_path path = (prefix, suffix)" by fastforce
  have "length prefix + length suffix = length path"
  proof -
    have "length (takeWhile (\<lambda>c. c \<noteq> CHR ''/'') (rev path)) + length (dropWhile (\<lambda>c. c \<noteq> CHR ''/'') (rev path)) = length path"
      by (metis length_append length_rev takeWhile_dropWhile_id)
    then show ?thesis using sp by (auto simp: split_path_def)
  qed
  then show thesis using that [of "prefix @ ''.'' @ suffix @ ''.XXXXXX''"] assms sp
    by (fastforce simp: construct_hidden_path_def snprintf_def Let_def)
qed

text \<open>A state that differs from the start in the temporary file only.\<close>

definition only_tmp :: "fs \<Rightarrow> string \<Rightarrow> nat \<Rightarrow> fs \<Rightarrow> bool" where
  "only_tmp fs tmp t s \<longleftrightarrow>
     (\<forall>n. n \<noteq> tmp \<longrightarrow> fs_names s n = fs_names fs n) \<and> (\<forall>j. j \<noteq> t \<longrightarrow> fs_inodes s j = fs_inodes fs j)"

definition all_only_tmp :: "fs \<Rightarrow> string \<Rightarrow> nat \<Rightarrow> history \<Rightarrow> bool" where
  "all_only_tmp fs tmp t h \<longleftrightarrow> h \<noteq> [] \<and> (\<forall>s \<in> set h. only_tmp fs tmp t s)"

lemma only_tmp_refl [simp]: "only_tmp fs tmp t fs"
  by (simp add: only_tmp_def)

lemma all_only_tmp_step:
  "all_only_tmp fs tmp t h \<Longrightarrow> only_tmp fs tmp t (f (hd h)) \<Longrightarrow> all_only_tmp fs tmp t (step_fs f h)"
  by (simp add: all_only_tmp_def step_fs_def)

lemma all_only_tmp_hd: "all_only_tmp fs tmp t h \<Longrightarrow> only_tmp fs tmp t (hd h)"
  by (simp add: all_only_tmp_def)

lemma step_fs_simps [simp]: "hd (step_fs f h) = f (hd h)" "step_fs f h \<noteq> []" "set (step_fs f h) = insert (f (hd h)) (set h)"
  by (simp_all add: step_fs_def)

lemma only_tmp_update [simp]: "only_tmp fs tmp t (fs_update t f s) = only_tmp fs tmp t s"
  by (auto simp: only_tmp_def fs_update_def)

lemma only_tmp_unlink [simp]: "only_tmp fs tmp t s \<Longrightarrow> only_tmp fs tmp t (fs_unlink tmp s)"
  by (simp add: only_tmp_def fs_unlink_def)

lemma fs_unlink_simps [simp]:
  "fs_names (fs_unlink p s) = (fs_names s)(p := None)" "fs_umask (fs_unlink p s) = fs_umask s"
  "fs_inodes (fs_unlink p s) = fs_inodes s"
  by (simp_all add: fs_unlink_def)

lemma fs_update_simps [simp]:
  "fs_names (fs_update i f s) = fs_names s" "fs_umask (fs_update i f s) = fs_umask s"
  "fs_inodes (fs_update i f s) i = map_option f (fs_inodes s i)"
  by (simp_all add: fs_update_def)

lemma write_loop_run:
  "write_loop t buf ws h = (r, h') \<Longrightarrow> all_only_tmp fs tmp t h \<Longrightarrow> fs_inodes (hd h) t = Some f \<Longrightarrow>
     all_only_tmp fs tmp t h' \<and> fs_names (hd h') = fs_names (hd h) \<and> fs_umask (hd h') = fs_umask (hd h) \<and>
     (\<exists>d. fs_inodes (hd h') t = Some (f\<lparr>in_data := in_data f @ d\<rparr>) \<and> (r = Some True \<longrightarrow> d = buf))"
proof (induction t buf ws h arbitrary: f rule: write_loop.induct)
  case (1 fd ws h)
  then show ?case by (auto intro!: exI [of _ "[]"])
next
  case (2 fd c cs h)
  then show ?case by (auto intro!: exI [of _ "[]"])
next
  case (3 fd c cs ws h)
  then show ?case by (auto intro!: exI [of _ "[]"])
next
  case (4 fd c cs nw ws h)
  let ?g = "\<lambda>f. f\<lparr>in_data := in_data f @ take nw (c # cs)\<rparr>"
  let ?h = "step_fs (fs_update fd ?g) h"
  have h: "all_only_tmp fs tmp fd ?h" using "4.prems"(2) all_only_tmp_hd by (intro all_only_tmp_step) simp_all
  have i: "fs_inodes (hd ?h) fd = Some (?g f)" using "4.prems"(3) by simp
  have "write_loop fd (drop nw (c # cs)) ws ?h = (r, h')" using "4.prems"(1) by simp
  from "4.IH" [OF this h i] obtain d where d: "all_only_tmp fs tmp fd h'" "fs_names (hd h') = fs_names (hd h)"
    "fs_umask (hd h') = fs_umask (hd h)" "fs_inodes (hd h') fd = Some ((?g f)\<lparr>in_data := in_data (?g f) @ d\<rparr>)"
    "r = Some True \<longrightarrow> d = drop nw (c # cs)" by auto
  then have "fs_inodes (hd h') fd = Some (f\<lparr>in_data := in_data f @ (take nw (c # cs) @ d)\<rparr>)" by simp
  moreover have "r = Some True \<longrightarrow> take nw (c # cs) @ d = c # cs" using d(5) append_take_drop_id by metis
  ultimately show ?case using d(1-3) by blast
qed

lemma inherit_run:
  assumes "inherit_ownership_and_permissions env src t h = (e, h')" "all_only_tmp fs tmp t h"
    "fs_inodes (hd h) src = Some old" "fs_inodes (hd h) t = Some f" "src \<noteq> t"
  shows "all_only_tmp fs tmp t h'" "fs_names (hd h') = fs_names (hd h)" "fs_umask (hd h') = fs_umask (hd h)"
    "\<exists>g. fs_inodes (hd h') t = Some g"
    "\<not> e \<Longrightarrow> fs_inodes (hd h') t = Some (old\<lparr>in_data := in_data f\<rparr>)"
proof -
  have "all_only_tmp fs tmp t h' \<and> fs_names (hd h') = fs_names (hd h) \<and> fs_umask (hd h') = fs_umask (hd h) \<and>
    (\<exists>g. fs_inodes (hd h') t = Some g) \<and> (\<not> e \<longrightarrow> fs_inodes (hd h') t = Some (old\<lparr>in_data := in_data f\<rparr>))"
    using assms all_only_tmp_hd [OF assms(2)]
    by (cases "in_mode old = in_mode f"; cases "in_uid old = in_uid f \<and> in_gid old = in_gid f"; cases "fe_fchmod env";
        cases "fe_fchown env")
      (auto simp: inherit_ownership_and_permissions_def intro!: all_only_tmp_step split: if_splits)
  then show "all_only_tmp fs tmp t h'" "fs_names (hd h') = fs_names (hd h)" "fs_umask (hd h') = fs_umask (hd h)"
    "\<exists>g. fs_inodes (hd h') t = Some g"
    "\<not> e \<Longrightarrow> fs_inodes (hd h') t = Some (old\<lparr>in_data := in_data f\<rparr>)" by blast+
qed


section \<open>Replacing a file\<close>

text \<open>What \<open>mkstemp(3)\<close> promises: a new name and a file that no name leads to.\<close>

definition mkstemp_fresh :: "fs_env \<Rightarrow> fs \<Rightarrow> bool" where
  "mkstemp_fresh env fs \<longleftrightarrow>
     (\<forall>tmp t. fe_mkstemp env = Some (tmp, t) \<longrightarrow> tmp \<noteq> [] \<and> fs_names fs tmp = None \<and> (\<forall>n. fs_names fs n \<noteq> Some t))"

definition hidden_name :: "fs_env \<Rightarrow> string \<Rightarrow> string" where
  "hidden_name env path =
     (case fe_mkstemp env of None \<Rightarrow> snd (construct_hidden_path path PATH_MAX) | Some (tmp, _) \<Rightarrow> tmp)"

lemma only_tmp_lookup:
  "only_tmp fs tmp t s \<Longrightarrow> n \<noteq> tmp \<Longrightarrow> fs_names fs n \<noteq> Some t \<Longrightarrow> lookup s n = lookup fs n"
  by (cases "fs_names fs n") (auto simp: only_tmp_def lookup_def)

lemma all_only_tmp_create:
  "all_only_tmp fs tmp t (with_umask m (fs_create tmp t uid gid) [fs])"
  "hd (with_umask m f [fs]) = (f (fs\<lparr>fs_umask := m\<rparr>))\<lparr>fs_umask := fs_umask fs\<rparr>"
  by (auto simp: with_umask_def Let_def all_only_tmp_def only_tmp_def fs_create_def)

lemma unlink_tmp_run:
  assumes "all_only_tmp fs tmp t h" "tmp \<noteq> []"
  shows "all_only_tmp fs tmp t (unlink_tmp env tmp h)" "fs_umask (hd (unlink_tmp env tmp h)) = fs_umask (hd h)"
    "fe_unlink env \<Longrightarrow> fs_names (hd (unlink_tmp env tmp h)) tmp = None"
  using assms all_only_tmp_hd [OF assms(1)]
  by (auto simp: unlink_tmp_def intro!: all_only_tmp_step)

text \<open>How a run ends, from the moment the temporary file is there.\<close>

lemma replace_run:
  assumes "KS_fs_replace env uid gid path buf fs = (r, h)" "fe_open env" "fs_names fs path = Some src"
    "fs_inodes fs src = Some old" "construct_hidden_path path PATH_MAX = (False, template)" "fe_mkstemp env = Some (tmp, t)"
    "mkstemp_fresh env fs"
  shows "(r \<noteq> Some False \<and> all_only_tmp fs tmp t h \<and> fs_umask (hd h) = fs_umask fs \<and>
      (r \<noteq> None \<and> fe_unlink env \<longrightarrow> fs_names (hd h) tmp = None)) \<or>
    (\<exists>h1. r = Some False \<and> all_only_tmp fs tmp t h1 \<and> fs_umask (hd h1) = fs_umask fs \<and> fs_names (hd h1) tmp = Some t \<and>
      fs_inodes (hd h1) t = Some (old\<lparr>in_data := buf\<rparr>) \<and> h = unlink_tmp env tmp (step_fs (fs_rename tmp path) h1))"
proof -
  have tmp: "tmp \<noteq> []" "src \<noteq> t" "tmp \<noteq> path" using assms(3,6,7) by (auto simp: mkstemp_fresh_def)
  let ?h0 = "with_umask 18 (fs_create tmp t uid gid) [fs]"
  let ?f = "\<lparr>in_data = [], in_mode = 384, in_uid = uid, in_gid = gid\<rparr>"
  have h0: "all_only_tmp fs tmp t ?h0" "fs_umask (hd ?h0) = fs_umask fs" "fs_names (hd ?h0) tmp = Some t"
    "fs_inodes (hd ?h0) t = Some ?f"
    by (rule all_only_tmp_create) (simp_all add: all_only_tmp_create(2) fs_create_def)
  obtain w h1 where w: "write_loop t buf (fe_writes env) ?h0 = (w, h1)" by fastforce
  from write_loop_run [OF w h0(1,4)] obtain d where h1: "all_only_tmp fs tmp t h1" "fs_names (hd h1) = fs_names (hd ?h0)"
    "fs_umask (hd h1) = fs_umask fs" "fs_inodes (hd h1) t = Some (?f\<lparr>in_data := d\<rparr>)" "w = Some True \<longrightarrow> d = buf"
    using h0(2) by auto
  have src: "fs_inodes (hd h1) src = Some old"
    using all_only_tmp_hd [OF h1(1)] tmp(2) assms(4) by (simp add: only_tmp_def)
  note run = assms(1) [unfolded KS_fs_replace_def, simplified assms(2,3,5,6) option.case if_True prod.case bool.case w]
  consider "w = None" | "w = Some False" | "w = Some True" by (cases w) auto
  then show ?thesis
  proof cases
    case 1
    then show ?thesis using run h1 by auto
  next
    case 2
    then show ?thesis using run unlink_tmp_run [OF h1(1) tmp(1), of env] h1(3) by auto
  next
    case 3
    obtain e h2 where e: "inherit_ownership_and_permissions env src t h1 = (e, h2)" by fastforce
    note in_run = inherit_run [OF e h1(1) src h1(4) tmp(2)]
    show ?thesis
    proof (cases "e \<or> \<not> fe_rename env")
      case True
      then have "r = Some True" "h = unlink_tmp env tmp h2" using run 3 e by (cases e; simp)+
      then show ?thesis using unlink_tmp_run [OF in_run(1) tmp(1), of env] in_run(3) h1(3) by simp
    next
      case False
      then have "r = Some False" "h = unlink_tmp env tmp (step_fs (fs_rename tmp path) h2)" using run 3 e by simp_all
      then show ?thesis using in_run False h1(2,3,5) h0(3) 3 by auto
    qed
  qed
qed

lemma replace_lookup:
  assumes "KS_fs_replace env uid gid path buf fs = (r, h)" "lookup fs path = Some old" "length path + 8 < PATH_MAX"
    "mkstemp_fresh env fs"
  shows "(\<forall>s \<in> set h. lookup s path = Some old \<or> lookup s path = Some (old\<lparr>in_data := buf\<rparr>)) \<and>
    (\<forall>s \<in> set h. \<forall>n. n \<noteq> path \<longrightarrow> n \<noteq> hidden_name env path \<longrightarrow> lookup s n = lookup fs n) \<and>
    fs_umask (hd h) = fs_umask fs \<and>
    lookup (hd h) path = Some (if r = Some False then old\<lparr>in_data := buf\<rparr> else old) \<and>
    (fe_open env \<and> r \<noteq> None \<and> fe_unlink env \<longrightarrow> fs_names (hd h) (hidden_name env path) = None)"
proof -
  obtain src where src: "fs_names fs path = Some src" "fs_inodes fs src = Some old"
    using assms(2) by (auto simp: lookup_def bind_eq_Some_conv)
  obtain template where template: "construct_hidden_path path PATH_MAX = (False, template)" "length template = length path + 8"
    "template \<noteq> path" using construct_hidden_path_fits [OF assms(3)] .
  consider "\<not> fe_open env" | "fe_open env" "fe_mkstemp env = None" | tmp t where "fe_open env" "fe_mkstemp env = Some (tmp, t)"
    by (cases "fe_mkstemp env") auto
  then show ?thesis
  proof cases
    case 1
    then show ?thesis using assms(1,2) by (auto simp: KS_fs_replace_def)
  next
    case 2
    then have r: "r = Some True" "h = unlink_tmp env template (with_umask 18 (\<lambda>fs. fs) [fs])"
      using assms(1) template(1) src(1) by (simp_all add: KS_fs_replace_def)
    have "template \<noteq> []" using template(2) by auto
    then show ?thesis
      using r template(1,3) src 2 assms(2)
      by (auto simp: unlink_tmp_def with_umask_def Let_def lookup_def fs_unlink_def hidden_name_def)
  next
    case (3 tmp t)
    have hidden: "hidden_name env path = tmp" using 3(2) by (simp add: hidden_name_def)
    have fresh: "tmp \<noteq> []" "tmp \<noteq> path" "fs_names fs n \<noteq> Some t" for n
      using assms(4) 3(2) src(1) by (auto simp: mkstemp_fresh_def)
    have same: "lookup s n = lookup fs n" if "all_only_tmp fs tmp t h'" "s \<in> set h'" "n \<noteq> tmp" for s n h'
      using that fresh(3) by (intro only_tmp_lookup) (auto simp: all_only_tmp_def)
    from replace_run [OF assms(1) 3(1) src template(1) 3(2) assms(4)] show ?thesis
    proof (elim disjE exE conjE)
      assume r: "r \<noteq> Some False" "all_only_tmp fs tmp t h" "fs_umask (hd h) = fs_umask fs"
        and gone: "r \<noteq> None \<and> fe_unlink env \<longrightarrow> fs_names (hd h) tmp = None"
      have "hd h \<in> set h" using r(2) by (simp add: all_only_tmp_def)
      then show ?thesis using same [OF r(2)] fresh(2) r gone assms(2) hidden by auto
    next
      fix h1
      assume r: "r = Some False" "all_only_tmp fs tmp t h1" "fs_umask (hd h1) = fs_umask fs" "fs_names (hd h1) tmp = Some t"
        and new: "fs_inodes (hd h1) t = Some (old\<lparr>in_data := buf\<rparr>)"
        and h: "h = unlink_tmp env tmp (step_fs (fs_rename tmp path) h1)"
      let ?s = "fs_rename tmp path (hd h1)"
      have only: "only_tmp fs tmp t (hd h1)" by (rule all_only_tmp_hd [OF r(2)])
      have renamed: "fs_umask ?s = fs_umask fs" "lookup ?s path = Some (old\<lparr>in_data := buf\<rparr>)" "fs_names ?s tmp = None"
        using r(3,4) new fresh(2) by (simp_all add: fs_rename_def lookup_def)
      have others: "lookup ?s n = lookup fs n" if "n \<noteq> path" "n \<noteq> tmp" for n
        using only_tmp_lookup [OF only that(2) fresh(3)] r(4) that by (simp add: fs_rename_def lookup_def)
      have "fs_unlink tmp ?s = ?s" using renamed(3) by (simp add: fs_unlink_def fun_upd_idem)
      then have states: "set h = insert ?s (set h1)" "hd h = ?s" using h by (auto simp: unlink_tmp_def)
      show ?thesis using same [OF r(2)] others renamed r(1) states assms(2) fresh(2) hidden by auto
    qed
  qed
qed


definition demo_fs :: fs where
  "demo_fs = \<lparr>fs_names = [''/etc/a'' \<mapsto> 1],
     fs_inodes = [1 \<mapsto> \<lparr>in_data = ''old'', in_mode = 420, in_uid = 0, in_gid = 0\<rparr>], fs_umask = 63\<rparr>"

definition demo_env :: fs_env where
  "demo_env = \<lparr>fe_open = True, fe_mkstemp = Some (''/etc/.a.123456'', 2), fe_writes = [Some 2, Some 1], fe_fstat_src = True,
     fe_fstat_dst = True, fe_fchmod = True, fe_fchown = True, fe_rename = True, fe_unlink = True, fe_lseek = True\<rparr>"



section \<open>Files without a name\<close>

lemma tmpfd_run:
  assumes "KS_fs_tmpfd env uid gid fd buf pathsiz fs = (Some (Some (n, p)), h)" "mkstemp_fresh env fs"
  obtains tmp t where "fe_mkstemp env = Some (tmp, t)" "n = fd" "p = ''/dev/fd/'' @ show_nat fd" "length p < pathsiz"
    "fs_inodes (hd h) t = Some \<lparr>in_data = buf, in_mode = 384, in_uid = uid, in_gid = gid\<rparr>"
    "fs_names (hd h) = fs_names fs" "fs_umask (hd h) = fs_umask fs"
proof -
  obtain tmp t where t: "fe_mkstemp env = Some (tmp, t)" using assms(1) by (auto simp: KS_fs_tmpfd_def split: option.splits)
  let ?h0 = "with_umask 18 (fs_create tmp t uid gid) [fs]"
  let ?h1 = "step_fs (fs_unlink tmp) ?h0"
  let ?f = "\<lparr>in_data = [], in_mode = 384, in_uid = uid, in_gid = gid\<rparr>"
  have fresh: "fs_names fs tmp = None" using assms(2) t by (simp add: mkstemp_fresh_def)
  have h0: "all_only_tmp fs tmp t ?h0" by (rule all_only_tmp_create)
  have h1: "all_only_tmp fs tmp t ?h1" using all_only_tmp_hd [OF h0] by (intro all_only_tmp_step [OF h0]) simp
  have f: "fs_inodes (hd ?h1) t = Some ?f" "fs_names (hd ?h1) = fs_names fs" "fs_umask (hd ?h1) = fs_umask fs"
    using fresh by (simp_all add: all_only_tmp_create(2) fs_create_def fun_upd_idem)
  obtain w h2 where w: "write_loop t buf (fe_writes env) ?h1 = (w, h2)" by fastforce
  from write_loop_run [OF w h1 f(1)] obtain d where d: "fs_names (hd h2) = fs_names fs" "fs_umask (hd h2) = fs_umask fs"
    "fs_inodes (hd h2) t = Some (?f\<lparr>in_data := d\<rparr>)" "w = Some True \<longrightarrow> d = buf" using f(2,3) by auto
  have "w = Some True" "h = h2" "n = fd" "p = ''/dev/fd/'' @ show_nat fd" "length p < pathsiz"
    using assms(1) t w by (auto simp: KS_fs_tmpfd_def Let_def split: if_splits option.splits bool.splits)
  then show thesis using that [OF t] d by simp
qed

end
