(* ===== verification/Support.thy ===== *)
theory Support
  imports Prelude
begin

text \<open>
  \<open>if.c\<close> and \<open>log.c\<close>: the address of an interface group, over what the system answers, and the text of a
  message. The configuration takes the address of a group as the field \<open>os_group_addr\<close> of its parameter \<open>os\<close>.
\<close>

section \<open>Interface groups\<close>

datatype sa_family = AF_UNSPEC | AF_INET | AF_INET6

record ifaddr =
  ifa_name :: string
  ifa_addr :: "(sa_family \<times> string) option"

text \<open>
  The answers: whether there is a socket, how many members a group has and which, the addresses of the interfaces, and
  the text of an address; \<open>None\<close> is a call that fails.
\<close>

record net =
  nt_socket :: bool
  nt_count :: "string \<Rightarrow> nat option"
  nt_members :: "string \<Rightarrow> string list option"
  nt_ifaddrs :: "ifaddr list option"
  nt_ntop :: "sa_family \<Rightarrow> string \<Rightarrow> string option"

definition IFNAMSIZ :: nat where "IFNAMSIZ = 16"

text \<open>The buffer for an address is zeroed, so it is the empty string when the conversion fails.\<close>

fun first_address :: "net \<Rightarrow> sa_family \<Rightarrow> string \<Rightarrow> ifaddr list \<Rightarrow> string option" where
  "first_address net family iface [] = None"
| "first_address net family iface (ifa # ifas) =
     (case ifa_addr ifa of
        None \<Rightarrow> first_address net family iface ifas
      | Some (fam, addr) \<Rightarrow>
          if fam \<noteq> family \<or> ifa_name ifa \<noteq> iface then first_address net family iface ifas
          else Some (case nt_ntop net family addr of None \<Rightarrow> [] | Some str \<Rightarrow> str))"

definition if_group_addr :: "net \<Rightarrow> string \<Rightarrow> int \<Rightarrow> string option" where
  "if_group_addr net grp family =
     (let fam = (if family = 4 then AF_INET else if family = 6 then AF_INET6 else AF_UNSPEC);
          name = take (IFNAMSIZ - 1) grp
      in if fam = AF_UNSPEC \<or> \<not> nt_socket net then None
         else
           (case nt_count net name of
              None \<Rightarrow> None
            | Some 0 \<Rightarrow> None
            | Some n \<Rightarrow>
                (case nt_members net name of
                   None \<Rightarrow> None
                 | Some members \<Rightarrow>
                     (case nt_ifaddrs net of
                        None \<Rightarrow> None
                      | Some ifas \<Rightarrow> first_address net fam (hd members) ifas))))"

definition address_of :: "sa_family \<Rightarrow> string \<Rightarrow> ifaddr \<Rightarrow> bool" where
  "address_of family iface ifa \<longleftrightarrow> ifa_name ifa = iface \<and> (\<exists>addr. ifa_addr ifa = Some (family, addr))"

lemma first_address_find:
  "first_address net family iface ifas =
     map_option (\<lambda>ifa. case nt_ntop net family (snd (the (ifa_addr ifa))) of None \<Rightarrow> [] | Some str \<Rightarrow> str)
       (find (address_of family iface) ifas)"
  by (induction net family iface ifas rule: first_address.induct) (auto simp: address_of_def split: option.splits)

text \<open>The first address of the first member; names are cut to what fits an interface name.\<close>

lemma if_group_addr_found:
  assumes "family = 4 \<or> family = 6" "nt_socket net" "nt_count net (take 15 grp) = Some (Suc n)"
    "nt_members net (take 15 grp) = Some (iface # ifaces)" "nt_ifaddrs net = Some ifas"
  shows "if_group_addr net grp family =
    (let fam = if family = 4 then AF_INET else AF_INET6
     in map_option (\<lambda>ifa. case nt_ntop net fam (snd (the (ifa_addr ifa))) of None \<Rightarrow> [] | Some str \<Rightarrow> str)
          (find (address_of fam iface) ifas))"
  using assms by (auto simp: if_group_addr_def IFNAMSIZ_def Let_def first_address_find)

lemma if_group_addr_family: "family \<noteq> 4 \<Longrightarrow> family \<noteq> 6 \<Longrightarrow> if_group_addr net grp family = None"
  by (simp add: if_group_addr_def Let_def)

section \<open>Messages\<close>

text \<open>Whether messages are on, and the messages so far without the name of the program.\<close>

record log =
  log_enable :: bool
  log_lines :: "string list"

definition log_disable :: "log \<Rightarrow> log" where
  "log_disable l = l\<lparr>log_enable := False\<rparr>"

text \<open>The argument \<open>formatted\<close> is what the format yields; the buffers hold 511 and 15 characters.\<close>

definition log_vwarnx :: "string option \<Rightarrow> int \<Rightarrow> string \<Rightarrow> log \<Rightarrow> log" where
  "log_vwarnx path lno formatted l =
     (if \<not> log_enable l then l
      else
        let msg = take 511 formatted;
            line = (if lno = 0 then [] else take 15 (show_int lno @ '':''))
        in l\<lparr>log_lines := log_lines l @
             [(case path of None \<Rightarrow> [] | Some p \<Rightarrow> p @ '':'') @ line @ (case path of None \<Rightarrow> [] | Some _ \<Rightarrow> '' '') @ msg]\<rparr>)"

definition log_warnx :: "string option \<Rightarrow> int \<Rightarrow> string \<Rightarrow> log \<Rightarrow> log" where
  "log_warnx path lno formatted l = log_vwarnx path lno formatted l"

lemma log_disabled: "log_warnx path lno msg (log_disable l) = log_disable l"
  by (simp add: log_warnx_def log_vwarnx_def log_disable_def)

lemma log_message:
  "log_enable l \<Longrightarrow> lno \<noteq> 0 \<Longrightarrow> length (show_int lno) < 15 \<Longrightarrow> length msg < 512 \<Longrightarrow>
     log_lines (log_warnx (Some p) lno msg l) = log_lines l @ [p @ '':'' @ show_int lno @ '': '' @ msg]"
  by (simp add: log_warnx_def log_vwarnx_def Let_def)

end
