(* ===== verification/Runs.thy ===== *)
theory Runs
  imports Main
begin

text \<open>
  Labelled runs of a step relation, the rule for invariants of what they reach, and the bound on the
  steps of one kind when they use up a supply.
\<close>

inductive runs :: "('l \<Rightarrow> 's \<Rightarrow> 's \<Rightarrow> bool) \<Rightarrow> 'l list \<Rightarrow> 's \<Rightarrow> 's \<Rightarrow> bool" for step where
  runs_Nil [intro]: "runs step [] s s"
| runs_Cons: "runs step (l # ls) s s''" if "step l s s'" "runs step ls s' s''"

inductive_simps runs_Nil_iff [simp]: "runs step [] s s'"
inductive_cases runs_ConsE: "runs step (l # ls) s s'"

lemma runs_append: "runs step ls s s' \<Longrightarrow> runs step ms s' s'' \<Longrightarrow> runs step (ls @ ms) s s''"
  by (induction rule: runs.induct) (auto intro: runs_Cons)

lemma runs_snoc: "runs step ls s s' \<Longrightarrow> step l s' s'' \<Longrightarrow> runs step (ls @ [l]) s s''"
  by (erule runs_append) (rule runs_Cons [OF _ runs_Nil])

lemma runs_invariant:
  assumes "runs step ls s s'" "I s" "\<And>l t t'. I t \<Longrightarrow> step l t t' \<Longrightarrow> I t'"
  shows "I s'"
  using assms(1,2) by (induction rule: runs.induct) (auto intro: assms(3))

text \<open>A program whose own steps use up a supply that nothing else refills.\<close>

locale supplied =
  fixes step :: "'l \<Rightarrow> 's \<Rightarrow> 's \<Rightarrow> bool" and own :: "'l \<Rightarrow> bool" and fuel :: "'s \<Rightarrow> nat"
  assumes own_uses: "step l s s' \<Longrightarrow> own l \<Longrightarrow> fuel s' < fuel s"
    and keeps: "step l s s' \<Longrightarrow> fuel s' \<le> fuel s"
begin

lemma own_steps_bounded: "runs step ls s s' \<Longrightarrow> length (filter own ls) + fuel s' \<le> fuel s"
proof (induction rule: runs.induct)
  case (runs_Cons l s s' ls s'')
  with own_uses [OF runs_Cons.hyps(1)] keeps [OF runs_Cons.hyps(1)] show ?case by (cases "own l") auto
qed simp

end

end
