(* ===== verification/Mode.thy ===== *)
theory Mode
  imports Prelude
begin

text \<open>\<open>mode.c\<close> and \<open>mode.h\<close>: the modes of robsd and their names.\<close>

datatype robsd_mode = ROBSD | ROBSD_CROSS | ROBSD_PORTS | ROBSD_REGRESS | CANVAS

text \<open>\<open>FOR_ROBSD_MODES\<close>.\<close>

definition robsd_modes :: "(robsd_mode \<times> string) list" where
  "robsd_modes =
     [(ROBSD, ''robsd''), (ROBSD_CROSS, ''robsd-cross''), (ROBSD_PORTS, ''robsd-ports''),
      (ROBSD_REGRESS, ''robsd-regress''), (CANVAS, ''canvas'')]"

definition robsd_mode_parse :: "string \<Rightarrow> robsd_mode option" where
  "robsd_mode_parse mode = map_option fst (find (\<lambda>(c, s). strcmp mode s = 0) robsd_modes)"

fun robsd_mode_str :: "robsd_mode \<Rightarrow> string" where
  "robsd_mode_str ROBSD = ''robsd''"
| "robsd_mode_str ROBSD_CROSS = ''robsd-cross''"
| "robsd_mode_str ROBSD_PORTS = ''robsd-ports''"
| "robsd_mode_str ROBSD_REGRESS = ''robsd-regress''"
| "robsd_mode_str CANVAS = ''canvas''"

lemma robsd_mode_parse_iff: "robsd_mode_parse s = Some m \<longleftrightarrow> s = robsd_mode_str m"
  by (cases m) (auto simp: robsd_mode_parse_def robsd_modes_def strcmp_eq_0 split: if_splits)

lemma robsd_mode_roundtrip [simp]: "robsd_mode_parse (robsd_mode_str m) = Some m"
  by (simp add: robsd_mode_parse_iff)

end
