(* ===== verification/ConfToken.thy ===== *)
theory ConfToken
  imports HashMap Mode
begin

text \<open>
  \<open>conf-token.h\<close> and \<open>conf-token.c\<close>: the tokens of the configuration file and the table of its
  reserved words, which depends on the mode. The table is a hash table of \<open>libks/map.c\<close>.
\<close>

section \<open>Tokens\<close>

datatype conf_token =
    TOKEN_UNKNOWN
  | TOKEN_BOOLEAN
  | TOKEN_INTEGER
  | TOKEN_STRING
  | TOKEN_KEYWORD
  | TOKEN_LBRACE
  | TOKEN_RBRACE
  | TOKEN_COMMAND
  | TOKEN_ENV
  | TOKEN_HOURS
  | TOKEN_MINUTES
  | TOKEN_NO
  | TOKEN_NO_PARALLEL
  | TOKEN_OBJ
  | TOKEN_PACKAGES
  | TOKEN_PARALLEL
  | TOKEN_QUIET
  | TOKEN_ROOT
  | TOKEN_SECONDS
  | TOKEN_TARGETS
  | TOKEN_TIMEOUT
  | TOKEN_YES

text \<open>\<open>FOR_TOKEN_TYPES\<close>: the token, its spelling and the mode it is reserved in. The mode 0 of the
  source stands for any mode, \<open>None\<close> here.\<close>

definition token_types :: "(conf_token \<times> string \<times> robsd_mode option) list" where
  "token_types =
     [(TOKEN_UNKNOWN, '''', None),
      (TOKEN_BOOLEAN, '''', None),
      (TOKEN_INTEGER, '''', None),
      (TOKEN_STRING, '''', None),
      (TOKEN_KEYWORD, '''', None),
      (TOKEN_LBRACE, ''{'', None),
      (TOKEN_RBRACE, ''}'', None),
      (TOKEN_COMMAND, ''command'', Some CANVAS),
      (TOKEN_ENV, ''env'', Some ROBSD_REGRESS),
      (TOKEN_HOURS, ''h'', Some ROBSD_REGRESS),
      (TOKEN_MINUTES, ''m'', Some ROBSD_REGRESS),
      (TOKEN_NO, ''no'', None),
      (TOKEN_NO_PARALLEL, ''no-parallel'', Some ROBSD_REGRESS),
      (TOKEN_OBJ, ''obj'', Some ROBSD_REGRESS),
      (TOKEN_PACKAGES, ''packages'', Some ROBSD_REGRESS),
      (TOKEN_PARALLEL, ''parallel'', Some CANVAS),
      (TOKEN_QUIET, ''quiet'', Some ROBSD_REGRESS),
      (TOKEN_ROOT, ''root'', Some ROBSD_REGRESS),
      (TOKEN_SECONDS, ''s'', None),
      (TOKEN_TARGETS, ''targets'', Some ROBSD_REGRESS),
      (TOKEN_TIMEOUT, ''timeout'', Some ROBSD_REGRESS),
      (TOKEN_YES, ''yes'', None)]"

definition token_type_str :: "conf_token \<Rightarrow> string" where
  "token_type_str t =
     (case t of
        TOKEN_UNKNOWN \<Rightarrow> ''UNKNOWN'' | TOKEN_BOOLEAN \<Rightarrow> ''BOOLEAN'' | TOKEN_INTEGER \<Rightarrow> ''INTEGER''
      | TOKEN_STRING \<Rightarrow> ''STRING'' | TOKEN_KEYWORD \<Rightarrow> ''KEYWORD'' | TOKEN_LBRACE \<Rightarrow> ''LBRACE''
      | TOKEN_RBRACE \<Rightarrow> ''RBRACE'' | TOKEN_COMMAND \<Rightarrow> ''COMMAND'' | TOKEN_ENV \<Rightarrow> ''ENV''
      | TOKEN_HOURS \<Rightarrow> ''HOURS'' | TOKEN_MINUTES \<Rightarrow> ''MINUTES'' | TOKEN_NO \<Rightarrow> ''NO''
      | TOKEN_NO_PARALLEL \<Rightarrow> ''NO_PARALLEL'' | TOKEN_OBJ \<Rightarrow> ''OBJ''
      | TOKEN_PACKAGES \<Rightarrow> ''PACKAGES'' | TOKEN_PARALLEL \<Rightarrow> ''PARALLEL''
      | TOKEN_QUIET \<Rightarrow> ''QUIET'' | TOKEN_ROOT \<Rightarrow> ''ROOT'' | TOKEN_SECONDS \<Rightarrow> ''SECONDS''
      | TOKEN_TARGETS \<Rightarrow> ''TARGETS'' | TOKEN_TIMEOUT \<Rightarrow> ''TIMEOUT'' | TOKEN_YES \<Rightarrow> ''YES'')"

section \<open>The table of reserved words\<close>

type_synonym token_type_lookup = "conf_token hash_map"

text \<open>\<open>None\<close> when memory runs out, which ends the program. A fresh value is zeroed, and zero is the
  first token.\<close>

definition token_type_lookup_insert ::
  "(nat \<Rightarrow> bool) \<Rightarrow> token_type_lookup \<Rightarrow> string \<Rightarrow> conf_token \<Rightarrow> token_type_lookup option" where
  "token_type_lookup_insert ok lookup key val = insert_new ok TOKEN_UNKNOWN lookup key val"

fun token_type_lookup_fill ::
  "(nat \<Rightarrow> bool) \<Rightarrow> robsd_mode \<Rightarrow> token_type_lookup \<Rightarrow>
   (conf_token \<times> string \<times> robsd_mode option) list \<Rightarrow> token_type_lookup option" where
  "token_type_lookup_fill ok mode lookup [] = Some lookup"
| "token_type_lookup_fill ok mode lookup ((t, key, m) # ts) =
     (if key \<noteq> [] \<and> (m = None \<or> m = Some mode) then
        (case token_type_lookup_insert ok lookup key t of
           None \<Rightarrow> None
         | Some lookup' \<Rightarrow> token_type_lookup_fill ok mode lookup' ts)
      else token_type_lookup_fill ok mode lookup ts)"

text \<open>The key is a pointer to characters and the value an \<open>enum\<close> of four bytes.\<close>

definition token_type_lookup_alloc :: "(nat \<Rightarrow> bool) \<Rightarrow> robsd_mode \<Rightarrow> token_type_lookup option" where
  "token_type_lookup_alloc ok mode =
     (case map_init ok 8 4 True of
        None \<Rightarrow> None
      | Some lookup \<Rightarrow> token_type_lookup_fill ok mode lookup token_types)"

definition token_type_lookup_free :: "token_type_lookup \<Rightarrow> token_type_lookup" where
  "token_type_lookup_free lookup = map_free lookup"

definition token_type_lookup :: "token_type_lookup \<Rightarrow> string \<Rightarrow> conf_token \<Rightarrow> conf_token" where
  "token_type_lookup lookup str fallback =
     (case map_lookup lookup str of None \<Rightarrow> fallback | Some t \<Rightarrow> t)"

section \<open>What the table holds\<close>

definition reserved :: "robsd_mode \<Rightarrow> (string \<times> conf_token) list" where
  "reserved mode =
     map (\<lambda>(t, key, m). (key, t))
       (filter (\<lambda>(t, key, m). key \<noteq> [] \<and> (m = None \<or> m = Some mode)) token_types)"

lemma reserved_distinct: "distinct (map fst (reserved mode))"
  by (cases mode) (simp_all add: reserved_def token_types_def)

lemma token_type_lookup_fill_insert_all:
  "token_type_lookup_fill ok mode lookup ts =
   strmap.insert_all ok TOKEN_UNKNOWN lookup
     (map (\<lambda>(t, key, m). (key, t)) (filter (\<lambda>(t, key, m). key \<noteq> [] \<and> (m = None \<or> m = Some mode)) ts))"
  by (induction ok mode lookup ts rule: token_type_lookup_fill.induct)
    (auto simp: token_type_lookup_insert_def split: option.splits)

lemma token_type_lookup_alloc_entries:
  assumes "token_type_lookup_alloc ok mode = Some lookup"
  shows "str_map lookup \<and> entries lookup = reserved mode"
proof -
  obtain l0 :: token_type_lookup where l0: "map_init ok 8 4 True = Some l0"
    "token_type_lookup_fill ok mode l0 token_types = Some lookup"
    using assms by (auto simp: token_type_lookup_alloc_def split: option.splits)
  have "hm_key_str l0"
    using l0(1) by (auto simp: map_init_def split: option.splits if_splits)
  then have "str_map l0" "entries l0 = []"
    using map_init_wf [OF l0(1)] by (simp_all add: str_map_def)
  moreover have "strmap.insert_all ok TOKEN_UNKNOWN l0 (reserved mode) = Some lookup"
    using l0(2) by (simp add: token_type_lookup_fill_insert_all reserved_def)
  ultimately show ?thesis
    using strmap.insert_all_items [of l0 "reserved mode" ok TOKEN_UNKNOWN lookup] reserved_distinct
    by simp
qed

lemma token_type_lookup_eq:
  assumes "token_type_lookup_alloc ok mode = Some lookup"
  shows "token_type_lookup lookup str fallback =
    (case map_of (reserved mode) str of None \<Rightarrow> fallback | Some t \<Rightarrow> t)"
  using token_type_lookup_alloc_entries [OF assms] strmap.lookup_items [of lookup str]
  by (simp add: token_type_lookup_def)

lemma token_type_lookup_fill_ok:
  assumes "str_map lookup" "distinct (map fst (entries lookup @ kvs))"
    and "kvs = map (\<lambda>(t, key, m). (key, t)) (filter (\<lambda>(t, key, m). key \<noteq> [] \<and> (m = None \<or> m = Some mode)) ts)"
    and "table_log lookup + length kvs < 31" "hm_element_size lookup \<le> 2 ^ 32"
    and "\<forall>(t, key, m) \<in> set ts. length key \<le> 2 ^ 32"
  shows "token_type_lookup_fill all_ok mode lookup ts \<noteq> None"
  using assms
proof (induction "all_ok" mode lookup ts arbitrary: kvs rule: token_type_lookup_fill.induct)
  case (2 mode lookup t key m ts)
  show ?case
  proof (cases "key \<noteq> [] \<and> (m = None \<or> m = Some mode)")
    case True
    let ?kvs = "map (\<lambda>(t, key, m). (key, t)) (filter (\<lambda>(t, key, m). key \<noteq> [] \<and> (m = None \<or> m = Some mode)) ts)"
    have kvs: "kvs = (key, t) # ?kvs" using "2.prems"(3) True by simp
    obtain l' where l': "insert_new all_ok TOKEN_UNKNOWN lookup key t = Some l'"
      "table_log l' \<le> Suc (table_log lookup)" "hm_element_size l' = hm_element_size lookup"
      using insert_new_ok [of lookup key TOKEN_UNKNOWN t] "2.prems" kvs by auto
    have "key \<notin> fst ` set (entries lookup)" using "2.prems"(2) kvs by auto
    from strmap.insert_items [OF "2.prems"(1) _ this l'(1)]
    have "str_map l'" "entries l' = entries lookup @ [(key, t)]" by simp_all
    with "2.hyps"(1) [OF True _ _ _ refl, of l'] l' "2.prems" kvs True show ?thesis
      by (simp add: token_type_lookup_insert_def)
  next
    case False
    then show ?thesis using "2.hyps"(2) [of kvs] "2.prems" by auto
  qed
qed simp

lemma token_type_lookup_alloc_ok: "token_type_lookup_alloc all_ok mode \<noteq> None"
proof -
  obtain l :: token_type_lookup where l: "map_init (\<lambda>_. True) 8 4 True = Some l"
    and s: "hm_element_size l \<le> 2 ^ 32" "hm_table l = None" "hm_key_str l"
    by (simp add: map_init_def pointer_align_def size_add_overflow_def)
  have "str_map l" "entries l = []" using map_init_wf [OF l] s(3) by (simp_all add: str_map_def)
  moreover have "table_log l + length (reserved mode) < 31"
    using s(2) by (cases mode) (simp_all add: table_log_def reserved_def token_types_def)
  moreover have "\<forall>(t, key, m) \<in> set token_types. length key \<le> 2 ^ 32"
    by (simp add: token_types_def)
  ultimately show ?thesis
    using token_type_lookup_fill_ok [of l "reserved mode" mode token_types] reserved_distinct [of mode] s(1) l
    by (simp add: token_type_lookup_alloc_def reserved_def)
qed

section \<open>Properties\<close>

text \<open>The table built for a mode recognizes exactly the words that are reserved in every mode or
  in this one, and every other word, keywords included, gets the type the caller asked for.\<close>

lemma token_lookup_reserved:
  assumes "token_type_lookup_alloc ok mode = Some lookup"
  shows "token_type_lookup lookup str fallback =
    (case find (\<lambda>(t, key, m). key \<noteq> [] \<and> key = str \<and> (m = None \<or> m = Some mode)) token_types of
       None \<Rightarrow> fallback
     | Some (t, _) \<Rightarrow> t)"
proof -
  have "map_of (map (\<lambda>(t, key, m). (key, t))
          (filter (\<lambda>(t, key, m). key \<noteq> [] \<and> (m = None \<or> m = Some mode)) ts)) str =
      map_option fst (find (\<lambda>(t, key, m). key \<noteq> [] \<and> key = str \<and> (m = None \<or> m = Some mode)) ts)"
    for ts :: "(conf_token \<times> string \<times> robsd_mode option) list"
    by (induction ts) auto
  then show ?thesis
    unfolding token_type_lookup_eq [OF assms] reserved_def by (auto split: option.split)
qed

theorem token_lookup_reserved_witness:
  "token_type_lookup (the (token_type_lookup_alloc (\<lambda>_. True) CANVAS)) ''command'' TOKEN_KEYWORD = TOKEN_COMMAND \<and>
   token_type_lookup (the (token_type_lookup_alloc (\<lambda>_. True) CANVAS)) ''quiet'' TOKEN_KEYWORD = TOKEN_KEYWORD"
proof -
  obtain l where l: "token_type_lookup_alloc (\<lambda>_. True) CANVAS = Some l"
    using token_type_lookup_alloc_ok [of CANVAS] by auto
  show ?thesis
    using token_lookup_reserved [OF l, of "''command''" TOKEN_KEYWORD]
      token_lookup_reserved [OF l, of "''quiet''" TOKEN_KEYWORD] l
    by (simp add: token_types_def)
qed

text \<open>As long as memory can be allocated, the table of every mode is built; the buckets never
  overflow.\<close>

lemma token_lookup_alloc_succeeds: "token_type_lookup_alloc (\<lambda>_. True) mode \<noteq> None"
  by (rule token_type_lookup_alloc_ok)

end
