(* ===== verification/ConfLexer.thy ===== *)
theory ConfLexer
  imports ConfToken Lexer Arithmetic
begin

text \<open>
  The tokens of a configuration file: \<open>config_lexer_read\<close> of \<open>conf.c\<close>, the callback with which the
  lexer reads its input. White space and comments separate tokens; words are reserved words,
  booleans or keywords; numbers are checked for overflow; strings are quoted.
\<close>

section \<open>Reading one token\<close>

type_synonym conf_lexer = "conf_token lexer"

definition conf_token_serialize :: "conf_token \<Rightarrow> string" where
  "conf_token_serialize t = token_type_str t"

definition word_char :: "char \<Rightarrow> bool" where
  "word_char c \<longleftrightarrow> is_lower c \<or> is_digit c \<or> c = CHR ''-''"

lemma word_char_NUL [simp]: "\<not> word_char NUL"
  by (simp add: word_char_def is_lower_def is_digit_def)

lemma is_digit_NUL [simp]: "\<not> is_digit NUL"
  by (simp add: is_digit_def)

text \<open>The first character that is no white space.\<close>

function read_nonspace :: "conf_lexer \<Rightarrow> char \<times> conf_lexer" where
  "read_nonspace lx =
     (case lexer_getc lx of (e, ch, lx1) \<Rightarrow>
        if \<not> e \<and> is_space ch then read_nonspace lx1 else (ch, lx1))"
  by pat_completeness auto
termination
  by (relation "measure (\<lambda>lx. lx_len lx - lx_off lx)")
    (auto simp: lexer_getc_def Let_def split: if_splits)

function skip_comment :: "char \<Rightarrow> conf_lexer \<Rightarrow> conf_lexer" where
  "skip_comment ch lx =
     (if ch = NL \<or> ch = NUL then lx
      else
        (case lexer_getc lx of (e, c, lx1) \<Rightarrow> if e then lx1 else skip_comment c lx1))"
  by pat_completeness auto
termination
  by (relation "measure (\<lambda>(ch, lx). 2 * (lx_len lx - lx_off lx) + (if ch = NL \<or> ch = NUL then 0 else 1))")
    (auto simp: lexer_getc_def Let_def split: if_splits)

declare read_nonspace.simps [simp del]
declare skip_comment.simps [simp del]

text \<open>What reading does to the lexer: it stays in the input and moves forward.\<close>

definition lexer_after :: "'t lexer \<Rightarrow> 't lexer \<Rightarrow> bool" where
  "lexer_after lx lx' \<longleftrightarrow>
     lexer_frame lx lx' \<and> lx_len lx - lx_off lx' \<le> lx_len lx - lx_off lx \<and>
     (lx_off lx \<le> lx_len lx \<longrightarrow> lx_off lx' \<le> lx_len lx')"

lemma lexer_after_refl: "lexer_after lx lx"
  by (simp add: lexer_after_def lexer_frame_def)

lemma lexer_after_trans: "lexer_after a b \<Longrightarrow> lexer_after b c \<Longrightarrow> lexer_after a c"
  by (auto simp: lexer_after_def lexer_frame_def)

lemma lexer_getc_after: "lexer_getc lx = (e, c, lx1) \<Longrightarrow> lexer_after lx lx1"
  by (auto simp: lexer_getc_def lexer_after_def lexer_frame_def Let_def split: if_splits)

lemma lexer_getc_char:
  "lexer_getc lx = (e, c, lx1) \<Longrightarrow> c \<noteq> NUL \<Longrightarrow>
   \<not> e \<and> lx_off lx < lx_len lx \<and> lx_off lx1 = Suc (lx_off lx) \<and> lx_len lx1 = lx_len lx"
  by (auto simp: lexer_getc_def Let_def split: if_splits)

lemma read_nonspace_after: "read_nonspace lx = (ch, lx1) \<Longrightarrow>
   lexer_after lx lx1 \<and> (ch \<noteq> NUL \<longrightarrow> lx_off lx < lx_off lx1 \<and> lx_len lx1 - lx_off lx1 < lx_len lx - lx_off lx)"
proof (induction lx rule: read_nonspace.induct)
  case (1 lx)
  obtain e c lx2 where g: "lexer_getc lx = (e, c, lx2)" by (cases "lexer_getc lx")
  note a = lexer_getc_after [OF g]
  show ?case
  proof (cases "\<not> e \<and> is_space c")
    case True
    then have "c \<noteq> NUL" by auto
    note c = lexer_getc_char [OF g this]
    have "read_nonspace lx2 = (ch, lx1)" using "1.prems" g True by (subst (asm) read_nonspace.simps) simp
    with "1.IH" [OF g [symmetric] refl True] a c show ?thesis
      by (auto intro: lexer_after_trans)
  next
    case False
    then have "c = ch" "lx2 = lx1" using "1.prems" g by (subst (asm) read_nonspace.simps, simp)+
    with a lexer_getc_char [OF g] show ?thesis by auto
  qed
qed

lemma skip_comment_after: "lexer_after lx (skip_comment ch lx)"
proof (induction ch lx rule: skip_comment.induct)
  case (1 ch lx)
  obtain e c lx1 where g: "lexer_getc lx = (e, c, lx1)" by (cases "lexer_getc lx")
  note a = lexer_getc_after [OF g]
  show ?case
  proof (cases "ch = NL \<or> ch = NUL")
    case True
    then show ?thesis by (subst skip_comment.simps) (simp add: lexer_after_refl)
  next
    case False
    with g a show ?thesis
      using "1.IH" [OF _ g [symmetric] refl]
      by (subst skip_comment.simps) (auto intro: lexer_after_trans)
  qed
qed

text \<open>The first character of a token, after white space and comments.\<close>

function read_start :: "conf_lexer \<Rightarrow> char \<times> conf_lexer" where
  "read_start lx =
     (case read_nonspace lx of (ch, lx1) \<Rightarrow>
        if ch = CHR ''#'' then read_start (skip_comment ch lx1) else (ch, lx1))"
  by pat_completeness auto
termination
proof (relation "measure (\<lambda>lx. lx_len lx - lx_off lx)")
  fix lx :: conf_lexer and ch lx1
  assume r: "(ch, lx1) = read_nonspace lx" "ch = CHR ''#''"
  with read_nonspace_after [of lx ch lx1] have "lx_len lx1 - lx_off lx1 < lx_len lx - lx_off lx" by auto
  moreover have "lx_len (skip_comment ch lx1) - lx_off (skip_comment ch lx1) \<le> lx_len lx1 - lx_off lx1"
    using skip_comment_after [of lx1 ch] by (simp add: lexer_after_def lexer_frame_def)
  ultimately show "(skip_comment ch lx1, lx) \<in> measure (\<lambda>lx. lx_len lx - lx_off lx)" by simp
qed simp

function read_word :: "conf_lexer \<Rightarrow> string \<Rightarrow> char \<Rightarrow> string \<times> char \<times> conf_lexer" where
  "read_word lx bf ch =
     (if word_char ch then
        (case lexer_getc lx of (e, c, lx1) \<Rightarrow>
           if e then (bf @ [ch], c, lx1) else read_word lx1 (bf @ [ch]) c)
      else (bf, ch, lx))"
  by pat_completeness auto
termination
  by (relation "measure (\<lambda>(lx, bf, ch). 2 * (lx_len lx - lx_off lx) + (if word_char ch then 1 else 0))")
    (auto simp: lexer_getc_def Let_def word_char_def is_lower_def is_digit_def split: if_splits)

text \<open>A number, and whether it overflowed.\<close>

function read_digits :: "conf_lexer \<Rightarrow> bool \<Rightarrow> i32 \<Rightarrow> char \<Rightarrow> bool \<times> i32 \<times> char \<times> conf_lexer" where
  "read_digits lx error val ch =
     (if is_digit ch then
        (let x = (of_nat (digit_val ch) :: i32);
             (error', val') =
               (case KS_i32_mul_overflow val 10 of
                  (True, v) \<Rightarrow> (True, v)
                | (False, v) \<Rightarrow>
                    (case KS_i32_add_overflow v x of (ovf, w) \<Rightarrow> (if ovf then True else error, w)))
         in case lexer_getc lx of (e, c, lx1) \<Rightarrow>
              if e then (error', val', c, lx1) else read_digits lx1 error' val' c)
      else (error, val, ch, lx))"
  by pat_completeness auto
termination
  by (relation "measure (\<lambda>(lx, error, val, ch). 2 * (lx_len lx - lx_off lx) + (if is_digit ch then 1 else 0))")
    (auto simp: lexer_getc_def Let_def is_digit_def split: if_splits)

text \<open>The rest of a quoted string; \<open>None\<close> when the input ends in it.\<close>

function read_string :: "conf_lexer \<Rightarrow> string \<Rightarrow> string option \<times> conf_lexer" where
  "read_string lx bf =
     (case lexer_getc lx of (e, c, lx1) \<Rightarrow>
        if e then (Some bf, lx1)
        else if c = NUL then (None, lx1)
        else if c = CHR 0x22 then (Some bf, lx1)
        else read_string lx1 (bf @ [c]))"
  by pat_completeness auto
termination
  by (relation "measure (\<lambda>(lx, bf). lx_len lx - lx_off lx)")
    (auto simp: lexer_getc_def Let_def split: if_splits)

declare read_start.simps [simp del]
declare read_word.simps [simp del]
declare read_digits.simps [simp del]
declare read_string.simps [simp del]

definition config_lexer_read :: "token_type_lookup \<Rightarrow> (conf_token, unit) reader" where
  "config_lexer_read lookup lx u =
     (case read_start lx of (ch, lx1) \<Rightarrow>
        let s = lexer_get_state lx1 in
        if ch = NUL then (Some (lexer_emit s LEXER_EOF), lx1, ())
        else if is_lower ch then
          (case read_word lx1 [] ch of (bf, c, lx2) \<Rightarrow>
             let t = token_type_lookup lookup bf TOKEN_KEYWORD;
                 tk = (if t = TOKEN_KEYWORD then (lexer_emit s (Tok TOKEN_KEYWORD))\<lparr>tk_str := bf\<rparr>
                       else if t = TOKEN_YES then (lexer_emit s (Tok TOKEN_BOOLEAN))\<lparr>tk_int := 1\<rparr>
                       else if t = TOKEN_NO then (lexer_emit s (Tok TOKEN_BOOLEAN))\<lparr>tk_int := 0\<rparr>
                       else lexer_emit s (Tok t))
             in (Some tk, lexer_ungetc lx2 c, ()))
        else if is_digit ch then
          (case read_digits lx1 False 0 ch of (error, val, c, lx2) \<Rightarrow>
             let lx3 = lexer_ungetc lx2 c;
                 lx4 = (if error then lexer_error lx3 (ls_lno s) ''integer too big'' else lx3)
             in (Some ((lexer_emit s (Tok TOKEN_INTEGER))\<lparr>tk_int := sint val\<rparr>), lx4, ()))
        else if ch = CHR 0x22 then
          (case read_string lx1 [] of
             (None, lx2) \<Rightarrow> (None, lexer_error lx2 (ls_lno s) ''unterminated string'', ())
           | (Some bf, lx2) \<Rightarrow>
               let lx3 = (if bf = [] then lexer_error lx2 (ls_lno s) ''empty string'' else lx2)
               in (Some ((lexer_emit s (Tok TOKEN_STRING))\<lparr>tk_str := bf\<rparr>), lx3, ()))
        else (Some (lexer_emit s (Tok (token_type_lookup lookup [ch] TOKEN_UNKNOWN))), lx1, ()))"

section \<open>Every token uses up input\<close>

lemma read_start_after: "read_start lx = (ch, lx1) \<Longrightarrow>
   lexer_after lx lx1 \<and> (ch \<noteq> NUL \<longrightarrow> lx_len lx1 - lx_off lx1 < lx_len lx - lx_off lx)"
proof (induction lx rule: read_start.induct)
  case (1 lx)
  obtain c lx2 where n: "read_nonspace lx = (c, lx2)" by (cases "read_nonspace lx")
  note a = read_nonspace_after [OF n]
  show ?case
  proof (cases "c = CHR ''#''")
    case True
    have "read_start (skip_comment c lx2) = (ch, lx1)"
      using "1.prems" n True by (subst (asm) read_start.simps) simp
    with "1.IH" [OF n [symmetric] True] skip_comment_after [of lx2 c] a show ?thesis
      by (auto simp: lexer_after_def lexer_frame_def)
  next
    case False
    with "1.prems" n a show ?thesis by (subst (asm) read_start.simps) auto
  qed
qed

lemma read_word_after:
  "read_word lx bf ch = (w, c, lx1) \<Longrightarrow>
   lexer_after lx lx1 \<and> (word_char ch \<longrightarrow> lx_eof lx1 > 0 \<or> lx_off lx < lx_off lx1)"
proof (induction lx bf ch rule: read_word.induct)
  case (1 lx bf ch)
  obtain e a lx2 where g: "lexer_getc lx = (e, a, lx2)" by (cases "lexer_getc lx")
  have eof: "e \<Longrightarrow> lx_eof lx2 > 0" "lx_off lx < lx_off lx2 \<or> lx_eof lx2 > 0"
    "a = NUL \<Longrightarrow> \<not> word_char a"
    using g by (auto simp: lexer_getc_def Let_def word_char_def is_lower_def is_digit_def split: if_splits)
  show ?case
  proof (cases "word_char ch \<and> \<not> e")
    case False
    with "1.prems" g eof lexer_getc_after [OF g] show ?thesis
      by (subst (asm) read_word.simps) (auto simp: lexer_after_refl split: if_splits)
  next
    case True
    then have r: "read_word lx2 (bf @ [ch]) a = (w, c, lx1)"
      using "1.prems" g by (subst (asm) read_word.simps) simp
    have "lexer_after lx2 lx1 \<and> (word_char a \<longrightarrow> lx_eof lx1 > 0 \<or> lx_off lx2 < lx_off lx1)"
      by (rule "1.IH" [OF _ g [symmetric] refl _ r]) (use True in simp_all)
    moreover have "\<not> word_char a \<Longrightarrow> lx1 = lx2"
      using r by (subst (asm) read_word.simps) simp
    moreover have "word_char a \<Longrightarrow> lx_off lx < lx_off lx2"
      using lexer_getc_char [OF g] by (cases "a = NUL") auto
    ultimately show ?thesis
      using lexer_getc_after [OF g] eof(2) by (cases "word_char a") (auto intro: lexer_after_trans)
  qed
qed

lemma read_digits_after:
  "read_digits lx error val ch = (error', val', c, lx1) \<Longrightarrow>
   lexer_after lx lx1 \<and> (is_digit ch \<longrightarrow> lx_eof lx1 > 0 \<or> lx_off lx < lx_off lx1)"
proof (induction lx error val ch rule: read_digits.induct)
  case (1 lx error val ch)
  obtain e a lx2 where g: "lexer_getc lx = (e, a, lx2)" by (cases "lexer_getc lx")
  have eof: "e \<Longrightarrow> lx_eof lx2 > 0" "lx_off lx < lx_off lx2 \<or> lx_eof lx2 > 0"
    using g by (auto simp: lexer_getc_def Let_def split: if_splits)
  obtain er v where ev: "(case KS_i32_mul_overflow val 10 of
      (True, v) \<Rightarrow> (True, v)
    | (False, v) \<Rightarrow>
        (case KS_i32_add_overflow v (of_nat (digit_val ch)) of (ovf, w) \<Rightarrow> (if ovf then True else error, w)))
      = (er, v)" by fastforce
  show ?case
  proof (cases "is_digit ch \<and> \<not> e")
    case False
    with "1.prems" g eof lexer_getc_after [OF g] ev show ?thesis
      by (subst (asm) read_digits.simps) (auto simp: lexer_after_refl Let_def split: if_splits)
  next
    case True
    then have r: "read_digits lx2 er v a = (error', val', c, lx1)"
      using "1.prems" g ev by (subst (asm) read_digits.simps) (simp add: Let_def)
    have "lexer_after lx2 lx1 \<and> (is_digit a \<longrightarrow> lx_eof lx1 > 0 \<or> lx_off lx2 < lx_off lx1)"
      by (rule "1.IH" [OF _ refl ev [symmetric] refl g [symmetric] refl _ r]) (use True in simp_all)
    moreover have "\<not> is_digit a \<Longrightarrow> lx1 = lx2"
      using r by (subst (asm) read_digits.simps) simp
    moreover have "is_digit a \<Longrightarrow> lx_off lx < lx_off lx2"
      using lexer_getc_char [OF g] by (cases "a = NUL") auto
    ultimately show ?thesis
      using lexer_getc_after [OF g] eof(2) by (cases "is_digit a") (auto intro: lexer_after_trans)
  qed
qed

lemma read_string_after: "read_string lx bf = (r, lx1) \<Longrightarrow> lexer_after lx lx1"
proof (induction lx bf rule: read_string.induct)
  case (1 lx bf)
  obtain e a lx2 where g: "lexer_getc lx = (e, a, lx2)" by (cases "lexer_getc lx")
  with "1.prems" "1.IH" [OF g [symmetric] refl] lexer_getc_after [OF g] show ?case
    by (subst (asm) read_string.simps) (auto intro: lexer_after_trans split: if_splits)
qed

lemma lexer_ungetc_after:
  assumes "lexer_after lx lx1" "lx_eof lx1 > 0 \<or> lx_off lx < lx_off lx1" "lx_off lx \<le> lx_len lx"
  shows "lexer_frame lx (lexer_ungetc lx1 c) \<and> lx_off (lexer_ungetc lx1 c) \<le> lx_len lx \<and>
    lx_off lx \<le> lx_off (lexer_ungetc lx1 c)"
  using assms by (auto simp: lexer_ungetc_def lexer_after_def lexer_frame_def Let_def)

lemma config_reader_progress: "reader_progress (config_lexer_read lookup)"
  unfolding reader_progress_def
proof (intro allI impI)
  fix lx :: conf_lexer and s :: unit and tk lx' s'
  assume off: "lx_off lx \<le> lx_len lx" and r: "config_lexer_read lookup lx s = (Some tk, lx', s')"
  obtain ch lx1 where st: "read_start lx = (ch, lx1)" by (cases "read_start lx")
  note a = read_start_after [OF st]
  have a1: "lexer_frame lx lx1" "lx_off lx1 \<le> lx_len lx" "ch \<noteq> NUL \<Longrightarrow> lx_off lx < lx_off lx1"
    "lx_len lx1 = lx_len lx"
    using a off by (auto simp: lexer_after_def lexer_frame_def)
  have err: "lexer_frame l (lexer_error l n m)" "lx_off (lexer_error l n m) = lx_off l" for l :: conf_lexer and n m
    by (simp_all add: lexer_error_def lexer_frame_def)
  have "lexer_frame lx lx' \<and> lx_off lx' \<le> lx_len lx \<and> (tk_type tk \<noteq> LEXER_EOF \<longrightarrow> lx_off lx < lx_off lx')"
  proof (cases "ch = NUL")
    case True
    with r st a1 show ?thesis by (auto simp: config_lexer_read_def lexer_emit_def token_alloc_def Let_def)
  next
    case False
    note a1 = a1(1,2,4) a1(3) [OF False]
    consider (word) "is_lower ch" | (digit) "\<not> is_lower ch" "is_digit ch"
      | (quote) "\<not> is_lower ch" "\<not> is_digit ch" "ch = CHR 0x22"
      | (other) "\<not> is_lower ch" "\<not> is_digit ch" "ch \<noteq> CHR 0x22" by blast
    then show ?thesis
    proof cases
      case word
      obtain bf c lx2 where w: "read_word lx1 [] ch = (bf, c, lx2)" by (cases "read_word lx1 [] ch")
      have "lexer_frame lx1 (lexer_ungetc lx2 c) \<and> lx_off (lexer_ungetc lx2 c) \<le> lx_len lx1 \<and>
          lx_off lx1 \<le> lx_off (lexer_ungetc lx2 c)"
        using read_word_after [OF w] word a1 by (intro lexer_ungetc_after) (simp_all add: word_char_def)
      moreover have "lx' = lexer_ungetc lx2 c"
        using r st False word w by (auto simp: config_lexer_read_def Let_def split: if_splits)
      ultimately show ?thesis using a1 by (auto intro: lexer_frame_trans)
    next
      case digit
      obtain e v c lx2 where w: "read_digits lx1 False 0 ch = (e, v, c, lx2)"
        by (cases "read_digits lx1 False 0 ch")
      have "lexer_frame lx1 (lexer_ungetc lx2 c) \<and> lx_off (lexer_ungetc lx2 c) \<le> lx_len lx1 \<and>
          lx_off lx1 \<le> lx_off (lexer_ungetc lx2 c)"
        using read_digits_after [OF w] digit a1 by (intro lexer_ungetc_after) simp_all
      moreover have "lexer_frame (lexer_ungetc lx2 c) lx' \<and> lx_off lx' = lx_off (lexer_ungetc lx2 c)"
        using r st False digit w err
        by (auto simp: config_lexer_read_def Let_def lexer_frame_def split: if_splits)
      ultimately show ?thesis using a1 by (auto intro: lexer_frame_trans)
    next
      case quote
      obtain o' lx2 where w: "read_string lx1 [] = (o', lx2)" by (cases "read_string lx1 []")
      note b = read_string_after [OF w]
      have "lexer_frame lx2 lx' \<and> lx_off lx' = lx_off lx2"
        using r st quote w err
        by (auto simp: config_lexer_read_def Let_def lexer_frame_def is_lower_def is_digit_def
            split: if_splits option.splits)
      with a1 b show ?thesis by (auto simp: lexer_after_def lexer_frame_def)
    next
      case other
      with r st False a1 show ?thesis by (auto simp: config_lexer_read_def Let_def)
    qed
  qed
  then show "lx_tokens lx' = lx_tokens lx \<and> lx_tk lx' = lx_tk lx \<and> lx_buf lx' = lx_buf lx \<and>
      lx_off lx' \<le> lx_len lx' \<and> (tk_type tk \<noteq> LEXER_EOF \<longrightarrow> lx_off lx < lx_off lx')"
    by (auto simp: lexer_frame_def)
qed

section \<open>Texts as sequences of tokens\<close>

text \<open>The tokens a text can be made of: words, numbers, quoted strings and braces.\<close>

datatype conf_piece = PWord string | PInt nat | PStr string | PSym char

fun piece_text :: "conf_piece \<Rightarrow> string" where
  "piece_text (PWord w) = w"
| "piece_text (PInt n) = show_nat n"
| "piece_text (PStr s) = CHR 0x22 # s @ [CHR 0x22]"
| "piece_text (PSym c) = [c]"

fun piece_ok :: "conf_piece \<Rightarrow> bool" where
  "piece_ok (PWord w) = (w \<noteq> [] \<and> is_lower (hd w) \<and> (\<forall>c \<in> set w. word_char c))"
| "piece_ok (PInt n) = (int n \<le> INT_MAX)"
| "piece_ok (PStr s) = (s \<noteq> [] \<and> NUL \<notin> set s \<and> CHR 0x22 \<notin> set s)"
| "piece_ok (PSym c) = (c = CHR ''{'' \<or> c = CHR ''}'')"

type_synonym conf_kind = "conf_token token_type \<times> string \<times> int"

definition word_kind :: "conf_token \<Rightarrow> string \<Rightarrow> conf_kind" where
  "word_kind t w =
     (if t = TOKEN_KEYWORD then (Tok TOKEN_KEYWORD, w, 0)
      else if t = TOKEN_YES then (Tok TOKEN_BOOLEAN, [], 1)
      else if t = TOKEN_NO then (Tok TOKEN_BOOLEAN, [], 0)
      else (Tok t, [], 0))"

fun piece_kind :: "token_type_lookup \<Rightarrow> conf_piece \<Rightarrow> conf_kind" where
  "piece_kind lookup (PWord w) = word_kind (token_type_lookup lookup w TOKEN_KEYWORD) w"
| "piece_kind lookup (PInt n) = (Tok TOKEN_INTEGER, [], int n)"
| "piece_kind lookup (PStr s) = (Tok TOKEN_STRING, s, 0)"
| "piece_kind lookup (PSym c) = (Tok (token_type_lookup lookup [c] TOKEN_UNKNOWN), [], 0)"

definition token_kind :: "conf_token token \<Rightarrow> conf_kind" where
  "token_kind tk = (tk_type tk, tk_str tk, tk_int tk)"

text \<open>Reading leaves the number of errors alone.\<close>

definition quiet :: "conf_lexer \<Rightarrow> conf_lexer \<Rightarrow> bool" where
  "quiet lx lx' \<longleftrightarrow> lexer_frame lx lx' \<and> lx_err lx' = lx_err lx"

lemma quiet_trans: "quiet a b \<Longrightarrow> quiet b c \<Longrightarrow> quiet a c"
  by (simp add: quiet_def lexer_frame_def)

lemma quiet_refl: "quiet a a"
  by (simp add: quiet_def lexer_frame_def)

lemma quiet_ungetc: "quiet a b \<Longrightarrow> quiet a (lexer_ungetc b c)"
  by (simp add: quiet_def lexer_frame_def lexer_ungetc_def Let_def)

lemma getc_at:
  assumes "lexer_at lx (c # r)"
  shows "\<exists>lx1. lexer_getc lx = (False, c, lx1) \<and> lexer_at lx1 r \<and> quiet lx lx1 \<and>
    lexer_at (lexer_ungetc lx1 c) (c # r)"
proof -
  obtain lx1 where g: "lexer_getc lx = (False, c, lx1)" "lexer_at lx1 r" "lexer_frame lx lx1"
    "lexer_at (lexer_ungetc lx1 c) (c # r)" using lexer_getc_at [OF assms] by blast
  have "lx_err lx1 = lx_err lx" using g(1) by (auto simp: lexer_getc_def Let_def split: if_splits)
  with g show ?thesis by (simp add: quiet_def)
qed

lemma read_start_at:
  assumes "\<forall>s \<in> set sp. is_space s" "\<not> is_space c" "c \<noteq> CHR ''#''" "lexer_at lx (sp @ c # r)"
  shows "\<exists>lx1. read_start lx = (c, lx1) \<and> lexer_at lx1 r \<and> quiet lx lx1"
proof -
  have "\<exists>lx1. read_nonspace lx = (c, lx1) \<and> lexer_at lx1 r \<and> quiet lx lx1"
    using assms(1,4)
  proof (induction sp arbitrary: lx)
    case Nil
    then obtain lx1 where "lexer_getc lx = (False, c, lx1)" "lexer_at lx1 r" "quiet lx lx1"
      using getc_at [of lx c r] by auto
    with assms(2) show ?case by (subst read_nonspace.simps) simp
  next
    case (Cons s sp)
    then obtain lx1 where g: "lexer_getc lx = (False, s, lx1)" "lexer_at lx1 (sp @ c # r)" "quiet lx lx1"
      using getc_at [of lx s "sp @ c # r"] by auto
    have "\<exists>lx2. read_nonspace lx1 = (c, lx2) \<and> lexer_at lx2 r \<and> quiet lx1 lx2"
      by (rule Cons.IH) (use Cons.prems g in auto)
    with g Cons.prems show ?case by (subst read_nonspace.simps) (auto intro: quiet_trans)
  qed
  with assms(3) show ?thesis by (subst read_start.simps) auto
qed

lemma read_word_at:
  assumes "\<forall>a \<in> set (ch # w). word_char a" "\<not> word_char c" "lexer_at lx (w @ c # r)"
  shows "\<exists>lx1. read_word lx bf ch = (bf @ ch # w, c, lx1) \<and> lexer_at (lexer_ungetc lx1 c) (c # r) \<and>
    quiet lx lx1"
  using assms(1,3)
proof (induction w arbitrary: lx bf ch)
  case Nil
  then obtain lx1 where "lexer_getc lx = (False, c, lx1)" "quiet lx lx1" "lexer_at (lexer_ungetc lx1 c) (c # r)"
    using getc_at [of lx c r] by auto
  with assms(2) Nil show ?case
    by (subst read_word.simps) (simp add: read_word.simps [of lx1 "bf @ [ch]" c])
next
  case (Cons a w)
  then obtain lx1 where g: "lexer_getc lx = (False, a, lx1)" "lexer_at lx1 (w @ c # r)" "quiet lx lx1"
    using getc_at [of lx a "w @ c # r"] by auto
  have "\<exists>lx2. read_word lx1 (bf @ [ch]) a = ((bf @ [ch]) @ a # w, c, lx2) \<and>
      lexer_at (lexer_ungetc lx2 c) (c # r) \<and> quiet lx1 lx2"
    by (rule Cons.IH) (use Cons.prems g in auto)
  with g Cons.prems show ?case by (subst read_word.simps) (auto intro: quiet_trans)
qed

lemma read_string_at:
  assumes "NUL \<notin> set s" "CHR 0x22 \<notin> set s" "lexer_at lx (s @ CHR 0x22 # r)"
  shows "\<exists>lx1. read_string lx bf = (Some (bf @ s), lx1) \<and> lexer_at lx1 r \<and> quiet lx lx1"
  using assms
proof (induction s arbitrary: lx bf)
  case Nil
  then obtain lx1 where "lexer_getc lx = (False, CHR 0x22, lx1)" "lexer_at lx1 r" "quiet lx lx1"
    using getc_at [of lx "CHR 0x22" r] by auto
  then show ?case by (subst read_string.simps) simp
next
  case (Cons a s)
  then obtain lx1 where g: "lexer_getc lx = (False, a, lx1)" "lexer_at lx1 (s @ CHR 0x22 # r)" "quiet lx lx1"
    using getc_at [of lx a "s @ CHR 0x22 # r"] by auto
  have "\<exists>lx2. read_string lx1 (bf @ [a]) = (Some ((bf @ [a]) @ s), lx2) \<and> lexer_at lx2 r \<and> quiet lx1 lx2"
    by (rule Cons.IH) (use Cons.prems g in auto)
  with g Cons.prems show ?case by (subst read_string.simps) (auto intro: quiet_trans)
qed

text \<open>Numbers that fit are read without overflow.\<close>

lemma mul_add_small:
  assumes "int (10 * m + d) \<le> INT_MAX"
  shows "KS_i32_mul_overflow (of_nat m) 10 = (False, of_nat (10 * m))"
    "KS_i32_add_overflow (of_nat (10 * m)) (of_nat d) = (False, of_nat (10 * m + d))"
proof -
  have s: "sint (of_nat k :: i32) = int k" if "int k \<le> INT_MAX" for k
    using sint_i32_of_int [of "int k"] that by simp
  have "sint (of_nat m :: i32) = int m" "sint (of_nat d :: i32) = int d"
    "sint (of_nat (10 * m) :: i32) = int (10 * m)" "sint (10 :: i32) = 10"
    using s [of m] s [of d] s [of "10 * m"] s [of 10] assms by simp_all
  then show "KS_i32_mul_overflow (of_nat m) 10 = (False, of_nat (10 * m))"
    "KS_i32_add_overflow (of_nat (10 * m)) (of_nat d) = (False, of_nat (10 * m + d))"
    using assms by (simp_all add: KS_i32_mul_overflow_def KS_i32_add_overflow_def fits_signed_def
        smin_def smax_def mult.commute)
qed

lemma foldl_digits_ge: "m \<le> foldl (\<lambda>n c. 10 * n + digit_val c) m ds"
proof (induction ds arbitrary: m)
  case (Cons d ds)
  have "m \<le> 10 * m + digit_val d" by simp
  also have "\<dots> \<le> foldl (\<lambda>n c. 10 * n + digit_val c) (10 * m + digit_val d) ds" by (rule Cons)
  finally show ?case by simp
qed simp

lemma read_digits_at:
  assumes "\<forall>a \<in> set (ch # ds). is_digit a" "\<not> is_digit c" "lexer_at lx (ds @ c # r)"
    and "int (foldl (\<lambda>n c. 10 * n + digit_val c) m (ch # ds)) \<le> INT_MAX"
  shows "\<exists>lx1. read_digits lx False (of_nat m) ch =
      (False, of_nat (foldl (\<lambda>n c. 10 * n + digit_val c) m (ch # ds)), c, lx1) \<and>
    lexer_at (lexer_ungetc lx1 c) (c # r) \<and> quiet lx lx1"
  using assms(1,3,4)
proof (induction ds arbitrary: lx m ch)
  case Nil
  then obtain lx1 where g: "lexer_getc lx = (False, c, lx1)" "quiet lx lx1" "lexer_at (lexer_ungetc lx1 c) (c # r)"
    using getc_at [of lx c r] by auto
  have "int (10 * m + digit_val ch) \<le> INT_MAX" using Nil.prems(3) by simp
  from mul_add_small [OF this] g assms(2) Nil.prems show ?case
    by (subst read_digits.simps) (simp add: Let_def read_digits.simps [of lx1 _ _ c])
next
  case (Cons a ds)
  then obtain lx1 where g: "lexer_getc lx = (False, a, lx1)" "lexer_at lx1 (ds @ c # r)" "quiet lx lx1"
    using getc_at [of lx a "ds @ c # r"] by auto
  let ?m = "10 * m + digit_val ch"
  have "int ?m \<le> INT_MAX"
    using foldl_digits_ge [of ?m "a # ds"] Cons.prems(3) by simp
  note small = mul_add_small [OF this]
  have "\<exists>lx2. read_digits lx1 False (of_nat ?m) a =
      (False, of_nat (foldl (\<lambda>n c. 10 * n + digit_val c) ?m (a # ds)), c, lx2) \<and>
    lexer_at (lexer_ungetc lx2 c) (c # r) \<and> quiet lx1 lx2"
    by (rule Cons.IH) (use Cons.prems g in auto)
  with g small Cons.prems(1) show ?case
    by (subst read_digits.simps) (auto simp: Let_def intro: quiet_trans)
qed

lemma piece_text_head:
  assumes "piece_ok p"
  obtains ch rest where "piece_text p = ch # rest" "\<not> is_space ch" "ch \<noteq> CHR ''#''" "ch \<noteq> NUL"
    "\<And>w. p = PWord w \<Longrightarrow> is_lower ch" "\<And>n. p = PInt n \<Longrightarrow> is_digit ch"
proof (cases p)
  case (PWord w)
  with assms show thesis
    using that [of "hd w" "tl w"] is_space_not_lower [of "hd w"] is_lower_neq [of "hd w"]
    by (cases w) auto
next
  case (PInt n)
  obtain a ds where "show_nat n = a # ds" by (cases "show_nat n") auto
  moreover from this have "is_digit a" using show_nat_digits [of a n] by simp
  ultimately show thesis
    using that [of a ds] PInt is_space_not_digit [of a] is_digit_neq [of a] by auto
next
  case (PStr s)
  with that show thesis by (simp add: is_space_def)
next
  case (PSym c)
  with assms that show thesis by (auto simp: is_space_def)
qed

lemma config_lexer_read_piece:
  assumes "piece_ok p" "\<forall>s \<in> set sp. is_space s" "lexer_at lx (sp @ piece_text p @ CHR '' '' # r)"
  shows "\<exists>tk lx1. config_lexer_read lookup lx () = (Some tk, lx1, ()) \<and> token_kind tk = piece_kind lookup p \<and>
    lexer_at lx1 (CHR '' '' # r) \<and> quiet lx lx1"
proof -
  obtain ch rest where t: "piece_text p = ch # rest" "\<not> is_space ch" "ch \<noteq> CHR ''#''" "ch \<noteq> NUL"
    "\<And>w. p = PWord w \<Longrightarrow> is_lower ch" "\<And>n. p = PInt n \<Longrightarrow> is_digit ch"
    using piece_text_head [OF assms(1)] by blast
  obtain lx1 where st: "read_start lx = (ch, lx1)" "lexer_at lx1 (rest @ CHR '' '' # r)" "quiet lx lx1"
    using read_start_at [OF assms(2) t(2,3)] assms(3) t(1) by auto
  have sep: "\<not> word_char (CHR '' '')" "\<not> is_digit (CHR '' '')"
    by (simp_all add: word_char_def is_lower_def is_digit_def)
  show ?thesis
  proof (cases p)
    case (PWord w)
    then have w: "w = ch # rest" "is_lower ch" "\<forall>a \<in> set (ch # rest). word_char a"
      using t assms(1) by simp_all
    obtain lx2 where "read_word lx1 [] ch = (w, CHR '' '', lx2)"
      "lexer_at (lexer_ungetc lx2 (CHR '' '')) (CHR '' '' # r)" "quiet lx1 lx2"
      using read_word_at [OF w(3) sep(1) st(2), of "[]"] w(1) by auto
    moreover from this have "quiet lx (lexer_ungetc lx2 (CHR '' ''))"
      using st(3) by (blast intro: quiet_trans quiet_ungetc)
    ultimately show ?thesis
      using st(1) t(4) w(2) PWord
      by (simp add: config_lexer_read_def Let_def token_kind_def word_kind_def lexer_emit_def token_alloc_def)
  next
    case (PInt n)
    then have n: "show_nat n = ch # rest" "is_digit ch" "int n \<le> INT_MAX" using t assms(1) by simp_all
    have d: "\<forall>a \<in> set (ch # rest). is_digit a" using n(1) show_nat_digits [of _ n] by metis
    have v: "foldl (\<lambda>n c. 10 * n + digit_val c) 0 (ch # rest) = n"
      using read_show_nat [of n] n(1) by (simp add: read_nat_def)
    obtain lx2 where "read_digits lx1 False 0 ch = (False, of_nat n, CHR '' '', lx2)"
      "lexer_at (lexer_ungetc lx2 (CHR '' '')) (CHR '' '' # r)" "quiet lx1 lx2"
      using read_digits_at [OF d sep(2) st(2), of 0] n(3) unfolding v by auto
    moreover from this have "quiet lx (lexer_ungetc lx2 (CHR '' ''))"
      using st(3) by (blast intro: quiet_trans quiet_ungetc)
    moreover have "sint (of_nat n :: i32) = int n" using sint_i32_of_int [of "int n"] n(3) by simp
    ultimately show ?thesis
      using st(1) t(4) n(2) is_digit_not_lower [OF n(2)] PInt
      by (simp add: config_lexer_read_def Let_def token_kind_def lexer_emit_def token_alloc_def)
  next
    case (PStr s)
    then have s: "ch = CHR 0x22" "rest = s @ [CHR 0x22]" "s \<noteq> []" "NUL \<notin> set s" "CHR 0x22 \<notin> set s"
      using t(1) assms(1) by auto
    obtain lx2 where "read_string lx1 [] = (Some s, lx2)" "lexer_at lx2 (CHR '' '' # r)" "quiet lx1 lx2"
      using read_string_at [OF s(4,5), of lx1 "CHR '' '' # r" "[]"] st(2) s(2) by auto
    moreover from this have "quiet lx lx2" using st(3) by (blast intro: quiet_trans)
    ultimately show ?thesis
      using st(1) s PStr
      by (simp add: config_lexer_read_def Let_def token_kind_def lexer_emit_def token_alloc_def
          is_lower_def is_digit_def)
  next
    case (PSym c)
    then have c: "ch = c" "rest = []" using t(1) by simp_all
    have "\<not> is_lower c" "\<not> is_digit c" "c \<noteq> CHR 0x22"
      using assms(1) PSym by (auto simp: is_lower_def is_digit_def)
    with st t(4) c PSym show ?thesis
      by (simp add: config_lexer_read_def Let_def token_kind_def lexer_emit_def token_alloc_def)
  qed
qed

definition conf_text :: "conf_piece list \<Rightarrow> string" where
  "conf_text ps = concat (map (\<lambda>p. piece_text p @ [CHR '' '']) ps)"

lemma conf_text_Cons: "conf_text (p # ps) = piece_text p @ CHR '' '' # conf_text ps"
  by (simp add: conf_text_def)

lemma config_lexer_read_end:
  assumes "\<forall>s \<in> set sp. is_space s" "lexer_at lx sp"
  shows "\<exists>tk lx1. config_lexer_read lookup lx () = (Some tk, lx1, ()) \<and> token_kind tk = (LEXER_EOF, [], 0) \<and>
    quiet lx lx1"
proof -
  have "\<exists>lx1. read_nonspace lx = (NUL, lx1) \<and> quiet lx lx1"
    using assms
  proof (induction sp arbitrary: lx)
    case Nil
    then obtain lx1 where "lexer_getc lx = (False, NUL, lx1)" "lexer_frame lx lx1" using lexer_getc_end by blast
    then show ?case by (subst read_nonspace.simps)
        (auto simp: quiet_def lexer_getc_def Let_def split: if_splits)
  next
    case (Cons s sp)
    then obtain lx1 where g: "lexer_getc lx = (False, s, lx1)" "lexer_at lx1 sp" "quiet lx lx1"
      using getc_at [of lx s sp] by auto
    have "\<exists>lx2. read_nonspace lx1 = (NUL, lx2) \<and> quiet lx1 lx2"
      by (rule Cons.IH) (use Cons.prems g in auto)
    with g Cons.prems show ?case by (subst read_nonspace.simps) (auto intro: quiet_trans)
  qed
  then obtain lx1 where "read_start lx = (NUL, lx1)" "quiet lx lx1"
    by (auto simp: read_start.simps [of lx])
  then show ?thesis
    by (auto simp: config_lexer_read_def Let_def token_kind_def lexer_emit_def token_alloc_def)
qed

lemma config_read_all:
  assumes "\<forall>p \<in> set ps. piece_ok p" "\<forall>s \<in> set sp. is_space s" "lexer_at lx (sp @ conf_text ps)"
  shows "\<exists>lx'. lexer_read_all (config_lexer_read lookup) lx () = Some (lx', (), True) \<and>
    map token_kind (lx_tokens lx') =
      map token_kind (lx_tokens lx) @ map (piece_kind lookup) ps @ [(LEXER_EOF, [], 0)] \<and>
    lx_err lx' = lx_err lx"
  using assms
proof (induction ps arbitrary: lx sp)
  case Nil
  then obtain tk lx1 where "config_lexer_read lookup lx () = (Some tk, lx1, ())"
    "token_kind tk = (LEXER_EOF, [], 0)" "quiet lx lx1"
    using config_lexer_read_end [of sp lx lookup] by (auto simp: conf_text_def)
  then show ?case
    by (subst lexer_read_all.simps) (auto simp: token_kind_def quiet_def lexer_frame_def Let_def)
next
  case (Cons p ps)
  obtain tk lx1 where r: "config_lexer_read lookup lx () = (Some tk, lx1, ())"
    "token_kind tk = piece_kind lookup p" "lexer_at lx1 (CHR '' '' # conf_text ps)" "quiet lx lx1"
    using config_lexer_read_piece [of p sp lx "conf_text ps" lookup] Cons.prems
    by (auto simp: conf_text_Cons)
  let ?lx = "lx1\<lparr>lx_tokens := lx_tokens lx1 @ [tk]\<rparr>"
  have "lexer_at ?lx ('' '' @ conf_text ps)" using r(3) by (simp add: lexer_at_def)
  then obtain lx' where "lexer_read_all (config_lexer_read lookup) ?lx () = Some (lx', (), True)"
    "map token_kind (lx_tokens lx') =
      map token_kind (lx_tokens ?lx) @ map (piece_kind lookup) ps @ [(LEXER_EOF, [], 0)]"
    "lx_err lx' = lx_err ?lx"
    using Cons.IH [of "'' ''" ?lx] Cons.prems(1) by (auto simp: is_space_def)
  moreover have "tk_type tk \<noteq> LEXER_EOF"
    using r(2) by (cases p) (auto simp: token_kind_def word_kind_def split: if_splits)
  ultimately show ?case
    using r by (subst lexer_read_all.simps) (auto simp: quiet_def lexer_frame_def Let_def)
qed

end
