(* ===== verification/ConfGrammar.thy ===== *)
theory ConfGrammar
  imports Mode
begin

text \<open>
  The data behind a configuration: the values of variables (\<open>variable-value.c\<close>), the grammar entries
  of \<open>conf-priv.h\<close> and the tables of grammar and steps of every mode (\<open>conf.c\<close>, \<open>conf-robsd.c\<close>,
  \<open>conf-robsd-cross.c\<close>, \<open>conf-robsd-ports.c\<close>, \<open>conf-robsd-regress.c\<close>, \<open>conf-canvas.c\<close>).
\<close>

section \<open>Values\<close>

datatype variable_type = INVALID | INTEGER | STRING | DIRECTORY | LIST

text \<open>A value with its tag. The integer is the member \<open>i64\<close> of the union; the member \<open>integer\<close>
  shares its low half on the little endian platforms.\<close>

datatype variable_value =
    VInvalid
  | VInteger int
  | VString string
  | VDirectory string
  | VList "string list"

fun va_type :: "variable_value \<Rightarrow> variable_type" where
  "va_type VInvalid = INVALID"
| "va_type (VInteger _) = INTEGER"
| "va_type (VString _) = STRING"
| "va_type (VDirectory _) = DIRECTORY"
| "va_type (VList _) = LIST"

fun variable_value_init :: "variable_type \<Rightarrow> variable_value" where
  "variable_value_init INVALID = VInvalid"
| "variable_value_init INTEGER = VInteger 0"
| "variable_value_init STRING = VString []"
| "variable_value_init DIRECTORY = VDirectory []"
| "variable_value_init LIST = VList []"

text \<open>\<open>None\<close> when the assertion on the type fails.\<close>

fun variable_value_append :: "variable_value \<Rightarrow> string \<Rightarrow> variable_value option" where
  "variable_value_append (VList xs) str = Some (VList (xs @ [str]))"
| "variable_value_append _ str = None"

fun variable_value_concat :: "variable_value \<Rightarrow> variable_value \<Rightarrow> variable_value option" where
  "variable_value_concat (VList dst) (VList src) = Some (VList (dst @ src))"
| "variable_value_concat _ _ = None"

definition is_variable_value_valid :: "variable_value \<Rightarrow> bool" where
  "is_variable_value_valid val \<longleftrightarrow> va_type val \<noteq> INVALID"

text \<open>The members of the union as the code reads them; \<open>None\<close> when another member was written.\<close>

fun va_integer :: "variable_value \<Rightarrow> int option" where
  "va_integer (VInteger i) = Some (sint (word_of_int i :: i32))"
| "va_integer _ = None"

fun va_list :: "variable_value \<Rightarrow> string list option" where
  "va_list (VList xs) = Some xs"
| "va_list _ = None"

section \<open>Grammar entries\<close>

text \<open>The parser routines and the routines for defaults by name; the tables refer to them, and
  the later theories define what they do.\<close>

datatype parse_fn =
    config_parse_boolean_fn
  | config_parse_directory_fn
  | config_parse_glob_fn
  | config_parse_list_fn
  | config_parse_string_fn
  | config_parse_integer_fn
  | config_parse_timeout_fn
  | config_parse_user_fn
  | config_parse_canvas_directory_fn
  | config_parse_canvas_step_fn
  | config_parse_regress_fn
  | config_parse_regress_env_fn

datatype default_fn =
    config_default_build_dir_fn
  | config_default_exec_dir_fn
  | config_default_inet4_fn
  | config_default_inet6_fn
  | config_default_ncpu_fn
  | config_default_trace_fn
  | config_default_parallel_fn
  | config_default_rdomain_fn
  | config_default_regress_targets_fn
  | config_default_regress_timeout_fn

datatype grammar_flag = REQ | REP | PAT | FUN | EARLY

datatype grammar_default = NULL | S8 string | D_I32 int | D_FUN default_fn

record grammar =
  gr_kw :: string
  gr_type :: variable_type
  gr_fn :: "parse_fn option"
  gr_flags :: "grammar_flag set"
  gr_default :: grammar_default

definition entry ::
  "string \<Rightarrow> variable_type \<Rightarrow> parse_fn option \<Rightarrow> grammar_flag set \<Rightarrow> grammar_default \<Rightarrow> grammar" where
  "entry kw ty fn flags def =
     \<lparr>gr_kw = kw, gr_type = ty, gr_fn = fn, gr_flags = flags, gr_default = def\<rparr>"

lemma entry_sel [simp]:
  "gr_kw (entry kw ty fn flags def) = kw" "gr_type (entry kw ty fn flags def) = ty"
  "gr_fn (entry kw ty fn flags def) = fn" "gr_flags (entry kw ty fn flags def) = flags"
  "gr_default (entry kw ty fn flags def) = def"
  by (simp_all add: entry_def)

text \<open>The members of the union of defaults. A null pointer reads as the integer 0.\<close>

fun gr_i32 :: "grammar_default \<Rightarrow> int" where
  "gr_i32 (D_I32 i) = i"
| "gr_i32 _ = 0"

fun gr_s8 :: "grammar_default \<Rightarrow> string option" where
  "gr_s8 (S8 s) = Some s"
| "gr_s8 _ = None"

section \<open>Tables\<close>

text \<open>The constants \<open>MACHINE\<close> and \<open>MACHINE_ARCH\<close> come from the system headers.\<close>

definition common_grammar :: "string \<Rightarrow> string \<Rightarrow> grammar list" where
  "common_grammar machine machine_arch =
     [entry ''arch'' STRING None {} (S8 machine_arch),
      entry ''build-user'' STRING None {} (S8 ''build''),
      entry ''builddir'' STRING None {FUN} (D_FUN config_default_build_dir_fn),
      entry ''comment-path'' STRING None {} (S8 ''${builddir}/comment''),
      entry ''exec-dir'' STRING None {FUN} (D_FUN config_default_exec_dir_fn),
      entry ''hook'' LIST (Some config_parse_list_fn) {} NULL,
      entry ''inet'' STRING None {FUN} (D_FUN config_default_inet4_fn),
      entry ''inet6'' STRING None {FUN} (D_FUN config_default_inet6_fn),
      entry ''keep'' INTEGER (Some config_parse_integer_fn) {} NULL,
      entry ''keep-attic'' INTEGER (Some config_parse_boolean_fn) {} (D_I32 1),
      entry ''keep-dir'' STRING None {} (S8 ''${robsddir}/attic''),
      entry ''machine'' STRING None {} (S8 machine),
      entry ''ncpu'' INTEGER None {FUN} (D_FUN config_default_ncpu_fn),
      entry ''report-path'' STRING None {} (S8 ''${builddir}/report''),
      entry ''robsddir'' DIRECTORY (Some config_parse_directory_fn) {REQ} NULL,
      entry ''skip'' LIST (Some config_parse_list_fn) {} NULL,
      entry ''stat-interval'' INTEGER (Some config_parse_integer_fn) {} (D_I32 10),
      entry ''tags-path'' STRING None {} (S8 ''${builddir}/tags''),
      entry ''tmp-dir'' STRING None {} (S8 ''${builddir}/tmp''),
      entry ''trace'' STRING None {FUN} (D_FUN config_default_trace_fn)]"

definition robsd_grammar :: "grammar list" where
  "robsd_grammar =
     [entry ''destdir'' DIRECTORY (Some config_parse_directory_fn) {REQ} NULL,
      entry ''kernel'' STRING (Some config_parse_string_fn) {} (S8 ''GENERIC.MP''),
      entry ''reboot'' INTEGER (Some config_parse_boolean_fn) {} NULL,
      entry ''bsd-diff'' LIST (Some config_parse_glob_fn) {} NULL,
      entry ''bsd-objdir'' DIRECTORY (Some config_parse_directory_fn) {} (S8 ''/usr/obj''),
      entry ''bsd-reldir'' STRING None {} (S8 ''${builddir}/rel''),
      entry ''bsd-srcdir'' DIRECTORY (Some config_parse_directory_fn) {} (S8 ''/usr/src''),
      entry ''cvs-root'' STRING (Some config_parse_string_fn) {} NULL,
      entry ''cvs-user'' STRING (Some config_parse_user_fn) {} NULL,
      entry ''distrib-host'' STRING (Some config_parse_string_fn) {} NULL,
      entry ''distrib-path'' STRING (Some config_parse_string_fn) {} NULL,
      entry ''distrib-signify'' STRING (Some config_parse_string_fn) {} NULL,
      entry ''distrib-user'' STRING (Some config_parse_user_fn) {} NULL,
      entry ''x11-diff'' LIST (Some config_parse_glob_fn) {} NULL,
      entry ''x11-objdir'' DIRECTORY (Some config_parse_directory_fn) {} (S8 ''/usr/xobj''),
      entry ''x11-reldir'' STRING None {} (S8 ''${builddir}/relx''),
      entry ''x11-srcdir'' DIRECTORY (Some config_parse_directory_fn) {} (S8 ''/usr/xenocara'')]"

definition robsd_cross_grammar :: "grammar list" where
  "robsd_cross_grammar =
     [entry ''crossdir'' STRING (Some config_parse_string_fn) {REQ} NULL,
      entry ''bsd-srcdir'' DIRECTORY (Some config_parse_directory_fn) {} (S8 ''/usr/src'')]"

definition robsd_ports_grammar :: "grammar list" where
  "robsd_ports_grammar =
     [entry ''chroot'' STRING (Some config_parse_string_fn) {REQ} NULL,
      entry ''cvs-root'' STRING (Some config_parse_string_fn) {} NULL,
      entry ''cvs-user'' STRING (Some config_parse_user_fn) {} NULL,
      entry ''distrib-host'' STRING (Some config_parse_string_fn) {} NULL,
      entry ''distrib-path'' STRING (Some config_parse_string_fn) {} NULL,
      entry ''distrib-signify'' STRING (Some config_parse_string_fn) {} NULL,
      entry ''distrib-user'' STRING (Some config_parse_user_fn) {} NULL,
      entry ''dpb'' LIST (Some config_parse_list_fn) {} NULL,
      entry ''ports'' LIST (Some config_parse_list_fn) {REQ} NULL,
      entry ''ports-diff'' LIST (Some config_parse_glob_fn) {} NULL,
      entry ''ports-dir'' STRING (Some config_parse_string_fn) {} (S8 ''/usr/ports''),
      entry ''ports-user'' STRING (Some config_parse_user_fn) {REQ} NULL]"

definition robsd_regress_grammar :: "grammar list" where
  "robsd_regress_grammar =
     [entry ''parallel'' INTEGER (Some config_parse_boolean_fn) {} (D_I32 1),
      entry ''rdonly'' INTEGER (Some config_parse_boolean_fn) {} NULL,
      entry ''sudo'' STRING (Some config_parse_string_fn) {} (S8 ''doas -n''),
      entry ''bsd-diff'' LIST (Some config_parse_glob_fn) {} NULL,
      entry ''bsd-srcdir'' DIRECTORY (Some config_parse_directory_fn) {} (S8 ''/usr/src''),
      entry ''cvs-root'' STRING (Some config_parse_string_fn) {} NULL,
      entry ''cvs-user'' STRING (Some config_parse_user_fn) {} NULL,
      entry ''rdomain'' INTEGER None {FUN, EARLY} (D_FUN config_default_rdomain_fn),
      entry ''regress'' LIST (Some config_parse_regress_fn) {REQ, REP} NULL,
      entry ''regress-env'' LIST (Some config_parse_regress_env_fn) {REP} NULL,
      entry ''regress-user'' STRING (Some config_parse_user_fn) {} (S8 ''${build-user}''),
      entry ''regress-timeout'' INTEGER (Some config_parse_timeout_fn) {} NULL,
      entry ''regress-*-env'' STRING None {PAT, EARLY} (S8 ''${regress-env}''),
      entry ''regress-*-targets'' LIST None {PAT, FUN} (D_FUN config_default_regress_targets_fn),
      entry ''regress-*-parallel'' INTEGER None {PAT, FUN} (D_FUN config_default_parallel_fn),
      entry ''regress-*-timeout'' INTEGER None {PAT, FUN} (D_FUN config_default_regress_timeout_fn)]"

definition canvas_grammar :: "grammar list" where
  "canvas_grammar =
     [entry ''canvas-dir'' STRING (Some config_parse_canvas_directory_fn) {REQ} NULL,
      entry ''canvas-name'' STRING (Some config_parse_string_fn) {REQ} NULL,
      entry ''env'' LIST (Some config_parse_list_fn) {} NULL,
      entry ''step'' INVALID (Some config_parse_canvas_step_fn) {REQ, REP} NULL]"

text \<open>The steps: name and script. The regression steps mark the place of the suites with a null
  name.\<close>

definition robsd_steps :: "(string option \<times> string option) list" where
  "robsd_steps =
     [(Some ''env'', Some ''${exec-dir}/robsd-env.sh''),
      (Some ''cvs'', Some ''${exec-dir}/robsd-cvs.sh''),
      (Some ''patch'', Some ''${exec-dir}/robsd-patch.sh''),
      (Some ''kernel'', Some ''${exec-dir}/robsd-kernel.sh''),
      (Some ''reboot'', Some ''${exec-dir}/robsd-reboot.sh''),
      (Some ''env'', Some ''${exec-dir}/robsd-env.sh''),
      (Some ''base'', Some ''${exec-dir}/robsd-base.sh''),
      (Some ''release'', Some ''${exec-dir}/robsd-release.sh''),
      (Some ''checkflist'', Some ''${exec-dir}/robsd-checkflist.sh''),
      (Some ''xbase'', Some ''${exec-dir}/robsd-xbase.sh''),
      (Some ''xrelease'', Some ''${exec-dir}/robsd-xrelease.sh''),
      (Some ''image'', Some ''${exec-dir}/robsd-image.sh''),
      (Some ''hash'', Some ''${exec-dir}/robsd-hash.sh''),
      (Some ''revert'', Some ''${exec-dir}/robsd-revert.sh''),
      (Some ''distrib'', Some ''${exec-dir}/robsd-distrib.sh''),
      (Some ''dmesg'', Some ''${exec-dir}/robsd-dmesg.sh''),
      (Some ''end'', Some ''/dev/null'')]"

definition robsd_cross_steps :: "(string option \<times> string option) list" where
  "robsd_cross_steps =
     [(Some ''env'', Some ''${exec-dir}/robsd-env.sh''),
      (Some ''dirs'', Some ''${exec-dir}/robsd-cross-dirs.sh''),
      (Some ''tools'', Some ''${exec-dir}/robsd-cross-tools.sh''),
      (Some ''distrib'', Some ''${exec-dir}/robsd-cross-distrib.sh''),
      (Some ''dmesg'', Some ''${exec-dir}/robsd-dmesg.sh''),
      (Some ''end'', Some ''/dev/null'')]"

definition robsd_ports_steps :: "(string option \<times> string option) list" where
  "robsd_ports_steps =
     [(Some ''env'', Some ''${exec-dir}/robsd-env.sh''),
      (Some ''cvs'', Some ''${exec-dir}/robsd-cvs.sh''),
      (Some ''clean'', Some ''${exec-dir}/robsd-ports-clean.sh''),
      (Some ''proot'', Some ''${exec-dir}/robsd-ports-proot.sh''),
      (Some ''patch'', Some ''${exec-dir}/robsd-patch.sh''),
      (Some ''dpb'', Some ''${exec-dir}/robsd-ports-dpb.sh''),
      (Some ''distrib'', Some ''${exec-dir}/robsd-ports-distrib.sh''),
      (Some ''revert'', Some ''${exec-dir}/robsd-revert.sh''),
      (Some ''dmesg'', Some ''${exec-dir}/robsd-dmesg.sh''),
      (Some ''end'', Some ''/dev/null'')]"

definition robsd_regress_steps :: "(string option \<times> string option) list" where
  "robsd_regress_steps =
     [(Some ''env'', Some ''${exec-dir}/robsd-env.sh''),
      (Some ''pkg-add'', Some ''${exec-dir}/robsd-regress-pkg-add.sh''),
      (Some ''cvs'', Some ''${exec-dir}/robsd-cvs.sh''),
      (Some ''patch'', Some ''${exec-dir}/robsd-patch.sh''),
      (Some ''obj'', Some ''${exec-dir}/robsd-regress-obj.sh''),
      (Some ''mount'', Some ''${exec-dir}/robsd-regress-mount.sh''),
      (None, None),
      (Some ''umount'', Some ''${exec-dir}/robsd-regress-umount.sh''),
      (Some ''revert'', Some ''${exec-dir}/robsd-revert.sh''),
      (Some ''pkg-del'', Some ''${exec-dir}/robsd-regress-pkg-del.sh''),
      (Some ''dmesg'', Some ''${exec-dir}/robsd-dmesg.sh''),
      (Some ''end'', Some ''/dev/null'')]"

section \<open>Matching names\<close>

text \<open>\<open>fnmatch(3)\<close> on the patterns of the tables: a star stands for any characters, every other
  character for itself. The patterns hold no other special character, and no flags are passed.\<close>

fun fnmatch :: "string \<Rightarrow> string \<Rightarrow> bool" where
  "fnmatch [] s = (s = [])"
| "fnmatch (p # ps) s =
     (if p = CHR ''*'' then fnmatch ps s \<or> (case s of [] \<Rightarrow> False | _ # s' \<Rightarrow> fnmatch (p # ps) s')
      else (case s of [] \<Rightarrow> False | c # s' \<Rightarrow> c = p \<and> fnmatch ps s'))"

definition grammar_equals :: "grammar \<Rightarrow> string \<Rightarrow> bool" where
  "grammar_equals gr needle \<longleftrightarrow>
     gr_kw gr = needle \<or> (PAT \<in> gr_flags gr \<and> fnmatch (gr_kw gr) needle)"

declare fnmatch.simps [simp del]

lemma fnmatch_Nil [simp]: "fnmatch [] s = (s = [])"
  by (simp add: fnmatch.simps)

lemma fnmatch_char: "p \<noteq> CHR ''*'' \<Longrightarrow> fnmatch (p # ps) s = (\<exists>t. s = p # t \<and> fnmatch ps t)"
  by (subst fnmatch.simps) (auto split: list.split)

lemma fnmatch_star_Nil: "fnmatch (CHR ''*'' # qs) [] = fnmatch qs []"
  by (subst fnmatch.simps) simp

lemma fnmatch_star_Cons:
  "fnmatch (CHR ''*'' # qs) (c # s) = (fnmatch qs (c # s) \<or> fnmatch (CHR ''*'' # qs) s)"
  by (subst fnmatch.simps) simp

lemma fnmatch_literal: "CHR ''*'' \<notin> set ps \<Longrightarrow> fnmatch (ps @ qs) s = (\<exists>t. s = ps @ t \<and> fnmatch qs t)"
  by (induction ps arbitrary: s) (auto simp: fnmatch_char)

lemma fnmatch_star: "fnmatch (CHR ''*'' # qs) s = (\<exists>u t. s = u @ t \<and> fnmatch qs t)"
proof (induction s)
  case Nil
  show ?case by (simp add: fnmatch_star_Nil)
next
  case (Cons c s)
  have "(\<exists>u t. c # s = u @ t \<and> fnmatch qs t) \<longleftrightarrow>
      fnmatch qs (c # s) \<or> (\<exists>u t. s = u @ t \<and> fnmatch qs t)"
    by (auto simp: Cons_eq_append_conv)
  then show ?case using Cons.IH by (simp add: fnmatch_star_Cons)
qed

lemma fnmatch_around:
  assumes "CHR ''*'' \<notin> set l" "CHR ''*'' \<notin> set r"
  shows "fnmatch (l @ CHR ''*'' # r) s \<longleftrightarrow> (\<exists>m. s = l @ m @ r)"
proof -
  have "fnmatch r t = (t = r)" for t using fnmatch_literal [OF assms(2), of "[]" t] by auto
  then show ?thesis using fnmatch_literal [OF assms(1), of "CHR ''*'' # r" s] by (auto simp: fnmatch_star)
qed

end
