(* ===== verification/Buffer.thy ===== *)
theory Buffer
  imports Prelude
begin

text \<open>
  \<open>libks/buffer.c\<close> and the readers of \<open>libks/arena-buffer.c\<close>: byte buffers. A buffer is its live
  bytes (\<open>bf_bytes\<close>, whose length is \<open>bf_len\<close>) and its capacity. As for vectors, \<open>ok n\<close> says
  whether the allocator serves a request for \<open>n\<close> bytes. A file being read is its remaining bytes
  and a schedule of how much each \<open>read(2)\<close> delivers.
\<close>

section \<open>Data\<close>

record buffer =
  bf_bytes :: string
  bf_siz :: nat

abbreviation bf_len :: "buffer \<Rightarrow> nat" where
  "bf_len bf \<equiv> length (bf_bytes bf)"

text \<open>\<open>sizeof(struct buffer)\<close> on a 64 bit platform.\<close>

definition buffer_header :: nat where
  "buffer_header = 56"

section \<open>Operations\<close>

text \<open>Non-zero on failure.\<close>

definition buffer_reserve ::
  "(nat \<Rightarrow> bool) \<Rightarrow> buffer \<Rightarrow> nat \<Rightarrow> bool \<Rightarrow> bool \<times> buffer" where
  "buffer_reserve ok bf len overshoot =
     (if len > ULONG_MAX - bf_len bf then (True, bf)
      else
        let newlen = bf_len bf + len in
        if bf_siz bf > 0 \<and> bf_siz bf \<ge> newlen then (False, bf)
        else
          (case (if overshoot
                 then double_until (if bf_siz bf \<noteq> 0 then bf_siz bf else 16) newlen
                 else Some newlen) of
             None \<Rightarrow> (True, bf)
           | Some newsiz \<Rightarrow>
               if \<not> ok newsiz then (True, bf) else (False, bf\<lparr>bf_siz := newsiz\<rparr>)))"

definition buffer_alloc_impl :: "(nat \<Rightarrow> bool) \<Rightarrow> nat \<Rightarrow> bool \<Rightarrow> buffer option" where
  "buffer_alloc_impl ok init_size overshoot =
     (if \<not> ok buffer_header then None
      else
        (case buffer_reserve ok \<lparr>bf_bytes = [], bf_siz = 0\<rparr> init_size overshoot of
           (True, _) \<Rightarrow> None
         | (False, bf) \<Rightarrow> Some bf))"

definition buffer_alloc :: "(nat \<Rightarrow> bool) \<Rightarrow> nat \<Rightarrow> buffer option" where
  "buffer_alloc ok init_size = buffer_alloc_impl ok init_size True"

definition arena_buffer_alloc :: "(nat \<Rightarrow> bool) \<Rightarrow> nat \<Rightarrow> buffer option" where
  "arena_buffer_alloc ok init_size = buffer_alloc_impl ok init_size True"

text \<open>The bytes to append are given with their length; \<open>None\<close> is a NULL pointer.\<close>

definition buffer_puts ::
  "(nat \<Rightarrow> bool) \<Rightarrow> buffer \<Rightarrow> string option \<Rightarrow> int \<times> buffer" where
  "buffer_puts ok bf str =
     (case str of
        None \<Rightarrow> (0, bf)
      | Some s \<Rightarrow>
          if length s = 0 then (0, bf)
          else
            (case buffer_reserve ok bf (length s) True of
               (True, bf') \<Rightarrow> (-1, bf')
             | (False, bf') \<Rightarrow>
                 (sint (of_nat (length s) :: i32), bf'\<lparr>bf_bytes := bf_bytes bf' @ s\<rparr>)))"

definition buffer_putc :: "(nat \<Rightarrow> bool) \<Rightarrow> buffer \<Rightarrow> char \<Rightarrow> int \<times> buffer" where
  "buffer_putc ok bf ch = buffer_puts ok bf (Some [ch])"

definition is_string_directive :: "string \<Rightarrow> bool" where
  "is_string_directive fmt \<longleftrightarrow>
     (case fmt of [a, b] \<Rightarrow> a = CHR ''%'' \<and> b = CHR ''s'' | _ \<Rightarrow> False)"

text \<open>
  \<open>out\<close> is what the format produces from its arguments (\<open>None\<close> when \<open>vsnprintf\<close> fails), for the
  directive \<open>%s\<close> alone the string argument, with \<open>None\<close> for NULL.
\<close>

definition buffer_vprintf ::
  "(nat \<Rightarrow> bool) \<Rightarrow> buffer \<Rightarrow> string \<Rightarrow> string option \<Rightarrow> int \<times> buffer" where
  "buffer_vprintf ok bf fmt out =
     (if is_string_directive fmt then
        buffer_puts ok bf (Some (case out of None \<Rightarrow> ''(null)'' | Some s \<Rightarrow> s))
      else
        (case out of
           None \<Rightarrow> (-1, bf)
         | Some s \<Rightarrow>
             (case buffer_reserve ok bf (length s + 1) True of
                (True, bf') \<Rightarrow> (-1, bf')
              | (False, bf') \<Rightarrow>
                  if length s \<ge> bf_siz bf' - bf_len bf' then (-1, bf')
                  else (int (length s), bf'\<lparr>bf_bytes := bf_bytes bf' @ s\<rparr>))))"

text \<open>Returns the bytes the caller now owns and leaves an empty buffer without storage.\<close>

definition buffer_release :: "buffer \<Rightarrow> string \<times> buffer" where
  "buffer_release bf = (bf_bytes bf, \<lparr>bf_bytes = [], bf_siz = 0\<rparr>)"

definition buffer_str :: "(nat \<Rightarrow> bool) \<Rightarrow> buffer \<Rightarrow> string option \<times> buffer" where
  "buffer_str ok bf =
     (if bf_len bf = 0 \<or> last (bf_bytes bf) \<noteq> NUL then
        (case buffer_putc ok bf NUL of
           (r, bf') \<Rightarrow>
             if r = -1 then (None, bf')
             else (case buffer_release bf' of (s, bf'') \<Rightarrow> (Some s, bf'')))
      else (case buffer_release bf of (s, bf') \<Rightarrow> (Some s, bf')))"

definition buffer_reset :: "buffer \<Rightarrow> buffer" where
  "buffer_reset bf = bf\<lparr>bf_bytes := []\<rparr>"

definition buffer_pop :: "buffer \<Rightarrow> nat \<Rightarrow> nat \<times> buffer" where
  "buffer_pop bf n =
     (let n' = (if n > bf_len bf then bf_len bf else n)
      in (n', bf\<lparr>bf_bytes := take (bf_len bf - n') (bf_bytes bf)\<rparr>))"

text \<open>\<open>memcmp\<close> on equal lengths compares like \<open>strcmp\<close> without stopping at NUL.\<close>

definition buffer_cmp :: "buffer \<Rightarrow> buffer \<Rightarrow> int" where
  "buffer_cmp a b =
     (if bf_len a \<noteq> bf_len b then 1
      else if bf_len a = 0 then 0
      else strcmp (bf_bytes a) (bf_bytes b))"

text \<open>
  Lines. The iterator is the offset of the next line; its scratch buffer holds the returned line,
  here the bytes up to the newline, without the NUL the source appends.
\<close>

definition buffer_getline_impl :: "buffer \<Rightarrow> nat \<Rightarrow> string option \<times> nat" where
  "buffer_getline_impl bf off =
     (if off \<ge> bf_len bf then (None, 0)
      else
        (let line = takeWhile (\<lambda>c. c \<noteq> NL) (drop off (bf_bytes bf))
         in (Some line, off + length line + 1)))"

section \<open>Reading files\<close>

text \<open>Each \<open>read(2)\<close> fails, or delivers at most the given number of bytes (at least one, as far as
  the file and the space reach). After the schedule, it delivers whatever fits.\<close>

datatype read_step = ReadError | ReadUpto nat

fun read_limit :: "read_step list \<Rightarrow> nat \<Rightarrow> nat option" where
  "read_limit [] n = Some n"
| "read_limit (ReadError # _) n = None"
| "read_limit (ReadUpto k # _) n = Some (Suc k)"

function buffer_read_loop ::
  "(nat \<Rightarrow> bool) \<Rightarrow> bool \<Rightarrow> buffer \<Rightarrow> string \<Rightarrow> read_step list \<Rightarrow> bool \<times> buffer" where
  "buffer_read_loop ok doreserve bf rest sched =
     (case read_limit sched (length rest) of
        None \<Rightarrow> (True, bf)
      | Some lim \<Rightarrow>
          let n = min lim (min (bf_siz bf - bf_len bf) (length rest)) in
          if n = 0 then (False, bf)
          else
            let bf' = bf\<lparr>bf_bytes := bf_bytes bf @ take n rest\<rparr> in
            if doreserve then
              (case buffer_reserve ok bf' (bf_siz bf' div 8) True of
                 (True, bf'') \<Rightarrow> (True, bf'')
               | (False, bf'') \<Rightarrow> buffer_read_loop ok doreserve bf'' (drop n rest) (tl sched))
            else buffer_read_loop ok doreserve bf' (drop n rest) (tl sched))"
  by pat_completeness auto
termination
  by (relation "measure (\<lambda>(ok, d, bf, rest, sched). length rest)") auto

declare buffer_read_loop.simps [simp del]

text \<open>\<open>est\<close> is the size \<open>fstat(2)\<close> reports for a regular non-empty file, 0 otherwise.\<close>

definition buffer_read_fd_impl ::
  "(nat \<Rightarrow> bool) \<Rightarrow> nat \<Rightarrow> buffer \<Rightarrow> string \<Rightarrow> read_step list \<Rightarrow> bool \<times> buffer" where
  "buffer_read_fd_impl ok est bf rest sched =
     buffer_read_loop ok (est \<noteq> bf_siz bf - bf_len bf) bf rest sched"

text \<open>The file is \<open>None\<close> when it cannot be opened.\<close>

definition buffer_read ::
  "(nat \<Rightarrow> bool) \<Rightarrow> nat \<Rightarrow> string option \<Rightarrow> read_step list \<Rightarrow> buffer option" where
  "buffer_read ok est file sched =
     (case buffer_alloc ok (2 ^ 13) of
        None \<Rightarrow> None
      | Some bf \<Rightarrow>
          (case file of
             None \<Rightarrow> None
           | Some rest \<Rightarrow>
               (case buffer_read_fd_impl ok est bf rest sched of
                  (True, _) \<Rightarrow> None
                | (False, bf') \<Rightarrow> Some bf')))"

definition buffer_read_fd ::
  "(nat \<Rightarrow> bool) \<Rightarrow> nat \<Rightarrow> string \<Rightarrow> read_step list \<Rightarrow> buffer option" where
  "buffer_read_fd ok est rest sched =
     (case buffer_alloc ok (2 ^ 13) of
        None \<Rightarrow> None
      | Some bf \<Rightarrow>
          (case buffer_read_fd_impl ok est bf rest sched of
             (True, _) \<Rightarrow> None
           | (False, bf') \<Rightarrow> Some bf'))"

definition arena_buffer_read ::
  "(nat \<Rightarrow> bool) \<Rightarrow> nat \<Rightarrow> string option \<Rightarrow> read_step list \<Rightarrow> buffer option" where
  "arena_buffer_read ok est file sched =
     (case file of
        None \<Rightarrow> None
      | Some rest \<Rightarrow>
          (case (if est > 0 then buffer_alloc_impl ok est False
                 else buffer_alloc_impl ok (2 ^ 10) True) of
             None \<Rightarrow> None
           | Some bf \<Rightarrow>
               (case buffer_read_fd_impl ok est bf rest sched of
                  (True, _) \<Rightarrow> None
                | (False, bf') \<Rightarrow> Some bf')))"

definition arena_buffer_read_fd ::
  "(nat \<Rightarrow> bool) \<Rightarrow> nat \<Rightarrow> string \<Rightarrow> read_step list \<Rightarrow> buffer option" where
  "arena_buffer_read_fd ok est rest sched =
     (case arena_buffer_alloc ok (2 ^ 13) of
        None \<Rightarrow> None
      | Some bf \<Rightarrow>
          (case buffer_read_fd_impl ok est bf rest sched of
             (True, _) \<Rightarrow> None
           | (False, bf') \<Rightarrow> Some bf'))"

section \<open>Invariant and refinement\<close>

definition buffer_wf :: "buffer \<Rightarrow> bool" where
  "buffer_wf bf \<longleftrightarrow> bf_len bf \<le> bf_siz bf \<and> bf_siz bf \<le> ULONG_MAX"

lemma double_until_le_max:
  "double_until n need = Some m \<Longrightarrow> n \<le> ULONG_MAX \<Longrightarrow> m \<le> ULONG_MAX"
proof (induction n need rule: double_until.induct)
  case (1 n need)
  show ?case
  proof (cases "0 < n \<and> n < need")
    case True
    with "1.prems" have "\<not> ULONG_MAX div 2 < n" "double_until (n * 2) need = Some m"
      by (auto simp: double_until.simps [of n] split: if_splits)
    with "1.IH" [OF True] show ?thesis by simp
  next
    case False
    with "1.prems" show ?thesis by (auto simp: double_until.simps [of n])
  qed
qed

lemma buffer_reserve_props:
  assumes "buffer_wf bf" "buffer_reserve ok bf n ov = (e, bf')"
  shows "bf_bytes bf' = bf_bytes bf" "buffer_wf bf'" "e \<Longrightarrow> bf' = bf"
    "\<not> e \<Longrightarrow> bf_len bf + n \<le> bf_siz bf'" "bf_siz bf \<le> bf_siz bf'"
    "ov \<Longrightarrow> bf_siz bf' \<le> max (max 16 (bf_siz bf)) (2 * (bf_len bf + n))"
proof -
  let ?start = "if bf_siz bf \<noteq> 0 then bf_siz bf else 16"
  have "bf_bytes bf' = bf_bytes bf \<and> buffer_wf bf' \<and> (e \<longrightarrow> bf' = bf) \<and>
    (\<not> e \<longrightarrow> bf_len bf + n \<le> bf_siz bf') \<and> bf_siz bf \<le> bf_siz bf' \<and>
    (ov \<longrightarrow> bf_siz bf' \<le> max (max 16 (bf_siz bf)) (2 * (bf_len bf + n)))"
  proof (cases "e \<or> 0 < bf_siz bf \<and> bf_len bf + n \<le> bf_siz bf")
    case True
    with assms show ?thesis
      by (auto simp: buffer_reserve_def Let_def buffer_wf_def split: if_splits option.splits)
  next
    case False
    then obtain m where m: "(if ov then double_until ?start (bf_len bf + n)
        else Some (bf_len bf + n)) = Some m"
      and bf': "bf' = bf\<lparr>bf_siz := m\<rparr>" and e: "\<not> e" and le: "n \<le> ULONG_MAX - bf_len bf"
      and need: "\<not> (0 < bf_siz bf \<and> bf_len bf + n \<le> bf_siz bf)"
      using assms(2) by (auto simp: buffer_reserve_def Let_def not_less split: if_splits option.splits)
    have start: "0 < ?start" "?start \<le> ULONG_MAX" "?start \<le> max 16 (bf_siz bf)"
      "bf_siz bf \<le> ?start"
      using assms(1) by (auto simp: buffer_wf_def)
    have m2: "bf_len bf + n \<le> m" "bf_siz bf \<le> m" "m \<le> ULONG_MAX"
      "ov \<longrightarrow> m \<le> max (max 16 (bf_siz bf)) (2 * (bf_len bf + n))"
    proof -
      show "bf_len bf + n \<le> m" "bf_siz bf \<le> m"
        using m double_until_Some(1,2) [of ?start "bf_len bf + n" m] start need
        by (auto split: if_splits)
      show "m \<le> ULONG_MAX"
        using m double_until_le_max [of ?start "bf_len bf + n" m] start le assms(1)
        by (auto simp: buffer_wf_def split: if_splits)
      show "ov \<longrightarrow> m \<le> max (max 16 (bf_siz bf)) (2 * (bf_len bf + n))"
        using m double_until_Some(3) [of ?start "bf_len bf + n" m] start
        by (auto simp: le_max_iff_disj split: if_splits)
    qed
    then show ?thesis using e by (simp add: bf' buffer_wf_def)
  qed
  then show "bf_bytes bf' = bf_bytes bf" "buffer_wf bf'" "e \<Longrightarrow> bf' = bf"
    "\<not> e \<Longrightarrow> bf_len bf + n \<le> bf_siz bf'" "bf_siz bf \<le> bf_siz bf'"
    "ov \<Longrightarrow> bf_siz bf' \<le> max (max 16 (bf_siz bf)) (2 * (bf_len bf + n))" by blast+
qed

lemma buffer_reserve_ok:
  assumes "\<And>n. ok n" "bf_len bf + n \<le> ULONG_MAX div 2 + 1"
  shows "\<exists>bf'. buffer_reserve ok bf n ov = (False, bf')"
proof -
  have "n \<le> ULONG_MAX - bf_len bf" using assms(2) by auto
  moreover obtain m where "double_until (if bf_siz bf \<noteq> 0 then bf_siz bf else 16) (bf_len bf + n) = Some m"
    using double_until_ok [of "if bf_siz bf \<noteq> 0 then bf_siz bf else 16" "bf_len bf + n"] assms(2)
    by (cases "bf_siz bf = 0") auto
  ultimately show ?thesis using assms(1) by (auto simp: buffer_reserve_def Let_def)
qed

lemma buffer_puts_cases:
  assumes "buffer_wf bf" "buffer_puts ok bf (Some s) = (r, bf')"
  shows "bf' = bf \<and> (r = -1 \<or> s = []) \<or>
    bf_bytes bf' = bf_bytes bf @ s \<and> buffer_wf bf'"
proof (cases "s = []")
  case True
  with assms show ?thesis by (simp add: buffer_puts_def)
next
  case False
  obtain e w where r: "buffer_reserve ok bf (length s) True = (e, w)"
    by (cases "buffer_reserve ok bf (length s) True")
  from buffer_reserve_props [OF assms(1) r] assms(2) r False show ?thesis
    by (cases e) (auto simp: buffer_puts_def buffer_wf_def)
qed

section \<open>Lines\<close>

text \<open>What a loop over \<open>buffer_getline\<close> sees, with the number of bytes as enough fuel.\<close>

fun getlines :: "nat \<Rightarrow> buffer \<Rightarrow> nat \<Rightarrow> string list" where
  "getlines 0 bf off = []"
| "getlines (Suc fuel) bf off =
     (case buffer_getline_impl bf off of
        (None, _) \<Rightarrow> []
      | (Some line, off') \<Rightarrow> line # getlines fuel bf off')"

definition buffer_lines :: "string \<Rightarrow> string list" where
  "buffer_lines s = getlines (Suc (length s)) \<lparr>bf_bytes = s, bf_siz = length s\<rparr> 0"

text \<open>The reference: split at newlines, a final newline ending the last line.\<close>

function split_lines :: "string \<Rightarrow> string list" where
  "split_lines s =
     (if s = [] then []
      else takeWhile (\<lambda>c. c \<noteq> NL) s # split_lines (drop 1 (dropWhile (\<lambda>c. c \<noteq> NL) s)))"
  by pat_completeness auto
termination
proof (relation "measure length")
  fix s :: string
  assume "s \<noteq> []"
  moreover have "length (dropWhile (\<lambda>c. c \<noteq> NL) s) \<le> length s"
    by (rule length_dropWhile_le)
  ultimately show "(drop 1 (dropWhile (\<lambda>c. c \<noteq> NL) s), s) \<in> measure length"
    by (cases s) (auto simp: le_imp_less_Suc intro!: length_dropWhile_le)
qed simp

declare split_lines.simps [simp del]

lemma split_lines_Nil [simp]: "split_lines [] = []"
  by (simp add: split_lines.simps)

lemma split_lines_append:
  assumes "NL \<notin> set l"
  shows "split_lines (l @ NL # s) = l # split_lines s"
proof -
  have "takeWhile (\<lambda>c. c \<noteq> NL) (l @ NL # s) = l"
    by (rule takeWhile_append_stop) (use assms in auto)
  moreover have "dropWhile (\<lambda>c. c \<noteq> NL) (l @ NL # s) = NL # s"
    by (rule dropWhile_append_stop) (use assms in auto)
  ultimately show ?thesis by (subst split_lines.simps) simp
qed

lemma split_lines_last:
  assumes "NL \<notin> set l" "l \<noteq> []"
  shows "split_lines l = [l]"
proof -
  have t: "takeWhile (\<lambda>c. c \<noteq> NL) l = l" and d: "dropWhile (\<lambda>c. c \<noteq> NL) l = []"
    using assms(1) by (auto simp: takeWhile_eq_all_conv dropWhile_eq_Nil_conv)
  have "split_lines (drop 1 (dropWhile (\<lambda>c. c \<noteq> NL) l)) = []"
    by (simp only: d drop_Nil split_lines_Nil)
  with t assms(2) show ?thesis by (subst split_lines.simps) simp
qed

lemma split_lines_no_nl: "l \<in> set (split_lines s) \<Longrightarrow> NL \<notin> set l"
  by (induction s rule: split_lines.induct)
    (subst (asm) (2) split_lines.simps, auto dest: set_takeWhileD split: if_splits)

lemma drop_takeWhile_length: "drop (length (takeWhile P xs)) xs = dropWhile P xs"
  by (induction xs) auto

lemma getlines_split:
  "length (drop off (bf_bytes bf)) < fuel \<Longrightarrow> getlines fuel bf off = split_lines (drop off (bf_bytes bf))"
proof (induction fuel arbitrary: off)
  case (Suc fuel)
  let ?rest = "drop off (bf_bytes bf)"
  show ?case
  proof (cases "off \<ge> bf_len bf")
    case True
    then show ?thesis by (simp add: buffer_getline_impl_def)
  next
    case False
    let ?line = "takeWhile (\<lambda>c. c \<noteq> NL) ?rest"
    have "drop (off + length ?line + 1) (bf_bytes bf) = drop 1 (drop (length ?line) ?rest)"
      by (simp add: add.commute add.left_commute)
    also have "\<dots> = drop 1 (dropWhile (\<lambda>c. c \<noteq> NL) ?rest)"
      by (simp only: drop_takeWhile_length)
    finally have d: "drop (off + length ?line + 1) (bf_bytes bf) = drop 1 (dropWhile (\<lambda>c. c \<noteq> NL) ?rest)" .
    moreover have "length (drop (off + length ?line + 1) (bf_bytes bf)) < fuel"
      using Suc.prems False by simp
    ultimately have "getlines fuel bf (off + length ?line + 1) =
        split_lines (drop 1 (dropWhile (\<lambda>c. c \<noteq> NL) ?rest))"
      using Suc.IH by metis
    with False show ?thesis
      by (subst split_lines.simps) (simp add: buffer_getline_impl_def Let_def)
  qed
qed simp

lemma buffer_lines_eq: "buffer_lines s = split_lines s"
  unfolding buffer_lines_def by (subst getlines_split) simp_all

lemma split_lines_concat:
  "s \<noteq> [] \<Longrightarrow> last s = NL \<Longrightarrow> concat (map (\<lambda>l. l @ [NL]) (split_lines s)) = s"
proof (induction s rule: split_lines.induct)
  case (1 s)
  let ?t = "dropWhile (\<lambda>c. c \<noteq> NL) s"
  have "NL \<in> set s" using "1.prems" last_in_set [of s] by simp
  then have ne: "?t \<noteq> []" by auto
  then have hd: "hd ?t = NL" using hd_dropWhile [OF ne] by simp
  have s: "s = takeWhile (\<lambda>c. c \<noteq> NL) s @ NL # drop 1 ?t"
    using ne hd by (metis One_nat_def drop_0 drop_Suc list.collapse takeWhile_dropWhile_id)
  have rest: "concat (map (\<lambda>l. l @ [NL]) (split_lines (drop 1 ?t))) = drop 1 ?t"
  proof (cases "drop 1 ?t = []")
    case False
    then have "last (drop 1 ?t) = NL"
      using "1.prems"(2) s by (metis last_appendR last.simps list.distinct(1))
    with "1.IH" [OF "1.prems"(1)] False show ?thesis by blast
  qed simp
  have "split_lines s = takeWhile (\<lambda>c. c \<noteq> NL) s # split_lines (drop 1 ?t)"
    using "1.prems"(1) by (subst split_lines.simps) simp
  with rest s show ?case by simp
qed

section \<open>Reading everything\<close>

lemma buffer_read_loop_all:
  assumes "\<And>n. ok n" "ReadError \<notin> set sched" "buffer_wf bf" "8 \<le> bf_siz bf"
    "bf_len bf < bf_siz bf" "bf_siz bf \<le> B" "16 \<le> B" "4 * (bf_len bf + length rest) \<le> B" "B \<le> 2 ^ 62"
  shows "\<exists>bf'. buffer_read_loop ok True bf rest sched = (False, bf') \<and>
    bf_bytes bf' = bf_bytes bf @ rest"
  using assms(2-)
proof (induction "length rest" arbitrary: bf rest sched rule: less_induct)
  case less
  obtain lim where lim: "read_limit sched (length rest) = Some lim" and pos: "rest \<noteq> [] \<Longrightarrow> 0 < lim"
    using less.prems(1) by (cases sched rule: list.exhaust; cases "hd sched") auto
  let ?n = "min lim (min (bf_siz bf - bf_len bf) (length rest))"
  show ?case
  proof (cases "rest = []")
    case True
    then show ?thesis using lim by (simp add: buffer_read_loop.simps [of ok True bf])
  next
    case False
    then have n: "0 < ?n" "?n \<le> length rest" using pos less.prems by auto
    let ?bf1 = "bf\<lparr>bf_bytes := bf_bytes bf @ take ?n rest\<rparr>"
    have wf1: "buffer_wf ?bf1" using less.prems(2) by (auto simp: buffer_wf_def)
    have len1: "bf_len ?bf1 = bf_len bf + ?n" by simp
    have need: "bf_len ?bf1 + bf_siz ?bf1 div 8 \<le> 2 ^ 62"
      using less.prems n by simp
    then have "bf_len ?bf1 + bf_siz ?bf1 div 8 \<le> ULONG_MAX div 2 + 1" by simp
    then obtain bf2 where r: "buffer_reserve ok ?bf1 (bf_siz ?bf1 div 8) True = (False, bf2)"
      using buffer_reserve_ok [of ok ?bf1 "bf_siz ?bf1 div 8" True] assms(1) by blast
    note p = buffer_reserve_props [OF wf1 r]
    have "8 \<le> bf_siz bf2" "bf_len bf2 < bf_siz bf2"
      using p(1,4,5) less.prems(3) by auto
    moreover have "bf_siz bf2 \<le> B"
    proof -
      have "8 * (bf_siz bf div 8) \<le> bf_siz bf" by simp
      then have "2 * (bf_len ?bf1 + bf_siz ?bf1 div 8) \<le> B"
        unfolding len1 using less.prems(5,7) n(2) by simp
      moreover have "bf_siz ?bf1 \<le> B" using less.prems(5) by simp
      ultimately show ?thesis using p(6) less.prems(6) by (meson max.bounded_iff order_trans)
    qed
    moreover have "4 * (bf_len bf2 + length (drop ?n rest)) \<le> B"
      using p(1) less.prems(7) n by simp
    moreover have "ReadError \<notin> set (tl sched)"
      using less.prems(1) by (cases sched) auto
    moreover have "length (drop ?n rest) < length rest" using n False by simp
    ultimately obtain bf' where
      "buffer_read_loop ok True bf2 (drop ?n rest) (tl sched) = (False, bf')"
      "bf_bytes bf' = bf_bytes bf2 @ drop ?n rest"
      using less.hyps p(2) less.prems(6,8) by blast
    then show ?thesis
      using lim n r p(1)
      by (subst buffer_read_loop.simps) (simp add: Let_def)
  qed
qed

lemma buffer_read_loop_exact:
  assumes "ReadError \<notin> set sched" "bf_siz bf - bf_len bf = length rest"
  shows "\<exists>bf'. buffer_read_loop ok False bf rest sched = (False, bf') \<and>
    bf_bytes bf' = bf_bytes bf @ rest"
  using assms
proof (induction "length rest" arbitrary: bf rest sched rule: less_induct)
  case less
  obtain lim where lim: "read_limit sched (length rest) = Some lim" and pos: "rest \<noteq> [] \<Longrightarrow> 0 < lim"
    using less.prems(1) by (cases sched rule: list.exhaust; cases "hd sched") auto
  let ?n = "min lim (length rest)"
  show ?case
  proof (cases "rest = []")
    case True
    then show ?thesis using lim by (simp add: buffer_read_loop.simps [of ok False bf])
  next
    case False
    then have n: "0 < ?n" using pos by simp
    let ?bf1 = "bf\<lparr>bf_bytes := bf_bytes bf @ take ?n rest\<rparr>"
    have "ReadError \<notin> set (tl sched)" using less.prems(1) by (cases sched) auto
    moreover have "bf_siz ?bf1 - bf_len ?bf1 = length (drop ?n rest)" using less.prems(2) by simp
    moreover have "length (drop ?n rest) < length rest" using n False by simp
    ultimately obtain bf' where
      "buffer_read_loop ok False ?bf1 (drop ?n rest) (tl sched) = (False, bf')"
      "bf_bytes bf' = bf_bytes ?bf1 @ drop ?n rest"
      using less.hyps by blast
    then show ?thesis
      using lim n less.prems(2)
      by (subst buffer_read_loop.simps) (simp add: Let_def)
  qed
qed

section \<open>Properties\<close>

text \<open>Appending to a well-formed buffer either reports failure (or has nothing to append) and
  leaves it as it was, or appends exactly the given bytes and leaves it well-formed.\<close>

lemma buffer_puts_appends:
  assumes "buffer_wf bf"
  shows "(case buffer_puts ok bf (Some s) of (r, bf') \<Rightarrow>
     bf' = bf \<and> (r = -1 \<or> s = []) \<or> bf_bytes bf' = bf_bytes bf @ s \<and> buffer_wf bf')"
  using buffer_puts_cases [OF assms, of ok s] by (auto split: prod.splits)

theorem buffer_puts_appends_witness:
  "bf_bytes (snd (buffer_puts (\<lambda>_. True) \<lparr>bf_bytes = ''ab'', bf_siz = 2\<rparr> (Some ''cd''))) = ''abcd''"
proof -
  have "buffer_wf \<lparr>bf_bytes = ''ab'', bf_siz = 2\<rparr>" by (simp add: buffer_wf_def)
  moreover have "fst (buffer_puts (\<lambda>_. True) \<lparr>bf_bytes = ''ab'', bf_siz = 2\<rparr> (Some ''cd'')) = 2"
    by (simp add: buffer_puts_def buffer_reserve_def double_until.simps Let_def)
  moreover have "snd (buffer_puts (\<lambda>_. True) \<lparr>bf_bytes = ''ab'', bf_siz = 2\<rparr> (Some ''cd'')) \<noteq>
      \<lparr>bf_bytes = ''ab'', bf_siz = 2\<rparr>"
    by (simp add: buffer_puts_def buffer_reserve_def double_until.simps Let_def)
  ultimately show ?thesis
    using buffer_puts_appends [where bf = "\<lparr>bf_bytes = ''ab'', bf_siz = 2\<rparr>" and ok = "\<lambda>_. True"
        and s = "''cd''"]
    by (auto split: prod.splits)
qed

text \<open> Iterating \<open>buffer_getline\<close> over a buffer yields the lines between newlines, none of which
  holds a newline, and the lines of a buffer that ends in a newline make up the whole buffer.\<close>

lemma buffer_getline_splits:
  "buffer_lines s = split_lines s \<and>
   (\<forall>l \<in> set (buffer_lines s). NL \<notin> set l) \<and>
   (s \<noteq> [] \<and> last s = NL \<longrightarrow> concat (map (\<lambda>l. l @ [NL]) (buffer_lines s)) = s)"
  using split_lines_no_nl [of _ s] split_lines_concat [of s] by (auto simp: buffer_lines_eq)

theorem buffer_getline_splits_witness:
  "concat (map (\<lambda>l. l @ [NL]) (buffer_lines (''a'' @ [NL, NL] @ ''bc'' @ [NL]))) =
     ''a'' @ [NL, NL] @ ''bc'' @ [NL]"
  by (rule buffer_getline_splits [of "''a'' @ [NL, NL] @ ''bc'' @ [NL]",
        THEN conjunct2, THEN conjunct2, THEN mp]) simp

text \<open> However \<open>read(2)\<close> cuts a file into pieces, while no read fails and memory is available
  \<open>buffer_read\<close> returns the whole file, whatever size was estimated, and \<open>arena_buffer_read\<close> does
  when the estimate is the size of the file or absent.\<close>

lemma buffer_read_whole_file:
  assumes "\<And>n. ok n" and "ReadError \<notin> set sched" and "length content \<le> 2 ^ 60"
    and "est' = 0 \<or> est' = length content"
    and "est \<noteq> 2 ^ 13 \<or> length content = 2 ^ 13"
  shows "map_option bf_bytes (buffer_read ok est (Some content) sched) = Some content \<and>
    map_option bf_bytes (arena_buffer_read ok est' (Some content) sched) = Some content"
proof -
  have grow: "double_until 16 8192 = Some 8192" "double_until 16 1024 = Some 1024"
    by (simp_all add: double_until.simps)
  have a1: "buffer_alloc ok 8192 = Some \<lparr>bf_bytes = [], bf_siz = 8192\<rparr>"
    using assms(1) grow by (simp add: buffer_alloc_def buffer_alloc_impl_def buffer_reserve_def Let_def)
  have a2: "buffer_alloc_impl ok 1024 True = Some \<lparr>bf_bytes = [], bf_siz = 1024\<rparr>"
    using assms(1) grow by (simp add: buffer_alloc_impl_def buffer_reserve_def Let_def)
  have a3: "buffer_alloc_impl ok n False = Some \<lparr>bf_bytes = [], bf_siz = n\<rparr>" if "n \<le> 2 ^ 60" for n
    using assms(1) that by (simp add: buffer_alloc_impl_def buffer_reserve_def Let_def)
  have all: "\<exists>bf'. buffer_read_loop ok True \<lparr>bf_bytes = [], bf_siz = n\<rparr> content sched = (False, bf') \<and>
      bf_bytes bf' = content" if "n = 2 ^ 13 \<or> n = 2 ^ 10" for n
    using buffer_read_loop_all [where ok = ok and sched = sched and rest = content
        and bf = "\<lparr>bf_bytes = [], bf_siz = n\<rparr>" and B = "2 ^ 62"]
      that assms(1-3) by (auto simp: buffer_wf_def)
  have exact: "\<exists>bf'. buffer_read_loop ok False \<lparr>bf_bytes = [], bf_siz = length content\<rparr> content sched =
      (False, bf') \<and> bf_bytes bf' = content"
    using buffer_read_loop_exact [where sched = sched and rest = content
        and bf = "\<lparr>bf_bytes = [], bf_siz = length content\<rparr>" and ok = ok] assms(2) by simp
  have "map_option bf_bytes (buffer_read ok est (Some content) sched) = Some content"
  proof (cases "est = 2 ^ 13")
    case True
    with assms(5) exact show ?thesis by (auto simp: buffer_read_def a1 buffer_read_fd_impl_def)
  next
    case False
    with all [of "2 ^ 13"] show ?thesis by (auto simp: buffer_read_def a1 buffer_read_fd_impl_def)
  qed
  moreover have "map_option bf_bytes (arena_buffer_read ok est' (Some content) sched) = Some content"
  proof (cases "est' = 0")
    case True
    with all [of "2 ^ 10"] show ?thesis
      by (auto simp: arena_buffer_read_def a2 buffer_read_fd_impl_def)
  next
    case False
    with assms(3,4) exact show ?thesis
      by (auto simp: arena_buffer_read_def a3 buffer_read_fd_impl_def)
  qed
  ultimately show ?thesis ..
qed

theorem buffer_read_whole_file_witness:
  "map_option bf_bytes (buffer_read (\<lambda>_. True) 5 (Some ''hello'') [ReadUpto 1, ReadUpto 0]) = Some ''hello'' \<and>
   map_option bf_bytes (arena_buffer_read (\<lambda>_. True) 5 (Some ''hello'') [ReadUpto 1, ReadUpto 0]) = Some ''hello''"
  by (rule buffer_read_whole_file) simp_all

end
