(* ===== verification/Interpolate.thy ===== *)
theory Interpolate
  imports Buffer
begin

text \<open>
  \<open>interpolate.c\<close>: replaces the references \<open>${name}\<close> of a string by what a callback of the caller
  returns for the name, recursively and down to a fixed depth. The callback may change a state of
  its own, \<open>'s\<close>; it returns \<open>None\<close> for a name it does not know. The output buffer is the string
  written so far.
\<close>

section \<open>Operations\<close>

type_synonym 's lookup = "string \<Rightarrow> 's \<Rightarrow> string option \<times> 's"

text \<open>The messages of \<open>log_warnx\<close>.\<close>

datatype interpolate_error =
    RecursionTooDeep
  | ExpectedOpen
  | ExpectedClose
  | EmptyName
  | UnknownVariable string

lemma reference_shorter:
  assumes "drop (Suc p) str = c # vs"
  shows "length (drop (Suc len) vs) < length str"
proof -
  have "length (drop (Suc p) str) = Suc (length vs)" using assms by simp
  then show ?thesis unfolding length_drop by linarith
qed

text \<open>
  \<open>depth\<close> is \<open>c->depth\<close> on entry. The source compares the incremented depth with 5 for equality; it
  starts at 0 and moves in steps of one, so the comparison below is the same. \<open>ign\<close> is the flag
  \<open>INTERPOLATE_IGNORE_LOOKUP_ERRORS\<close>.
\<close>

function interpolate ::
    "'s lookup \<Rightarrow> bool \<Rightarrow> nat \<Rightarrow> 's \<Rightarrow> string \<Rightarrow> string \<Rightarrow> interpolate_error option \<times> 's \<times> string"
  and interpolate_inner ::
    "'s lookup \<Rightarrow> bool \<Rightarrow> nat \<Rightarrow> 's \<Rightarrow> string \<Rightarrow> string \<Rightarrow> interpolate_error option \<times> 's \<times> string"
where
  "interpolate lk ign depth s bf str =
     (if Suc depth \<ge> 5 then (Some RecursionTooDeep, s, bf)
      else interpolate_inner lk ign (Suc depth) s bf str)"
| "interpolate_inner lk ign depth s bf str =
     (case strchr str (CHR ''$'') of
        None \<Rightarrow> (None, s, bf @ str)
      | Some p \<Rightarrow>
          (let bf1 = bf @ take p str in
           case drop (Suc p) str of
             [] \<Rightarrow> (Some ExpectedOpen, s, bf1)
           | c # vs \<Rightarrow>
               if c \<noteq> CHR ''{'' then (Some ExpectedOpen, s, bf1)
               else
                 (case strchr vs (CHR ''}'') of
                    None \<Rightarrow> (Some ExpectedClose, s, bf1)
                  | Some len \<Rightarrow>
                      if len = 0 then (Some EmptyName, s, bf1)
                      else
                        (case lk (take len vs) s of
                           (None, s1) \<Rightarrow>
                             if ign then
                               interpolate_inner lk ign depth s1
                                 (bf1 @ CHR ''$'' # CHR ''{'' # take (Suc len) vs) (drop (Suc len) vs)
                             else (Some (UnknownVariable (take len vs)), s1, bf1)
                         | (Some v, s1) \<Rightarrow>
                             (case interpolate lk ign depth s1 bf1 v of
                                (Some e, s2, bf2) \<Rightarrow> (Some e, s2, bf2)
                              | (None, s2, bf2) \<Rightarrow>
                                  interpolate_inner lk ign depth s2 bf2 (drop (Suc len) vs))))))"
  by pat_completeness auto

termination
proof (relation "inv_image (less_than <*lex*> less_than <*lex*> less_than)
    (case_sum (\<lambda>(lk, ign, depth, s, bf, str). (5 - depth, 0, 0))
              (\<lambda>(lk, ign, depth, s, bf, str). (5 - depth, 1, length str)))", goal_cases)
  case 1
  show ?case by auto
next
  case 2
  then show ?case by auto
next
  case 3
  then show ?case using reference_shorter by simp
next
  case 4
  show ?case by simp
next
  case 5
  then show ?case using reference_shorter by simp
qed

declare interpolate.simps [simp del]
declare interpolate_inner.simps [simp del]

text \<open>
  The public functions. \<open>None\<close> is a NULL result; the state of the callback is returned in any case.
  The lines of a file are what the C string functions see of them.
\<close>

definition interpolate_buffer ::
  "'s lookup \<Rightarrow> bool \<Rightarrow> 's \<Rightarrow> string \<Rightarrow> string \<Rightarrow> interpolate_error option \<times> 's \<times> string" where
  "interpolate_buffer lk ign s bf str = interpolate lk ign 0 s bf str"

definition interpolate_str ::
  "'s lookup \<Rightarrow> bool \<Rightarrow> 's \<Rightarrow> string \<Rightarrow> string option \<times> 's" where
  "interpolate_str lk ign s str =
     (case interpolate_buffer lk ign s [] str of
        (Some e, s', _) \<Rightarrow> (None, s')
      | (None, s', out) \<Rightarrow> (Some out, s'))"

text \<open>A failure carries the line it occurred on.\<close>

fun interpolate_lines ::
  "'s lookup \<Rightarrow> bool \<Rightarrow> nat \<Rightarrow> 's \<Rightarrow> string \<Rightarrow> string list \<Rightarrow>
   (nat \<times> interpolate_error) option \<times> 's \<times> string" where
  "interpolate_lines lk ign lno s out [] = (None, s, out)"
| "interpolate_lines lk ign lno s out (line # lines) =
     (case interpolate lk ign 0 s out (cstr line) of
        (Some e, s', out') \<Rightarrow> (Some (Suc lno, e), s', out')
      | (None, s', out') \<Rightarrow> interpolate_lines lk ign (Suc lno) s' (out' @ [NL]) lines)"

definition interpolate_file ::
  "'s lookup \<Rightarrow> bool \<Rightarrow> nat \<Rightarrow> 's \<Rightarrow> string option \<Rightarrow> string option \<times> 's" where
  "interpolate_file lk ign lno s file =
     (case file of
        None \<Rightarrow> (None, s)
      | Some content \<Rightarrow>
          (case interpolate_lines lk ign lno s [] (buffer_lines content) of
             (Some _, s', _) \<Rightarrow> (None, s')
           | (None, s', out) \<Rightarrow> (Some out, s')))"

section \<open>The four ways a string goes on\<close>

abbreviation dollar :: char where "dollar \<equiv> CHR ''$''"
abbreviation ref :: "string \<Rightarrow> string" where
  "ref name \<equiv> CHR ''$'' # CHR ''{'' # name @ [CHR ''}'']"

lemma inner_plain: "dollar \<notin> set str \<Longrightarrow> interpolate_inner lk ign d s bf str = (None, s, bf @ str)"
  by (subst interpolate_inner.simps) (simp add: strchr_None [THEN iffD2])

lemma inner_ref:
  assumes "dollar \<notin> set l" "name \<noteq> []" "CHR ''}'' \<notin> set name"
  shows "interpolate_inner lk ign d s bf (l @ ref name @ rest) =
    (case lk name s of
       (None, s1) \<Rightarrow>
         if ign then interpolate_inner lk ign d s1 (bf @ l @ ref name) rest
         else (Some (UnknownVariable name), s1, bf @ l)
     | (Some v, s1) \<Rightarrow>
         (case interpolate lk ign d s1 (bf @ l) v of
            (Some e, s2, bf2) \<Rightarrow> (Some e, s2, bf2)
          | (None, s2, bf2) \<Rightarrow> interpolate_inner lk ign d s2 bf2 rest))"
proof -
  have 1: "strchr (l @ ref name @ rest) dollar = Some (length l)"
    using strchr_append [OF assms(1)] by simp
  have 2: "strchr (name @ CHR ''}'' # rest) (CHR ''}'') = Some (length name)"
    by (rule strchr_append [OF assms(3)])
  from 1 2 assms(2) show ?thesis
    by (subst interpolate_inner.simps) (simp add: Let_def split: option.split prod.split)
qed

text \<open>Every string is plain, starts with a reference, or is malformed.\<close>

lemma template_cases:
  fixes lk :: "'s lookup"
  obtains (plain) "dollar \<notin> set str"
    | (reference) l name rest where "str = l @ ref name @ rest" "dollar \<notin> set l" "name \<noteq> []"
        "CHR ''}'' \<notin> set name"
    | (malformed) e where "\<And>ign d s bf. \<exists>out. interpolate_inner lk ign d s bf str = (Some e, s, out)"
        "e \<in> {ExpectedOpen, ExpectedClose, EmptyName}"
        "\<nexists>l name rest. str = l @ ref name @ rest \<and> dollar \<notin> set l \<and> name \<noteq> [] \<and> CHR ''}'' \<notin> set name"
        "dollar \<in> set str"
proof (cases "strchr str dollar")
  case None
  then show ?thesis using plain by (simp add: strchr_None)
next
  case (Some p)
  note p = strchr_SomeD [OF Some]
  have not_ref: "take p str = l \<and> drop (Suc p) str = CHR ''{'' # name @ CHR ''}'' # rest"
    if "str = l @ ref name @ rest" "dollar \<notin> set l" for l name rest
    using that Some strchr_append [OF that(2), of "CHR ''{'' # name @ CHR ''}'' # rest"] by simp
  have inset: "dollar \<in> set str" using p(1,2) by (metis nth_mem)
  show ?thesis
  proof (cases "\<exists>vs. drop (Suc p) str = CHR ''{'' # vs")
    case False
    then have err: "interpolate_inner lk ign d s bf str = (Some ExpectedOpen, s, bf @ take p str)"
      for ign d s bf
      using Some by (subst interpolate_inner.simps) (auto simp: Let_def split: list.splits)
    have noref: "\<nexists>l name rest. str = l @ ref name @ rest \<and> dollar \<notin> set l \<and> name \<noteq> [] \<and>
        CHR ''}'' \<notin> set name"
      using not_ref False by fastforce
    show ?thesis by (rule malformed [of ExpectedOpen, OF _ _ noref inset]) (simp_all add: err)
  next
    case True
    then obtain vs where vs: "drop (Suc p) str = CHR ''{'' # vs" by blast
    show ?thesis
    proof (cases "strchr vs (CHR ''}'')")
      case None
      then have err: "interpolate_inner lk ign d s bf str = (Some ExpectedClose, s, bf @ take p str)"
        for ign d s bf
        using Some vs by (subst interpolate_inner.simps) (simp add: Let_def)
      have "CHR ''}'' \<notin> set vs" using None by (simp add: strchr_None)
      then have noref: "\<nexists>l name rest. str = l @ ref name @ rest \<and> dollar \<notin> set l \<and> name \<noteq> [] \<and>
          CHR ''}'' \<notin> set name"
        using not_ref vs by fastforce
      show ?thesis by (rule malformed [of ExpectedClose, OF _ _ noref inset]) (simp_all add: err)
    next
      case len: (Some len)
      note q = strchr_SomeD [OF len]
      show ?thesis
      proof (cases "len = 0")
        case True
        then have err: "interpolate_inner lk ign d s bf str = (Some EmptyName, s, bf @ take p str)"
          for ign d s bf
          using Some vs len by (subst interpolate_inner.simps) (simp add: Let_def)
        have "vs = CHR ''}'' # drop (Suc 0) vs" using q(4) True by simp
        then have hd: "hd vs = CHR ''}''" by (metis list.sel(1))
        have "name = [] \<or> CHR ''}'' \<in> set name" if "vs = name @ CHR ''}'' # rest" for name rest
          using hd that by (cases name) auto
        then have noref: "\<nexists>l name rest. str = l @ ref name @ rest \<and> dollar \<notin> set l \<and> name \<noteq> [] \<and>
            CHR ''}'' \<notin> set name"
          using not_ref vs by fastforce
        show ?thesis by (rule malformed [of EmptyName, OF _ _ noref inset]) (simp_all add: err)
      next
        case False
        have "str = take p str @ ref (take len vs) @ drop (Suc len) vs"
          using p(4) q(4) vs by simp
        moreover have "take len vs \<noteq> []" using False q(1) by (cases vs) auto
        ultimately show ?thesis using reference p(3) q(3) by blast
      qed
    qed
  qed
qed


section \<open>What interpolation means\<close>

text \<open>
  For a callback that is a plain function of the name, expansion as a relation: \<open>expands f ign n str
  out\<close> says that \<open>str\<close> expands to \<open>out\<close> with values nested at most \<open>n\<close> deep. With \<open>ign\<close>, references
  to unknown names stay as they are.
\<close>

definition pure_lookup :: "(string \<Rightarrow> string option) \<Rightarrow> 's lookup" where
  "pure_lookup f name s = (f name, s)"

definition variable_name :: "string \<Rightarrow> bool" where
  "variable_name name \<longleftrightarrow> name \<noteq> [] \<and> CHR ''}'' \<notin> set name"

inductive expands ::
  "(string \<Rightarrow> string option) \<Rightarrow> bool \<Rightarrow> nat \<Rightarrow> string \<Rightarrow> string \<Rightarrow> bool"
  for f :: "string \<Rightarrow> string option" and ign :: bool where
  plain: "expands f ign n str str" if "dollar \<notin> set str"
| known: "expands f ign (Suc n) (l @ ref name @ rest) (l @ w @ out)"
    if "dollar \<notin> set l" "variable_name name" "f name = Some v" "expands f ign n v w"
      "expands f ign (Suc n) rest out"
| unknown: "expands f ign n (l @ ref name @ rest) (l @ ref name @ out)"
    if "dollar \<notin> set l" "variable_name name" "f name = None" "ign" "expands f ign n rest out"

lemma ref_decompose:
  assumes "l @ ref name @ rest = l' @ ref name' @ rest'" "dollar \<notin> set l" "dollar \<notin> set l'"
    "CHR ''}'' \<notin> set name" "CHR ''}'' \<notin> set name'"
  shows "l = l' \<and> name = name' \<and> rest = rest'"
proof -
  have "strchr (l @ ref name @ rest) dollar = Some (length l)"
    "strchr (l' @ ref name' @ rest') dollar = Some (length l')"
    using strchr_append [OF assms(2)] strchr_append [OF assms(3)] by simp_all
  then have len: "length l = length l'" using assms(1) by simp
  with assms(1) have l: "l = l'" and r: "name @ CHR ''}'' # rest = name' @ CHR ''}'' # rest'"
    by simp_all
  have "strchr (name @ CHR ''}'' # rest) (CHR ''}'') = Some (length name)"
    "strchr (name' @ CHR ''}'' # rest') (CHR ''}'') = Some (length name')"
    by (rule strchr_append, fact)+
  with r have "length name = length name'" by simp
  with r l show ?thesis by simp
qed

text \<open>Inversion at a reference.\<close>

lemma expands_refE:
  assumes "expands f ign n (l @ ref name @ rest) out" "dollar \<notin> set l" "variable_name name"
  obtains (known) m v w o' where "n = Suc m" "f name = Some v" "expands f ign m v w"
      "expands f ign (Suc m) rest o'" "out = l @ w @ o'"
    | (unknown) o' where "f name = None" "ign" "expands f ign n rest o'" "out = l @ ref name @ o'"
  using assms(1)
proof cases
  case plain
  then show thesis by simp
next
  case (known l' name' v n' w rest' out')
  then have "l = l' \<and> name = name' \<and> rest = rest'"
    using assms(2,3) ref_decompose [of l name rest l' name' rest'] by (simp add: variable_name_def)
  with known that(1) show thesis by blast
next
  case (unknown l' name' rest' out')
  then have "l = l' \<and> name = name' \<and> rest = rest'"
    using assms(2,3) ref_decompose [of l name rest l' name' rest'] by (simp add: variable_name_def)
  with unknown that(2) show thesis by blast
qed

lemma inner_ref_pure:
  assumes "dollar \<notin> set l" "variable_name name"
  shows "interpolate_inner (pure_lookup f) ign d s bf (l @ ref name @ rest) =
    (case f name of
       None \<Rightarrow>
         if ign then interpolate_inner (pure_lookup f) ign d s (bf @ l @ ref name) rest
         else (Some (UnknownVariable name), s, bf @ l)
     | Some v \<Rightarrow>
         (case interpolate (pure_lookup f) ign d s (bf @ l) v of
            (Some e, s2, bf2) \<Rightarrow> (Some e, s2, bf2)
          | (None, s2, bf2) \<Rightarrow> interpolate_inner (pure_lookup f) ign d s2 bf2 rest))"
proof -
  have "name \<noteq> []" "CHR ''}'' \<notin> set name" "pure_lookup f name s = (f name, s)"
    using assms(2) by (simp_all add: variable_name_def pure_lookup_def)
  then show ?thesis using inner_ref [OF assms(1), of name "pure_lookup f" ign d s bf rest] by simp
qed

lemma interpolate_step: "d < 4 \<Longrightarrow> interpolate lk ign d s bf v = interpolate_inner lk ign (Suc d) s bf v"
  by (simp add: interpolate.simps)

lemma interpolate_nested:
  "n < 3 \<Longrightarrow> interpolate lk ign (4 - Suc n) s bf v = interpolate_inner lk ign (4 - n) s bf v"
proof -
  assume "n < 3"
  then have "4 - Suc n < 4" "Suc (4 - Suc n) = 4 - n" by simp_all
  then show ?thesis using interpolate_step by metis
qed

lemma interpolate_limit: "d \<ge> 4 \<Longrightarrow> interpolate lk ign d s bf v = (Some RecursionTooDeep, s, bf)"
  by (simp add: interpolate.simps)

lemma expands_inner:
  "expands f ign n str out \<Longrightarrow> n \<le> 3 \<Longrightarrow>
   interpolate_inner (pure_lookup f) ign (4 - n) s bf str = (None, s, bf @ out)"
proof (induction arbitrary: bf rule: expands.induct)
  case (plain str n)
  then show ?case by (simp add: inner_plain)
next
  case (known l name v n w rest out)
  then have "interpolate (pure_lookup f) ign (4 - Suc n) s (bf @ l) v = (None, s, bf @ l @ w)"
    using known.IH(1) [of "bf @ l"] known.prems by (subst interpolate_nested) simp_all
  then show ?case
    using known.IH(2) [of "bf @ l @ w"] known.prems known.hyps(3)
    unfolding inner_ref_pure [OF known.hyps(1,2)] by simp
next
  case (unknown l name n rest out)
  then show ?case
    using unknown.IH [of "bf @ l @ ref name"] unknown.prems unknown.hyps(3,4)
    unfolding inner_ref_pure [OF unknown.hyps(1,2)] by simp
qed

lemma inner_expands:
  fixes s :: 's
  shows "interpolate_inner (pure_lookup f) ign (4 - n) s bf str = (None, s', bf') \<Longrightarrow> n \<le> 3 \<Longrightarrow>
   s' = s \<and> (\<exists>out. bf' = bf @ out \<and> expands f ign n str out)"
proof (induction n arbitrary: bf str bf' s')
  case 0
  then show ?case
  proof (induction "length str" arbitrary: bf str bf' s' rule: less_induct)
    case less
    show ?case
    proof (cases rule: template_cases [where str = str and lk = "pure_lookup f :: 's lookup"])
      case plain
      then show ?thesis using less.prems by (auto simp: inner_plain intro: expands.plain)
    next
      case (reference l name rest)
      have name: "variable_name name" using reference(3,4) by (simp add: variable_name_def)
      have un: "f name = None" "ign"
        and rec: "interpolate_inner (pure_lookup f) ign 4 s (bf @ l @ ref name) rest = (None, s', bf')"
        using less.prems(1) unfolding reference(1) inner_ref_pure [OF reference(2) name]
        by (auto simp: interpolate_limit split: option.splits if_splits)
      have "length rest < length str" by (simp add: reference(1))
      from less.hyps [OF this, of "bf @ l @ ref name" s' bf'] rec obtain out where
        "s' = s" "bf' = (bf @ l @ ref name) @ out" "expands f ign 0 rest out" by auto
      then show ?thesis
        using expands.unknown [of l name f ign 0 rest out] reference un name by auto
    next
      case (malformed e)
      then show ?thesis using less.prems(1) by (metis option.distinct(1) prod.inject)
    qed
  qed
next
  case (Suc n)
  from Suc.prems show ?case
  proof (induction "length str" arbitrary: bf str bf' s' rule: less_induct)
    case less
    show ?case
    proof (cases rule: template_cases [where str = str and lk = "pure_lookup f :: 's lookup"])
      case plain
      then show ?thesis using less.prems by (auto simp: inner_plain intro: expands.plain)
    next
      case (reference l name rest)
      have shorter: "length rest < length str" by (simp add: reference(1))
      have name: "variable_name name" using reference(3,4) by (simp add: variable_name_def)
      note step = less.prems(1) [unfolded reference(1) inner_ref_pure [OF reference(2) name]]
      show ?thesis
      proof (cases "f name")
        case None
        then have "ign" and rec:
          "interpolate_inner (pure_lookup f) ign (4 - Suc n) s (bf @ l @ ref name) rest = (None, s', bf')"
          using step by (auto split: if_splits)
        from less.hyps [OF shorter rec less.prems(2)] obtain out where
          "s' = s" "bf' = (bf @ l @ ref name) @ out" "expands f ign (Suc n) rest out" by auto
        then show ?thesis
          using expands.unknown [of l name f ign "Suc n" rest out] reference None \<open>ign\<close> name by auto
      next
        case (Some v)
        obtain e s2 bf2 where v: "interpolate (pure_lookup f) ign (4 - Suc n) s (bf @ l) v = (e, s2, bf2)"
          by (cases "interpolate (pure_lookup f) ign (4 - Suc n) s (bf @ l) v")
        with step Some have e: "e = None" and rec:
          "interpolate_inner (pure_lookup f) ign (4 - Suc n) s2 bf2 rest = (None, s', bf')"
          by (auto split: option.splits)
        have "interpolate_inner (pure_lookup f) ign (4 - n) s (bf @ l) v = (None, s2, bf2)"
          using v e less.prems(2) by (subst (asm) interpolate_nested) simp_all
        from Suc.IH [OF this] less.prems(2) obtain w where
          w: "s2 = s" "bf2 = (bf @ l) @ w" "expands f ign n v w" by auto
        from less.hyps [OF shorter rec [unfolded w(1)] less.prems(2)] w(1) obtain out where
          "s' = s" "bf' = bf2 @ out" "expands f ign (Suc n) rest out" by auto
        then show ?thesis
          using expands.known [of l name f v ign n w rest out] reference Some w name by auto
      qed
    next
      case (malformed e)
      then show ?thesis using less.prems(1) by (metis option.distinct(1) prod.inject)
    qed
  qed
qed

lemma interpolate_iff:
  "interpolate (pure_lookup f) ign 0 s bf str = (None, s', bf') \<longleftrightarrow>
   s' = s \<and> (\<exists>out. bf' = bf @ out \<and> expands f ign 3 str out)"
  using inner_expands [of f ign 3 s bf str s' bf'] expands_inner [of f ign 3 str _ s bf]
  by (auto simp: interpolate_step)

section \<open>Facts about expansion\<close>

lemma expands_mono: "expands f ign n str out \<Longrightarrow> n \<le> m \<Longrightarrow> expands f ign m str out"
proof (induction arbitrary: m rule: expands.induct)
  case (known l name v n w rest out)
  then obtain k where "m = Suc k" "n \<le> k" by (cases m) auto
  with known show ?case by (metis expands.known)
next
  case (unknown l name n rest out)
  then show ?case by (metis expands.unknown)
qed (auto intro: expands.plain)

lemma expands_prepend:
  assumes "expands f ign n str out" "dollar \<notin> set p"
  shows "expands f ign n (p @ str) (p @ out)"
  using assms(1)
proof cases
  case plain
  then show ?thesis using assms(2) by (auto intro: expands.plain)
next
  case (known l name v n' w rest out')
  then show ?thesis
    using expands.known [of "p @ l" name f v ign n' w rest out'] assms(2) by simp
next
  case (unknown l name rest out')
  then show ?thesis
    using expands.unknown [of "p @ l" name f ign n rest out'] assms(2) by simp
qed

lemma expands_append:
  "expands f ign n str out \<Longrightarrow> expands f ign n str' out' \<Longrightarrow> expands f ign n (str @ str') (out @ out')"
proof (induction rule: expands.induct)
  case (plain str n)
  then show ?case by (rule expands_prepend [rotated])
next
  case (known l name v n w rest out)
  then show ?case using expands.known [of l name f v ign n w "rest @ str'" "out @ out'"] by simp
next
  case (unknown l name n rest out)
  then show ?case using expands.unknown [of l name f ign n "rest @ str'" "out @ out'"] by simp
qed

text \<open>Expanding in two stages: first with some names unknown and left in place, then with more
  names known.\<close>

lemma expands_two_stages:
  assumes "expands f True n str mid" "\<And>x v. f x = Some v \<Longrightarrow> g x = Some v"
  shows "expands g False m str out \<Longrightarrow> expands g False m mid out"
  using assms(1)
proof (induction arbitrary: m out rule: expands.induct)
  case (known l name v n w rest o1)
  from known.prems known.hyps(1,2) show ?case
  proof (cases rule: expands_refE)
    case (known k v' w' o')
    then have v': "v' = v" using assms(2) known.hyps(3) \<open>f name = Some v\<close> by simp
    have "expands g False k w w'" using \<open>\<And>m out. expands g False m v out \<Longrightarrow> expands g False m w out\<close>
        known(3) v' by blast
    then have "expands g False m w w'" using known(1) by (auto intro: expands_mono)
    moreover have "expands g False m o1 o'"
      using \<open>\<And>m out. expands g False m rest out \<Longrightarrow> expands g False m o1 out\<close> known(1,4) by blast
    ultimately have "expands g False m (w @ o1) (w' @ o')" by (rule expands_append)
    then show ?thesis using known(5) \<open>dollar \<notin> set l\<close> expands_prepend by blast
  qed simp
next
  case (unknown l name n rest o1)
  from unknown.prems unknown.hyps(1,2) show ?case
  proof (cases rule: expands_refE)
    case (known k v' w' o')
    then show ?thesis
      using unknown.IH [of "Suc k" o'] expands.known [of l name g v' False k w' o1 o'] unknown.hyps(1,2)
      by simp
  qed simp
qed


lemma self_reference_inner:
  assumes "f x = Some (l @ ref x @ r)" "dollar \<notin> set l" "variable_name x" "n \<le> 3" "dollar \<notin> set p"
  shows "fst (interpolate_inner (pure_lookup f) ign (4 - n) s bf (p @ ref x @ rest)) = Some RecursionTooDeep"
  using assms(4,5)
proof (induction n arbitrary: bf p rest)
  case 0
  then show ?case
    using assms(1) unfolding inner_ref_pure [OF 0(2) assms(3)] by (simp add: interpolate_limit)
next
  case (Suc n)
  have "fst (interpolate (pure_lookup f) ign (4 - Suc n) s (bf @ p) (l @ ref x @ r)) = Some RecursionTooDeep"
    using Suc.IH [of l "bf @ p" r] Suc.prems assms(2) by (subst interpolate_nested) simp_all
  then show ?case
    using assms(1) unfolding inner_ref_pure [OF Suc.prems(2) assms(3)]
    by (auto split: prod.splits option.splits)
qed

lemma interpolate_str_iff:
  "interpolate_str (pure_lookup f) ign s str = (Some out, s') \<longleftrightarrow> s' = s \<and> expands f ign 3 str out"
proof -
  obtain e s1 bf where r: "interpolate (pure_lookup f) ign 0 s [] str = (e, s1, bf)"
    by (cases "interpolate (pure_lookup f) ign 0 s [] str")
  then show ?thesis
    using interpolate_iff [of f ign s "[]" str s1 bf] interpolate_iff [of f ign s "[]" str s out]
    by (cases e) (auto simp: interpolate_str_def interpolate_buffer_def)
qed

section \<open>The callback as an interface\<close>

text \<open>Induction over the depth that is left and the length of the string.\<close>

lemma inner_induct:
  assumes "\<And>d str. (\<And>d' str'. 4 - d' < (4 - d :: nat) \<Longrightarrow> P d' str') \<Longrightarrow>
      (\<And>str'. length str' < length str \<Longrightarrow> P d str') \<Longrightarrow> P d str"
  shows "P (d :: nat) (str :: string)"
proof -
  have "P (fst x) (snd x)" for x :: "nat \<times> string"
  proof (induction x rule: wf_induct_rule [OF wf_measures [of "[\<lambda>x. 4 - fst x, \<lambda>x. length (snd x)]"]])
    case (1 x)
    show ?case
    proof (rule assms)
      show "P d' str'" if "4 - d' < 4 - fst x" for d' str' using "1.IH" [of "(d', str')"] that by simp
      show "P (fst x) str'" if "length str' < length (snd x)" for str'
        using "1.IH" [of "(fst x, str')"] that by simp
    qed
  qed
  then show ?thesis using fst_conv snd_conv by metis
qed

text \<open>
  Whatever a callback guarantees about its state in one call, the interpolation guarantees of all
  its calls: a reflexive and transitive relation between the state before and after, which the
  callback keeps, also holds between the states before and after interpolating.
\<close>

locale lookup_frame =
  fixes lk :: "string \<Rightarrow> 's \<Rightarrow> string option \<times> 's" and rel :: "'s \<Rightarrow> 's \<Rightarrow> bool"
  assumes rel_refl: "rel s s"
    and rel_trans: "rel s t \<Longrightarrow> rel t u \<Longrightarrow> rel s u"
    and lk_rel: "lk name s = (r, s') \<Longrightarrow> rel s s'"
begin

lemma inner_rel: "interpolate_inner lk ign d s bf str = (e, s', bf') \<Longrightarrow> rel s s'"
proof (induction d str arbitrary: s bf e s' bf' rule: inner_induct)
  case (1 d str)
  show ?case
  proof (cases rule: template_cases [where str = str and lk = lk])
    case plain
    with "1.prems" show ?thesis by (simp add: inner_plain rel_refl)
  next
    case (malformed err)
    obtain out where "interpolate_inner lk ign d s bf str = (Some err, s, out)"
      using malformed(1) [of ign d s bf] by blast
    with "1.prems" show ?thesis by (simp add: rel_refl)
  next
    case (reference l name rest)
    obtain v s1 where lk: "lk name s = (v, s1)" by (cases "lk name s")
    note s1 = lk_rel [OF lk]
    have shorter: "length rest < length str" using reference(1) by simp
    note unfolded = "1.prems" [unfolded reference(1) inner_ref [OF reference(2-4)] lk]
    show ?thesis
    proof (cases v)
      case None
      show ?thesis
      proof (cases ign)
        case True
        with unfolded None have "interpolate_inner lk ign d s1 (bf @ l @ ref name) rest = (e, s', bf')"
          by simp
        from "1.IH"(2) [OF shorter this] s1 show ?thesis by (rule rel_trans [rotated])
      next
        case False
        with unfolded None s1 show ?thesis by simp
      qed
    next
      case (Some val)
      obtain e2 s2 bf2 where n: "interpolate lk ign d s1 (bf @ l) val = (e2, s2, bf2)"
        by (cases "interpolate lk ign d s1 (bf @ l) val")
      have "rel s1 s2"
      proof (cases "d < 4")
        case True
        with "1.IH"(1) [where d' = "Suc d" and str' = val, OF _ n [unfolded interpolate_step [OF True]]] n show ?thesis
          by (simp add: interpolate_step)
      next
        case False
        with n show ?thesis by (simp add: interpolate_limit rel_refl)
      qed
      with s1 have s2: "rel s s2" by (rule rel_trans)
      show ?thesis
      proof (cases e2)
        case None
        with unfolded Some n have "interpolate_inner lk ign d s2 bf2 rest = (e, s', bf')" by simp
        from rel_trans [OF s2 "1.IH"(2) [OF shorter this]] show ?thesis .
      next
        case (Some err)
        with unfolded \<open>v = Some val\<close> n s2 show ?thesis by simp
      qed
    qed
  qed
qed

lemma interpolate_rel: "interpolate lk ign d s bf str = (e, s', bf') \<Longrightarrow> rel s s'"
  by (cases "d < 4") (auto simp: interpolate_step interpolate_limit rel_refl dest: inner_rel)

text \<open>What is left to do after the value of a reference was looked up, and after it was expanded.\<close>

lemma inner_ref_rel:
  assumes "dollar \<notin> set l" "name \<noteq> []" "CHR ''}'' \<notin> set name" "lk name s = (v, s1)"
    and "interpolate_inner lk ign d s bf (l @ ref name @ rest) = (e, s', bf')"
  shows "rel s1 s'"
    and "v = Some val \<Longrightarrow> interpolate lk ign d s1 (bf @ l) val = (e2, s2, bf2) \<Longrightarrow> rel s2 s'"
proof -
  note unfolded = assms(5) [unfolded inner_ref [OF assms(1-3)] assms(4)]
  show nested: "rel s2 s'" if "v = Some val" "interpolate lk ign d s1 (bf @ l) val = (e2, s2, bf2)"
    for val e2 s2 bf2
    using unfolded that inner_rel by (cases e2) (auto simp: rel_refl)
  show "rel s1 s'"
  proof (cases v)
    case None
    with unfolded show ?thesis using inner_rel by (cases ign) (auto simp: rel_refl)
  next
    case (Some val)
    obtain e2 s2 bf2 where n: "interpolate lk ign d s1 (bf @ l) val = (e2, s2, bf2)"
      by (cases "interpolate lk ign d s1 (bf @ l) val")
    from nested [OF Some n] interpolate_rel [OF n] show ?thesis by (rule rel_trans [rotated])
  qed
qed

lemma interpolate_str_rel: "interpolate_str lk ign s str = (r, s') \<Longrightarrow> rel s s'"
  by (auto simp: interpolate_str_def interpolate_buffer_def split: prod.splits option.splits
      dest: interpolate_rel)

lemma interpolate_lines_rel: "interpolate_lines lk ign lno s out ls = (e, s', out') \<Longrightarrow> rel s s'"
proof (induction ls arbitrary: lno s out)
  case Nil
  then show ?case by (simp add: rel_refl)
next
  case (Cons l ls)
  obtain e1 s1 out1 where i: "interpolate lk ign 0 s out (cstr l) = (e1, s1, out1)"
    by (cases "interpolate lk ign 0 s out (cstr l)")
  from interpolate_rel [OF i] Cons i show ?case
    by (cases e1) (auto intro: rel_trans)
qed

lemma interpolate_file_rel: "interpolate_file lk ign lno s content = (r, s') \<Longrightarrow> rel s s'"
  by (auto simp: interpolate_file_def rel_refl split: prod.splits option.splits
      dest: interpolate_lines_rel)

end

lemma inner_no_reference:
  assumes "\<nexists>l name rest. str = l @ ref name @ rest \<and> dollar \<notin> set l \<and> name \<noteq> [] \<and> CHR ''}'' \<notin> set name"
  shows "interpolate_inner lk ign d s bf str = interpolate_inner lk' ign d s bf str"
proof (cases "strchr str dollar")
  case None
  then show ?thesis by (simp add: interpolate_inner.simps)
next
  case (Some p)
  note p = strchr_SomeD [OF Some]
  show ?thesis
  proof (cases "\<exists>vs len. drop (Suc p) str = CHR ''{'' # vs \<and> strchr vs (CHR ''}'') = Some len \<and> len \<noteq> 0")
    case True
    then obtain vs len where vs: "drop (Suc p) str = CHR ''{'' # vs" "strchr vs (CHR ''}'') = Some len"
      "len \<noteq> 0" by blast
    note q = strchr_SomeD [OF vs(2)]
    have "str = take p str @ ref (take len vs) @ drop (Suc len) vs" using p(4) q(4) vs(1) by simp
    moreover have "take len vs \<noteq> []" using vs(3) q(1) by (cases vs) auto
    ultimately show ?thesis using assms p(3) q(3) by blast
  next
    case False
    show ?thesis
    proof (cases "drop (Suc p) str")
      case Nil
      with Some show ?thesis by (simp add: interpolate_inner.simps Let_def)
    next
      case (Cons c vs)
      with False Some show ?thesis
        by (cases "strchr vs (CHR ''}'')") (auto simp: interpolate_inner.simps Let_def)
    qed
  qed
qed

text \<open>
  A callback that may fail for good, and another that agrees with it as long as it does not: then
  interpolating with the second gives the same result wherever the first does not fail.
\<close>

locale lookup_agree =
  fixes lk lk' :: "string \<Rightarrow> 's \<Rightarrow> string option \<times> 's" and bad :: "'s \<Rightarrow> bool"
  assumes bad_stays: "bad s \<Longrightarrow> lk name s = (r, s') \<Longrightarrow> bad s'"
    and agree: "lk name s = (r, s') \<Longrightarrow> \<not> bad s' \<Longrightarrow> lk' name s = (r, s')"

sublocale lookup_agree \<subseteq> bad_frame: lookup_frame lk "\<lambda>s s'. bad s \<longrightarrow> bad s'"
  by unfold_locales (auto intro: bad_stays)

context lookup_agree
begin

lemma inner_agree:
  "interpolate_inner lk ign d s bf str = (e, s', bf') \<Longrightarrow> \<not> bad s' \<Longrightarrow>
   interpolate_inner lk' ign d s bf str = (e, s', bf')"
proof (induction d str arbitrary: s bf e s' bf' rule: inner_induct)
  case (1 d str)
  show ?case
  proof (cases rule: template_cases [where str = str and lk = lk])
    case plain
    with "1.prems" show ?thesis by (simp add: inner_plain)
  next
    case (malformed err)
    from inner_no_reference [OF malformed(3), of lk' ign d s bf lk] "1.prems" show ?thesis by simp
  next
    case (reference l name rest)
    obtain v s1 where lk: "lk name s = (v, s1)" by (cases "lk name s")
    have shorter: "length rest < length str" using reference(1) by simp
    note unfolded = "1.prems"(1) [unfolded reference(1) inner_ref [OF reference(2-4)] lk]
    note goal = reference(1) inner_ref [OF reference(2-4)]
    show ?thesis
    proof (cases v)
      case None
      show ?thesis
      proof (cases ign)
        case True
        with unfolded None have i: "interpolate_inner lk ign d s1 (bf @ l @ ref name) rest = (e, s', bf')"
          by simp
        then have "\<not> bad s1" using bad_frame.inner_rel "1.prems"(2) by blast
        with "1.IH"(2) [OF shorter i "1.prems"(2)] agree [OF lk] None True show ?thesis
          unfolding goal by simp
      next
        case False
        with unfolded None "1.prems"(2) agree [OF lk] show ?thesis unfolding goal by simp
      qed
    next
      case (Some val)
      obtain e2 s2 bf2 where n: "interpolate lk ign d s1 (bf @ l) val = (e2, s2, bf2)"
        by (cases "interpolate lk ign d s1 (bf @ l) val")
      have s2: "\<not> bad s2"
      proof (cases e2)
        case None
        with unfolded Some n have "interpolate_inner lk ign d s2 bf2 rest = (e, s', bf')" by simp
        with bad_frame.inner_rel "1.prems"(2) show ?thesis by blast
      next
        case (Some err)
        with unfolded \<open>v = Some val\<close> n "1.prems"(2) show ?thesis by simp
      qed
      then have s1: "\<not> bad s1" using n bad_frame.interpolate_rel by blast
      have n': "interpolate lk' ign d s1 (bf @ l) val = (e2, s2, bf2)"
      proof (cases "d < 4")
        case True
        with "1.IH"(1) [where d' = "Suc d" and str' = val, OF _ n [unfolded interpolate_step [OF True]]] n s2 show ?thesis
          by (simp add: interpolate_step)
      next
        case False
        with n show ?thesis by (simp add: interpolate_limit)
      qed
      show ?thesis
      proof (cases e2)
        case None
        with unfolded Some n have "interpolate_inner lk ign d s2 bf2 rest = (e, s', bf')" by simp
        with "1.IH"(2) [OF shorter this "1.prems"(2)] agree [OF lk s1] Some None n' show ?thesis
          unfolding goal by simp
      next
        case (Some err)
        with unfolded \<open>v = Some val\<close> n n' agree [OF lk s1] show ?thesis
          unfolding goal by (cases e) simp_all
      qed
    qed
  qed
qed

lemma interpolate_agree:
  "interpolate lk ign d s bf str = (e, s', bf') \<Longrightarrow> \<not> bad s' \<Longrightarrow>
   interpolate lk' ign d s bf str = (e, s', bf')"
  by (cases "d < 4") (auto simp: interpolate_step interpolate_limit dest: inner_agree)

lemma interpolate_str_agree:
  assumes "interpolate_str lk ign s str = (r, s')" "\<not> bad s'"
  shows "interpolate_str lk' ign s str = (r, s')"
proof -
  obtain e s1 out where i: "interpolate lk ign 0 s [] str = (e, s1, out)"
    by (cases "interpolate lk ign 0 s [] str")
  with assms have "s1 = s'"
    by (auto simp: interpolate_str_def interpolate_buffer_def split: option.splits)
  with interpolate_agree [OF i] assms i show ?thesis
    by (simp add: interpolate_str_def interpolate_buffer_def)
qed

end

section \<open>Properties\<close>

text \<open>C2: interpolation with a callback that is a function of the name succeeds exactly on the
  strings that expand with values nested at most three deep below the string itself, and returns
  the expansion.\<close>

theorem interpolation_is_expansion:
  "interpolate_str (pure_lookup f) ign s str = (Some out, s') \<longleftrightarrow> s' = s \<and> expands f ign 3 str out"
  by (rule interpolate_str_iff)

text \<open> A variable whose value refers to itself never makes interpolation run on: the limit on
  the depth reports it, whether or not unknown names are ignored.\<close>

lemma self_reference_is_reported:
  assumes "f x = Some (l @ ref x @ r)" and "dollar \<notin> set l" and "variable_name x"
    and "dollar \<notin> set p"
  shows "fst (interpolate (pure_lookup f) ign 0 s bf (p @ ref x @ rest)) = Some RecursionTooDeep"
  using self_reference_inner [where f = f and x = x and l = l and r = r and n = 3 and p = p] assms
  by (simp add: interpolate_step)

theorem self_reference_is_reported_witness:
  "fst (interpolate (pure_lookup [''path'' \<mapsto> ''/bin:'' @ ref ''path'' @ '':/sbin'']) True 0 ()
     [] (''PATH='' @ ref ''path'' @ [])) = Some RecursionTooDeep"
  by (rule self_reference_is_reported [where l = "''/bin:''" and r = "'':/sbin''"])
    (simp_all add: variable_name_def)

text \<open>Interpolating a string early, while some names are still unknown and left in place, and
  the result again when all names are known, is the same as interpolating it once at the end.\<close>

lemma early_interpolation_is_transparent:
  assumes "interpolate_str (pure_lookup f) True s str = (Some mid, s1)"
    and "\<And>x v. f x = Some v \<Longrightarrow> g x = Some v"
    and "interpolate_str (pure_lookup g) False s2 str = (Some out, s3)"
  shows "interpolate_str (pure_lookup g) False s2 mid = (Some out, s3)"
  using assms expands_two_stages [of f 3 str mid g 3 out] by (simp add: interpolate_str_iff)

theorem early_interpolation_is_transparent_witness:
  "interpolate_str (pure_lookup [''a'' \<mapsto> ''1'', ''b'' \<mapsto> ''2'']) False ()
     (''1-'' @ ref ''b'' @ []) = (Some ''1-2'', ())"
proof (rule early_interpolation_is_transparent)
  have b: "expands f ign n ''2'' ''2''" "expands f ign n [] []" "expands f ign n ''1'' ''1''" for f ign n
    by (rule expands.plain, simp)+
  let ?f = "[''a'' \<mapsto> ''1'']" and ?g = "[''a'' \<mapsto> ''1'', ''b'' \<mapsto> ''2'']"
  have "expands ?f True 3 (''-'' @ ref ''b'' @ []) (''-'' @ ref ''b'' @ [])"
    by (rule expands.unknown) (simp_all add: variable_name_def b)
  from expands.known [of "[]" "''a''" ?f "''1''" True 2 "''1''" "''-'' @ ref ''b'' @ []" "''-'' @ ref ''b'' @ []"] this
  have "expands ?f True 3 (''${a}-${b}'') (''1-${b}'')"
    by (simp add: variable_name_def b eval_nat_numeral)
  then show "interpolate_str (pure_lookup ?f) True () ''${a}-${b}'' = (Some (''1-'' @ ref ''b'' @ []), ())"
    by (simp add: interpolate_str_iff)
  have "expands ?g False (Suc 2) (''-'' @ ref ''b'' @ []) (''-'' @ ''2'' @ [])"
    by (rule expands.known [where v = "''2''"]) (simp_all add: variable_name_def b)
  from expands.known [of "[]" "''a''" ?g "''1''" False 2 "''1''" "''-'' @ ref ''b'' @ []" "''-'' @ ''2'' @ []"] this
  have "expands ?g False 3 (''${a}-${b}'') (''1-2'')"
    by (simp add: variable_name_def b eval_nat_numeral)
  then show "interpolate_str (pure_lookup ?g) False () ''${a}-${b}'' = (Some ''1-2'', ())"
    by (simp add: interpolate_str_iff)
  show "\<And>x v. ?f x = Some v \<Longrightarrow> ?g x = Some v" by (auto split: if_splits)
qed

end
