(* ===== verification/Conf.thy ===== *)
theory Conf
  imports ConfGrammar ConfToken Lexer Interpolate
begin

text \<open>
  \<open>conf.c\<close>: the configuration as a list of variables and a grammar, finding a variable or its
  default, and interpolating with it. What the code asks of the operating system and of the
  environment is the parameter \<open>os\<close>.
\<close>

section \<open>State\<close>

datatype glob_result = GLOB_NOMATCH | GLOB_FAILED | GLOB_PATHS "string list"

text \<open>
  The answers of the system. Files and directories do not change while a configuration is used.
  \<open>os_stack\<close> is the number of nested calls of \<open>config_find\<close> that the stack of the process holds.
\<close>

record os =
  os_machine :: string
  os_machine_arch :: string
  os_getenv :: "string \<Rightarrow> string option"
  os_read :: "string \<Rightarrow> string option"
  os_is_dir :: "string \<Rightarrow> bool option"
  os_getpwnam :: "string \<Rightarrow> bool"
  os_glob :: "string \<Rightarrow> glob_result"
  os_ncpu :: int
  os_group_addr :: "string \<Rightarrow> nat \<Rightarrow> string option"
  os_strerror :: string
  os_alloc :: "nat \<Rightarrow> bool"
  os_stack :: nat

record variable =
  va_name :: string
  va_val :: variable_value

record config_step =
  cs_name :: string
  cs_command :: variable_value
  cs_parallel :: bool

text \<open>\<open>cf_crashed\<close> is set when the program dies: an assertion fails, a trap is reached or the stack
  runs out.\<close>

record config =
  cf_path :: string
  cf_grammar :: "grammar list"
  cf_variables :: "variable list"
  cf_lookup :: token_type_lookup
  cf_steps :: "(string option \<times> string option) list"
  cf_canvas_steps :: "config_step list"
  cf_early :: bool
  cf_rdomain :: int
  cf_trace :: bool
  cf_mode :: robsd_mode
  cf_crashed :: bool

section \<open>Allocation\<close>

definition config_copy_grammar :: "os \<Rightarrow> config \<Rightarrow> grammar list \<Rightarrow> config" where
  "config_copy_grammar os cf grammar =
     cf\<lparr>cf_grammar := cf_grammar cf @ grammar @ common_grammar (os_machine os) (os_machine_arch os)\<rparr>"

definition default_path :: "string option \<Rightarrow> string \<Rightarrow> string" where
  "default_path path def = (case path of None \<Rightarrow> def | Some p \<Rightarrow> p)"

definition config_robsd_init :: "os \<Rightarrow> string option \<Rightarrow> config \<Rightarrow> config option" where
  "config_robsd_init os path cf =
     Some ((config_copy_grammar os cf robsd_grammar)
       \<lparr>cf_path := default_path path ''/etc/robsd.conf'', cf_steps := robsd_steps\<rparr>)"

definition config_robsd_cross_init :: "os \<Rightarrow> string option \<Rightarrow> config \<Rightarrow> config option" where
  "config_robsd_cross_init os path cf =
     Some ((config_copy_grammar os cf robsd_cross_grammar)
       \<lparr>cf_path := default_path path ''/etc/robsd-cross.conf'', cf_steps := robsd_cross_steps\<rparr>)"

definition config_robsd_ports_init :: "os \<Rightarrow> string option \<Rightarrow> config \<Rightarrow> config option" where
  "config_robsd_ports_init os path cf =
     Some ((config_copy_grammar os cf robsd_ports_grammar)
       \<lparr>cf_path := default_path path ''/etc/robsd-ports.conf'', cf_steps := robsd_ports_steps\<rparr>)"

definition RDOMAIN_MIN :: int where "RDOMAIN_MIN = 32"
definition RDOMAIN_MAX :: int where "RDOMAIN_MAX = 256"

definition config_robsd_regress_init :: "os \<Rightarrow> string option \<Rightarrow> config \<Rightarrow> config option" where
  "config_robsd_regress_init os path cf =
     Some ((config_copy_grammar os cf robsd_regress_grammar)
       \<lparr>cf_path := default_path path ''/etc/robsd-regress.conf'', cf_steps := robsd_regress_steps,
        cf_rdomain := RDOMAIN_MIN\<rparr>)"

definition config_canvas_init :: "os \<Rightarrow> string option \<Rightarrow> config \<Rightarrow> config option" where
  "config_canvas_init os path cf =
     (let cf' = (config_copy_grammar os cf canvas_grammar)\<lparr>cf_canvas_steps := []\<rparr> in
      case path of None \<Rightarrow> None | Some p \<Rightarrow> Some (cf'\<lparr>cf_path := p\<rparr>))"

definition config_init :: "robsd_mode \<Rightarrow> os \<Rightarrow> string option \<Rightarrow> config \<Rightarrow> config option" where
  "config_init m =
     (case m of
        ROBSD \<Rightarrow> config_robsd_init
      | ROBSD_CROSS \<Rightarrow> config_robsd_cross_init
      | ROBSD_PORTS \<Rightarrow> config_robsd_ports_init
      | ROBSD_REGRESS \<Rightarrow> config_robsd_regress_init
      | CANVAS \<Rightarrow> config_canvas_init)"

text \<open>\<open>None\<close> for NULL, or when the program ends for want of memory.\<close>

definition config_alloc :: "os \<Rightarrow> string \<Rightarrow> string option \<Rightarrow> config option" where
  "config_alloc os mode path =
     (case robsd_mode_parse mode of
        None \<Rightarrow> None
      | Some m \<Rightarrow>
          (case token_type_lookup_alloc (os_alloc os) m of
             None \<Rightarrow> None
           | Some lookup \<Rightarrow>
               config_init m os path
                 \<lparr>cf_path = [], cf_grammar = [], cf_variables = [], cf_lookup = lookup, cf_steps = [],
                  cf_canvas_steps = [], cf_early = False, cf_rdomain = 0, cf_trace = False,
                  cf_mode = m, cf_crashed = False\<rparr>))"

section \<open>Variables\<close>

text \<open>What a pointer to a variable points to: an element of the vector of variables, by its index,
  or the static variable for defaults.\<close>

datatype found = Stored nat | Static variable_value

definition found_val :: "config \<Rightarrow> found \<Rightarrow> variable_value" where
  "found_val cf f = (case f of Stored i \<Rightarrow> va_val (cf_variables cf ! i) | Static v \<Rightarrow> v)"

definition config_append :: "config \<Rightarrow> string \<Rightarrow> variable_value \<Rightarrow> found \<times> config" where
  "config_append cf name val =
     (Stored (length (cf_variables cf)),
      cf\<lparr>cf_variables := cf_variables cf @ [\<lparr>va_name = name, va_val = val\<rparr>]\<rparr>)"

definition config_append_string :: "config \<Rightarrow> string \<Rightarrow> string \<Rightarrow> found \<times> config" where
  "config_append_string cf name str = config_append cf name (VString str)"

definition config_present :: "config \<Rightarrow> string \<Rightarrow> bool" where
  "config_present cf name \<longleftrightarrow> (\<exists>va \<in> set (cf_variables cf). va_name va = name)"

definition config_find_grammar_for_keyword :: "config \<Rightarrow> string \<Rightarrow> grammar option" where
  "config_find_grammar_for_keyword cf needle =
     find (\<lambda>gr. gr_fn gr \<noteq> None \<and> gr_kw gr = needle) (cf_grammar cf)"

definition config_find_grammar_for_interpolation :: "config \<Rightarrow> string \<Rightarrow> grammar option" where
  "config_find_grammar_for_interpolation cf name =
     find (\<lambda>gr. grammar_equals gr name) (cf_grammar cf)"

definition is_early_variable :: "config \<Rightarrow> string \<Rightarrow> bool" where
  "is_early_variable cf name \<longleftrightarrow>
     (case config_find_grammar_for_interpolation cf name of
        None \<Rightarrow> False
      | Some gr \<Rightarrow> EARLY \<in> gr_flags gr)"

section \<open>Interpolation with the configuration\<close>

type_synonym finder = "string \<Rightarrow> config \<Rightarrow> found option \<times> config"

fun join_space :: "string list \<Rightarrow> string" where
  "join_space [] = []"
| "join_space [s] = s"
| "join_space (s # t # ss) = s @ CHR '' '' # join_space (t # ss)"

fun value_text :: "variable_value \<Rightarrow> string option" where
  "value_text VInvalid = None"
| "value_text (VInteger i) = Some (show_int (sint (word_of_int i :: i32)))"
| "value_text (VString s) = Some s"
| "value_text (VDirectory s) = Some s"
| "value_text (VList xs) = Some (join_space xs)"

text \<open>\<open>config_interpolate_lookup\<close>, the callback of the interpolation, which finds variables with
  \<open>fnd\<close>.\<close>

definition interpolate_lookup :: "finder \<Rightarrow> config lookup" where
  "interpolate_lookup fnd name cf =
     (if cf_early cf \<and> \<not> is_early_variable cf name then (None, cf)
      else
        (case fnd name cf of
           (None, cf') \<Rightarrow> (None, cf')
         | (Some f, cf') \<Rightarrow> (value_text (found_val cf' f), cf')))"

section \<open>Defaults\<close>

text \<open>The first line of the lock file that is present while robsd is running.\<close>

definition first_line :: "string \<Rightarrow> string option" where
  "first_line content = map_option (\<lambda>p. take p (cstr content)) (strchr (cstr content) NL)"

definition config_default_build_dir :: "os \<Rightarrow> finder \<Rightarrow> finder" where
  "config_default_build_dir os fnd name cf =
     (case interpolate_str (interpolate_lookup fnd) False cf ''${robsddir}/.running'' of
        (None, cf1) \<Rightarrow> (None, cf1)
      | (Some path, cf1) \<Rightarrow>
          (case os_read os path of
             None \<Rightarrow> (None, cf1)
           | Some content \<Rightarrow>
               (case first_line content of
                  None \<Rightarrow> (None, cf1)
                | Some dir \<Rightarrow> (case config_append_string cf1 name dir of (f, cf2) \<Rightarrow> (Some f, cf2)))))"

definition config_default_exec_dir :: "os \<Rightarrow> finder" where
  "config_default_exec_dir os name cf =
     (let execdir =
        (case os_getenv os ''EXECDIR'' of
           None \<Rightarrow> ''/usr/local/libexec/robsd''
         | Some d \<Rightarrow> if d = [] then ''/usr/local/libexec/robsd'' else d)
      in case config_append_string cf name execdir of (f, cf') \<Rightarrow> (Some f, cf'))"

definition group_addr :: "os \<Rightarrow> nat \<Rightarrow> string" where
  "group_addr os family = (case os_group_addr os ''egress'' family of None \<Rightarrow> [] | Some a \<Rightarrow> a)"

definition config_default_inet4 :: "os \<Rightarrow> finder" where
  "config_default_inet4 os name cf =
     (case config_append cf name (VString (group_addr os 4)) of (f, cf') \<Rightarrow> (Some f, cf'))"

definition config_default_inet6 :: "os \<Rightarrow> finder" where
  "config_default_inet6 os name cf =
     (case config_append cf name (VString (group_addr os 6)) of (f, cf') \<Rightarrow> (Some f, cf'))"

definition config_default_ncpu :: "os \<Rightarrow> finder" where
  "config_default_ncpu os name cf =
     (let ncpu = (if os_ncpu os = -1 then 1 else os_ncpu os) in
      case config_append cf name (VInteger ncpu) of (f, cf') \<Rightarrow> (Some f, cf'))"

definition config_default_trace :: finder where
  "config_default_trace name cf =
     (case config_append cf name (VString (if cf_trace cf then ''-x'' else [])) of
        (f, cf') \<Rightarrow> (Some f, cf'))"

definition config_default_parallel :: "finder \<Rightarrow> finder" where
  "config_default_parallel fnd name cf = fnd ''parallel'' cf"

text \<open>The counter moves on, and starts again at the lower bound when the value reaches the upper
  one.\<close>

definition config_default_rdomain :: finder where
  "config_default_rdomain name cf =
     (let rdomain = cf_rdomain cf;
          cf1 = cf\<lparr>cf_rdomain := rdomain + 1\<rparr>
      in if rdomain = RDOMAIN_MAX
         then (Some (Static (VInteger RDOMAIN_MIN)), cf1\<lparr>cf_rdomain := RDOMAIN_MIN\<rparr>)
         else (Some (Static (VInteger rdomain)), cf1))"

definition config_default_regress_targets :: finder where
  "config_default_regress_targets name cf =
     (case config_append cf name (VList [''regress'']) of (f, cf') \<Rightarrow> (Some f, cf'))"

definition config_default_regress_timeout :: "finder \<Rightarrow> finder" where
  "config_default_regress_timeout fnd name cf = fnd ''regress-timeout'' cf"

definition config_default :: "os \<Rightarrow> finder \<Rightarrow> default_fn \<Rightarrow> finder" where
  "config_default os fnd fn =
     (case fn of
        config_default_build_dir_fn \<Rightarrow> config_default_build_dir os fnd
      | config_default_exec_dir_fn \<Rightarrow> config_default_exec_dir os
      | config_default_inet4_fn \<Rightarrow> config_default_inet4 os
      | config_default_inet6_fn \<Rightarrow> config_default_inet6 os
      | config_default_ncpu_fn \<Rightarrow> config_default_ncpu os
      | config_default_trace_fn \<Rightarrow> config_default_trace
      | config_default_parallel_fn \<Rightarrow> config_default_parallel fnd
      | config_default_rdomain_fn \<Rightarrow> config_default_rdomain
      | config_default_regress_targets_fn \<Rightarrow> config_default_regress_targets
      | config_default_regress_timeout_fn \<Rightarrow> config_default_regress_timeout fnd)"

section \<open>Finding variables\<close>

definition variable_index :: "config \<Rightarrow> string \<Rightarrow> nat option" where
  "variable_index cf name =
     find (\<lambda>i. va_name (cf_variables cf ! i) = name) [0..<length (cf_variables cf)]"

definition static_default :: "grammar \<Rightarrow> variable_value option" where
  "static_default gr =
     (case gr_type gr of
        INVALID \<Rightarrow> None
      | INTEGER \<Rightarrow> Some (VInteger (gr_i32 (gr_default gr)))
      | STRING \<Rightarrow> Some (VString (case gr_s8 (gr_default gr) of None \<Rightarrow> [] | Some s \<Rightarrow> s))
      | DIRECTORY \<Rightarrow> Some (VDirectory (case gr_s8 (gr_default gr) of None \<Rightarrow> [] | Some s \<Rightarrow> s))
      | LIST \<Rightarrow> Some (VList []))"

text \<open>The first argument is what is left of the stack. An entry flagged as a function whose default
  is none would be a call through a wild pointer.\<close>

fun config_find_at :: "nat \<Rightarrow> os \<Rightarrow> finder" where
  "config_find_at 0 os name cf = (None, cf\<lparr>cf_crashed := True\<rparr>)"
| "config_find_at (Suc n) os name cf =
     (case variable_index cf name of
        Some i \<Rightarrow> (Some (Stored i), cf)
      | None \<Rightarrow>
          (case config_find_grammar_for_interpolation cf name of
             None \<Rightarrow> (None, cf)
           | Some gr \<Rightarrow>
               if REQ \<in> gr_flags gr then (None, cf)
               else if FUN \<in> gr_flags gr then
                 (case gr_default gr of
                    D_FUN fn \<Rightarrow> config_default os (config_find_at n os) fn name cf
                  | _ \<Rightarrow> (None, cf\<lparr>cf_crashed := True\<rparr>))
               else
                 (case static_default gr of
                    None \<Rightarrow> (None, cf\<lparr>cf_crashed := True\<rparr>)
                  | Some v \<Rightarrow> (Some (Static v), cf))))"

declare config_find_at.simps [simp del]

definition config_find :: "os \<Rightarrow> finder" where
  "config_find os = config_find_at (os_stack os) os"

definition config_get_value :: "os \<Rightarrow> config \<Rightarrow> string \<Rightarrow> variable_value option \<times> config" where
  "config_get_value os cf name =
     (case config_find os name cf of
        (None, cf') \<Rightarrow> (None, cf')
      | (Some f, cf') \<Rightarrow> (Some (found_val cf' f), cf'))"

definition config_find_or_create_list :: "os \<Rightarrow> config \<Rightarrow> string \<Rightarrow> found option \<times> config" where
  "config_find_or_create_list os cf name =
     (let cf1 = (if config_present cf name then cf else snd (config_append cf name (VList [])))
      in config_find os name cf1)"

definition config_interpolate_lookup :: "os \<Rightarrow> config lookup" where
  "config_interpolate_lookup os = interpolate_lookup (config_find os)"

definition config_interpolate_str :: "os \<Rightarrow> config \<Rightarrow> string \<Rightarrow> string option \<times> config" where
  "config_interpolate_str os cf str = interpolate_str (config_interpolate_lookup os) False cf str"

definition config_interpolate_file :: "os \<Rightarrow> config \<Rightarrow> string \<Rightarrow> string option \<times> config" where
  "config_interpolate_file os cf path =
     interpolate_file (config_interpolate_lookup os) False 0 cf (os_read os path)"

definition config_interpolate_early :: "os \<Rightarrow> config \<Rightarrow> string \<Rightarrow> string option \<times> config" where
  "config_interpolate_early os cf template =
     (case interpolate_str (config_interpolate_lookup os) True (cf\<lparr>cf_early := True\<rparr>) template of
        (str, cf') \<Rightarrow> (str, cf'\<lparr>cf_early := False\<rparr>))"

text \<open>Defines a variable from the command line; the flag tells that it was refused.\<close>

definition config_append_var :: "config \<Rightarrow> string \<Rightarrow> bool \<times> config" where
  "config_append_var cf str =
     (case strchr str (CHR ''='') of
        None \<Rightarrow> (True, cf)
      | Some namelen \<Rightarrow>
          (let name = take namelen str; val = drop (Suc namelen) str in
           if config_find_grammar_for_keyword cf name \<noteq> None then (True, cf)
           else (False, snd (config_append_string cf name val))))"

end
