(* ===== verification/ConfFind.thy ===== *)
theory ConfFind
  imports Conf
begin

text \<open>
  Lemmas about finding variables in a configuration: what a lookup may change, how deep the calls
  nest, and the properties of lookups, defaults, routing domains and variables from the command line.
\<close>

section \<open>The grammars\<close>

definition mode_grammar :: "robsd_mode \<Rightarrow> grammar list" where
  "mode_grammar m =
     (case m of
        ROBSD \<Rightarrow> robsd_grammar
      | ROBSD_CROSS \<Rightarrow> robsd_cross_grammar
      | ROBSD_PORTS \<Rightarrow> robsd_ports_grammar
      | ROBSD_REGRESS \<Rightarrow> robsd_regress_grammar
      | CANVAS \<Rightarrow> canvas_grammar)"

abbreviation full_grammar :: "os \<Rightarrow> robsd_mode \<Rightarrow> grammar list" where
  "full_grammar os m \<equiv> mode_grammar m @ common_grammar (os_machine os) (os_machine_arch os)"

text \<open>What the lookups rely on: entries for functions have one, entries without a default are
  required, names with a computed default are no keywords, and the names the defaults themselves ask
  for have no computed default.\<close>

definition grammar_ok :: "grammar list \<Rightarrow> bool" where
  "grammar_ok gs \<longleftrightarrow>
     (\<forall>gr \<in> set gs. FUN \<in> gr_flags gr \<longrightarrow>
        (\<exists>fn. gr_default gr = D_FUN fn) \<and> REQ \<notin> gr_flags gr \<and>
        (\<forall>gr' \<in> set gs. gr_fn gr' \<noteq> None \<longrightarrow> \<not> grammar_equals gr (gr_kw gr')) \<and>
        \<not> grammar_equals gr ''parallel'' \<and> \<not> grammar_equals gr ''regress-timeout'') \<and>
     (\<forall>gr \<in> set gs. REQ \<notin> gr_flags gr \<longrightarrow> gr_type gr \<noteq> INVALID) \<and>
     (\<forall>gr \<in> set gs. grammar_equals gr ''robsddir'' \<longrightarrow> REQ \<in> gr_flags gr \<and> FUN \<notin> gr_flags gr) \<and>
     (\<exists>gr \<in> set gs. gr_kw gr = ''robsddir'' \<and> gr_fn gr \<noteq> None)"

lemma fnmatch_patterns:
  "fnmatch ''regress-*-env'' s \<longleftrightarrow> (\<exists>m. s = ''regress-'' @ m @ ''-env'')"
  "fnmatch ''regress-*-targets'' s \<longleftrightarrow> (\<exists>m. s = ''regress-'' @ m @ ''-targets'')"
  "fnmatch ''regress-*-parallel'' s \<longleftrightarrow> (\<exists>m. s = ''regress-'' @ m @ ''-parallel'')"
  "fnmatch ''regress-*-timeout'' s \<longleftrightarrow> (\<exists>m. s = ''regress-'' @ m @ ''-timeout'')"
  using fnmatch_around [of "''regress-''" "''-env''" s] fnmatch_around [of "''regress-''" "''-targets''" s]
    fnmatch_around [of "''regress-''" "''-parallel''" s] fnmatch_around [of "''regress-''" "''-timeout''" s]
  by simp_all

lemmas grammar_tables =
  robsd_grammar_def robsd_cross_grammar_def robsd_ports_grammar_def robsd_regress_grammar_def
  canvas_grammar_def common_grammar_def

text \<open>The same as a computation over the table.\<close>

definition grammar_checked :: "grammar list \<Rightarrow> bool" where
  "grammar_checked gs \<longleftrightarrow>
     list_all (\<lambda>gr. FUN \<in> gr_flags gr \<longrightarrow>
        (case gr_default gr of D_FUN fn \<Rightarrow> True | _ \<Rightarrow> False) \<and> REQ \<notin> gr_flags gr \<and>
        list_all (\<lambda>gr'. gr_fn gr' \<noteq> None \<longrightarrow> \<not> grammar_equals gr (gr_kw gr')) gs \<and>
        \<not> grammar_equals gr ''parallel'' \<and> \<not> grammar_equals gr ''regress-timeout'') gs \<and>
     list_all (\<lambda>gr. REQ \<notin> gr_flags gr \<longrightarrow> gr_type gr \<noteq> INVALID) gs \<and>
     list_all (\<lambda>gr. grammar_equals gr ''robsddir'' \<longrightarrow> REQ \<in> gr_flags gr \<and> FUN \<notin> gr_flags gr) gs \<and>
     list_ex (\<lambda>gr. gr_kw gr = ''robsddir'' \<and> gr_fn gr \<noteq> None) gs"

lemma grammar_checked_ok: "grammar_checked gs \<Longrightarrow> grammar_ok gs"
proof -
  have "(case d of D_FUN fn \<Rightarrow> True | _ \<Rightarrow> False) \<longleftrightarrow> (\<exists>fn. d = D_FUN fn)" for d by (cases d) auto
  then show "grammar_checked gs \<Longrightarrow> grammar_ok gs"
    unfolding grammar_checked_def grammar_ok_def list_all_iff list_ex_iff by simp
qed

lemma grammar_ok_mode: "grammar_ok (full_grammar os m)"
proof -
  have "grammar_checked (mode_grammar m @ common_grammar machine arch)" for machine arch
    by (induction m; code_simp)
  then show ?thesis by (rule grammar_checked_ok)
qed

lemma grammar_ok_fun:
  assumes "grammar_ok gs" "gr \<in> set gs" "FUN \<in> gr_flags gr"
  shows "\<exists>fn. gr_default gr = D_FUN fn" "REQ \<notin> gr_flags gr"
    "gr' \<in> set gs \<Longrightarrow> gr_fn gr' \<noteq> None \<Longrightarrow> \<not> grammar_equals gr (gr_kw gr')"
    "\<not> grammar_equals gr ''parallel''" "\<not> grammar_equals gr ''regress-timeout''"
  using assms by (simp_all add: grammar_ok_def)

lemma grammar_ok_type: "grammar_ok gs \<Longrightarrow> gr \<in> set gs \<Longrightarrow> REQ \<notin> gr_flags gr \<Longrightarrow> gr_type gr \<noteq> INVALID"
  by (simp add: grammar_ok_def)

lemma grammar_ok_robsddir:
  "grammar_ok gs \<Longrightarrow> gr \<in> set gs \<Longrightarrow> grammar_equals gr ''robsddir'' \<Longrightarrow> REQ \<in> gr_flags gr \<and> FUN \<notin> gr_flags gr"
  "grammar_ok gs \<Longrightarrow> \<exists>gr \<in> set gs. gr_kw gr = ''robsddir'' \<and> gr_fn gr \<noteq> None"
  by (simp_all add: grammar_ok_def)

definition conf_ok :: "config \<Rightarrow> bool" where
  "conf_ok cf \<longleftrightarrow> grammar_ok (cf_grammar cf)"

definition mode_conf :: "os \<Rightarrow> config \<Rightarrow> bool" where
  "mode_conf os cf \<longleftrightarrow> cf_grammar cf = full_grammar os (cf_mode cf)"

lemma mode_conf_ok: "mode_conf os cf \<Longrightarrow> conf_ok cf"
  by (simp add: mode_conf_def conf_ok_def grammar_ok_mode)

lemma config_alloc_mode:
  assumes "config_alloc os mode path = Some cf"
  shows "mode_conf os cf \<and> robsd_mode_parse mode = Some (cf_mode cf) \<and> cf_variables cf = [] \<and>
    \<not> cf_crashed cf \<and> \<not> cf_early cf \<and> cf_canvas_steps cf = [] \<and>
    token_type_lookup_alloc (os_alloc os) (cf_mode cf) = Some (cf_lookup cf)"
proof -
  obtain m lookup where m: "robsd_mode_parse mode = Some m"
    "token_type_lookup_alloc (os_alloc os) m = Some lookup"
    using assms by (auto simp: config_alloc_def split: option.splits)
  with assms show ?thesis
    by (cases m)
      (auto simp: config_alloc_def config_init_def mode_conf_def mode_grammar_def Let_def
        config_robsd_init_def config_robsd_cross_init_def config_robsd_ports_init_def
        config_robsd_regress_init_def config_canvas_init_def config_copy_grammar_def
        split: option.splits)
qed

section \<open>What a lookup may change\<close>

definition same_setup :: "config \<Rightarrow> config \<Rightarrow> bool" where
  "same_setup cf cf' \<longleftrightarrow>
     cf_path cf' = cf_path cf \<and> cf_grammar cf' = cf_grammar cf \<and> cf_lookup cf' = cf_lookup cf \<and>
     cf_steps cf' = cf_steps cf \<and> cf_canvas_steps cf' = cf_canvas_steps cf \<and>
     cf_early cf' = cf_early cf \<and> cf_trace cf' = cf_trace cf \<and> cf_mode cf' = cf_mode cf"

definition keyword :: "config \<Rightarrow> string \<Rightarrow> bool" where
  "keyword cf name \<longleftrightarrow> config_find_grammar_for_keyword cf name \<noteq> None"

text \<open>Lookups append variables, none of which is a keyword, and a crash is for good.\<close>

definition frame :: "config \<Rightarrow> config \<Rightarrow> bool" where
  "frame cf cf' \<longleftrightarrow>
     same_setup cf cf' \<and> (cf_crashed cf \<longrightarrow> cf_crashed cf') \<and>
     (\<exists>new. cf_variables cf' = cf_variables cf @ new \<and>
        (conf_ok cf \<longrightarrow> (\<forall>va \<in> set new. \<not> keyword cf (va_name va))))"

lemma frame_refl [simp]: "frame cf cf"
  by (simp add: frame_def same_setup_def)

lemma frame_trans: "frame a b \<Longrightarrow> frame b c \<Longrightarrow> frame a c"
  by (auto simp: frame_def same_setup_def conf_ok_def keyword_def config_find_grammar_for_keyword_def)

lemma frame_crash: "frame cf (cf\<lparr>cf_crashed := True\<rparr>)"
  by (simp add: frame_def same_setup_def)

lemma frame_rdomain: "frame cf (cf\<lparr>cf_rdomain := r\<rparr>)"
  by (simp add: frame_def same_setup_def)

lemma frame_append:
  assumes "config_append cf name v = (f, cf')" "conf_ok cf \<Longrightarrow> \<not> keyword cf name"
  shows "frame cf cf'"
  using assms by (auto simp: config_append_def frame_def same_setup_def)

lemma keyword_frame: "frame cf cf' \<Longrightarrow> keyword cf' name = keyword cf name"
  by (simp add: frame_def same_setup_def keyword_def config_find_grammar_for_keyword_def)

lemma conf_ok_frame: "frame cf cf' \<Longrightarrow> conf_ok cf' = conf_ok cf"
  by (simp add: frame_def same_setup_def conf_ok_def)

text \<open>A name with a computed default is no keyword.\<close>

lemma computed_no_keyword:
  assumes "conf_ok cf" "config_find_grammar_for_interpolation cf name = Some gr" "FUN \<in> gr_flags gr"
  shows "\<not> keyword cf name"
proof -
  have gr: "gr \<in> set (cf_grammar cf)" "grammar_equals gr name"
    using assms(2) by (auto simp: config_find_grammar_for_interpolation_def find_Some_iff)
  then have "gr_fn gr' = None" if "gr' \<in> set (cf_grammar cf)" "gr_kw gr' = name" for gr'
    using grammar_ok_fun(3) [of "cf_grammar cf" gr gr'] that assms(1,3)
    by (cases "gr_fn gr'") (auto simp: conf_ok_def)
  then show ?thesis
    by (auto simp: keyword_def config_find_grammar_for_keyword_def find_Some_iff)
qed

definition finder_frame :: "finder \<Rightarrow> bool" where
  "finder_frame fnd \<longleftrightarrow> (\<forall>name cf r cf'. fnd name cf = (r, cf') \<longrightarrow> frame cf cf')"

lemma lookup_frame_finder:
  assumes "finder_frame fnd"
  shows "lookup_frame (interpolate_lookup fnd) frame"
proof
  show "frame cf cf'" if "interpolate_lookup fnd name cf = (r, cf')" for name cf r cf'
    using that assms
    by (auto simp: interpolate_lookup_def finder_frame_def split: if_splits prod.splits option.splits)
qed (auto intro: frame_trans)

lemma config_default_frame:
  assumes "finder_frame fnd" "config_default os fnd fn name cf = (r, cf')"
    and "conf_ok cf \<Longrightarrow> \<not> keyword cf name"
  shows "frame cf cf'"
proof -
  note app = frame_append [OF _ assms(3)]
  have build: "frame cf cf'" if r: "config_default_build_dir os fnd name cf = (r, cf')"
  proof -
    obtain p cf1 where i: "interpolate_str (interpolate_lookup fnd) False cf ''${robsddir}/.running'' = (p, cf1)"
      by fastforce
    have f: "frame cf cf1"
      by (rule lookup_frame.interpolate_str_rel [OF lookup_frame_finder [OF assms(1)] i])
    then have "conf_ok cf1 \<Longrightarrow> \<not> keyword cf1 name"
      using assms(3) by (simp add: keyword_frame conf_ok_frame)
    from frame_append [OF _ this] f r i show ?thesis
      by (auto simp: config_default_build_dir_def config_append_string_def
          split: option.splits prod.splits intro: frame_trans)
  qed
  show ?thesis
    using assms(1,2) app build
    by (auto simp: config_default_def config_default_exec_dir_def config_default_inet4_def
        config_default_inet6_def config_default_ncpu_def config_default_trace_def
        config_default_parallel_def config_default_rdomain_def config_default_regress_targets_def
        config_default_regress_timeout_def config_append_string_def finder_frame_def Let_def
        frame_rdomain split: default_fn.splits prod.splits if_splits)
qed

lemma config_find_at_frame: "config_find_at n os name cf = (r, cf') \<Longrightarrow> frame cf cf'"
proof (induction n arbitrary: name cf r cf')
  case 0
  then show ?case by (auto simp: config_find_at.simps frame_crash)
next
  case (Suc n)
  then have ff: "finder_frame (config_find_at n os)" by (simp add: finder_frame_def)
  show ?case
  proof (cases "variable_index cf name")
    case (Some i)
    with Suc.prems show ?thesis by (simp add: config_find_at.simps)
  next
    case None
    show ?thesis
    proof (cases "config_find_grammar_for_interpolation cf name")
      case None
      with \<open>variable_index cf name = None\<close> Suc.prems show ?thesis by (simp add: config_find_at.simps)
    next
      case (Some gr)
      show ?thesis
      proof (cases "\<exists>fn. REQ \<notin> gr_flags gr \<and> FUN \<in> gr_flags gr \<and> gr_default gr = D_FUN fn")
        case True
        then obtain fn where fn: "REQ \<notin> gr_flags gr" "FUN \<in> gr_flags gr" "gr_default gr = D_FUN fn"
          by blast
        have "config_default os (config_find_at n os) fn name cf = (r, cf')"
          using Suc.prems None Some fn by (simp add: config_find_at.simps)
        then show ?thesis
          using config_default_frame [OF ff] computed_no_keyword [OF _ Some fn(2)] by blast
      next
        case False
        with Suc.prems None Some show ?thesis
          by (auto simp: config_find_at.simps frame_crash
              split: if_splits option.splits grammar_default.splits)
      qed
    qed
  qed
qed

lemma config_find_frame: "config_find os name cf = (r, cf') \<Longrightarrow> frame cf cf'"
  unfolding config_find_def by (rule config_find_at_frame)

interpretation conf_frame: lookup_frame "config_interpolate_lookup os" frame for os
  unfolding config_interpolate_lookup_def
  by (rule lookup_frame_finder) (simp add: finder_frame_def config_find_frame)

section \<open>Independence of the stack\<close>

lemma lookup_agree_finder:
  assumes "finder_frame fnd"
    and "\<And>name cf r cf'. fnd name cf = (r, cf') \<Longrightarrow> \<not> cf_crashed cf' \<Longrightarrow> fnd' name cf = (r, cf')"
  shows "lookup_agree (interpolate_lookup fnd) (interpolate_lookup fnd') cf_crashed"
proof
  fix name cf r cf'
  assume i: "interpolate_lookup fnd name cf = (r, cf')"
  show "cf_crashed cf \<Longrightarrow> cf_crashed cf'"
    using i assms(1)
    by (auto simp: interpolate_lookup_def finder_frame_def frame_def
        split: if_splits prod.splits option.splits)
  assume "\<not> cf_crashed cf'"
  with i assms(2) show "interpolate_lookup fnd' name cf = (r, cf')"
    by (fastforce simp: interpolate_lookup_def split: if_splits prod.splits option.splits)
qed

lemma config_default_agree:
  assumes "finder_frame fnd"
    and agree: "\<And>name cf r cf'. fnd name cf = (r, cf') \<Longrightarrow> \<not> cf_crashed cf' \<Longrightarrow> fnd' name cf = (r, cf')"
    and r: "config_default os fnd fn name cf = (r, cf')" "\<not> cf_crashed cf'"
  shows "config_default os fnd' fn name cf = (r, cf')"
proof (cases "fn = config_default_build_dir_fn")
  case True
  obtain p cf1 where i: "interpolate_str (interpolate_lookup fnd) False cf ''${robsddir}/.running'' = (p, cf1)"
    by fastforce
  have "\<not> cf_crashed cf1"
    using r True i
    by (auto simp: config_default_def config_default_build_dir_def config_append_string_def
        config_append_def split: option.splits)
  from lookup_agree.interpolate_str_agree [OF lookup_agree_finder [OF assms(1,2)] i this]
  have "interpolate_str (interpolate_lookup fnd') False cf ''${robsddir}/.running'' = (p, cf1)" by simp
  with r True i show ?thesis by (simp add: config_default_def config_default_build_dir_def)
next
  case False
  with r agree show ?thesis
    by (cases fn) (simp_all add: config_default_def config_default_parallel_def
        config_default_regress_timeout_def)
qed

lemma config_find_at_Suc:
  "config_find_at n os name cf = (r, cf') \<Longrightarrow> \<not> cf_crashed cf' \<Longrightarrow>
   config_find_at (Suc n) os name cf = (r, cf')"
proof (induction n arbitrary: name cf r cf')
  case 0
  then show ?case by (auto simp: config_find_at.simps)
next
  case (Suc n)
  have ff: "finder_frame (config_find_at n os)" by (simp add: finder_frame_def config_find_at_frame)
  note d = config_default_agree [OF ff Suc.IH]
  show ?case
    using Suc.prems unfolding config_find_at.simps(2) [of "Suc n" os name cf] config_find_at.simps(2) [of n os name cf]
    by (auto split: option.splits if_splits grammar_default.splits intro: d)
qed

interpretation stack_agree: lookup_agree "interpolate_lookup (config_find_at n os)"
  "interpolate_lookup (config_find_at (Suc n) os)" cf_crashed for n os
  by (rule lookup_agree_finder) (auto simp: finder_frame_def dest: config_find_at_frame config_find_at_Suc)

lemma config_find_at_mono:
  "n \<le> m \<Longrightarrow> config_find_at n os name cf = (r, cf') \<Longrightarrow> \<not> cf_crashed cf' \<Longrightarrow>
   config_find_at m os name cf = (r, cf')"
  by (induction m rule: dec_induct) (simp_all add: config_find_at_Suc)

section \<open>Three frames are enough\<close>

text \<open>A directory that refers to no variable.\<close>

definition literal_robsddir :: "config \<Rightarrow> bool" where
  "literal_robsddir cf \<longleftrightarrow>
     (case variable_index cf ''robsddir'' of
        None \<Rightarrow> True
      | Some i \<Rightarrow>
          (case value_text (va_val (cf_variables cf ! i)) of None \<Rightarrow> True | Some t \<Rightarrow> dollar \<notin> set t))"

lemma find_upt: "find P [0..<n] = Some i \<longleftrightarrow> i < n \<and> P i \<and> (\<forall>j < i. \<not> P j)"
  by (auto simp: find_Some_iff intro!: exI [of _ i])

lemma variable_index_Some:
  "variable_index cf name = Some i \<longleftrightarrow>
   i < length (cf_variables cf) \<and> va_name (cf_variables cf ! i) = name \<and>
   (\<forall>j < i. va_name (cf_variables cf ! j) \<noteq> name)"
  by (simp add: variable_index_def find_upt)

lemma variable_index_append:
  assumes "cf_variables cf' = cf_variables cf @ new" "variable_index cf name = Some i"
  shows "variable_index cf' name = Some i \<and> i < length (cf_variables cf)"
  using assms by (auto simp: variable_index_Some nth_append)

lemma variable_index_None:
  "variable_index cf name = None \<longleftrightarrow> \<not> config_present cf name"
  unfolding variable_index_def config_present_def find_None_iff
  by (auto simp: in_set_conv_nth) (metis nth_mem)

lemma keyword_robsddir: "conf_ok cf \<Longrightarrow> keyword cf ''robsddir''"
  using grammar_ok_robsddir(2) [of "cf_grammar cf"]
  by (auto simp: conf_ok_def keyword_def config_find_grammar_for_keyword_def find_None_iff)

lemma literal_robsddir_frame:
  assumes "frame cf cf'" "conf_ok cf" "literal_robsddir cf"
  shows "literal_robsddir cf'"
proof -
  obtain new where new: "cf_variables cf' = cf_variables cf @ new"
    "\<forall>va \<in> set new. \<not> keyword cf (va_name va)" using assms(1,2) by (auto simp: frame_def)
  show ?thesis
  proof (cases "variable_index cf ''robsddir''")
    case (Some i)
    with variable_index_append [OF new(1)] new(1) assms(3) show ?thesis
      by (simp add: literal_robsddir_def nth_append)
  next
    case None
    then have "variable_index cf' ''robsddir'' = None"
      using new keyword_robsddir [OF assms(2)] by (auto simp: variable_index_None config_present_def)
    then show ?thesis by (simp add: literal_robsddir_def)
  qed
qed

lemma config_find_at_plain:
  assumes "conf_ok cf" "\<And>gr. gr \<in> set (cf_grammar cf) \<Longrightarrow> grammar_equals gr name \<Longrightarrow> FUN \<notin> gr_flags gr"
  shows "\<exists>r. config_find_at (Suc n) os name cf = (r, cf) \<and>
    (variable_index cf name = Some i \<longrightarrow> r = Some (Stored i))"
proof (cases "variable_index cf name")
  case (Some j)
  then show ?thesis by (simp add: config_find_at.simps)
next
  case None
  show ?thesis
  proof (cases "config_find_grammar_for_interpolation cf name")
    case None
    with \<open>variable_index cf name = None\<close> show ?thesis by (simp add: config_find_at.simps)
  next
    case (Some gr)
    then have gr: "gr \<in> set (cf_grammar cf)" "grammar_equals gr name"
      by (auto simp: config_find_grammar_for_interpolation_def find_Some_iff)
    then have "REQ \<notin> gr_flags gr \<Longrightarrow> static_default gr \<noteq> None"
      using grammar_ok_type [of "cf_grammar cf" gr] assms(1)
      by (cases "gr_type gr") (auto simp: conf_ok_def static_default_def)
    with None Some assms(2) [OF gr] show ?thesis by (auto simp: config_find_at.simps)
  qed
qed

lemma robsddir_plain:
  assumes "conf_ok cf" "gr \<in> set (cf_grammar cf)" "grammar_equals gr ''robsddir''"
  shows "REQ \<in> gr_flags gr" "FUN \<notin> gr_flags gr"
  using grammar_ok_robsddir(1) [of "cf_grammar cf" gr] assms by (simp_all add: conf_ok_def)

lemma interpolate_robsddir:
  assumes "conf_ok cf" "literal_robsddir cf"
    and "interpolate_str (interpolate_lookup (config_find_at (Suc n) os)) False cf ''${robsddir}/.running'' = (r, cf')"
  shows "cf' = cf"
proof -
  let ?lk = "interpolate_lookup (config_find_at (Suc n) os)"
  obtain r1 where r1: "config_find_at (Suc n) os ''robsddir'' cf = (r1, cf)"
    "\<And>i. variable_index cf ''robsddir'' = Some i \<Longrightarrow> r1 = Some (Stored i)"
    using config_find_at_plain [where n = n and os = os and i = "the (variable_index cf ''robsddir'')",
        OF assms(1) robsddir_plain(2) [OF assms(1)]]
    by (cases "variable_index cf ''robsddir''") auto
  have none: "r1 = None" if "variable_index cf ''robsddir'' = None"
    using that r1(1) robsddir_plain(1) [OF assms(1)]
    by (auto simp: config_find_at.simps config_find_grammar_for_interpolation_def find_Some_iff
        split: option.splits if_splits)
  have "\<exists>v. ?lk ''robsddir'' cf = (v, cf) \<and> (\<forall>t. v = Some t \<longrightarrow> dollar \<notin> set t)"
    using r1 none assms(2)
    by (cases "variable_index cf ''robsddir''")
      (auto simp: interpolate_lookup_def literal_robsddir_def found_val_def split: option.splits)
  then obtain v where v: "?lk ''robsddir'' cf = (v, cf)" "\<And>t. v = Some t \<Longrightarrow> dollar \<notin> set t"
    by blast
  have "interpolate_inner ?lk False 1 cf [] ([] @ ref ''robsddir'' @ ''/.running'') = (e, s, bf) \<Longrightarrow> s = cf"
    for e s bf
    using v by (subst (asm) inner_ref) (auto simp: interpolate_step inner_plain split: option.splits)
  then show ?thesis
    using assms(3)
    by (auto simp: interpolate_str_def interpolate_buffer_def interpolate_step split: prod.splits option.splits)
qed

lemma config_append_crash: "config_append cf name v = (f, cf') \<Longrightarrow> cf_crashed cf' = cf_crashed cf"
  by (auto simp: config_append_def)

lemma config_find_at_calm:
  assumes "conf_ok cf" "literal_robsddir cf"
    and "config_find_at (Suc (Suc (Suc n))) os name cf = (r, cf')"
  shows "cf_crashed cf' = cf_crashed cf"
proof (cases "variable_index cf name")
  case (Some i)
  with assms(3) show ?thesis by (simp add: config_find_at.simps(2) [of "Suc (Suc n)"])
next
  case None
  show ?thesis
  proof (cases "config_find_grammar_for_interpolation cf name")
    case None
    with \<open>variable_index cf name = None\<close> assms(3) show ?thesis
      by (simp add: config_find_at.simps(2) [of "Suc (Suc n)"])
  next
    case (Some gr)
    then have gr: "gr \<in> set (cf_grammar cf)"
      by (auto simp: config_find_grammar_for_interpolation_def find_Some_iff)
    have gok: "grammar_ok (cf_grammar cf)" using assms(1) by (simp add: conf_ok_def)
    show ?thesis
    proof (cases "FUN \<in> gr_flags gr")
      case False
      have "REQ \<notin> gr_flags gr \<Longrightarrow> static_default gr \<noteq> None"
        using grammar_ok_type [OF gok gr] by (cases "gr_type gr") (auto simp: static_default_def)
      with None Some False assms(3) show ?thesis
        by (auto simp: config_find_at.simps(2) [of "Suc (Suc n)"] split: option.splits if_splits)
    next
      case True
      then obtain fn where fn: "gr_default gr = D_FUN fn" "REQ \<notin> gr_flags gr"
        using grammar_ok_fun(1,2) [OF gok gr] by blast
      let ?fnd = "config_find_at (Suc (Suc n)) os"
      have d: "config_default os ?fnd fn name cf = (r, cf')"
        using assms(3) None Some True fn by (simp add: config_find_at.simps(2) [of "Suc (Suc n)"])
      have plain: "cf'' = cf" if "?fnd x cf = (r', cf'')" "x = ''parallel'' \<or> x = ''regress-timeout''" for x r' cf''
        using config_find_at_plain [OF assms(1), of x "Suc n" os 0] that
          grammar_ok_fun(4,5) [OF gok] by auto
      have build: "cf_crashed cf' = cf_crashed cf" if b: "config_default_build_dir os ?fnd name cf = (r, cf')"
      proof -
        obtain p cf1 where i: "interpolate_str (interpolate_lookup ?fnd) False cf ''${robsddir}/.running'' = (p, cf1)"
          by fastforce
        have "cf1 = cf" by (rule interpolate_robsddir [OF assms(1,2) i])
        with b i show ?thesis
          by (auto simp: config_default_build_dir_def config_append_string_def
              split: option.splits prod.splits dest: config_append_crash)
      qed
      show ?thesis
        using d build plain
        by (auto simp: config_default_def config_default_exec_dir_def config_default_inet4_def
            config_default_inet6_def config_default_ncpu_def config_default_trace_def
            config_default_parallel_def config_default_rdomain_def config_default_regress_targets_def
            config_default_regress_timeout_def config_append_string_def Let_def
            split: default_fn.splits prod.splits if_splits dest: config_append_crash)
    qed
  qed
qed

text \<open>Being calm is kept by every lookup, so it holds through an interpolation.\<close>

definition calm :: "config \<Rightarrow> bool" where
  "calm cf \<longleftrightarrow> conf_ok cf \<and> literal_robsddir cf \<and> \<not> cf_crashed cf"

lemma config_find_calm:
  assumes "os_stack os \<ge> 3" "config_find os name cf = (r, cf')" "calm cf"
  shows "calm cf'"
proof -
  obtain n where n: "os_stack os = Suc (Suc (Suc n))"
    using assms(1) by (metis Suc_le_D numeral_3_eq_3 Suc_le_mono)
  then have "cf_crashed cf' = cf_crashed cf"
    using config_find_at_calm [of cf n os name r cf'] assms(2,3) by (simp add: calm_def config_find_def)
  with config_find_frame [OF assms(2)] assms(3) show ?thesis
    by (auto simp: calm_def conf_ok_frame literal_robsddir_frame)
qed

lemma conf_calm:
  assumes "os_stack os \<ge> 3"
  shows "lookup_frame (config_interpolate_lookup os) (\<lambda>cf cf'. calm cf \<longrightarrow> calm cf')"
proof
  show "calm cf \<longrightarrow> calm cf'" if "config_interpolate_lookup os name cf = (r, cf')" for name cf r cf'
    using that config_find_calm [OF assms]
    by (auto simp: config_interpolate_lookup_def interpolate_lookup_def
        split: if_splits prod.splits option.splits)
qed auto

section \<open>Routing domains\<close>

text \<open>The number a counter hands out, and the counter afterwards.\<close>

fun rdomain_next :: "int \<Rightarrow> int \<times> int" where
  "rdomain_next c = (if c = 256 then (32, 32) else (c, c + 1))"

fun rdomain_counter :: "int \<Rightarrow> nat \<Rightarrow> int" where
  "rdomain_counter c 0 = c"
| "rdomain_counter c (Suc k) = rdomain_counter (snd (rdomain_next c)) k"

declare rdomain_next.simps [simp del]

lemma rdomain_counter_end: "rdomain_counter c (Suc k) = snd (rdomain_next (rdomain_counter c k))"
  by (induction k arbitrary: c) simp_all

text \<open>Starting at 32, the counter comes back to 32 every 225 numbers.\<close>

lemma rdomain_counter_32: "rdomain_counter 32 k = 32 + int (k mod 225)"
proof (induction k)
  case (Suc k)
  have "rdomain_counter 32 (Suc k) = snd (rdomain_next (32 + int (k mod 225)))"
    unfolding rdomain_counter_end Suc by simp
  also have "\<dots> = 32 + int (Suc k mod 225)"
    by (auto simp: rdomain_next.simps mod_Suc)
  finally show ?case .
qed simp

definition rdomain_number :: "nat \<Rightarrow> int" where
  "rdomain_number k = fst (rdomain_next (rdomain_counter 32 k))"

lemma rdomain_number_eq:
  "rdomain_number k = (if k mod 225 = 224 then 32 else 32 + int (k mod 225))"
  by (auto simp: rdomain_number_def rdomain_counter_32 rdomain_next.simps)

text \<open>The regression configuration asks for a routing domain.\<close>

lemma is_early_rdomain:
  assumes "mode_conf os cf" "cf_mode cf = ROBSD_REGRESS"
  shows "config_find_grammar_for_interpolation cf ''rdomain'' =
      Some (entry ''rdomain'' INTEGER None {FUN, EARLY} (D_FUN config_default_rdomain_fn))"
    "is_early_variable cf ''rdomain''"
  using assms
  by (simp_all add: is_early_variable_def config_find_grammar_for_interpolation_def mode_conf_def
      mode_grammar_def robsd_regress_grammar_def grammar_equals_def)

lemma config_find_rdomain:
  assumes "mode_conf os cf" "cf_mode cf = ROBSD_REGRESS" "\<not> config_present cf ''rdomain''"
    and "os_stack os > 0"
  shows "config_find os ''rdomain'' cf =
    (Some (Static (VInteger (fst (rdomain_next (cf_rdomain cf))))),
     cf\<lparr>cf_rdomain := snd (rdomain_next (cf_rdomain cf))\<rparr>)"
proof -
  obtain n where "os_stack os = Suc n" using assms(4) by (cases "os_stack os") auto
  then show ?thesis
    using assms(3) is_early_rdomain(1) [OF assms(1,2)]
    by (simp add: config_find_def config_find_at.simps(2) variable_index_None [THEN iffD2]
        config_default_def config_default_rdomain_def rdomain_next.simps RDOMAIN_MIN_def RDOMAIN_MAX_def Let_def)
qed

text \<open>A template made of literal texts around references to the routing domain, and what it becomes.\<close>

fun rdomain_template :: "string list \<Rightarrow> string" where
  "rdomain_template [] = []"
| "rdomain_template (l # ls) = ref ''rdomain'' @ l @ rdomain_template ls"

fun rdomain_text :: "int \<Rightarrow> string list \<Rightarrow> string" where
  "rdomain_text c [] = []"
| "rdomain_text c (l # ls) =
     show_int (fst (rdomain_next c)) @ l @ rdomain_text (snd (rdomain_next c)) ls"

text \<open>A small integer is printed as it is.\<close>

lemma value_text_small: "INT32_MIN \<le> i \<Longrightarrow> i \<le> INT_MAX \<Longrightarrow> value_text (VInteger i) = Some (show_int i)"
  by (simp add: sint_i32_of_int)

lemma rdomain_next_range:
  "32 \<le> c \<Longrightarrow> c \<le> 256 \<Longrightarrow>
   32 \<le> fst (rdomain_next c) \<and> fst (rdomain_next c) < 256 \<and> 32 \<le> snd (rdomain_next c) \<and> snd (rdomain_next c) \<le> 256"
  by (simp add: rdomain_next.simps)

lemma interpolate_rdomains:
  assumes "mode_conf os cf" "cf_mode cf = ROBSD_REGRESS" "\<not> config_present cf ''rdomain''" "os_stack os > 0"
    and "cf_early cf" "32 \<le> cf_rdomain cf" "cf_rdomain cf \<le> 256"
    and "\<forall>l \<in> set ls. dollar \<notin> set l" "dollar \<notin> set p"
  shows "interpolate_inner (config_interpolate_lookup os) True 1 cf bf (p @ rdomain_template ls) =
    (None, cf\<lparr>cf_rdomain := rdomain_counter (cf_rdomain cf) (length ls)\<rparr>,
     bf @ p @ rdomain_text (cf_rdomain cf) ls)"
  using assms
proof (induction ls arbitrary: cf bf p)
  case Nil
  then show ?case by (simp add: inner_plain)
next
  case (Cons l ls)
  let ?v = "fst (rdomain_next (cf_rdomain cf))" and ?c = "snd (rdomain_next (cf_rdomain cf))"
  let ?cf = "cf\<lparr>cf_rdomain := ?c\<rparr>"
  note r = rdomain_next_range [OF Cons.prems(6,7)]
  have lk: "config_interpolate_lookup os ''rdomain'' cf = (Some (show_int ?v), ?cf)"
    using config_find_rdomain [OF Cons.prems(1-4)] is_early_rdomain(2) [OF Cons.prems(1,2)] r
    by (simp add: config_interpolate_lookup_def interpolate_lookup_def found_val_def value_text_small
        del: value_text.simps)
  have "dollar \<notin> set (show_int ?v)" using show_int_chars [of dollar ?v] by (auto simp: is_digit_def)
  then have val: "interpolate (config_interpolate_lookup os) True 1 ?cf (bf @ p) (show_int ?v) =
      (None, ?cf, bf @ p @ show_int ?v)"
    by (simp add: interpolate_step inner_plain)
  have ih: "interpolate_inner (config_interpolate_lookup os) True 1 ?cf bf2 (l @ rdomain_template ls) =
      (None, ?cf\<lparr>cf_rdomain := rdomain_counter ?c (length ls)\<rparr>, bf2 @ l @ rdomain_text ?c ls)" for bf2
    using Cons.IH [of ?cf l bf2] Cons.prems r by (simp add: mode_conf_def config_present_def)
  have "interpolate_inner (config_interpolate_lookup os) True 1 cf bf
      (p @ ref ''rdomain'' @ l @ rdomain_template ls) =
    (None, ?cf\<lparr>cf_rdomain := rdomain_counter ?c (length ls)\<rparr>, bf @ p @ show_int ?v @ l @ rdomain_text ?c ls)"
    using Cons.prems(9) by (subst inner_ref) (simp_all add: lk val ih del: One_nat_def)
  then show ?case by simp
qed

fun rdomain_lookups :: "os \<Rightarrow> nat \<Rightarrow> config \<Rightarrow> variable_value option list" where
  "rdomain_lookups os 0 cf = []"
| "rdomain_lookups os (Suc k) cf =
     (case config_get_value os cf ''rdomain'' of (v, cf') \<Rightarrow> v # rdomain_lookups os k cf')"

lemma rdomain_lookups_counter:
  assumes "mode_conf os cf" "cf_mode cf = ROBSD_REGRESS" "\<not> config_present cf ''rdomain''" "os_stack os > 0"
  shows "rdomain_lookups os k cf =
    map (\<lambda>i. Some (VInteger (fst (rdomain_next (rdomain_counter (cf_rdomain cf) i))))) [0..<k]"
  using assms
proof (induction k arbitrary: cf)
  case (Suc k)
  let ?cf = "cf\<lparr>cf_rdomain := snd (rdomain_next (cf_rdomain cf))\<rparr>"
  have "rdomain_lookups os k ?cf =
      map (\<lambda>i. Some (VInteger (fst (rdomain_next (rdomain_counter (cf_rdomain cf) (Suc i)))))) [0..<k]"
    using Suc.IH [of ?cf] Suc.prems by (simp add: mode_conf_def config_present_def)
  also have "\<dots> = map (\<lambda>i. Some (VInteger (fst (rdomain_next (rdomain_counter (cf_rdomain cf) i))))) [1..<Suc k]"
    by (simp add: map_Suc_upt [symmetric] del: rdomain_counter.simps upt_Suc)
  finally show ?case
    using config_find_rdomain [OF Suc.prems]
    by (simp add: config_get_value_def found_val_def upt_conv_Cons del: upt_Suc)
qed simp

section \<open>Lookups of one variable\<close>

lemma config_get_value_stored:
  assumes "os_stack os > 0" "variable_index cf name = Some i"
  shows "config_get_value os cf name = (Some (va_val (cf_variables cf ! i)), cf)"
  using assms by (cases "os_stack os")
    (simp_all add: config_get_value_def config_find_def config_find_at.simps found_val_def)

section \<open>Properties\<close>

text \<open>C33: when the directory of robsd is a literal path, interpolating any string with the
  configuration of any mode never runs into an assertion, a trap or the end of the stack, as long as
  the stack holds three nested calls of \<open>config_find\<close>.\<close>

theorem interpolation_never_crashes:
  assumes "mode_conf os cf" "literal_robsddir cf" "\<not> cf_crashed cf" "os_stack os \<ge> 3"
    and "config_interpolate_str os cf str = (r, cf')"
  shows "\<not> cf_crashed cf' \<and> literal_robsddir cf' \<and> mode_conf os cf'"
proof -
  have "calm cf" using assms(1-3) by (simp add: calm_def mode_conf_ok)
  moreover have "frame cf cf'"
    using conf_frame.interpolate_str_rel assms(5) unfolding config_interpolate_str_def by blast
  ultimately show ?thesis
    using lookup_frame.interpolate_str_rel [OF conf_calm [OF assms(4)]] assms(1,5)
    by (auto simp: config_interpolate_str_def calm_def frame_def same_setup_def mode_conf_def)
qed

definition sample_os :: os where
  "sample_os = \<lparr>os_machine = ''amd64'', os_machine_arch = ''amd64'', os_getenv = (\<lambda>_. None),
     os_read = (\<lambda>p. if p = ''/home/robsd/.running'' then Some (''/home/robsd/2024-01-01.1'' @ [NL]) else None),
     os_is_dir = (\<lambda>_. Some True), os_getpwnam = (\<lambda>_. True), os_glob = (\<lambda>_. GLOB_NOMATCH),
     os_ncpu = 4, os_group_addr = (\<lambda>_ _. None), os_strerror = [], os_alloc = (\<lambda>_. True),
     os_stack = 3\<rparr>"

definition sample_conf :: "robsd_mode \<Rightarrow> variable list \<Rightarrow> config" where
  "sample_conf m vars =
     \<lparr>cf_path = ''/etc/robsd.conf'', cf_grammar = full_grammar sample_os m, cf_variables = vars,
      cf_lookup = the (token_type_lookup_alloc (\<lambda>_. True) m), cf_steps = [], cf_canvas_steps = [],
      cf_early = False, cf_rdomain = 32, cf_trace = False, cf_mode = m, cf_crashed = False\<rparr>"

theorem interpolation_never_crashes_witness:
  "\<not> cf_crashed (snd (config_interpolate_str sample_os
     (sample_conf ROBSD [\<lparr>va_name = ''robsddir'', va_val = VString ''/home/robsd''\<rparr>]) ''${tags-path}''))"
proof -
  let ?cf = "sample_conf ROBSD [\<lparr>va_name = ''robsddir'', va_val = VString ''/home/robsd''\<rparr>]"
  obtain r cf' where i: "config_interpolate_str sample_os ?cf ''${tags-path}'' = (r, cf')" by fastforce
  have "\<not> cf_crashed cf' \<and> literal_robsddir cf' \<and> mode_conf sample_os cf'"
    by (rule interpolation_never_crashes [OF _ _ _ _ i])
      (simp_all add: mode_conf_def sample_conf_def literal_robsddir_def variable_index_def sample_os_def)
  then show ?thesis using i by simp
qed

text \<open>What a lookup returns, and what it leaves behind, does not depend on the size of the stack,
  unless the stack runs out.\<close>

lemma lookup_independent_of_stack:
  assumes "config_find_at n os name cf = (r, cf')" and "\<not> cf_crashed cf'" and "n \<le> m"
  shows "config_find_at m os name cf = (r, cf')"
  using config_find_at_mono [OF assms(3,1,2)] .

theorem lookup_independent_of_stack_witness:
  "config_find_at 1000 sample_os ''keep'' (sample_conf ROBSD []) =
   (Some (Static (VInteger 0)), sample_conf ROBSD [])"
  by (rule lookup_independent_of_stack [where n = 1])
    (simp_all add: config_find_at.simps sample_conf_def mode_grammar_def variable_index_def
      config_find_grammar_for_interpolation_def grammar_equals_def robsd_grammar_def common_grammar_def
      static_default_def)

text \<open>A text is doomed when its substitution crashes, whatever is in the buffer. A text is doomed that
  starts with a reference whose lookup crashes, or whose value is doomed itself.\<close>

definition doomed :: "finder \<Rightarrow> config \<Rightarrow> nat \<Rightarrow> string \<Rightarrow> bool" where
  "doomed fnd cf d text1 \<longleftrightarrow>
     (\<forall>bf e s bf'. interpolate_inner (interpolate_lookup fnd) False d cf bf text1 = (e, s, bf') \<longrightarrow> cf_crashed s)"

lemma frame_crashed: "frame a b \<Longrightarrow> cf_crashed a \<Longrightarrow> cf_crashed b"
  by (simp add: frame_def)

lemma doomed_lookup:
  assumes "finder_frame fnd" "name \<noteq> []" "CHR ''}'' \<notin> set name"
    and "interpolate_lookup fnd name cf = (v, cf0)" "cf_crashed cf0"
  shows "doomed fnd cf d (ref name @ rest)"
  unfolding doomed_def
proof (intro allI impI)
  fix bf e s bf' assume "interpolate_inner (interpolate_lookup fnd) False d cf bf (ref name @ rest) = (e, s, bf')"
  then have "frame cf0 s"
    by (intro lookup_frame.inner_ref_rel(1) [OF lookup_frame_finder [OF assms(1)] _ assms(2-4), where l = "[]"]) simp_all
  then show "cf_crashed s" using assms(5) by (rule frame_crashed)
qed

lemma doomed_value:
  assumes "finder_frame fnd" "name \<noteq> []" "CHR ''}'' \<notin> set name"
    and "interpolate_lookup fnd name cf = (Some v, cf)" "d < 4" "doomed fnd cf (Suc d) v"
  shows "doomed fnd cf d (ref name @ rest)"
  unfolding doomed_def
proof (intro allI impI)
  fix bf e s bf' assume i: "interpolate_inner (interpolate_lookup fnd) False d cf bf (ref name @ rest) = (e, s, bf')"
  obtain e2 s2 bf2 where n: "interpolate (interpolate_lookup fnd) False d cf (bf @ []) v = (e2, s2, bf2)"
    by (cases "interpolate (interpolate_lookup fnd) False d cf (bf @ []) v")
  then have "cf_crashed s2"
    using assms(6) unfolding doomed_def interpolate_step [OF assms(5)] by blast
  have "interpolate_inner (interpolate_lookup fnd) False d cf bf ([] @ ref name @ rest) = (e, s, bf')" using i by simp
  from lookup_frame.inner_ref_rel(2) [OF lookup_frame_finder [OF assms(1)] _ assms(2-4) this refl n]
  have "frame s2 s" by simp
  then show "cf_crashed s" using \<open>cf_crashed s2\<close> by (rule frame_crashed)
qed

lemma doomed_str:
  assumes "doomed fnd cf 1 text1" "interpolate_str (interpolate_lookup fnd) False cf text1 = (p, cf1)"
  shows "cf_crashed cf1"
  using assms
  by (auto simp: doomed_def interpolate_str_def interpolate_buffer_def interpolate_step split: prod.splits option.splits)

lemma builddir_crash:
  assumes "mode_conf os cf" "\<not> config_present cf ''builddir''"
    and "doomed (config_find_at n os) cf 1 ''${robsddir}/.running''"
  shows "cf_crashed (snd (config_find_at (Suc n) os ''builddir'' cf))"
proof -
  obtain p cf1 where p: "interpolate_str (interpolate_lookup (config_find_at n os)) False cf ''${robsddir}/.running'' = (p, cf1)"
    by fastforce
  moreover have "cf_crashed cf1" using doomed_str [OF assms(3) p] .
  moreover have "config_find_grammar_for_interpolation cf ''builddir'' =
      Some (entry ''builddir'' STRING None {FUN} (D_FUN config_default_build_dir_fn))"
    using assms(1)
    by (cases "cf_mode cf")
      (simp_all add: mode_conf_def mode_grammar_def grammar_tables grammar_equals_def fnmatch_patterns
        config_find_grammar_for_interpolation_def append_eq_Cons_conv)
  ultimately show ?thesis
    using assms(2)
    by (auto simp: config_find_at.simps(2) variable_index_None [THEN iffD2] config_default_def
        config_default_build_dir_def config_append_string_def config_append_def split: option.splits)
qed



text \<open>Early interpolation of a template replaces its references to the routing domain by
  consecutive numbers of the counter, all of them from 32 to 255.\<close>

lemma early_interpolation_numbers_rdomains:
  assumes "mode_conf os cf" "cf_mode cf = ROBSD_REGRESS" "\<not> config_present cf ''rdomain''" "os_stack os > 0"
    and "\<not> cf_early cf" "32 \<le> cf_rdomain cf" "cf_rdomain cf \<le> 256" "\<forall>l \<in> set (p # ls). dollar \<notin> set l"
  shows "config_interpolate_early os cf (p @ rdomain_template ls) =
    (Some (p @ rdomain_text (cf_rdomain cf) ls),
     cf\<lparr>cf_rdomain := rdomain_counter (cf_rdomain cf) (length ls)\<rparr>)"
  using interpolate_rdomains [of os "cf\<lparr>cf_early := True\<rparr>" ls p "[]"] assms
  by (simp add: config_interpolate_early_def interpolate_str_def interpolate_buffer_def
      interpolate_step mode_conf_def config_present_def)

theorem early_interpolation_numbers_rdomains_witness:
  "fst (config_interpolate_early sample_os (sample_conf ROBSD_REGRESS [])
     (''RD='' @ rdomain_template ['','', []])) = Some ''RD=32,33''"
proof -
  have "config_interpolate_early sample_os (sample_conf ROBSD_REGRESS []) (''RD='' @ rdomain_template ['','', []]) =
    (Some (''RD='' @ rdomain_text (cf_rdomain (sample_conf ROBSD_REGRESS [])) ['','', []]),
     (sample_conf ROBSD_REGRESS [])\<lparr>cf_rdomain :=
       rdomain_counter (cf_rdomain (sample_conf ROBSD_REGRESS [])) (length ['','', []])\<rparr>)"
    by (rule early_interpolation_numbers_rdomains)
      (simp_all add: mode_conf_def sample_conf_def config_present_def sample_os_def)
  then show ?thesis
    by (simp add: sample_conf_def rdomain_next.simps show_int_def digit_char_def show_nat.simps)
qed

text \<open>C35: the routing domains handed out from the start are 32 to 255 in turn; after 224 of them the
  number 32 is handed out twice in a row, and all are within the bounds.\<close>

theorem rdomain_sequence:
  assumes "mode_conf os cf" "cf_mode cf = ROBSD_REGRESS" "\<not> config_present cf ''rdomain''" "os_stack os > 0"
    and "cf_rdomain cf = RDOMAIN_MIN"
  shows "rdomain_lookups os k cf =
    map (\<lambda>i. Some (VInteger (if i mod 225 = 224 then 32 else 32 + int (i mod 225)))) [0..<k]"
  using rdomain_lookups_counter [OF assms(1-4), of k] assms(5)
  by (simp add: RDOMAIN_MIN_def rdomain_number_def [symmetric] rdomain_number_eq)

theorem rdomain_sequence_witness:
  "rdomain_lookups sample_os 226 (sample_conf ROBSD_REGRESS []) ! 224 = Some (VInteger 32) \<and>
   rdomain_lookups sample_os 226 (sample_conf ROBSD_REGRESS []) ! 225 = Some (VInteger 32)"
  by (subst (1 2) rdomain_sequence)
    (simp_all add: mode_conf_def sample_conf_def config_present_def sample_os_def RDOMAIN_MIN_def)

text \<open> A variable given on the command line is refused when its name is a keyword of the mode;
  otherwise a lookup of the name returns the text after the first equal sign, or the value the name
  had before.\<close>

lemma append_var_then_lookup:
  assumes "CHR ''='' \<notin> set name" "os_stack os > 0"
    and "config_append_var cf (name @ CHR ''='' # val) = (refused, cf')"
  shows "if config_find_grammar_for_keyword cf name \<noteq> None then refused \<and> cf' = cf
    else \<not> refused \<and>
      fst (config_get_value os cf' name) =
        (case variable_index cf name of
           None \<Rightarrow> Some (VString val)
         | Some i \<Rightarrow> Some (va_val (cf_variables cf ! i)))"
proof (cases "config_find_grammar_for_keyword cf name")
  case (Some gr)
  with assms(1,3) show ?thesis by (simp add: config_append_var_def strchr_append)
next
  case None
  then have r: "\<not> refused" "cf_variables cf' = cf_variables cf @ [\<lparr>va_name = name, va_val = VString val\<rparr>]"
    using assms(1,3)
    by (auto simp: config_append_var_def strchr_append config_append_string_def config_append_def)
  show ?thesis
  proof (cases "variable_index cf name")
    case (Some i)
    from variable_index_append [OF r(2) Some] show ?thesis
      using config_get_value_stored [OF assms(2), of cf' name i] None Some r by (simp add: nth_append)
  next
    case n: None
    then have "variable_index cf' name = Some (length (cf_variables cf))"
      using r(2) by (auto simp: variable_index_Some variable_index_None config_present_def nth_append)
    then show ?thesis
      using config_get_value_stored [OF assms(2), of cf' name] None n r by simp
  qed
qed

theorem append_var_then_lookup_witness:
  "fst (config_get_value sample_os
     (snd (config_append_var (sample_conf ROBSD []) (''id'' @ CHR ''='' # ''a=b''))) ''id'') = Some (VString ''a=b'')"
proof -
  obtain refused cf' where a: "config_append_var (sample_conf ROBSD []) (''id'' @ CHR ''='' # ''a=b'') = (refused, cf')"
    by fastforce
  have "config_find_grammar_for_keyword (sample_conf ROBSD []) ''id'' = None"
    by (simp add: config_find_grammar_for_keyword_def sample_conf_def mode_grammar_def
        robsd_grammar_def common_grammar_def)
  moreover have "variable_index (sample_conf ROBSD []) ''id'' = None"
    by (simp add: sample_conf_def variable_index_def)
  moreover have "os_stack sample_os > 0" by (simp add: sample_os_def)
  ultimately have "fst (config_get_value sample_os cf' ''id'') = Some (VString ''a=b'')"
    using append_var_then_lookup [OF _ _ a, of sample_os] by simp
  then show ?thesis unfolding a by simp
qed

end
