(* ===== verification/ConfParse.thy ===== *)
theory ConfParse
  imports ConfLexer ConfFind
begin

text \<open>
  Parsing a configuration file: the parser routines of \<open>conf.c\<close>, \<open>conf-robsd-regress.c\<close> and
  \<open>conf-canvas.c\<close>, the loop over the keywords and the validation. Loops that might not end return
  \<open>None\<close> when they do not.
\<close>

section \<open>Parser routines\<close>

datatype config_rv = CONFIG_APPEND | CONFIG_ERROR | CONFIG_NOP | CONFIG_FATAL

text \<open>The value is meaningful when the routine returns \<open>CONFIG_APPEND\<close>.\<close>

type_synonym parsed = "config_rv \<times> variable_value \<times> config \<times> conf_lexer"

abbreviation cexpect :: "conf_lexer \<Rightarrow> conf_token \<Rightarrow> conf_token token option \<times> conf_lexer" where
  "cexpect lx t \<equiv> lexer_expect conf_token_serialize lx (Tok t)"

abbreviation cif :: "conf_lexer \<Rightarrow> conf_token \<Rightarrow> conf_token token option \<times> conf_lexer" where
  "cif lx t \<equiv> lexer_if lx (Tok t)"

abbreviation squote :: "string \<Rightarrow> string" where
  "squote s \<equiv> CHR 0x27 # s @ [CHR 0x27]"

definition config_parse_boolean :: "config \<Rightarrow> conf_lexer \<Rightarrow> parsed" where
  "config_parse_boolean cf lx =
     (case cexpect lx TOKEN_BOOLEAN of
        (None, lx1) \<Rightarrow> (CONFIG_ERROR, VInvalid, cf, lx1)
      | (Some tk, lx1) \<Rightarrow> (CONFIG_APPEND, VInteger (if tk_int tk \<noteq> 0 then 1 else 0), cf, lx1))"

definition config_parse_string :: "config \<Rightarrow> conf_lexer \<Rightarrow> parsed" where
  "config_parse_string cf lx =
     (case cexpect lx TOKEN_STRING of
        (None, lx1) \<Rightarrow> (CONFIG_ERROR, VInvalid, cf, lx1)
      | (Some tk, lx1) \<Rightarrow> (CONFIG_APPEND, VString (tk_str tk), cf, lx1))"

definition config_parse_integer :: "config \<Rightarrow> conf_lexer \<Rightarrow> parsed" where
  "config_parse_integer cf lx =
     (case cexpect lx TOKEN_INTEGER of
        (None, lx1) \<Rightarrow> (CONFIG_ERROR, VInvalid, cf, lx1)
      | (Some tk, lx1) \<Rightarrow> (CONFIG_APPEND, VInteger (tk_int tk), cf, lx1))"

definition config_parse_glob :: "os \<Rightarrow> config \<Rightarrow> conf_lexer \<Rightarrow> parsed" where
  "config_parse_glob os cf lx =
     (case cexpect lx TOKEN_STRING of
        (None, lx1) \<Rightarrow> (CONFIG_ERROR, VInvalid, cf, lx1)
      | (Some tk, lx1) \<Rightarrow>
          (case os_glob os (tk_str tk) of
             GLOB_NOMATCH \<Rightarrow> (CONFIG_NOP, VInvalid, cf, lx1)
           | GLOB_FAILED \<Rightarrow>
               (CONFIG_FATAL, VInvalid, cf, lexer_error lx1 (tk_lno tk) (''glob: '' @ os_strerror os))
           | GLOB_PATHS paths \<Rightarrow> (CONFIG_APPEND, VList paths, cf, lx1)))"

partial_function (option) config_parse_list_loop ::
  "string list \<Rightarrow> conf_lexer \<Rightarrow> (string list option \<times> conf_lexer) option" where
  "config_parse_list_loop xs lx =
     (case lexer_peek lx (Tok TOKEN_RBRACE) of (b, lx1) \<Rightarrow>
        if b then Some (Some xs, lx1)
        else
          (case cexpect lx1 TOKEN_STRING of
             (None, lx2) \<Rightarrow> Some (None, lx2)
           | (Some tk, lx2) \<Rightarrow> config_parse_list_loop (xs @ [tk_str tk]) lx2))"

definition config_parse_list :: "config \<Rightarrow> conf_lexer \<Rightarrow> parsed option" where
  "config_parse_list cf lx =
     (case cexpect lx TOKEN_LBRACE of
        (None, lx1) \<Rightarrow> Some (CONFIG_ERROR, VInvalid, cf, lx1)
      | (Some _, lx1) \<Rightarrow>
          Option.bind (config_parse_list_loop [] lx1) (\<lambda>(r, lx2).
            case r of
              None \<Rightarrow> Some (CONFIG_FATAL, VInvalid, cf, lx2)
            | Some xs \<Rightarrow>
                (case cexpect lx2 TOKEN_RBRACE of
                   (None, lx3) \<Rightarrow> Some (CONFIG_FATAL, VInvalid, cf, lx3)
                 | (Some _, lx3) \<Rightarrow> Some (CONFIG_APPEND, VList xs, cf, lx3))))"

definition config_parse_user :: "os \<Rightarrow> config \<Rightarrow> conf_lexer \<Rightarrow> parsed" where
  "config_parse_user os cf lx =
     (case cexpect lx TOKEN_STRING of
        (None, lx1) \<Rightarrow> (CONFIG_ERROR, VInvalid, cf, lx1)
      | (Some tk, lx1) \<Rightarrow>
          if \<not> os_getpwnam os (tk_str tk) then
            (CONFIG_ERROR, VString (tk_str tk), cf,
             lexer_error lx1 (tk_lno tk) (''user '' @ squote (tk_str tk) @ '' not found''))
          else (CONFIG_APPEND, VString (tk_str tk), cf, lx1))"

text \<open>The scaled timeout, or an error when it does not fit.\<close>

definition timeout_scaled ::
  "int \<Rightarrow> variable_value \<Rightarrow> conf_token token \<Rightarrow> config \<Rightarrow> conf_lexer \<Rightarrow> parsed" where
  "timeout_scaled scalar timeout tk cf lx =
     (case KS_i32_mul_overflow (word_of_int scalar)
             (case timeout of VInteger i \<Rightarrow> word_of_int i | _ \<Rightarrow> 0) of
        (ovf, v) \<Rightarrow>
          if ovf then (CONFIG_ERROR, VInvalid, cf, lexer_error lx (tk_lno tk) ''timeout too large'')
          else (CONFIG_APPEND, VInteger (sint v), cf, lx))"

definition config_parse_timeout :: "config \<Rightarrow> conf_lexer \<Rightarrow> parsed" where
  "config_parse_timeout cf lx =
     (case config_parse_integer cf lx of (rv, timeout, cf1, lx1) \<Rightarrow>
        if rv = CONFIG_ERROR then (CONFIG_ERROR, VInvalid, cf1, lx1)
        else
          (case cif lx1 TOKEN_SECONDS of
             (Some tk, lx2) \<Rightarrow> timeout_scaled 1 timeout tk cf1 lx2
           | (None, lx2) \<Rightarrow>
          (case cif lx2 TOKEN_MINUTES of
             (Some tk, lx3) \<Rightarrow> timeout_scaled 60 timeout tk cf1 lx3
           | (None, lx3) \<Rightarrow>
          (case cif lx3 TOKEN_HOURS of
             (Some tk, lx4) \<Rightarrow> timeout_scaled 3600 timeout tk cf1 lx4
           | (None, lx4) \<Rightarrow>
          (case lexer_next lx4 of
             (None, lx5) \<Rightarrow> (CONFIG_ERROR, VInvalid, cf1, lx5)
           | (Some nx, lx5) \<Rightarrow>
               (CONFIG_ERROR, VInvalid, cf1, lexer_error lx5 (tk_lno nx) ''unknown timeout unit''))))))"

definition config_parse_directory :: "os \<Rightarrow> config \<Rightarrow> conf_lexer \<Rightarrow> parsed" where
  "config_parse_directory os cf lx =
     (case cexpect lx TOKEN_STRING of
        (None, lx1) \<Rightarrow> (CONFIG_ERROR, VInvalid, cf, lx1)
      | (Some tk, lx1) \<Rightarrow>
          (let dir = tk_str tk in
           if dir = [] then (CONFIG_ERROR, VString dir, cf, lx1)
           else
             (case interpolate_str (config_interpolate_lookup os) False cf dir of
                (None, cf1) \<Rightarrow> (CONFIG_ERROR, VString dir, cf1, lx1)
              | (Some path, cf1) \<Rightarrow>
                  (case os_is_dir os path of
                     None \<Rightarrow>
                       (CONFIG_ERROR, VString dir, cf1,
                        lexer_error lx1 (tk_lno tk) (path @ '': '' @ os_strerror os))
                   | Some False \<Rightarrow>
                       (CONFIG_ERROR, VString dir, cf1,
                        lexer_error lx1 (tk_lno tk) (path @ '': is not a directory''))
                   | Some True \<Rightarrow> (CONFIG_APPEND, VString dir, cf1, lx1)))))"

section \<open>Routines of the canvas mode\<close>

definition config_steps_add_script :: "config_step list \<Rightarrow> string \<Rightarrow> string \<Rightarrow> config_step list" where
  "config_steps_add_script steps script step_name =
     steps @ [\<lparr>cs_name = step_name,
               cs_command = VList [''sh'', ''-eu'', ''${trace}'', script, step_name],
               cs_parallel = False\<rparr>]"

definition config_parse_canvas_directory :: "os \<Rightarrow> config \<Rightarrow> conf_lexer \<Rightarrow> parsed" where
  "config_parse_canvas_directory os cf lx =
     (case config_parse_directory os cf lx of (rv, val, cf1, lx1) \<Rightarrow>
        if rv \<noteq> CONFIG_APPEND then (rv, val, cf1, lx1)
        else
          (let cf2 = snd (config_append cf1 ''canvas-dir'' val);
               cf3 = snd (config_append cf2 ''robsddir'' val)
           in (CONFIG_NOP, val, cf3, lx1)))"

text \<open>Prepends \<open>env\<close> and the environment to a command.\<close>

definition canvas_command :: "os \<Rightarrow> config \<Rightarrow> string list \<Rightarrow> variable_value \<times> config" where
  "canvas_command os cf command =
     (case config_find os ''env'' cf of
        (None, cf1) \<Rightarrow> (VList command, cf1)
      | (Some f, cf1) \<Rightarrow>
          (case va_list (found_val cf1 f) of
             None \<Rightarrow> (VList command, cf1\<lparr>cf_crashed := True\<rparr>)
           | Some v \<Rightarrow> (VList (''env'' # v @ command), cf1)))"

text \<open>The options of a step; \<open>None\<close> for an error.\<close>

partial_function (option) canvas_step_loop ::
  "os \<Rightarrow> variable_value \<Rightarrow> bool \<Rightarrow> config \<Rightarrow> conf_lexer \<Rightarrow>
   ((variable_value \<times> bool) option \<times> config \<times> conf_lexer) option" where
  "canvas_step_loop os command parallel cf lx =
     (case cif lx TOKEN_COMMAND of
        (Some _, lx1) \<Rightarrow>
          Option.bind (config_parse_list cf lx1) (\<lambda>(rv, val, cf1, lx2).
            if rv \<noteq> CONFIG_APPEND then Some (None, cf1, lx2)
            else if val = VList [] then canvas_step_loop os val parallel cf1 lx2
            else
              (case canvas_command os cf1 (case val of VList xs \<Rightarrow> xs | _ \<Rightarrow> []) of
                 (command', cf2) \<Rightarrow> canvas_step_loop os command' parallel cf2 lx2))
      | (None, lx1) \<Rightarrow>
          (case cif lx1 TOKEN_PARALLEL of
             (Some _, lx2) \<Rightarrow> canvas_step_loop os command True cf lx2
           | (None, lx2) \<Rightarrow> Some (Some (command, parallel), cf, lx2)))"

definition config_parse_canvas_step :: "os \<Rightarrow> config \<Rightarrow> conf_lexer \<Rightarrow> parsed option" where
  "config_parse_canvas_step os cf lx =
     (case config_parse_string cf lx of (rv, name, cf1, lx1) \<Rightarrow>
        if rv \<noteq> CONFIG_APPEND then Some (rv, VInvalid, cf1, lx1)
        else
          Option.bind (canvas_step_loop os VInvalid False cf1 lx1) (\<lambda>(r, cf2, lx2).
            case r of
              None \<Rightarrow> Some (CONFIG_ERROR, VInvalid, cf2, lx2)
            | Some (command, parallel) \<Rightarrow>
                if \<not> is_variable_value_valid command \<or> command = VList [] then
                  Some (CONFIG_ERROR, VInvalid, cf2,
                    lexer_error lx2 (case lexer_back lx2 of None \<Rightarrow> 0 | Some tk \<Rightarrow> tk_lno tk)
                      (''mandatory step option '' @ squote ''command'' @ '' missing''))
                else
                  (let cf3 = (if cf_canvas_steps cf2 = [] then snd (config_append cf2 ''step'' VInvalid)
                              else cf2);
                       step = \<lparr>cs_name = (case name of VString s \<Rightarrow> s | _ \<Rightarrow> []), cs_command = command,
                               cs_parallel = parallel\<rparr>
                   in Some (CONFIG_NOP, VInvalid, cf3\<lparr>cf_canvas_steps := cf_canvas_steps cf3 @ [step]\<rparr>,
                            lx2))))"

section \<open>Routines of the regress mode\<close>

definition regressname :: "string \<Rightarrow> string \<Rightarrow> string" where
  "regressname path suffix = ''regress-'' @ path @ CHR ''-'' # suffix"

definition store_value :: "config \<Rightarrow> nat \<Rightarrow> variable_value \<Rightarrow> config" where
  "store_value cf i v = cf\<lparr>cf_variables := (cf_variables cf)[i := (cf_variables cf ! i)\<lparr>va_val := v\<rparr>]\<rparr>"

text \<open>Finds or creates a list variable and appends to it. A value that is no list fails the assertion,
  a missing variable would be a null pointer.\<close>

definition config_concat :: "os \<Rightarrow> config \<Rightarrow> string \<Rightarrow> variable_value \<Rightarrow> config" where
  "config_concat os cf name val =
     (case config_find_or_create_list os cf name of
        (None, cf1) \<Rightarrow> cf1\<lparr>cf_crashed := True\<rparr>
      | (Some f, cf1) \<Rightarrow>
          (case variable_value_concat (found_val cf1 f) val of
             None \<Rightarrow> cf1\<lparr>cf_crashed := True\<rparr>
           | Some v \<Rightarrow> (case f of Stored i \<Rightarrow> store_value cf1 i v | Static _ \<Rightarrow> cf1)))"

definition config_parse_regress_option_env ::
  "os \<Rightarrow> string \<Rightarrow> config \<Rightarrow> conf_lexer \<Rightarrow> (bool \<times> config \<times> conf_lexer) option" where
  "config_parse_regress_option_env os path cf lx =
     Option.bind (config_parse_list cf lx) (\<lambda>(rv, newval, cf1, lx1).
       if rv \<noteq> CONFIG_APPEND then Some (True, cf1, lx1)
       else
         (let name = regressname path ''env'';
              i = length (cf_variables cf1);
              cf2 = snd (config_append cf1 name
                (VList (''${regress-env}'' # (case newval of VList xs \<Rightarrow> xs | _ \<Rightarrow> []))))
          in case config_interpolate_early os cf2 (''${'' @ name @ ''}'') of
               (None, cf3) \<Rightarrow> Some (True, cf3, lx1)
             | (Some str, cf3) \<Rightarrow> Some (False, store_value cf3 i (VString str), lx1)))"

text \<open>Takes the first of some tokens that comes next.\<close>

fun lexer_choose :: "conf_lexer \<Rightarrow> conf_token list \<Rightarrow> conf_token option \<times> conf_lexer" where
  "lexer_choose lx [] = (None, lx)"
| "lexer_choose lx (t # ts) =
     (case cif lx t of (Some _, lx1) \<Rightarrow> (Some t, lx1) | (None, lx1) \<Rightarrow> lexer_choose lx1 ts)"

text \<open>An option that takes a list and adds it to a list variable.\<close>

definition regress_option_list ::
  "os \<Rightarrow> string \<Rightarrow> config \<Rightarrow> conf_lexer \<Rightarrow> (bool \<times> config \<times> conf_lexer) option" where
  "regress_option_list os name cf lx =
     Option.bind (config_parse_list cf lx) (\<lambda>(rv, newval, cf1, lx1).
       if rv \<noteq> CONFIG_APPEND then Some (True, cf1, lx1)
       else Some (False, config_concat os cf1 name newval, lx1))"

definition regress_option ::
  "os \<Rightarrow> string \<Rightarrow> conf_token \<Rightarrow> config \<Rightarrow> conf_lexer \<Rightarrow> (bool \<times> config \<times> conf_lexer) option" where
  "regress_option os path t cf lx =
     (if t = TOKEN_ENV then config_parse_regress_option_env os path cf lx
      else if t = TOKEN_NO_PARALLEL then
        Some (False, snd (config_append cf (regressname path ''parallel'') (VInteger 0)), lx)
      else if t = TOKEN_OBJ then regress_option_list os ''regress-obj'' cf lx
      else if t = TOKEN_PACKAGES then regress_option_list os ''regress-packages'' cf lx
      else if t = TOKEN_QUIET then
        Some (False, snd (config_append cf (regressname path ''quiet'') (VInteger 1)), lx)
      else if t = TOKEN_ROOT then
        Some (False, snd (config_append cf (regressname path ''root'') (VInteger 1)), lx)
      else if t = TOKEN_TARGETS then regress_option_list os (regressname path ''targets'') cf lx
      else
        (case config_parse_timeout cf lx of (rv, newval, cf1, lx1) \<Rightarrow>
           if rv \<noteq> CONFIG_APPEND then Some (True, cf1, lx1)
           else Some (False, snd (config_append cf1 (regressname path ''timeout'') newval), lx1)))"

definition regress_options :: "conf_token list" where
  "regress_options =
     [TOKEN_ENV, TOKEN_NO_PARALLEL, TOKEN_OBJ, TOKEN_PACKAGES, TOKEN_QUIET, TOKEN_ROOT,
      TOKEN_TARGETS, TOKEN_TIMEOUT]"

partial_function (option) regress_loop ::
  "os \<Rightarrow> string \<Rightarrow> config \<Rightarrow> conf_lexer \<Rightarrow> (bool \<times> config \<times> conf_lexer) option" where
  "regress_loop os path cf lx =
     (case lexer_choose lx regress_options of
        (None, lx1) \<Rightarrow> Some (False, cf, lx1)
      | (Some t, lx1) \<Rightarrow>
          Option.bind (regress_option os path t cf lx1) (\<lambda>(e, cf1, lx2).
            if e then Some (True, cf1, lx2) else regress_loop os path cf1 lx2))"

definition config_parse_regress :: "os \<Rightarrow> config \<Rightarrow> conf_lexer \<Rightarrow> parsed option" where
  "config_parse_regress os cf lx =
     (case cexpect lx TOKEN_STRING of
        (None, lx1) \<Rightarrow> Some (CONFIG_ERROR, VInvalid, cf, lx1)
      | (Some tk, lx1) \<Rightarrow>
          Option.bind (regress_loop os (tk_str tk) cf lx1) (\<lambda>(e, cf1, lx2).
            if e then Some (CONFIG_ERROR, VInvalid, cf1, lx2)
            else Some (CONFIG_NOP, VInvalid, config_concat os cf1 ''regress'' (VList [tk_str tk]), lx2)))"

definition config_parse_regress_env :: "os \<Rightarrow> config \<Rightarrow> conf_lexer \<Rightarrow> parsed option" where
  "config_parse_regress_env os cf lx =
     Option.bind (config_parse_list cf lx) (\<lambda>(rv, val, cf1, lx1).
       if rv \<noteq> CONFIG_APPEND then Some (CONFIG_ERROR, VInvalid, cf1, lx1)
       else Some (CONFIG_NOP, VInvalid, config_concat os cf1 ''regress-env'' val, lx1))"

section \<open>The whole file\<close>

text \<open>The routines behind the function pointers of the grammar.\<close>

definition config_parse_fn :: "os \<Rightarrow> parse_fn \<Rightarrow> config \<Rightarrow> conf_lexer \<Rightarrow> parsed option" where
  "config_parse_fn os fn cf lx =
     (case fn of
        config_parse_boolean_fn \<Rightarrow> Some (config_parse_boolean cf lx)
      | config_parse_directory_fn \<Rightarrow> Some (config_parse_directory os cf lx)
      | config_parse_glob_fn \<Rightarrow> Some (config_parse_glob os cf lx)
      | config_parse_list_fn \<Rightarrow> config_parse_list cf lx
      | config_parse_string_fn \<Rightarrow> Some (config_parse_string cf lx)
      | config_parse_integer_fn \<Rightarrow> Some (config_parse_integer cf lx)
      | config_parse_timeout_fn \<Rightarrow> Some (config_parse_timeout cf lx)
      | config_parse_user_fn \<Rightarrow> Some (config_parse_user os cf lx)
      | config_parse_canvas_directory_fn \<Rightarrow> Some (config_parse_canvas_directory os cf lx)
      | config_parse_canvas_step_fn \<Rightarrow> config_parse_canvas_step os cf lx
      | config_parse_regress_fn \<Rightarrow> config_parse_regress os cf lx
      | config_parse_regress_env_fn \<Rightarrow> config_parse_regress_env os cf lx)"

type_synonym routines = "parse_fn \<Rightarrow> config \<Rightarrow> conf_lexer \<Rightarrow> parsed option"

text \<open>\<open>call\<close> calls a routine through its pointer.\<close>

definition config_parse_keyword ::
  "routines \<Rightarrow> conf_token token \<Rightarrow> config \<Rightarrow> conf_lexer \<Rightarrow> (config_rv \<times> config \<times> conf_lexer) option" where
  "config_parse_keyword call tk cf lx =
     (case config_find_grammar_for_keyword cf (tk_str tk) of
        None \<Rightarrow>
          Some (CONFIG_FATAL, cf, lexer_error lx (tk_lno tk) (''unknown keyword '' @ squote (tk_str tk)))
      | Some gr \<Rightarrow>
          (let no_repeat = (REP \<notin> gr_flags gr \<and> config_present cf (tk_str tk)) in
           Option.bind (call (the (gr_fn gr)) cf lx) (\<lambda>(rv, val, cf1, lx1).
             let cf2 = (if rv = CONFIG_APPEND then snd (config_append cf1 (tk_str tk) val) else cf1) in
             if no_repeat then
               Some (CONFIG_ERROR, cf2,
                 lexer_error lx1 (tk_lno tk) (''variable '' @ squote (tk_str tk) @ '' already defined''))
             else Some (rv, cf2, lx1))))"

partial_function (option) config_parse_loop ::
  "routines \<Rightarrow> bool \<Rightarrow> config \<Rightarrow> conf_lexer \<Rightarrow> (bool \<times> config \<times> conf_lexer) option" where
  "config_parse_loop call error cf lx =
     (case lexer_peek lx LEXER_EOF of (eof, lx1) \<Rightarrow>
        if eof then Some (error, cf, lx1)
        else
          (case cexpect lx1 TOKEN_KEYWORD of
             (None, lx2) \<Rightarrow> Some (True, cf, lx2)
           | (Some tk, lx2) \<Rightarrow>
               Option.bind (config_parse_keyword call tk cf lx2) (\<lambda>(rv, cf3, lx3).
                 if rv = CONFIG_ERROR then config_parse_loop call True cf3 lx3
                 else if rv = CONFIG_FATAL then Some (True, cf3, lx3)
                 else config_parse_loop call error cf3 lx3)))"

definition config_missing :: "config \<Rightarrow> grammar list" where
  "config_missing cf = filter (\<lambda>gr. REQ \<in> gr_flags gr \<and> \<not> config_present cf (gr_kw gr)) (cf_grammar cf)"

definition config_validate :: "config \<Rightarrow> conf_lexer \<Rightarrow> bool \<times> conf_lexer" where
  "config_validate cf lx =
     (config_missing cf \<noteq> [],
      fold (\<lambda>gr lx. lexer_error lx 0 (''mandatory variable '' @ squote (gr_kw gr) @ '' missing''))
        (config_missing cf) lx)"

definition config_parse_inner ::
  "routines \<Rightarrow> config \<Rightarrow> conf_lexer \<Rightarrow> (bool \<times> config \<times> conf_lexer) option" where
  "config_parse_inner call cf lx =
     Option.bind (config_parse_loop call False cf lx) (\<lambda>(error, cf1, lx1).
       if lexer_get_error lx1 \<noteq> 0 then Some (True, cf1, lx1)
       else (case config_validate cf1 lx1 of (e, lx2) \<Rightarrow> Some (e \<or> error, cf1, lx2)))"

definition config_canvas_after_parse :: "config \<Rightarrow> config" where
  "config_canvas_after_parse cf =
     cf\<lparr>cf_canvas_steps := config_steps_add_script (cf_canvas_steps cf) ''/dev/null'' ''end''\<rparr>"

definition config_after_parse :: "config \<Rightarrow> config" where
  "config_after_parse cf = (if cf_mode cf = CANVAS then config_canvas_after_parse cf else cf)"

definition config_parse :: "os \<Rightarrow> config \<Rightarrow> (bool \<times> config) option" where
  "config_parse os cf =
     Option.bind (lexer_alloc (config_lexer_read (cf_lookup cf)) (os_read os (cf_path cf)) ())
       (\<lambda>(lx, _, ok).
          if \<not> ok then Some (True, cf)
          else
            Option.bind (config_parse_inner (config_parse_fn os) cf lx) (\<lambda>(e, cf1, _).
              if e then Some (True, cf1) else Some (False, config_after_parse cf1)))"

end
