(* ===== verification/ConfValid.thy ===== *)
theory ConfValid
  imports ConfParse
begin

text \<open>
  What the parser of the configuration file guarantees: it returns, and a configuration it accepts
  has every required variable and no keyword twice. The routines behind the grammar share a contract,
  the locale \<open>parse_routines\<close>; the loop over the keywords is reasoned about with the contract only.
\<close>

section \<open>What parsing may change\<close>

definition var_names :: "config \<Rightarrow> string list" where
  "var_names cf = map va_name (cf_variables cf)"

definition std :: "config \<Rightarrow> bool" where
  "std cf \<longleftrightarrow> (\<exists>os. mode_conf os cf)"

definition kept :: "config \<Rightarrow> config \<Rightarrow> bool" where
  "kept cf cf' \<longleftrightarrow>
     cf_path cf' = cf_path cf \<and> cf_grammar cf' = cf_grammar cf \<and> cf_lookup cf' = cf_lookup cf \<and>
     cf_steps cf' = cf_steps cf \<and> cf_trace cf' = cf_trace cf \<and> cf_mode cf' = cf_mode cf"

text \<open>New variables go to the end; the keywords among them are in \<open>A\<close>, each at most once.\<close>

definition extends :: "string set \<Rightarrow> config \<Rightarrow> config \<Rightarrow> bool" where
  "extends A cf cf' \<longleftrightarrow>
     kept cf cf' \<and>
     (\<exists>new. var_names cf' = var_names cf @ new \<and>
        (std cf \<longrightarrow> (\<forall>n. keyword cf n \<longrightarrow> count_list new n \<le> (if n \<in> A then 1 else 0))))"

lemma kept_trans: "kept a b \<Longrightarrow> kept b c \<Longrightarrow> kept a c"
  by (simp add: kept_def)

lemma kept_std: "kept a b \<Longrightarrow> std b = std a"
  by (simp add: kept_def std_def mode_conf_def)

lemma kept_keyword: "kept a b \<Longrightarrow> keyword b n = keyword a n"
  by (simp add: kept_def keyword_def config_find_grammar_for_keyword_def)

lemma extends_refl [simp]: "extends A cf cf"
  by (simp add: extends_def kept_def)

lemma extends_mono: "extends A a b \<Longrightarrow> A \<subseteq> B \<Longrightarrow> extends B a b"
  unfolding extends_def by (elim conjE exE, intro conjI exI, assumption+)
    (force split: if_splits)

lemma extends_trans:
  assumes "extends A a b" "extends B b c" "A \<inter> B = {}" "A \<union> B \<subseteq> C"
  shows "extends C a c"
proof -
  have k: "kept a b" "kept b c" using assms(1,2) unfolding extends_def by blast+
  obtain n1 where n1: "var_names b = var_names a @ n1"
    "std a \<Longrightarrow> keyword a n \<Longrightarrow> count_list n1 n \<le> (if n \<in> A then 1 else 0)" for n
    using assms(1) unfolding extends_def by blast
  obtain n2 where n2: "var_names c = var_names b @ n2"
    "std b \<Longrightarrow> keyword b n \<Longrightarrow> count_list n2 n \<le> (if n \<in> B then 1 else 0)" for n
    using assms(2) unfolding extends_def by blast
  have "count_list (n1 @ n2) n \<le> (if n \<in> C then 1 else 0)" if "std a" "keyword a n" for n
  proof -
    have "count_list n1 n \<le> (if n \<in> A then 1 else 0)" "count_list n2 n \<le> (if n \<in> B then 1 else 0)"
      using n1(2) n2(2) that kept_std [OF k(1)] kept_keyword [OF k(1)] by blast+
    then show ?thesis using assms(3,4) by (auto split: if_splits)
  qed
  then have "\<exists>new. var_names c = var_names a @ new \<and>
      (std a \<longrightarrow> (\<forall>n. keyword a n \<longrightarrow> count_list new n \<le> (if n \<in> C then 1 else 0)))"
    using n1(1) n2(1) by (intro exI [of _ "n1 @ n2"]) simp
  with kept_trans [OF k] show ?thesis by (simp add: extends_def)
qed

lemma extends_trans0: "extends {} a b \<Longrightarrow> extends B b c \<Longrightarrow> extends B a c"
  by (rule extends_trans) auto

lemma frame_extends: "frame a b \<Longrightarrow> extends {} a b"
proof -
  assume f: "frame a b"
  obtain new where new: "cf_variables b = cf_variables a @ new"
    "conf_ok a \<Longrightarrow> \<forall>va \<in> set new. \<not> keyword a (va_name va)" using f by (auto simp: frame_def)
  have "std a \<Longrightarrow> \<forall>n. keyword a n \<longrightarrow> count_list (map va_name new) n = 0"
    using new(2) mode_conf_ok by (auto simp: std_def count_list_0_iff)
  with new(1) f show ?thesis by (auto simp: extends_def kept_def var_names_def frame_def same_setup_def)
qed

lemma extends_append:
  "(std cf \<Longrightarrow> keyword cf n \<Longrightarrow> n \<in> A) \<Longrightarrow> extends A cf (snd (config_append cf n v))"
  by (auto simp: extends_def kept_def var_names_def config_append_def)

lemma extends_store [simp]: "extends A cf (store_value cf i v)"
proof -
  have "map va_name ((cf_variables cf)[i := (cf_variables cf ! i)\<lparr>va_val := v\<rparr>]) = map va_name (cf_variables cf)"
    by (cases "i < length (cf_variables cf)") (auto simp: map_update list_update_beyond
      intro!: list_update_same_conv [THEN iffD2])
  then show ?thesis by (simp add: extends_def kept_def var_names_def store_value_def)
qed

lemma extends_same [simp]:
  "extends A cf (cf\<lparr>cf_crashed := b\<rparr>)" "extends A cf (cf\<lparr>cf_canvas_steps := s\<rparr>)"
  "extends A cf (cf\<lparr>cf_early := e\<rparr>)"
  by (simp_all add: extends_def kept_def var_names_def)

text \<open>The names the regress options define are no keywords of any mode.\<close>

lemma regressname_no_keyword:
  assumes "std cf" "s \<in> {''env'', ''parallel'', ''quiet'', ''root'', ''targets'', ''timeout''}"
  shows "\<not> keyword cf (regressname p s)"
proof -
  obtain os where "cf_grammar cf = full_grammar os (cf_mode cf)"
    using assms(1) by (auto simp: std_def mode_conf_def)
  with assms(2) show ?thesis
    by (cases "cf_mode cf")
      (auto simp: keyword_def config_find_grammar_for_keyword_def find_None_iff mode_grammar_def
        grammar_tables regressname_def append_eq_Cons_conv Cons_eq_append_conv)
qed

lemma list_names_no_keyword:
  assumes "std cf"
  shows "\<not> keyword cf ''regress-obj''" "\<not> keyword cf ''regress-packages''"
proof -
  obtain os where "cf_grammar cf = full_grammar os (cf_mode cf)"
    using assms by (auto simp: std_def mode_conf_def)
  then show "\<not> keyword cf ''regress-obj''" "\<not> keyword cf ''regress-packages''"
    by (cases "cf_mode cf";
      simp add: keyword_def config_find_grammar_for_keyword_def mode_grammar_def grammar_tables)+
qed

section \<open>Every routine keeps the contract\<close>

definition parsed_ok :: "string set \<Rightarrow> config \<Rightarrow> conf_lexer \<Rightarrow> parsed \<Rightarrow> bool" where
  "parsed_ok A cf lx r \<longleftrightarrow>
     (case r of (rv, val, cf', lx') \<Rightarrow>
        lp.moves lx lx' \<and> extends (if rv = CONFIG_APPEND then {} else A) cf cf')"

lemma moves_error: "lp.moves lx lx' \<Longrightarrow> lp.moves lx (lexer_error lx' n m)"
  using lexer_error_moves lp.moves_trans lp.moves_wf by blast

lemma parsed_ok_mono: "parsed_ok {} cf lx r \<Longrightarrow> parsed_ok A cf lx r"
  by (auto simp: parsed_ok_def intro: extends_mono)

lemmas moves_rules =
  lp.expect_moves lp.accept_moves lp.peek_moves lp.next_moves

lemma config_parse_boolean_ok: "lexer_wf lx \<Longrightarrow> parsed_ok {} cf lx (config_parse_boolean cf lx)"
  by (auto simp: parsed_ok_def config_parse_boolean_def split: prod.split option.split dest: moves_rules)

lemma config_parse_string_ok: "lexer_wf lx \<Longrightarrow> parsed_ok {} cf lx (config_parse_string cf lx)"
  by (auto simp: parsed_ok_def config_parse_string_def split: prod.split option.split dest: moves_rules)

lemma config_parse_integer_ok: "lexer_wf lx \<Longrightarrow> parsed_ok {} cf lx (config_parse_integer cf lx)"
  by (auto simp: parsed_ok_def config_parse_integer_def split: prod.split option.split dest: moves_rules)

lemma config_parse_glob_ok: "lexer_wf lx \<Longrightarrow> parsed_ok {} cf lx (config_parse_glob os cf lx)"
  by (auto simp: parsed_ok_def config_parse_glob_def split: prod.split option.split glob_result.split
      intro!: moves_error dest: moves_rules)

lemma config_parse_user_ok: "lexer_wf lx \<Longrightarrow> parsed_ok {} cf lx (config_parse_user os cf lx)"
  by (auto simp: parsed_ok_def config_parse_user_def split: prod.split option.split
      intro!: moves_error dest: moves_rules)

lemma config_parse_directory_ok: "lexer_wf lx \<Longrightarrow> parsed_ok {} cf lx (config_parse_directory os cf lx)"
  by (auto simp: parsed_ok_def config_parse_directory_def Let_def split: prod.split option.split bool.split
      intro!: moves_error frame_extends dest: moves_rules conf_frame.interpolate_str_rel)

lemma timeout_scaled_ok:
  "lp.moves lx0 lx \<Longrightarrow> extends {} cf0 cf \<Longrightarrow> parsed_ok {} cf0 lx0 (timeout_scaled s v tk cf lx)"
  by (auto simp: parsed_ok_def timeout_scaled_def split: prod.split intro: moves_error)

lemma config_parse_timeout_ok:
  assumes wf: "lexer_wf lx"
  shows "parsed_ok {} cf lx (config_parse_timeout cf lx)"
proof -
  obtain rv v cf1 lx1 where i: "config_parse_integer cf lx = (rv, v, cf1, lx1)"
    by (cases "config_parse_integer cf lx")
  have ok: "lp.moves lx lx1" "extends {} cf cf1"
    using config_parse_integer_ok [OF wf, of cf] by (simp_all add: i parsed_ok_def split: if_splits)
  obtain r2 lx2 where s: "cif lx1 TOKEN_SECONDS = (r2, lx2)" by (cases "cif lx1 TOKEN_SECONDS")
  have 2: "lp.moves lx lx2" using ok(1) lp.moves_trans lp.accept_moves [OF lp.moves_wf [OF ok(1)] s] by blast
  obtain r3 lx3 where m: "cif lx2 TOKEN_MINUTES = (r3, lx3)" by (cases "cif lx2 TOKEN_MINUTES")
  have 3: "lp.moves lx lx3" using 2 lp.moves_trans lp.accept_moves [OF lp.moves_wf [OF 2] m] by blast
  obtain r4 lx4 where h: "cif lx3 TOKEN_HOURS = (r4, lx4)" by (cases "cif lx3 TOKEN_HOURS")
  have 4: "lp.moves lx lx4" using 3 lp.moves_trans lp.accept_moves [OF lp.moves_wf [OF 3] h] by blast
  obtain r5 lx5 where n: "lexer_next lx4 = (r5, lx5)" by (cases "lexer_next lx4")
  have 5: "lp.moves lx lx5" using 4 lp.moves_trans lp.next_moves [OF lp.moves_wf [OF 4] n] by blast
  note fails = moves_error [OF 5] and steps = timeout_scaled_ok [OF 2 ok(2)] timeout_scaled_ok [OF 3 ok(2)]
    timeout_scaled_ok [OF 4 ok(2)]
  show ?thesis
    using ok(2) steps fails 5 ok(1) i s m h n
    by (auto simp: config_parse_timeout_def parsed_ok_def split: option.split)
qed

lemma config_parse_list_loop_ok:
  "lexer_wf lx \<Longrightarrow> \<exists>r lx'. config_parse_list_loop xs lx = Some (r, lx') \<and> lp.moves lx lx'"
proof (induction "length (lexer_rest lx)" arbitrary: lx xs rule: less_induct)
  case less
  obtain b lx1 where p: "lexer_peek lx (Tok TOKEN_RBRACE) = (b, lx1)"
    by (cases "lexer_peek lx (Tok TOKEN_RBRACE)")
  have 1: "lp.moves lx lx1" by (rule lp.peek_moves [OF less.prems p])
  show ?case
  proof (cases b)
    case True
    with p 1 show ?thesis by (subst config_parse_list_loop.simps) simp
  next
    case False
    obtain r lx2 where e: "cexpect lx1 TOKEN_STRING = (r, lx2)" by (cases "cexpect lx1 TOKEN_STRING")
    note wf1 = lp.moves_wf [OF 1]
    show ?thesis
    proof (cases r)
      case None
      with p e False lp.moves_trans [OF 1 lp.expect_moves [OF wf1 e]] show ?thesis
        by (subst config_parse_list_loop.simps) simp
    next
      case (Some tk)
      have c: "lp.consumes lx lx2"
        using lp.consumes_trans2 [OF 1 lp.expect_consumes [OF wf1 e [unfolded Some]]] by simp
      then have "length (lexer_rest lx2) < length (lexer_rest lx)" "lexer_wf lx2"
        by (auto simp: lp.consumes_def)
      from less.hyps [OF this, of "xs @ [tk_str tk]"] obtain r' lx' where
        "config_parse_list_loop (xs @ [tk_str tk]) lx2 = Some (r', lx')" "lp.moves lx2 lx'" by blast
      with p e False Some lp.moves_trans [OF lp.consumes_moves [OF c]] show ?thesis
        by (subst config_parse_list_loop.simps) simp
    qed
  qed
qed

lemma config_parse_list_ok:
  assumes "lexer_wf lx"
  shows "\<exists>rv val lx'. config_parse_list cf lx = Some (rv, val, cf, lx') \<and> lp.moves lx lx' \<and>
    (rv = CONFIG_APPEND \<longrightarrow> (\<exists>xs. val = VList xs))"
proof -
  obtain r lx1 where e: "cexpect lx TOKEN_LBRACE = (r, lx1)" by (cases "cexpect lx TOKEN_LBRACE")
  have 1: "lp.moves lx lx1" by (rule lp.expect_moves [OF assms e])
  obtain l lx2 where l: "config_parse_list_loop [] lx1 = Some (l, lx2)" "lp.moves lx1 lx2"
    using config_parse_list_loop_ok [OF lp.moves_wf [OF 1]] by blast
  have 2: "lp.moves lx lx2" by (rule lp.moves_trans [OF 1 l(2)])
  obtain r3 lx3 where e3: "cexpect lx2 TOKEN_RBRACE = (r3, lx3)" by (cases "cexpect lx2 TOKEN_RBRACE")
  have 3: "lp.moves lx lx3" by (rule lp.moves_trans [OF 2 lp.expect_moves [OF lp.moves_wf [OF 2] e3]])
  from e l e3 1 2 3 show ?thesis
    by (cases r; cases l; cases r3) (simp_all add: config_parse_list_def)
qed

lemma config_find_or_create_list_extends:
  assumes "config_find_or_create_list os cf name = (r, cf')" "std cf \<Longrightarrow> keyword cf name \<Longrightarrow> name \<in> A"
  shows "extends A cf cf'"
proof -
  let ?cf = "if config_present cf name then cf else snd (config_append cf name (VList []))"
  have "frame ?cf cf'"
    using assms(1) config_find_frame by (auto simp: config_find_or_create_list_def Let_def split: if_splits)
  then have more: "extends {} ?cf cf'" by (rule frame_extends)
  have "extends A cf ?cf" using extends_append [of cf name A] assms(2) by simp
  then show ?thesis by (rule extends_trans [OF _ more]) auto
qed

lemma config_concat_extends:
  assumes "std cf \<Longrightarrow> keyword cf name \<Longrightarrow> name \<in> A"
  shows "extends A cf (config_concat os cf name val)"
proof -
  obtain r cf1 where f: "config_find_or_create_list os cf name = (r, cf1)"
    by (cases "config_find_or_create_list os cf name")
  have e: "extends A cf cf1" by (rule config_find_or_create_list_extends [OF f assms])
  have more: "extends {} cf1 cf2 \<Longrightarrow> extends A cf cf2" for cf2
    by (rule extends_trans [OF e]) auto
  from f e show ?thesis
    by (auto simp: config_concat_def intro!: more split: option.split found.split)
qed


lemma extends_then: "extends A a b \<Longrightarrow> extends {} b c \<Longrightarrow> extends A a c"
  by (rule extends_trans) auto

lemma interpolate_early_extends:
  assumes "config_interpolate_early os cf s = (r, cf')"
  shows "extends {} cf cf'"
proof -
  obtain cf1 where 1: "interpolate_str (config_interpolate_lookup os) True (cf\<lparr>cf_early := True\<rparr>) s = (r, cf1)"
    and cf': "cf' = cf1\<lparr>cf_early := False\<rparr>"
    using assms by (auto simp: config_interpolate_early_def split: prod.splits)
  have "extends {} (cf\<lparr>cf_early := True\<rparr>) cf1"
    by (rule frame_extends [OF conf_frame.interpolate_str_rel [OF 1]])
  then have "extends {} cf cf1" by (rule extends_trans0 [OF extends_same(3)])
  then show ?thesis unfolding cf' by (rule extends_then [OF _ extends_same(3)])
qed

definition returns_ok :: "string set \<Rightarrow> config \<Rightarrow> conf_lexer \<Rightarrow> parsed option \<Rightarrow> bool" where
  "returns_ok A cf lx r \<longleftrightarrow> (\<exists>p. r = Some p \<and> parsed_ok A cf lx p)"

text \<open>The contract of a part of a routine, whose result is some value next to the states.\<close>

definition part_ok ::
  "string set \<Rightarrow> config \<Rightarrow> conf_lexer \<Rightarrow> ('r \<times> config \<times> conf_lexer) option \<Rightarrow> bool" where
  "part_ok A cf lx r \<longleftrightarrow> (\<exists>x cf' lx'. r = Some (x, cf', lx') \<and> lp.moves lx lx' \<and> extends A cf cf')"

lemma part_ok_Some: "part_ok A cf lx (Some (x, cf', lx')) \<longleftrightarrow> lp.moves lx lx' \<and> extends A cf cf'"
  by (simp add: part_ok_def)

lemma part_ok_after:
  "lp.moves lx lx1 \<Longrightarrow> extends {} cf cf1 \<Longrightarrow> part_ok A cf1 lx1 r \<Longrightarrow> part_ok A cf lx r"
  unfolding part_ok_def by (blast intro: lp.moves_trans extends_trans0)

subsection \<open>Canvas\<close>

lemma config_parse_canvas_directory_ok:
  assumes "lexer_wf lx"
  shows "parsed_ok {''canvas-dir'', ''robsddir''} cf lx (config_parse_canvas_directory os cf lx)"
proof -
  obtain rv val cf1 lx1 where d: "config_parse_directory os cf lx = (rv, val, cf1, lx1)"
    by (cases "config_parse_directory os cf lx")
  have ok: "lp.moves lx lx1" "extends {} cf cf1"
    using config_parse_directory_ok [OF assms, of cf os] by (simp_all add: d parsed_ok_def split: if_splits)
  let ?cf2 = "snd (config_append cf1 ''canvas-dir'' val)"
  have "extends {''canvas-dir'', ''robsddir''} cf1 (snd (config_append ?cf2 ''robsddir'' val))"
    by (rule extends_trans [OF extends_append [of cf1 _ "{''canvas-dir''}"]
      extends_append [of ?cf2 _ "{''robsddir''}"]]) auto
  with extends_trans0 [OF ok(2) this] ok extends_mono [OF ok(2)] show ?thesis
    by (simp add: parsed_ok_def config_parse_canvas_directory_def d Let_def)
qed

lemma canvas_command_extends:
  assumes "canvas_command os cf xs = (v, cf')"
  shows "extends {} cf cf'"
proof -
  obtain r cf1 where f: "config_find os ''env'' cf = (r, cf1)" by (cases "config_find os ''env'' cf")
  have "extends {} cf cf1" by (rule frame_extends [OF config_find_frame [OF f]])
  moreover have "cf' = cf1 \<or> cf' = cf1\<lparr>cf_crashed := True\<rparr>"
    using assms f by (auto simp: canvas_command_def split: option.splits)
  ultimately show ?thesis using extends_then extends_same(1) by blast
qed

lemma canvas_step_loop_ok: "lexer_wf lx \<Longrightarrow> part_ok {} cf lx (canvas_step_loop os command parallel cf lx)"
proof (induction "length (lexer_rest lx)" arbitrary: lx cf command parallel rule: less_induct)
  case less
  have again: "part_ok {} cf lx (canvas_step_loop os c p cf2 lx2)"
    if c: "lp.consumes lx lx2" "extends {} cf cf2" for lx2 cf2 c p
  proof -
    have "length (lexer_rest lx2) < length (lexer_rest lx)" "lexer_wf lx2"
      using c(1) by (auto simp: lp.consumes_def)
    from part_ok_after [OF lp.consumes_moves [OF c(1)] c(2) less.hyps [OF this]] show ?thesis .
  qed
  obtain r1 lx1 where 1: "cif lx TOKEN_COMMAND = (r1, lx1)" by (cases "cif lx TOKEN_COMMAND")
  note m1 = lp.accept_moves [OF less.prems 1]
  show ?case
  proof (cases r1)
    case (Some tk)
    obtain rv val lx2 where l: "config_parse_list cf lx1 = Some (rv, val, cf, lx2)" "lp.moves lx1 lx2"
      using config_parse_list_ok [OF lp.moves_wf [OF m1], of cf] by blast
    have c: "lp.consumes lx lx2"
      using lp.consumes_trans1 [OF lp.accept_consumes [OF less.prems 1 [unfolded Some]] l(2)] by simp
    obtain v cf2 where cc: "canvas_command os cf (case val of VList xs \<Rightarrow> xs | _ \<Rightarrow> []) = (v, cf2)"
      by (cases "canvas_command os cf (case val of VList xs \<Rightarrow> xs | _ \<Rightarrow> [])")
    show ?thesis
      using 1 Some l cc c again [OF c canvas_command_extends [OF cc]] again [OF c extends_refl]
      by (subst canvas_step_loop.simps) (auto simp: part_ok_Some dest: lp.consumes_moves)
  next
    case None
    obtain r2 lx2 where 2: "cif lx1 TOKEN_PARALLEL = (r2, lx2)" by (cases "cif lx1 TOKEN_PARALLEL")
    note wf1 = lp.moves_wf [OF m1]
    show ?thesis
    proof (cases r2)
      case (Some tk)
      have "lp.consumes lx lx2"
        using lp.consumes_trans2 [OF m1 lp.accept_consumes [OF wf1 2 [unfolded Some]]] by simp
      from again [OF this extends_refl] 1 2 None Some show ?thesis
        by (subst canvas_step_loop.simps) simp
    next
      case n: None
      with 1 2 None lp.moves_trans [OF m1 lp.accept_moves [OF wf1 2]] show ?thesis
        by (subst canvas_step_loop.simps) (simp add: part_ok_Some)
    qed
  qed
qed

lemma config_parse_canvas_step_ok:
  assumes wf: "lexer_wf lx"
  shows "returns_ok {''step''} cf lx (config_parse_canvas_step os cf lx)"
proof -
  obtain rv name cf1 lx1 where s: "config_parse_string cf lx = (rv, name, cf1, lx1)"
    by (cases "config_parse_string cf lx")
  have ok: "lp.moves lx lx1" "extends {} cf cf1"
    using config_parse_string_ok [OF wf, of cf] by (simp_all add: s parsed_ok_def split: if_splits)
  obtain r cf2 lx2 where l: "canvas_step_loop os VInvalid False cf1 lx1 = Some (r, cf2, lx2)"
    "lp.moves lx1 lx2" "extends {} cf1 cf2"
    using canvas_step_loop_ok [OF lp.moves_wf [OF ok(1)], of cf1 os VInvalid False]
    by (auto simp: part_ok_def)
  note m = lp.moves_trans [OF ok(1) l(2)] and e = extends_trans0 [OF ok(2) l(3)]
  have app: "extends {''step''} cf (snd (config_append cf2 ''step'' VInvalid))"
    by (rule extends_trans0 [OF e extends_append]) simp
  have keep: "extends {''step''} cf cf3 \<Longrightarrow> extends {''step''} cf (cf3\<lparr>cf_canvas_steps := x\<rparr>)" for cf3 x
    by (rule extends_then [OF _ extends_same(2)])
  note e1 = extends_mono [OF e, of "{''step''}", simplified] and e2 = extends_mono [OF ok(2), of "{''step''}", simplified]
  show ?thesis
    using s l(1) ok m e1 e2 keep [OF app] keep [OF e1] moves_error [OF m]
    by (cases r) (auto simp: returns_ok_def parsed_ok_def config_parse_canvas_step_def Let_def)
qed


subsection \<open>Regress\<close>

lemma lexer_choose_ok:
  assumes "lexer_wf lx"
  shows "case lexer_choose lx ts of (None, lx') \<Rightarrow> lp.moves lx lx'
    | (Some t, lx') \<Rightarrow> lp.consumes lx lx' \<and> t \<in> set ts"
  using assms
proof (induction ts arbitrary: lx)
  case Nil
  then show ?case by (simp add: lp.moves_refl)
next
  case (Cons t ts)
  obtain r lx1 where i: "cif lx t = (r, lx1)" by (cases "cif lx t")
  show ?case
  proof (cases r)
    case None
    have 1: "lp.moves lx lx1" by (rule lp.accept_moves [OF Cons.prems i])
    from Cons.IH [OF lp.moves_wf [OF 1]] i None 1 show ?thesis
      by (auto split: option.splits dest: lp.moves_trans lp.consumes_trans2)
  next
    case (Some tk)
    with i lp.accept_consumes [OF Cons.prems i [unfolded Some]] show ?thesis by simp
  qed
qed

lemma config_parse_regress_option_env_ok:
  assumes wf: "lexer_wf lx"
  shows "part_ok {} cf lx (config_parse_regress_option_env os path cf lx)"
proof -
  obtain rv val lx1 where l: "config_parse_list cf lx = Some (rv, val, cf, lx1)" "lp.moves lx lx1"
    using config_parse_list_ok [OF wf, of cf] by blast
  let ?name = "regressname path ''env''"
  let ?cf2 = "snd (config_append cf ?name (VList (''${regress-env}'' # (case val of VList xs \<Rightarrow> xs | _ \<Rightarrow> []))))"
  obtain r cf3 where i: "config_interpolate_early os ?cf2 (''${'' @ ?name @ ''}'') = (r, cf3)"
    by (cases "config_interpolate_early os ?cf2 (''${'' @ ?name @ ''}'')")
  have "extends {} cf ?cf2" by (rule extends_append) (simp add: regressname_no_keyword)
  then have "extends {} cf cf3" by (rule extends_then [OF _ interpolate_early_extends [OF i]])
  with l i extends_then [OF this extends_store] show ?thesis
    by (cases r) (auto simp: config_parse_regress_option_env_def part_ok_Some Let_def)
qed

lemma regress_option_list_ok:
  assumes wf: "lexer_wf lx" and "std cf \<Longrightarrow> keyword cf name \<Longrightarrow> name \<in> A"
  shows "part_ok A cf lx (regress_option_list os name cf lx)"
proof -
  obtain rv val lx1 where l: "config_parse_list cf lx = Some (rv, val, cf, lx1)" "lp.moves lx lx1"
    using config_parse_list_ok [OF wf, of cf] by blast
  with config_concat_extends [of cf name A os val] assms(2) show ?thesis
    by (auto simp: regress_option_list_def part_ok_Some)
qed

lemma regress_option_ok:
  assumes wf: "lexer_wf lx"
  shows "part_ok {} cf lx (regress_option os path t cf lx)"
proof -
  obtain rv val cf1 lx1 where t: "config_parse_timeout cf lx = (rv, val, cf1, lx1)"
    by (cases "config_parse_timeout cf lx")
  have ok: "lp.moves lx lx1" "extends {} cf cf1"
    using config_parse_timeout_ok [OF wf, of cf] by (simp_all add: t parsed_ok_def split: if_splits)
  have app: "extends {} cf2 (snd (config_append cf2 (regressname path s) v))"
    if "s \<in> {''env'', ''parallel'', ''quiet'', ''root'', ''targets'', ''timeout''}" for cf2 s v
    by (rule extends_append) (use regressname_no_keyword that in blast)
  have named: "part_ok {} cf lx (regress_option_list os name cf lx)"
    if "name \<in> {''regress-obj'', ''regress-packages'', regressname path ''targets''}" for name
    by (rule regress_option_list_ok [OF wf])
      (use list_names_no_keyword regressname_no_keyword that in blast)
  show ?thesis
    using config_parse_regress_option_env_ok [OF wf, of cf os path] ok app named
      lp.moves_refl [OF wf] extends_trans0 [OF ok(2) app [of "''timeout''"]]
    by (simp add: regress_option_def t part_ok_Some)
qed

lemma regress_loop_ok: "lexer_wf lx \<Longrightarrow> part_ok {} cf lx (regress_loop os path cf lx)"
proof (induction "length (lexer_rest lx)" arbitrary: lx cf rule: less_induct)
  case less
  obtain r lx1 where c: "lexer_choose lx regress_options = (r, lx1)"
    by (cases "lexer_choose lx regress_options")
  show ?case
  proof (cases r)
    case None
    with c lexer_choose_ok [OF less.prems, of regress_options] show ?thesis
      by (subst regress_loop.simps) (simp add: part_ok_Some)
  next
    case (Some t)
    have 1: "lp.consumes lx lx1"
      using lexer_choose_ok [OF less.prems, of regress_options] by (simp add: c Some)
    obtain e cf1 lx2 where o: "regress_option os path t cf lx1 = Some (e, cf1, lx2)"
      "lp.moves lx1 lx2" "extends {} cf cf1"
      using regress_option_ok [OF lp.consumes_wf [OF 1], of cf os path t] by (auto simp: part_ok_def)
    have 2: "lp.consumes lx lx2" by (rule lp.consumes_trans1 [OF 1 o(2)])
    then have "length (lexer_rest lx2) < length (lexer_rest lx)" "lexer_wf lx2"
      by (auto simp: lp.consumes_def)
    from part_ok_after [OF lp.consumes_moves [OF 2] o(3) less.hyps [OF this]]
    show ?thesis using c Some o(1,3) lp.consumes_moves [OF 2]
      by (subst regress_loop.simps) (simp add: part_ok_Some)
  qed
qed

lemma config_parse_regress_ok:
  assumes wf: "lexer_wf lx"
  shows "returns_ok {''regress''} cf lx (config_parse_regress os cf lx)"
proof -
  obtain r lx1 where e: "cexpect lx TOKEN_STRING = (r, lx1)" by (cases "cexpect lx TOKEN_STRING")
  have 1: "lp.moves lx lx1" by (rule lp.expect_moves [OF wf e])
  show ?thesis
  proof (cases r)
    case None
    with e 1 show ?thesis by (simp add: returns_ok_def parsed_ok_def config_parse_regress_def)
  next
    case (Some tk)
    obtain x cf1 lx2 where l: "regress_loop os (tk_str tk) cf lx1 = Some (x, cf1, lx2)"
      "lp.moves lx1 lx2" "extends {} cf cf1"
      using regress_loop_ok [OF lp.moves_wf [OF 1], of cf os "tk_str tk"] by (auto simp: part_ok_def)
    have "extends {''regress''} cf (config_concat os cf1 ''regress'' (VList [tk_str tk]))"
      by (rule extends_trans0 [OF l(3) config_concat_extends]) simp
    with e Some l(1) lp.moves_trans [OF 1 l(2)] extends_mono [OF l(3)] show ?thesis
      by (simp add: returns_ok_def parsed_ok_def config_parse_regress_def)
  qed
qed

lemma config_parse_regress_env_ok:
  assumes wf: "lexer_wf lx"
  shows "returns_ok {''regress-env''} cf lx (config_parse_regress_env os cf lx)"
proof -
  obtain rv val lx1 where l: "config_parse_list cf lx = Some (rv, val, cf, lx1)" "lp.moves lx lx1"
    using config_parse_list_ok [OF wf, of cf] by blast
  with config_concat_extends [of cf "''regress-env''" "{''regress-env''}" os val] show ?thesis
    by (simp add: returns_ok_def parsed_ok_def config_parse_regress_env_def)
qed

text \<open>What each routine may define.\<close>

fun routine_allowed :: "parse_fn \<Rightarrow> string set" where
  "routine_allowed config_parse_canvas_directory_fn = {''canvas-dir'', ''robsddir''}"
| "routine_allowed config_parse_canvas_step_fn = {''step''}"
| "routine_allowed config_parse_regress_fn = {''regress''}"
| "routine_allowed config_parse_regress_env_fn = {''regress-env''}"
| "routine_allowed _ = {}"

lemma config_parse_fn_ok:
  assumes wf: "lexer_wf lx"
  shows "returns_ok (routine_allowed fn) cf lx (config_parse_fn os fn cf lx)"
proof -
  have l: "returns_ok {} cf lx (config_parse_list cf lx)"
    using config_parse_list_ok [OF wf, of cf] by (auto simp: returns_ok_def parsed_ok_def)
  show ?thesis
    using config_parse_boolean_ok [OF wf] config_parse_directory_ok [OF wf] config_parse_glob_ok [OF wf]
      config_parse_string_ok [OF wf] config_parse_integer_ok [OF wf] config_parse_timeout_ok [OF wf]
      config_parse_user_ok [OF wf] config_parse_canvas_directory_ok [OF wf]
      config_parse_canvas_step_ok [OF wf] config_parse_regress_ok [OF wf]
      config_parse_regress_env_ok [OF wf] l
    by (cases fn) (simp_all add: config_parse_fn_def returns_ok_def)
qed


section \<open>The loop over the keywords\<close>

definition repeatable :: "config \<Rightarrow> string \<Rightarrow> bool" where
  "repeatable cf n \<longleftrightarrow>
     (case config_find_grammar_for_keyword cf n of None \<Rightarrow> True | Some gr \<Rightarrow> REP \<in> gr_flags gr)"

text \<open>The canvas directory defines \<open>robsddir\<close> as well, without a check that it is there already.\<close>

definition unguarded :: "config \<Rightarrow> string \<Rightarrow> bool" where
  "unguarded cf n \<longleftrightarrow> cf_mode cf = CANVAS \<and> n = ''robsddir''"

definition defined_once :: "config \<Rightarrow> bool" where
  "defined_once cf \<longleftrightarrow>
     (\<forall>n. \<not> repeatable cf n \<and> \<not> unguarded cf n \<longrightarrow> count_list (var_names cf) n \<le> 1)"

lemma kept_repeatable: "kept a b \<Longrightarrow> repeatable b n = repeatable a n"
  by (simp add: kept_def repeatable_def config_find_grammar_for_keyword_def)

lemma kept_unguarded: "kept a b \<Longrightarrow> unguarded b n = unguarded a n"
  by (simp add: kept_def unguarded_def)

lemma config_present_names: "config_present cf n \<longleftrightarrow> n \<in> set (var_names cf)"
  by (auto simp: config_present_def var_names_def)

lemma extends_once:
  assumes "extends A a b" "std a" "defined_once a"
    and "\<And>n. n \<in> A \<Longrightarrow> \<not> repeatable a n \<Longrightarrow> unguarded a n \<or> \<not> config_present a n"
  shows "defined_once b"
  unfolding defined_once_def
proof (intro allI impI)
  fix n
  assume n: "\<not> repeatable b n \<and> \<not> unguarded b n"
  obtain new where new: "var_names b = var_names a @ new" and k: "kept a b"
    and c: "keyword a n \<longrightarrow> count_list new n \<le> (if n \<in> A then 1 else 0)"
    using assms(1,2) unfolding extends_def by blast
  have na: "\<not> repeatable a n" "\<not> unguarded a n"
    using n kept_repeatable [OF k] kept_unguarded [OF k] by auto
  then have "keyword a n" by (auto simp: repeatable_def keyword_def split: option.splits)
  with c have "count_list new n \<le> (if n \<in> A then 1 else 0)" by simp
  moreover have "count_list (var_names a) n \<le> 1" using assms(3) na by (simp add: defined_once_def)
  moreover have "n \<in> A \<Longrightarrow> count_list (var_names a) n = 0"
    using assms(4) na by (auto simp: config_present_names count_list_0_iff)
  ultimately show "count_list (var_names b) n \<le> 1" using new by (auto split: if_splits)
qed

text \<open>
  The contract of the routines that the loop calls through the grammar: each returns, moves the lexer
  forward and defines no keyword but those allowed, or nothing when it leaves that to its caller; and
  the names it may define are its own keyword, or a name that is not checked.
\<close>

locale parse_routines =
  fixes call :: routines and allowed :: "parse_fn \<Rightarrow> string set"
  assumes call_ok: "lexer_wf lx \<Longrightarrow> returns_ok (allowed fn) cf lx (call fn cf lx)"
    and allowed_names: "std cf \<Longrightarrow> gr \<in> set (cf_grammar cf) \<Longrightarrow> gr_fn gr = Some fn \<Longrightarrow> n \<in> allowed fn \<Longrightarrow>
      n = gr_kw gr \<or> unguarded cf n"
begin

definition sound :: "config \<Rightarrow> conf_lexer \<Rightarrow> bool" where
  "sound cf lx \<longleftrightarrow> std cf \<and> (defined_once cf \<or> 0 < lx_err lx)"

lemma sound_moves: "sound cf lx \<Longrightarrow> lp.moves lx lx' \<Longrightarrow> sound cf lx'"
  by (auto simp: sound_def lp.moves_def)

lemma keyword_ok:
  assumes wf: "lexer_wf lx"
  shows "\<exists>rv cf' lx'. config_parse_keyword call tk cf lx = Some (rv, cf', lx') \<and> lp.moves lx lx' \<and>
    kept cf cf' \<and> (sound cf lx \<longrightarrow> sound cf' lx')"
proof (cases "config_find_grammar_for_keyword cf (tk_str tk)")
  case None
  have "kept cf cf" by (simp add: kept_def)
  with None lexer_error_moves [OF wf] show ?thesis
    by (simp add: config_parse_keyword_def sound_def)
next
  case (Some gr)
  then have gr: "gr \<in> set (cf_grammar cf)" "gr_fn gr \<noteq> None" "gr_kw gr = tk_str tk"
    by (auto simp: config_find_grammar_for_keyword_def find_Some_iff)
  then obtain fn where fn: "gr_fn gr = Some fn" by blast
  obtain rv val cf1 lx1 where c: "call fn cf lx = Some (rv, val, cf1, lx1)" "lp.moves lx lx1"
    and e: "extends (if rv = CONFIG_APPEND then {} else allowed fn) cf cf1"
    using call_ok [OF wf, of fn cf] by (auto simp: returns_ok_def parsed_ok_def)
  define cf2 where "cf2 = (if rv = CONFIG_APPEND then snd (config_append cf1 (tk_str tk) val) else cf1)"
  have e2: "extends (insert (tk_str tk) (allowed fn)) cf cf2"
  proof (cases "rv = CONFIG_APPEND")
    case True
    have a: "extends {tk_str tk} cf1 cf2"
      using extends_append [of cf1 "tk_str tk" "{tk_str tk}"] by (simp add: cf2_def True)
    from e True have "extends {} cf cf1" by simp
    from extends_mono [OF extends_trans0 [OF this a]] show ?thesis by simp
  next
    case False
    with extends_mono [OF e] show ?thesis by (auto simp: cf2_def)
  qed
  then have k: "kept cf cf2" by (simp add: extends_def)
  let ?nr = "REP \<notin> gr_flags gr \<and> config_present cf (tk_str tk)"
  let ?lx = "if ?nr then lexer_error lx1 (tk_lno tk) (''variable '' @ squote (tk_str tk) @ '' already defined'')
    else lx1"
  have m: "lp.moves lx ?lx" using c(2) moves_error [OF c(2)] by simp
  have "sound cf2 ?lx" if s: "sound cf lx"
  proof (cases "defined_once cf \<and> \<not> ?nr")
    case True
    have "unguarded cf n \<or> \<not> config_present cf n"
      if n: "n \<in> insert (tk_str tk) (allowed fn)" "\<not> repeatable cf n" for n
      using allowed_names [OF _ gr(1) fn, of n] s n True gr(3) Some
      by (auto simp: sound_def repeatable_def)
    from extends_once [OF e2 _ _ this] s True kept_std [OF k] show ?thesis by (simp add: sound_def)
  next
    case False
    with s m kept_std [OF k] show ?thesis by (auto simp: sound_def lp.moves_def)
  qed
  with m k Some c(1) fn show ?thesis
    by (auto simp: config_parse_keyword_def cf2_def Let_def)
qed

lemma loop_ok:
  "lexer_wf lx \<Longrightarrow>
   \<exists>e cf' lx'. config_parse_loop call error cf lx = Some (e, cf', lx') \<and> kept cf cf' \<and> lexer_wf lx' \<and>
     (sound cf lx \<longrightarrow> sound cf' lx')"
proof (induction "length (lexer_rest lx)" arbitrary: lx cf error rule: less_induct)
  case less
  obtain eof lx1 where p: "lexer_peek lx LEXER_EOF = (eof, lx1)" by (cases "lexer_peek lx LEXER_EOF")
  have 1: "lp.moves lx lx1" by (rule lp.peek_moves [OF less.prems p])
  note wf1 = lp.moves_wf [OF 1]
  have k: "kept cf cf" by (simp add: kept_def)
  obtain r lx2 where e: "cexpect lx1 TOKEN_KEYWORD = (r, lx2)" by (cases "cexpect lx1 TOKEN_KEYWORD")
  have 2: "lp.moves lx lx2" by (rule lp.moves_trans [OF 1 lp.expect_moves [OF wf1 e]])
  note wf2 = lp.moves_wf [OF 2]
  show ?case
  proof (cases "eof \<or> r = None")
    case True
    with p e k wf1 wf2 sound_moves [OF _ 1] sound_moves [OF _ 2] show ?thesis
      by (subst config_parse_loop.simps) auto
  next
    case False
    then obtain tk where tk: "r = Some tk" by blast
    have c2: "lp.consumes lx lx2"
      using lp.consumes_trans2 [OF 1 lp.expect_consumes [OF wf1 e [unfolded tk]]] by simp
    obtain rv cf3 lx3 where kw: "config_parse_keyword call tk cf lx2 = Some (rv, cf3, lx3)"
      "lp.moves lx2 lx3" "kept cf cf3" "sound cf lx2 \<longrightarrow> sound cf3 lx3"
      using keyword_ok [OF wf2, of tk cf] by blast
    have c3: "lp.consumes lx lx3" by (rule lp.consumes_trans1 [OF c2 kw(2)])
    then have dec: "length (lexer_rest lx3) < length (lexer_rest lx)" and wf3: "lexer_wf lx3"
      by (auto simp: lp.consumes_def)
    have s: "sound cf lx \<longrightarrow> sound cf3 lx3" using kw(4) sound_moves [OF _ 2] by blast
    have "\<exists>e cf' lx'. config_parse_loop call er cf3 lx3 = Some (e, cf', lx') \<and> kept cf cf' \<and>
        lexer_wf lx' \<and> (sound cf lx \<longrightarrow> sound cf' lx')" for er
      using less.hyps [OF dec wf3, of er cf3] kept_trans [OF kw(3)] s by blast
    with p e tk False kw(1,3) wf3 s show ?thesis
      by (subst config_parse_loop.simps) auto
  qed
qed

lemma inner_ok:
  assumes "lexer_wf lx"
  shows "\<exists>e cf' lx'. config_parse_inner call cf lx = Some (e, cf', lx') \<and> kept cf cf' \<and>
    (\<not> e \<longrightarrow> config_missing cf' = [] \<and> (sound cf lx \<longrightarrow> defined_once cf'))"
proof -
  obtain e cf' lx' where "config_parse_loop call False cf lx = Some (e, cf', lx')" "kept cf cf'"
    "sound cf lx \<longrightarrow> sound cf' lx'"
    using loop_ok [OF assms, of False cf] by blast
  then show ?thesis
    by (auto simp: config_parse_inner_def config_validate_def lexer_get_error_def sound_def)
qed

end

lemma routine_names:
  assumes "std cf" "gr \<in> set (cf_grammar cf)" "gr_fn gr = Some fn" "n \<in> routine_allowed fn"
  shows "n = gr_kw gr \<or> unguarded cf n"
proof -
  obtain os where "cf_grammar cf = full_grammar os (cf_mode cf)"
    using assms(1) by (auto simp: std_def mode_conf_def)
  with assms(2-) show ?thesis
    by (cases "cf_mode cf") (auto simp: unguarded_def mode_grammar_def grammar_tables)
qed

interpretation pr: parse_routines "config_parse_fn os" routine_allowed for os
  by unfold_locales (rule config_parse_fn_ok routine_names; assumption)+

end
