(* ===== verification/ConfText.thy ===== *)
theory ConfText
  imports ConfValid
begin

text \<open>
  A configuration file written from a list of definitions is read back as exactly these definitions,
  and the guarantees of \<open>ConfValid\<close> for any file.
\<close>

section \<open>A lexer at given tokens\<close>

definition lx_at :: "conf_lexer \<Rightarrow> conf_kind list \<Rightarrow> bool" where
  "lx_at lx ks \<longleftrightarrow> lexer_wf lx \<and> map token_kind (lexer_rest lx) = ks \<and> lx_err lx = 0"

lemma expect_at:
  assumes "lx_at lx ((Tok t, s, i) # ks)"
  shows "\<exists>tk lx'. cexpect lx t = (Some tk, lx') \<and> tk_str tk = s \<and> tk_int tk = i \<and> lx_at lx' ks"
proof -
  have wf: "lexer_wf lx" using assms by (simp add: lx_at_def)
  obtain tk rest where tk: "lexer_rest lx = tk # rest" "token_kind tk = (Tok t, s, i)"
    "map token_kind rest = ks" using assms by (auto simp: lx_at_def)
  obtain r lx' where e: "cexpect lx t = (r, lx')" by (cases "cexpect lx t")
  from lp.expect_law [OF wf e] tk assms e show ?thesis by (auto simp: lx_at_def token_kind_def)
qed

lemma peek_at:
  assumes "lx_at lx (k # ks)"
  shows "\<exists>lx'. lexer_peek lx t = (fst k = t, lx') \<and> lx_at lx' (k # ks)"
proof -
  have wf: "lexer_wf lx" using assms by (simp add: lx_at_def)
  obtain tk rest where tk: "lexer_rest lx = tk # rest" "token_kind tk = k"
    "map token_kind rest = ks" using assms by (auto simp: lx_at_def)
  obtain b lx' where e: "lexer_peek lx t = (b, lx')" by (cases "lexer_peek lx t")
  from lx.peek_law [OF wf e] lp.peek_errors [OF wf e] tk assms e show ?thesis
    by (auto simp: lx_at_def token_kind_def)
qed

lemma accept_at:
  assumes "lx_at lx ((Tok u, s, i) # ks)"
  shows "if t = u then \<exists>tk lx'. cif lx t = (Some tk, lx') \<and> lx_at lx' ks
    else \<exists>lx'. cif lx t = (None, lx') \<and> lx_at lx' ((Tok u, s, i) # ks)"
proof -
  have wf: "lexer_wf lx" using assms by (simp add: lx_at_def)
  obtain tk rest where tk: "lexer_rest lx = tk # rest" "token_kind tk = (Tok u, s, i)"
    "map token_kind rest = ks" using assms by (auto simp: lx_at_def)
  obtain r lx' where e: "cif lx t = (r, lx')" by (cases "cif lx t")
  from lx.accept_law [OF wf e] lp.accept_errors [OF wf e] tk assms e show ?thesis
    by (auto simp: lx_at_def token_kind_def)
qed

section \<open>Writing definitions\<close>

datatype timeout_unit = USec | UMin | UHour

datatype conf_value =
    CStr string
  | CBool bool
  | CInt nat
  | CList "string list"
  | CDir string
  | CUser string
  | CTimeout nat timeout_unit

fun unit_word :: "timeout_unit \<Rightarrow> string" where
  "unit_word USec = ''s''" | "unit_word UMin = ''m''" | "unit_word UHour = ''h''"

fun unit_token :: "timeout_unit \<Rightarrow> conf_token" where
  "unit_token USec = TOKEN_SECONDS" | "unit_token UMin = TOKEN_MINUTES" | "unit_token UHour = TOKEN_HOURS"

fun unit_seconds :: "timeout_unit \<Rightarrow> int" where
  "unit_seconds USec = 1" | "unit_seconds UMin = 60" | "unit_seconds UHour = 3600"

fun value_pieces :: "conf_value \<Rightarrow> conf_piece list" where
  "value_pieces (CStr s) = [PStr s]"
| "value_pieces (CBool b) = [PWord (if b then ''yes'' else ''no'')]"
| "value_pieces (CInt n) = [PInt n]"
| "value_pieces (CList ss) = PSym (CHR ''{'') # map PStr ss @ [PSym (CHR ''}'')]"
| "value_pieces (CDir d) = [PStr d]"
| "value_pieces (CUser u) = [PStr u]"
| "value_pieces (CTimeout n u) = [PInt n, PWord (unit_word u)]"

definition conf_file :: "(string \<times> conf_value) list \<Rightarrow> string" where
  "conf_file items = conf_text (concat (map (\<lambda>(kw, v). PWord kw # value_pieces v) items))"

fun value_read :: "conf_value \<Rightarrow> variable_value" where
  "value_read (CStr s) = VString s"
| "value_read (CBool b) = VInteger (if b then 1 else 0)"
| "value_read (CInt n) = VInteger (int n)"
| "value_read (CList ss) = VList ss"
| "value_read (CDir d) = VString d"
| "value_read (CUser u) = VString u"
| "value_read (CTimeout n u) = VInteger (int n * unit_seconds u)"

text \<open>The values a routine accepts. A string cannot hold a quote or a null, and is not empty.\<close>

definition writable :: "string \<Rightarrow> bool" where
  "writable s \<longleftrightarrow> s \<noteq> [] \<and> NUL \<notin> set s \<and> CHR 0x22 \<notin> set s"

fun accepts :: "os \<Rightarrow> parse_fn \<Rightarrow> conf_value \<Rightarrow> bool" where
  "accepts os config_parse_string_fn (CStr s) = writable s"
| "accepts os config_parse_boolean_fn (CBool b) = True"
| "accepts os config_parse_integer_fn (CInt n) = (int n \<le> INT_MAX)"
| "accepts os config_parse_list_fn (CList ss) = (\<forall>s \<in> set ss. writable s)"
| "accepts os config_parse_directory_fn (CDir d) =
     (writable d \<and> dollar \<notin> set d \<and> os_is_dir os d = Some True)"
| "accepts os config_parse_user_fn (CUser u) = (writable u \<and> os_getpwnam os u)"
| "accepts os config_parse_timeout_fn (CTimeout n u) = (int n * unit_seconds u \<le> INT_MAX)"
| "accepts os _ _ = False"

fun_cases accepts_trueE: "accepts os fn v"

section \<open>Reading a value\<close>

lemma reserved_any:
  "reserved ROBSD = [(''{'', TOKEN_LBRACE), (''}'', TOKEN_RBRACE), (''no'', TOKEN_NO),
     (''s'', TOKEN_SECONDS), (''yes'', TOKEN_YES)]"
  "reserved ROBSD_CROSS = reserved ROBSD" "reserved ROBSD_PORTS = reserved ROBSD"
  by (simp_all add: reserved_def token_types_def)

lemma reserved_canvas:
  "reserved CANVAS = [(''{'', TOKEN_LBRACE), (''}'', TOKEN_RBRACE), (''command'', TOKEN_COMMAND),
     (''no'', TOKEN_NO), (''parallel'', TOKEN_PARALLEL), (''s'', TOKEN_SECONDS), (''yes'', TOKEN_YES)]"
  by (simp add: reserved_def token_types_def)

lemma reserved_regress:
  "reserved ROBSD_REGRESS = [(''{'', TOKEN_LBRACE), (''}'', TOKEN_RBRACE), (''env'', TOKEN_ENV),
     (''h'', TOKEN_HOURS), (''m'', TOKEN_MINUTES), (''no'', TOKEN_NO), (''no-parallel'', TOKEN_NO_PARALLEL),
     (''obj'', TOKEN_OBJ), (''packages'', TOKEN_PACKAGES), (''quiet'', TOKEN_QUIET), (''root'', TOKEN_ROOT),
     (''s'', TOKEN_SECONDS), (''targets'', TOKEN_TARGETS), (''timeout'', TOKEN_TIMEOUT), (''yes'', TOKEN_YES)]"
  by (simp add: reserved_def token_types_def)

lemmas reserved_eqs = reserved_any(1) reserved_any(2,3) [unfolded reserved_any(1)] reserved_canvas reserved_regress

lemma reserved_words:
  assumes "token_type_lookup_alloc ok m = Some lookup"
  shows "token_type_lookup lookup ''{'' t = TOKEN_LBRACE" "token_type_lookup lookup ''}'' t = TOKEN_RBRACE"
    "token_type_lookup lookup ''yes'' t = TOKEN_YES" "token_type_lookup lookup ''no'' t = TOKEN_NO"
    "token_type_lookup lookup ''s'' t = TOKEN_SECONDS"
  unfolding token_type_lookup_eq [OF assms] by (cases m; simp add: reserved_eqs)+

lemma unit_words:
  assumes "token_type_lookup_alloc ok ROBSD_REGRESS = Some lookup"
  shows "token_type_lookup lookup (unit_word u) t = unit_token u"
  unfolding token_type_lookup_eq [OF assms] by (cases u; simp add: reserved_eqs)

definition word_entry :: "grammar \<Rightarrow> bool" where
  "word_entry gr \<longleftrightarrow> (gr_fn gr \<noteq> None \<longrightarrow>
     gr_kw gr \<noteq> [] \<and> is_lower (hd (gr_kw gr)) \<and> list_all word_char (gr_kw gr))"

lemma word_entries: "list_all word_entry (common_grammar machine arch)" "list_all word_entry (mode_grammar m)"
  by code_simp (induction m; code_simp)

lemma keywords_not_reserved:
  "\<forall>gr \<in> set (common_grammar machine arch). gr_fn gr \<noteq> None \<longrightarrow> gr_kw gr \<notin> fst ` set (reserved m)"
  "\<forall>gr \<in> set (mode_grammar m). gr_fn gr \<noteq> None \<longrightarrow> gr_kw gr \<notin> fst ` set (reserved m)"
  by (cases m; simp add: common_grammar_def reserved_eqs)
    (cases m; simp add: mode_grammar_def grammar_tables reserved_eqs)

lemma keyword_not_reserved:
  assumes "token_type_lookup_alloc ok m = Some lookup" "gr \<in> set (full_grammar os m)" "gr_fn gr \<noteq> None"
  shows "token_type_lookup lookup (gr_kw gr) TOKEN_KEYWORD = TOKEN_KEYWORD \<and> piece_ok (PWord (gr_kw gr))"
proof -
  have "map_of (reserved m) (gr_kw gr) = None"
    using assms(2,3) keywords_not_reserved(1) [of "os_machine os" "os_machine_arch os" m]
      keywords_not_reserved(2) [of m] unfolding map_of_eq_None_iff by auto
  moreover have "word_entry gr"
    using assms(2) word_entries(1) [of "os_machine os" "os_machine_arch os"] word_entries(2) [of m] by (auto simp: list_all_iff)
  ultimately show ?thesis
    using assms(3) unfolding token_type_lookup_eq [OF assms(1)] by (simp add: word_entry_def list_all_iff)
qed

lemma timeout_mode:
  assumes "gr \<in> set (full_grammar os m)" "gr_fn gr = Some config_parse_timeout_fn"
  shows "m = ROBSD_REGRESS"
  using assms by (cases m) (auto simp: mode_grammar_def grammar_tables)


lemma config_parse_list_loop_at:
  "lx_at lx (map (\<lambda>s. (Tok TOKEN_STRING, s, 0)) ss @ (Tok TOKEN_RBRACE, w, i) # ks) \<Longrightarrow>
   \<exists>lx'. config_parse_list_loop xs lx = Some (Some (xs @ ss), lx') \<and>
     lx_at lx' ((Tok TOKEN_RBRACE, w, i) # ks)"
proof (induction ss arbitrary: lx xs)
  case Nil
  then obtain lx' where "lexer_peek lx (Tok TOKEN_RBRACE) = (True, lx')"
    "lx_at lx' ((Tok TOKEN_RBRACE, w, i) # ks)" using peek_at [of lx _ ks "Tok TOKEN_RBRACE"] by fastforce
  then show ?case by (subst config_parse_list_loop.simps) simp
next
  case (Cons s ss)
  then obtain lx1 where p: "lexer_peek lx (Tok TOKEN_RBRACE) = (False, lx1)"
    "lx_at lx1 ((Tok TOKEN_STRING, s, 0) # map (\<lambda>s. (Tok TOKEN_STRING, s, 0)) ss @ (Tok TOKEN_RBRACE, w, i) # ks)"
    using peek_at [of lx "(Tok TOKEN_STRING, s, 0)" _ "Tok TOKEN_RBRACE"] by fastforce
  obtain tk lx2 where e: "cexpect lx1 TOKEN_STRING = (Some tk, lx2)" "tk_str tk = s"
    "lx_at lx2 (map (\<lambda>s. (Tok TOKEN_STRING, s, 0)) ss @ (Tok TOKEN_RBRACE, w, i) # ks)"
    using expect_at [OF p(2)] by blast
  from Cons.IH [OF e(3), of "xs @ [s]"] p(1) e(1,2) show ?case
    by (subst config_parse_list_loop.simps) auto
qed

lemma config_parse_list_at:
  assumes "lx_at lx ((Tok TOKEN_LBRACE, [], 0) # map (\<lambda>s. (Tok TOKEN_STRING, s, 0)) ss @
    (Tok TOKEN_RBRACE, [], 0) # ks)"
  shows "\<exists>lx'. config_parse_list cf lx = Some (CONFIG_APPEND, VList ss, cf, lx') \<and> lx_at lx' ks"
proof -
  obtain tk lx1 where 1: "cexpect lx TOKEN_LBRACE = (Some tk, lx1)"
    "lx_at lx1 (map (\<lambda>s. (Tok TOKEN_STRING, s, 0)) ss @ (Tok TOKEN_RBRACE, [], 0) # ks)"
    using expect_at [OF assms] by blast
  obtain lx2 where 2: "config_parse_list_loop [] lx1 = Some (Some ss, lx2)"
    "lx_at lx2 ((Tok TOKEN_RBRACE, [], 0) # ks)"
    using config_parse_list_loop_at [OF 1(2), of "[]"] by auto
  obtain tk' lx3 where 3: "cexpect lx2 TOKEN_RBRACE = (Some tk', lx3)" "lx_at lx3 ks"
    using expect_at [OF 2(2)] by blast
  from 1(1) 2(1) 3 show ?thesis by (simp add: config_parse_list_def)
qed

lemma timeout_scaled_exact:
  assumes "int n \<le> INT_MAX"
  shows "timeout_scaled (unit_seconds u) (VInteger (int n)) tk cf lx =
    (if int n * unit_seconds u \<le> INT_MAX then (CONFIG_APPEND, VInteger (int n * unit_seconds u), cf, lx)
     else (CONFIG_ERROR, VInvalid, cf, lexer_error lx (tk_lno tk) ''timeout too large''))"
proof -
  have u: "0 < unit_seconds u" "unit_seconds u \<le> 3600" by (cases u; simp)+
  have s: "sint (word_of_int (unit_seconds u) :: i32) = unit_seconds u"
    "sint (word_of_int (int n) :: i32) = int n"
    using u assms sint_i32_of_int [of "int n"] by (simp_all add: sint_i32_of_int)
  have nn: "0 \<le> int n * unit_seconds u" using u by simp
  show ?thesis
  proof (cases "int n * unit_seconds u \<le> INT_MAX")
    case True
    have "sint (word_of_int (int n * unit_seconds u) :: i32) = int n * unit_seconds u"
      using sint_i32_of_int [of "int n * unit_seconds u"] nn True by simp
    with True s nn show ?thesis
      by (simp add: timeout_scaled_def KS_i32_mul_overflow_def fits_signed_def smin_def smax_def mult.commute)
  next
    case False
    with s show ?thesis
      by (simp add: timeout_scaled_def KS_i32_mul_overflow_def fits_signed_def smin_def smax_def mult.commute)
  qed
qed

lemma config_parse_timeout_at:
  assumes at: "lx_at lx ((Tok TOKEN_INTEGER, s, int n) # (Tok (unit_token u), w, i) # ks)"
    and "int n \<le> INT_MAX"
  shows "\<exists>tk lx'. config_parse_timeout cf lx = timeout_scaled (unit_seconds u) (VInteger (int n)) tk cf lx' \<and>
    lx_at lx' ks"
proof -
  obtain tk lx1 where 1: "cexpect lx TOKEN_INTEGER = (Some tk, lx1)" "tk_int tk = int n"
    "lx_at lx1 ((Tok (unit_token u), w, i) # ks)"
    using expect_at [OF at] by blast
  have skip: "\<exists>lx'. cif lx0 t = (None, lx') \<and> lx_at lx' ((Tok (unit_token u), w, i) # ks)"
    if "lx_at lx0 ((Tok (unit_token u), w, i) # ks)" "t \<noteq> unit_token u" for lx0 t
    using accept_at [OF that(1), of t] that(2) by simp
  have take: "\<exists>tk lx'. cif lx0 (unit_token u) = (Some tk, lx') \<and> lx_at lx' ks"
    if "lx_at lx0 ((Tok (unit_token u), w, i) # ks)" for lx0
    using accept_at [OF that, of "unit_token u"] by simp
  show ?thesis
  proof (cases u)
    case USec
    obtain tk' lx2 where "cif lx1 TOKEN_SECONDS = (Some tk', lx2)" "lx_at lx2 ks"
      using take [OF 1(3)] USec by auto
    with 1 USec show ?thesis
      by (intro exI [of _ tk'] exI [of _ lx2]) (simp add: config_parse_timeout_def config_parse_integer_def)
  next
    case UMin
    obtain lx2 where 2: "cif lx1 TOKEN_SECONDS = (None, lx2)" "lx_at lx2 ((Tok (unit_token u), w, i) # ks)"
      using skip [OF 1(3), of TOKEN_SECONDS] UMin by auto
    obtain tk' lx3 where "cif lx2 TOKEN_MINUTES = (Some tk', lx3)" "lx_at lx3 ks"
      using take [OF 2(2)] UMin by auto
    with 1 2(1) UMin show ?thesis
      by (intro exI [of _ tk'] exI [of _ lx3]) (simp add: config_parse_timeout_def config_parse_integer_def)
  next
    case UHour
    obtain lx2 where 2: "cif lx1 TOKEN_SECONDS = (None, lx2)" "lx_at lx2 ((Tok (unit_token u), w, i) # ks)"
      using skip [OF 1(3), of TOKEN_SECONDS] UHour by auto
    obtain lx3 where 3: "cif lx2 TOKEN_MINUTES = (None, lx3)" "lx_at lx3 ((Tok (unit_token u), w, i) # ks)"
      using skip [OF 2(2), of TOKEN_MINUTES] UHour by auto
    obtain tk' lx4 where "cif lx3 TOKEN_HOURS = (Some tk', lx4)" "lx_at lx4 ks"
      using take [OF 3(2)] UHour by auto
    with 1 2(1) 3(1) UHour show ?thesis
      by (intro exI [of _ tk'] exI [of _ lx4]) (simp add: config_parse_timeout_def config_parse_integer_def)
  qed
qed


lemma interpolate_str_plain: "dollar \<notin> set str \<Longrightarrow> interpolate_str lk ign s str = (Some str, s)"
  by (simp add: interpolate_str_def interpolate_buffer_def interpolate_step inner_plain)

text \<open>The kinds of the tokens of a value.\<close>

abbreviation value_kinds :: "token_type_lookup \<Rightarrow> conf_value \<Rightarrow> conf_kind list" where
  "value_kinds lookup v \<equiv> map (piece_kind lookup) (value_pieces v)"

lemma routine_at:
  assumes lookup: "token_type_lookup_alloc ok m = Some lookup"
    and acc: "accepts os fn v" and m: "fn = config_parse_timeout_fn \<Longrightarrow> m = ROBSD_REGRESS"
    and at: "lx_at lx (value_kinds lookup v @ ks)"
  shows "\<exists>lx'. config_parse_fn os fn cf lx = Some (CONFIG_APPEND, value_read v, cf, lx') \<and> lx_at lx' ks"
proof -
  note words = reserved_words [OF lookup] word_kind_def
  have expect: "\<exists>tk lx'. cexpect lx t = (Some tk, lx') \<and> tk_str tk = s \<and> tk_int tk = i \<and> lx_at lx' ks"
    if "value_kinds lookup v = [(Tok t, s, i)]" for t s i
    using expect_at [of lx t s i ks] at that by simp
  show ?thesis
  proof (cases v)
    case (CStr s)
    with acc have "fn = config_parse_string_fn" by (cases fn) auto
    with expect [of TOKEN_STRING s 0] CStr show ?thesis
      by (auto simp: config_parse_fn_def config_parse_string_def)
  next
    case (CBool b)
    with acc have "fn = config_parse_boolean_fn" by (cases fn) auto
    with expect [of TOKEN_BOOLEAN "[]" "if b then 1 else 0"] CBool words show ?thesis
      by (auto simp: config_parse_fn_def config_parse_boolean_def)
  next
    case (CInt n)
    with acc have "fn = config_parse_integer_fn" by (cases fn) auto
    with expect [of TOKEN_INTEGER "[]" "int n"] CInt show ?thesis
      by (auto simp: config_parse_fn_def config_parse_integer_def)
  next
    case (CList ss)
    with acc have fn: "fn = config_parse_list_fn" by (cases fn) auto
    have "value_kinds lookup v = (Tok TOKEN_LBRACE, [], 0) # map (\<lambda>s. (Tok TOKEN_STRING, s, 0)) ss @
        [(Tok TOKEN_RBRACE, [], 0)]"
      using CList words by (simp add: comp_def)
    with at config_parse_list_at [of lx ss ks cf] show ?thesis
      by (simp add: fn CList config_parse_fn_def comp_def)
  next
    case (CDir d)
    with acc have "fn = config_parse_directory_fn" by (cases fn) auto
    with expect [of TOKEN_STRING d 0] CDir acc show ?thesis
      by (auto simp: config_parse_fn_def config_parse_directory_def interpolate_str_plain writable_def)
  next
    case (CUser u)
    with acc have "fn = config_parse_user_fn" by (cases fn) auto
    with expect [of TOKEN_STRING u 0] CUser acc show ?thesis
      by (auto simp: config_parse_fn_def config_parse_user_def)
  next
    case (CTimeout n u)
    with acc have fn: "fn = config_parse_timeout_fn" by (cases fn) auto
    have le: "int n * unit_seconds u \<le> INT_MAX" using acc CTimeout fn by simp
    have "1 \<le> unit_seconds u" by (cases u) simp_all
    then have "int n * 1 \<le> int n * unit_seconds u" by (rule mult_left_mono) simp
    with le have n: "int n \<le> INT_MAX" by simp
    have "unit_token u \<notin> {TOKEN_KEYWORD, TOKEN_YES, TOKEN_NO}" by (cases u) simp_all
    then have "value_kinds lookup v = [(Tok TOKEN_INTEGER, [], int n), (Tok (unit_token u), [], 0)]"
      using unit_words [OF lookup [unfolded m [OF fn]], of u] by (auto simp: CTimeout word_kind_def)
    with at have "lx_at lx ((Tok TOKEN_INTEGER, [], int n) # (Tok (unit_token u), [], 0) # ks)" by simp
    from config_parse_timeout_at [OF this n, of cf] timeout_scaled_exact [OF n, of u] le fn show ?thesis
      by (auto simp: CTimeout config_parse_fn_def)
  qed
qed

lemma value_pieces_ok:
  assumes "accepts os fn v"
  shows "\<forall>p \<in> set (value_pieces v). piece_ok p"
proof -
  have w: "piece_ok (PWord ''yes'')" "piece_ok (PWord ''no'')" "piece_ok (PWord (unit_word u))" for u
    by (simp_all add: word_char_def is_lower_def; cases u; simp add: word_char_def is_lower_def)+
  have t: "int n \<le> INT_MAX" if "int n * unit_seconds u \<le> INT_MAX" for n u
    using that by (cases u) simp_all
  show ?thesis
    using assms w t by (cases v; cases fn) (auto simp: writable_def simp del: piece_ok.simps(1))
qed

section \<open>Reading a file\<close>

text \<open>The definitions a configuration takes: keywords with a routine that accepts the value, none
  of them defined yet, each at most once.\<close>

definition item_ok :: "os \<Rightarrow> config \<Rightarrow> string \<times> conf_value \<Rightarrow> bool" where
  "item_ok os cf it \<longleftrightarrow>
     (case config_find_grammar_for_keyword cf (fst it) of
        None \<Rightarrow> False
      | Some gr \<Rightarrow> (case gr_fn gr of None \<Rightarrow> False | Some fn \<Rightarrow> accepts os fn (snd it)))"

definition read_items :: "config \<Rightarrow> (string \<times> conf_value) list \<Rightarrow> config" where
  "read_items cf items =
     cf\<lparr>cf_variables := cf_variables cf @ map (\<lambda>(kw, v). \<lparr>va_name = kw, va_val = value_read v\<rparr>) items\<rparr>"

lemma item_ok_read: "item_ok os (read_items cf its) it = item_ok os cf it"
  by (simp add: item_ok_def read_items_def config_find_grammar_for_keyword_def)

lemma present_read: "config_present (read_items cf its) kw \<longleftrightarrow> config_present cf kw \<or> kw \<in> fst ` set its"
proof -
  have "va_name ` (\<lambda>(kw, v). \<lparr>va_name = kw, va_val = value_read v\<rparr>) ` set its = fst ` set its"
    by (simp add: image_image split_def)
  then have "kw \<in> va_name ` set (cf_variables (read_items cf its)) \<longleftrightarrow>
      kw \<in> va_name ` set (cf_variables cf) \<or> kw \<in> fst ` set its"
    by (simp add: read_items_def image_Un)
  then show ?thesis by (auto simp: config_present_def)
qed

lemma item_okE:
  assumes "item_ok os cf (kw, v)" "mode_conf os' cf"
  obtains gr fn where "config_find_grammar_for_keyword cf kw = Some gr" "gr_fn gr = Some fn"
    "accepts os fn v" "gr \<in> set (full_grammar os' (cf_mode cf))" "gr_kw gr = kw"
proof -
  obtain gr fn where gr: "config_find_grammar_for_keyword cf kw = Some gr" "gr_fn gr = Some fn" "accepts os fn v"
    using assms(1) by (auto simp: item_ok_def split: option.splits)
  then have "gr \<in> set (cf_grammar cf)" "gr_kw gr = kw"
    unfolding config_find_grammar_for_keyword_def by (auto simp: find_Some_iff)
  with assms(2) gr that show thesis by (simp add: mode_conf_def)
qed

lemma config_parse_keyword_at:
  assumes conf: "mode_conf os' cf" "token_type_lookup_alloc ok (cf_mode cf) = Some lookup"
    and it: "item_ok os cf (kw, v)" "\<not> config_present cf kw" "tk_str tk = kw"
    and at: "lx_at lx (value_kinds lookup v @ ks)"
  shows "\<exists>lx'. config_parse_keyword (config_parse_fn os) tk cf lx =
      Some (CONFIG_APPEND, read_items cf [(kw, v)], lx') \<and> lx_at lx' ks"
proof -
  obtain gr fn where gr: "config_find_grammar_for_keyword cf kw = Some gr" "gr_fn gr = Some fn"
    "accepts os fn v" "gr \<in> set (full_grammar os' (cf_mode cf))" "gr_kw gr = kw"
    using item_okE [OF it(1) conf(1)] by blast
  obtain lx' where "config_parse_fn os fn cf lx = Some (CONFIG_APPEND, value_read v, cf, lx')" "lx_at lx' ks"
    using routine_at [OF conf(2) gr(3) _ at] timeout_mode [OF gr(4)] gr(2) by blast
  with gr it show ?thesis
    by (simp add: config_parse_keyword_def config_append_def read_items_def)
qed

lemma item_kinds:
  assumes "mode_conf os' cf" "token_type_lookup_alloc ok (cf_mode cf) = Some lookup" "item_ok os cf (kw, v)"
  shows "piece_kind lookup (PWord kw) = (Tok TOKEN_KEYWORD, kw, 0) \<and>
    (\<forall>p \<in> set (PWord kw # value_pieces v). piece_ok p)"
proof -
  obtain gr fn where gr: "gr_fn gr = Some fn" "accepts os fn v"
    "gr \<in> set (full_grammar os' (cf_mode cf))" "gr_kw gr = kw"
    using item_okE [OF assms(3,1)] by blast
  from keyword_not_reserved [OF assms(2) gr(3)] value_pieces_ok [OF gr(2)] gr(1,4) show ?thesis
    by (simp add: word_kind_def del: piece_ok.simps)
qed

lemma config_parse_loop_at:
  assumes "mode_conf os' cf" "token_type_lookup_alloc ok (cf_mode cf) = Some lookup"
    and "\<forall>it \<in> set items. item_ok os cf it \<and> \<not> config_present cf (fst it)" "distinct (map fst items)"
    and "lx_at lx (map (piece_kind lookup) (concat (map (\<lambda>(kw, v). PWord kw # value_pieces v) items)) @
      [(LEXER_EOF, [], 0)])"
  shows "\<exists>lx'. config_parse_loop (config_parse_fn os) False cf lx = Some (False, read_items cf items, lx') \<and>
    lx_err lx' = 0"
  using assms
proof (induction items arbitrary: cf lx)
  case Nil
  then obtain lx' where "lexer_peek lx LEXER_EOF = (True, lx')" "lx_at lx' [(LEXER_EOF, [], 0)]"
    using peek_at [of lx "(LEXER_EOF, [], 0)" "[]" LEXER_EOF] by auto
  then show ?case by (subst config_parse_loop.simps) (simp add: lx_at_def read_items_def)
next
  case (Cons it items)
  obtain kw v where it: "it = (kw, v)" by (cases it)
  let ?rest = "map (piece_kind lookup) (concat (map (\<lambda>(kw, v). PWord kw # value_pieces v) items)) @
    [(LEXER_EOF, [], 0)]"
  have ok: "item_ok os cf (kw, v)" "\<not> config_present cf kw" using Cons.prems(3) it by simp_all
  have "piece_kind lookup (PWord kw) = (Tok TOKEN_KEYWORD, kw, 0)"
    using item_kinds [OF Cons.prems(1,2) ok(1)] by simp
  then have at: "lx_at lx ((Tok TOKEN_KEYWORD, kw, 0) # value_kinds lookup v @ ?rest)"
    using Cons.prems(5) it by (simp del: piece_kind.simps)
  obtain lx1 where 1: "lexer_peek lx LEXER_EOF = (False, lx1)"
    "lx_at lx1 ((Tok TOKEN_KEYWORD, kw, 0) # value_kinds lookup v @ ?rest)"
    using peek_at [OF at, of LEXER_EOF] by auto
  obtain tk lx2 where 2: "cexpect lx1 TOKEN_KEYWORD = (Some tk, lx2)" "tk_str tk = kw"
    "lx_at lx2 (value_kinds lookup v @ ?rest)"
    using expect_at [OF 1(2)] by blast
  obtain lx3 where 3: "config_parse_keyword (config_parse_fn os) tk cf lx2 =
      Some (CONFIG_APPEND, read_items cf [(kw, v)], lx3)" "lx_at lx3 ?rest"
    using config_parse_keyword_at [OF Cons.prems(1,2) ok 2(2,3)] by blast
  let ?cf = "read_items cf [(kw, v)]"
  have conf: "mode_conf os' ?cf" "token_type_lookup_alloc ok (cf_mode ?cf) = Some lookup"
    using Cons.prems(1,2) by (simp_all add: mode_conf_def read_items_def)
  have items: "\<forall>it \<in> set items. item_ok os ?cf it \<and> \<not> config_present ?cf (fst it)"
    using Cons.prems(3,4) it by (auto simp: item_ok_read present_read)
  obtain lx' where "config_parse_loop (config_parse_fn os) False ?cf lx3 =
      Some (False, read_items ?cf items, lx')" "lx_err lx' = 0"
    using Cons.IH [OF conf items _ 3(2)] Cons.prems(4) by auto
  moreover have "read_items ?cf items = read_items cf (it # items)" by (simp add: read_items_def it)
  ultimately show ?case using 1(1) 2(1) 3(1) by (subst config_parse_loop.simps) simp
qed

lemma lexer_alloc_conf:
  assumes "\<forall>p \<in> set ps. piece_ok p"
  shows "\<exists>lx. lexer_alloc (config_lexer_read lookup) (Some (conf_text ps)) () = Some (lx, (), True) \<and>
    lx_at lx (map (piece_kind lookup) ps @ [(LEXER_EOF, [], 0)])"
proof -
  have "lexer_at (lexer_init (conf_text ps)) ([] @ conf_text ps)"
    by (simp add: lexer_at_def lexer_init_def)
  from config_read_all [OF assms _ this, of lookup] obtain lx where
    lx: "lexer_read_all (config_lexer_read lookup) (lexer_init (conf_text ps)) () = Some (lx, (), True)"
    "map token_kind (lx_tokens lx) = map (piece_kind lookup) ps @ [(LEXER_EOF, [], 0)]" "lx_err lx = 0"
    by (auto simp: lexer_init_def)
  then have "lexer_alloc (config_lexer_read lookup) (Some (conf_text ps)) () = Some (lx, (), True)"
    by (simp add: lexer_alloc_def)
  with lexer_alloc_wf [OF config_reader_progress, of lookup "Some (conf_text ps)" "()"] lx
  show ?thesis by (auto simp: lx_at_def)
qed

lemma config_parse_conf_file:
  assumes conf: "mode_conf os' cf" "token_type_lookup_alloc ok (cf_mode cf) = Some (cf_lookup cf)"
    and items: "\<forall>it \<in> set items. item_ok os cf it \<and> \<not> config_present cf (fst it)" "distinct (map fst items)"
    and content: "os_read os (cf_path cf) = Some (conf_file items)"
  shows "config_parse os cf =
    (if config_missing (read_items cf items) = [] then Some (False, config_after_parse (read_items cf items))
     else Some (True, read_items cf items))"
proof -
  let ?ps = "concat (map (\<lambda>(kw, v). PWord kw # value_pieces v) items)"
  have "\<forall>p \<in> set ?ps. piece_ok p" using item_kinds [OF conf] items(1) by fastforce
  then obtain lx where lx: "lexer_alloc (config_lexer_read (cf_lookup cf)) (Some (conf_text ?ps)) () = Some (lx, (), True)"
    "lx_at lx (map (piece_kind (cf_lookup cf)) ?ps @ [(LEXER_EOF, [], 0)])"
    using lexer_alloc_conf by blast
  obtain lx' where "config_parse_loop (config_parse_fn os) False cf lx = Some (False, read_items cf items, lx')"
    "lx_err lx' = 0"
    using config_parse_loop_at [OF conf items lx(2)] by blast
  with lx(1) content show ?thesis
    by (simp add: config_parse_def conf_file_def config_parse_inner_def config_validate_def lexer_get_error_def)
qed


definition sample_items :: "(string \<times> conf_value) list" where
  "sample_items =
     [(''robsddir'', CDir ''/home/cross''), (''crossdir'', CStr ''/cross''), (''keep'', CInt 3),
      (''skip'', CList [''env'', ''tools'']), (''keep-attic'', CBool False)]"

definition file_os :: os where
  "file_os = sample_os\<lparr>os_read := (\<lambda>p. if p = ''/etc/robsd.conf'' then Some (conf_file sample_items) else None)\<rparr>"

lemma sample_items_ok:
  "mode_conf sample_os (sample_conf ROBSD_CROSS [])"
  "token_type_lookup_alloc (\<lambda>_. True) (cf_mode (sample_conf ROBSD_CROSS [])) =
    Some (cf_lookup (sample_conf ROBSD_CROSS []))"
  "\<forall>it \<in> set sample_items. item_ok file_os (sample_conf ROBSD_CROSS []) it \<and>
    \<not> config_present (sample_conf ROBSD_CROSS []) (fst it)"
  "distinct (map fst sample_items)"
  "os_read file_os (cf_path (sample_conf ROBSD_CROSS [])) = Some (conf_file sample_items)"
proof -
  show "token_type_lookup_alloc (\<lambda>_. True) (cf_mode (sample_conf ROBSD_CROSS [])) =
    Some (cf_lookup (sample_conf ROBSD_CROSS []))"
    using token_type_lookup_alloc_ok [of ROBSD_CROSS] by (auto simp: sample_conf_def)
qed (simp_all add: mode_conf_def sample_conf_def sample_items_def file_os_def sample_os_def item_ok_def
  config_find_grammar_for_keyword_def mode_grammar_def grammar_tables writable_def config_present_def)

lemma sample_items_complete: "config_missing (read_items (sample_conf ROBSD_CROSS []) sample_items) = []"
  by (simp add: config_missing_def read_items_def sample_conf_def config_present_def sample_items_def
    mode_grammar_def grammar_tables)

lemma config_parse_returns:
  "\<exists>e cf'. config_parse os cf = Some (e, cf') \<and>
    (mode_conf os' cf \<longrightarrow> defined_once cf \<longrightarrow> \<not> e \<longrightarrow>
      cf_grammar cf' = cf_grammar cf \<and> cf_mode cf' = cf_mode cf \<and> config_missing cf' = [] \<and> defined_once cf')"
proof -
  have alloc: "\<exists>lx s' ok. lexer_alloc (config_lexer_read (cf_lookup cf)) (os_read os (cf_path cf)) () =
      Some (lx, s', ok) \<and> (ok \<longrightarrow> lexer_wf lx \<and> lexer_rest lx = lx_tokens lx)"
    by (rule lexer_alloc_wf [OF config_reader_progress])
  then obtain lx ok where lx: "lexer_alloc (config_lexer_read (cf_lookup cf)) (os_read os (cf_path cf)) () =
      Some (lx, (), ok)" "ok \<Longrightarrow> lexer_wf lx" by auto
  show ?thesis
  proof (cases ok)
    case False
    with lx(1) show ?thesis by (intro exI [of _ True]) (simp add: config_parse_def)
  next
    case True
    obtain e cf' lx' where r: "config_parse_inner (config_parse_fn os) cf lx = Some (e, cf', lx')" "kept cf cf'"
      "\<not> e \<longrightarrow> config_missing cf' = [] \<and> (pr.sound cf lx \<longrightarrow> defined_once cf')"
      using pr.inner_ok [OF lx(2) [OF True], of os cf] by blast
    have after: "config_missing (config_after_parse cf') = config_missing cf'"
      "defined_once (config_after_parse cf') = defined_once cf'"
      "cf_grammar (config_after_parse cf') = cf_grammar cf'" "cf_mode (config_after_parse cf') = cf_mode cf'"
      by (simp_all add: config_after_parse_def config_canvas_after_parse_def config_missing_def
        config_present_def defined_once_def var_names_def repeatable_def unguarded_def
        config_find_grammar_for_keyword_def)
    have "mode_conf os' cf \<Longrightarrow> defined_once cf \<Longrightarrow> pr.sound cf lx"
      by (auto simp: pr.sound_def std_def)
    with lx(1) True r after show ?thesis
      by (intro exI [of _ e] exI [of _ "if e then cf' else config_after_parse cf'"])
        (auto simp: config_parse_def kept_def)
  qed
qed

section \<open>Properties\<close>




text \<open>C37: when parsing succeeds, every required variable is there, and no keyword that may not be
  repeated is defined twice, with the exception of \<open>robsddir\<close> in the canvas mode. The configuration
  may hold variables from the command line before.\<close>

theorem config_parse_valid:
  assumes "mode_conf os' cf" "defined_once cf" "config_parse os cf = Some (False, cf')"
  shows "(\<forall>gr \<in> set (full_grammar os' (cf_mode cf)). REQ \<in> gr_flags gr \<longrightarrow> config_present cf' (gr_kw gr)) \<and>
    (\<forall>n. \<not> repeatable cf' n \<longrightarrow> cf_mode cf' \<noteq> CANVAS \<or> n \<noteq> ''robsddir'' \<longrightarrow>
       count_list (map va_name (cf_variables cf')) n \<le> 1)"
proof -
  have "cf_grammar cf' = cf_grammar cf" "config_missing cf' = []" "defined_once cf'"
    using config_parse_returns [of os cf os'] assms by auto
  with assms(1) show ?thesis
    by (auto simp: config_missing_def filter_empty_conv mode_conf_def defined_once_def unguarded_def var_names_def)
qed

theorem config_parse_valid_witness:
  "config_present (snd (the (config_parse file_os (sample_conf ROBSD_CROSS [])))) ''crossdir''"
proof -
  obtain cf' where p: "config_parse file_os (sample_conf ROBSD_CROSS []) = Some (False, cf')"
    using config_parse_conf_file [OF sample_items_ok] sample_items_complete by simp
  have once: "defined_once (sample_conf ROBSD_CROSS [])"
    by (simp add: defined_once_def var_names_def sample_conf_def)
  from config_parse_valid [OF sample_items_ok(1) once p]
  have "config_present cf' ''crossdir''"
    by (simp add: sample_conf_def mode_grammar_def robsd_cross_grammar_def)
  with p show ?thesis by simp
qed

text \<open> A timeout is the number times the unit, and is refused with a message exactly when the
  product does not fit an \<open>int\<close>.\<close>

lemma timeout_exact:
  assumes "lx_at lx ((Tok TOKEN_INTEGER, s, int n) # (Tok (unit_token u), w, i) # ks)" "int n \<le> INT_MAX"
  shows "\<exists>lx'. if int n * unit_seconds u \<le> INT_MAX
    then config_parse_timeout cf lx = (CONFIG_APPEND, VInteger (int n * unit_seconds u), cf, lx') \<and> lx_at lx' ks
    else config_parse_timeout cf lx = (CONFIG_ERROR, VInvalid, cf, lx') \<and> lx_err lx' = 1"
proof -
  obtain tk lx' where "config_parse_timeout cf lx = timeout_scaled (unit_seconds u) (VInteger (int n)) tk cf lx'"
    "lx_at lx' ks"
    using config_parse_timeout_at [OF assms] by blast
  then show ?thesis
    using timeout_scaled_exact [OF assms(2), of u tk cf lx']
    by (cases "int n * unit_seconds u \<le> INT_MAX") (simp_all add: lx_at_def)
qed

definition timeout_lexer :: conf_lexer where
  "timeout_lexer = (lexer_init [])\<lparr>lx_tokens :=
     [\<lparr>tk_type = Tok TOKEN_INTEGER, tk_lno = 1, tk_str = [], tk_int = 600000\<rparr>,
      \<lparr>tk_type = Tok TOKEN_HOURS, tk_lno = 1, tk_str = [], tk_int = 0\<rparr>,
      \<lparr>tk_type = LEXER_EOF, tk_lno = 1, tk_str = [], tk_int = 0\<rparr>]\<rparr>"

theorem timeout_exact_witness:
  "fst (config_parse_timeout (sample_conf ROBSD_REGRESS []) timeout_lexer) = CONFIG_ERROR"
proof -
  have "lx_at timeout_lexer ((Tok TOKEN_INTEGER, [], int 600000) # (Tok (unit_token UHour), [], 0) #
      [(LEXER_EOF, [], 0)])"
    by (simp add: lx_at_def timeout_lexer_def lexer_init_def lexer_wf_def lexer_rest_def token_kind_def)
  from timeout_exact [OF this, of "sample_conf ROBSD_REGRESS []"] show ?thesis by auto
qed

end
