(* ===== verification/ConfSteps.thy ===== *)
theory ConfSteps
  imports ConfText
begin

text \<open>
  The steps of a configuration: \<open>config_get_steps\<close> of \<open>conf.c\<close> with the callbacks of the modes
  (\<open>config_default_get_steps\<close>, \<open>config_robsd_regress_get_steps\<close>, \<open>config_canvas_get_steps\<close>).
\<close>

section \<open>Values\<close>

text \<open>\<open>config_value\<close> for an integer. Reading the integer of another member of the union is marked as
  a crash.\<close>

definition config_value_integer :: "os \<Rightarrow> config \<Rightarrow> string \<Rightarrow> int \<Rightarrow> int \<times> config" where
  "config_value_integer os cf name fallback =
     (case config_get_value os cf name of
        (None, cf1) \<Rightarrow> (fallback, cf1)
      | (Some v, cf1) \<Rightarrow>
          (case va_integer v of
             None \<Rightarrow> (fallback, cf1\<lparr>cf_crashed := True\<rparr>)
           | Some i \<Rightarrow> (i, cf1)))"

definition is_parallel :: "os \<Rightarrow> config \<Rightarrow> string \<Rightarrow> bool \<times> config" where
  "is_parallel os cf step_name =
     (case config_value_integer os cf ''parallel'' 1 of (p, cf1) \<Rightarrow>
        if p = 0 then (False, cf1)
        else
          (case config_value_integer os cf1 (regressname step_name ''parallel'') 1 of
             (q, cf2) \<Rightarrow> (q \<noteq> 0, cf2)))"

section \<open>Steps of the modes\<close>

text \<open>A null name or path is followed by a crash.\<close>

fun add_scripts ::
  "(string option \<times> string option) list \<Rightarrow> config_step list \<Rightarrow> config \<Rightarrow> config_step list \<times> config" where
  "add_scripts [] steps cf = (steps, cf)"
| "add_scripts ((Some name, Some path) # rows) steps cf =
     add_scripts rows (config_steps_add_script steps path name) cf"
| "add_scripts (_ # rows) steps cf = (steps, cf\<lparr>cf_crashed := True\<rparr>)"

definition config_default_get_steps :: "config \<Rightarrow> config_step list \<times> config" where
  "config_default_get_steps cf = add_scripts (cf_steps cf) [] cf"

definition regress_exec :: string where
  "regress_exec = ''${exec-dir}/robsd-regress-exec.sh''"

definition flag_parallel :: "config_step list \<Rightarrow> config_step list" where
  "flag_parallel steps = butlast steps @ [(last steps)\<lparr>cs_parallel := True\<rparr>]"

fun regress_suites ::
  "os \<Rightarrow> string list \<Rightarrow> config_step list \<Rightarrow> string list \<Rightarrow> config \<Rightarrow>
   config_step list \<times> string list \<times> config" where
  "regress_suites os [] steps no_parallel cf = (steps, no_parallel, cf)"
| "regress_suites os (r # rs) steps no_parallel cf =
     (case is_parallel os cf r of (parallel, cf1) \<Rightarrow>
        if parallel then
          regress_suites os rs (flag_parallel (config_steps_add_script steps regress_exec r)) no_parallel cf1
        else regress_suites os rs steps (no_parallel @ [r]) cf1)"

definition config_robsd_regress_get_steps :: "os \<Rightarrow> config \<Rightarrow> config_step list \<times> config" where
  "config_robsd_regress_get_steps os cf =
     (case config_get_value os cf ''regress'' of
        (None, cf1) \<Rightarrow> ([], cf1\<lparr>cf_crashed := True\<rparr>)
      | (Some v, cf1) \<Rightarrow>
          (case va_list v of
             None \<Rightarrow> ([], cf1\<lparr>cf_crashed := True\<rparr>)
           | Some regress \<Rightarrow>
               (let before = takeWhile (\<lambda>cs. fst cs \<noteq> None) (cf_steps cf1);
                    after = drop (Suc (length before)) (cf_steps cf1)
                in case add_scripts before [] cf1 of (steps1, cf2) \<Rightarrow>
                   case regress_suites os regress steps1 [] cf2 of (steps2, no_parallel, cf3) \<Rightarrow>
                     add_scripts after
                       (foldl (\<lambda>steps r. config_steps_add_script steps regress_exec r) steps2 no_parallel)
                       cf3)))"

definition config_canvas_get_steps :: "config \<Rightarrow> config_step list \<times> config" where
  "config_canvas_get_steps cf = (cf_canvas_steps cf, cf)"

definition mode_get_steps :: "os \<Rightarrow> config \<Rightarrow> config_step list \<times> config" where
  "mode_get_steps os cf =
     (case cf_mode cf of
        ROBSD_REGRESS \<Rightarrow> config_robsd_regress_get_steps os cf
      | CANVAS \<Rightarrow> config_canvas_get_steps cf
      | _ \<Rightarrow> config_default_get_steps cf)"

section \<open>Steps with their commands\<close>

text \<open>A step as it is run: the arguments end with a null pointer, \<open>None\<close> here.\<close>

record exec_step =
  es_name :: string
  es_argv :: "string option list"
  es_parallel :: bool

fun interpolate_argv :: "os \<Rightarrow> string list \<Rightarrow> config \<Rightarrow> string list option \<times> config" where
  "interpolate_argv os [] cf = (Some [], cf)"
| "interpolate_argv os (a # as) cf =
     (case config_interpolate_str os cf a of
        (None, cf1) \<Rightarrow> (None, cf1)
      | (Some arg, cf1) \<Rightarrow>
          (case interpolate_argv os as cf1 of
             (None, cf2) \<Rightarrow> (None, cf2)
           | (Some args, cf2) \<Rightarrow> (Some (if arg = [] then args else arg # args), cf2)))"

fun interpolate_steps :: "os \<Rightarrow> config_step list \<Rightarrow> config \<Rightarrow> exec_step list option \<times> config" where
  "interpolate_steps os [] cf = (Some [], cf)"
| "interpolate_steps os (st # steps) cf =
     (case va_list (cs_command st) of
        None \<Rightarrow> (None, cf\<lparr>cf_crashed := True\<rparr>)
      | Some command \<Rightarrow>
          (case interpolate_argv os command cf of
             (None, cf1) \<Rightarrow> (None, cf1)
           | (Some args, cf1) \<Rightarrow>
               (case interpolate_steps os steps cf1 of
                  (None, cf2) \<Rightarrow> (None, cf2)
                | (Some es, cf2) \<Rightarrow>
                    (Some (\<lparr>es_name = cs_name st, es_argv = map Some args @ [None],
                            es_parallel = cs_parallel st\<rparr> # es), cf2))))"

text \<open>The commands of the canvas steps are replaced in place; no program asks for the steps twice, so
  the model returns them and leaves the configuration alone.\<close>

definition config_get_steps :: "os \<Rightarrow> config \<Rightarrow> bool \<Rightarrow> exec_step list option \<times> config" where
  "config_get_steps os cf trace =
     (case mode_get_steps os (cf\<lparr>cf_trace := trace\<rparr>) of (steps, cf1) \<Rightarrow>
      case interpolate_steps os steps cf1 of (es, cf2) \<Rightarrow> (es, cf2\<lparr>cf_trace := False\<rparr>))"

section \<open>The order of the regression steps\<close>

definition script_step :: "bool \<Rightarrow> string \<Rightarrow> string \<Rightarrow> config_step" where
  "script_step parallel path name =
     \<lparr>cs_name = name, cs_command = VList [''sh'', ''-eu'', ''${trace}'', path, name], cs_parallel = parallel\<rparr>"

lemma config_steps_add_script_eq: "config_steps_add_script steps path name = steps @ [script_step False path name]"
  by (simp add: config_steps_add_script_def script_step_def)

lemma flag_parallel_add: "flag_parallel (steps @ [script_step False path name]) = steps @ [script_step True path name]"
  by (simp add: flag_parallel_def script_step_def)

lemma add_scripts_rows:
  "add_scripts (map (\<lambda>(n, p). (Some n, Some p)) rows) steps cf =
   (steps @ map (\<lambda>(n, p). script_step False p n) rows, cf)"
  by (induction rows arbitrary: steps) (auto simp: config_steps_add_script_eq)

lemma foldl_add_script:
  "foldl (\<lambda>steps r. config_steps_add_script steps path r) steps rs = steps @ map (script_step False path) rs"
  by (induction rs arbitrary: steps) (simp_all add: config_steps_add_script_eq)

text \<open>A flag: the variable, or the default when it is not there.\<close>

definition flag_of :: "config \<Rightarrow> string \<Rightarrow> bool \<Rightarrow> bool" where
  "flag_of cf name otherwise =
     (case variable_index cf name of
        None \<Rightarrow> otherwise
      | Some i \<Rightarrow> va_integer (va_val (cf_variables cf ! i)) \<noteq> Some 0)"

definition suite_parallel :: "config \<Rightarrow> string \<Rightarrow> bool" where
  "suite_parallel cf r \<longleftrightarrow>
     flag_of cf ''parallel'' True \<and> flag_of cf (regressname r ''parallel'') (flag_of cf ''parallel'' True)"

definition parallel_integers :: "config \<Rightarrow> bool" where
  "parallel_integers cf \<longleftrightarrow>
     (\<forall>va \<in> set (cf_variables cf).
        va_name va = ''parallel'' \<or> (\<exists>r. va_name va = regressname r ''parallel'') \<longrightarrow>
        (\<exists>n. va_val va = VInteger n))"

lemma find_grammar_parallel:
  assumes "mode_conf os cf" "cf_mode cf = ROBSD_REGRESS"
  shows "config_find_grammar_for_interpolation cf ''parallel'' =
      Some (entry ''parallel'' INTEGER (Some config_parse_boolean_fn) {} (D_I32 1))"
    "config_find_grammar_for_interpolation cf (regressname r ''parallel'') =
      Some (entry ''regress-*-parallel'' INTEGER None {PAT, FUN} (D_FUN config_default_parallel_fn))"
proof -
  note g = config_find_grammar_for_interpolation_def mode_grammar_def robsd_regress_grammar_def
    grammar_equals_def fnmatch_patterns regressname_def
  show "config_find_grammar_for_interpolation cf ''parallel'' =
      Some (entry ''parallel'' INTEGER (Some config_parse_boolean_fn) {} (D_I32 1))"
    using assms by (simp add: mode_conf_def g)
  have no: "r @ ''-parallel'' \<noteq> m @ ''-env''" "r @ ''-parallel'' \<noteq> m @ ''-targets''" for m
    by (auto dest: arg_cong [where f = last])
  show "config_find_grammar_for_interpolation cf (regressname r ''parallel'') =
      Some (entry ''regress-*-parallel'' INTEGER None {PAT, FUN} (D_FUN config_default_parallel_fn))"
    using assms no by (simp add: mode_conf_def g append_eq_Cons_conv Cons_eq_append_conv)
qed


lemma flag_stored:
  assumes "parallel_integers cf" "variable_index cf name = Some i"
    and "name = ''parallel'' \<or> name = regressname r ''parallel''"
  shows "\<exists>n. va_val (cf_variables cf ! i) = VInteger n"
  using assms by (auto simp: parallel_integers_def variable_index_Some)

lemma stored_integer:
  assumes "os_stack os > 0" "variable_index cf name = Some i" "va_val (cf_variables cf ! i) = VInteger n"
  shows "\<exists>k. config_value_integer os cf name 1 = (k, cf) \<and> (k \<noteq> 0 \<longleftrightarrow> flag_of cf name d)"
  using assms config_get_value_stored [OF assms(1,2)] by (simp add: config_value_integer_def flag_of_def)

lemma config_find_parallel:
  assumes "mode_conf os' cf" "cf_mode cf = ROBSD_REGRESS"
  shows "config_find_at (Suc n) os ''parallel'' cf =
    (Some (case variable_index cf ''parallel'' of None \<Rightarrow> Static (VInteger 1) | Some i \<Rightarrow> Stored i), cf)"
  using find_grammar_parallel(1) [OF assms]
  by (simp add: config_find_at.simps static_default_def split: option.split)

lemma config_value_parallel:
  assumes "mode_conf os' cf" "cf_mode cf = ROBSD_REGRESS" "parallel_integers cf" "os_stack os > 0"
  shows "\<exists>k. config_value_integer os cf ''parallel'' 1 = (k, cf) \<and> (k \<noteq> 0 \<longleftrightarrow> flag_of cf ''parallel'' True)"
proof (cases "variable_index cf ''parallel''")
  case None
  with config_find_parallel [OF assms(1,2)] assms(4) show ?thesis
    by (cases "os_stack os")
      (simp_all add: config_value_integer_def config_get_value_def config_find_def found_val_def flag_of_def)
next
  case (Some i)
  from stored_integer [OF assms(4) Some] flag_stored [OF assms(3) Some] show ?thesis by blast
qed

lemma config_value_suite:
  assumes "mode_conf os' cf" "cf_mode cf = ROBSD_REGRESS" "parallel_integers cf" "os_stack os > 1"
  shows "\<exists>k. config_value_integer os cf (regressname r ''parallel'') 1 = (k, cf) \<and>
    (k \<noteq> 0 \<longleftrightarrow> flag_of cf (regressname r ''parallel'') (flag_of cf ''parallel'' True))"
proof (cases "variable_index cf (regressname r ''parallel'')")
  case None
  obtain n where n: "os_stack os = Suc (Suc n)" using assms(4) that [of "os_stack os - 2"] by simp
  have "config_find os (regressname r ''parallel'') cf = config_find_at (Suc n) os ''parallel'' cf"
    unfolding config_find_def n
    by (subst config_find_at.simps(2))
      (simp add: None find_grammar_parallel(2) [OF assms(1,2)] config_default_def config_default_parallel_def)
  with config_find_parallel [OF assms(1,2), of n os]
  have "config_get_value os cf (regressname r ''parallel'') = config_get_value os cf ''parallel''"
    using config_find_parallel [OF assms(1,2), of "Suc n" os] by (simp add: config_get_value_def config_find_def n)
  moreover have "os_stack os > 0" using assms(4) by simp
  ultimately show ?thesis
    using config_value_parallel [OF assms(1-3)] None by (simp add: config_value_integer_def flag_of_def)
next
  case (Some i)
  have "os_stack os > 0" using assms(4) by simp
  from stored_integer [OF this Some] flag_stored [OF assms(3) Some] show ?thesis by blast
qed

lemma is_parallel_eq:
  assumes "mode_conf os' cf" "cf_mode cf = ROBSD_REGRESS" "parallel_integers cf" "os_stack os > 1"
  shows "is_parallel os cf r = (suite_parallel cf r, cf)"
proof -
  have "os_stack os > 0" using assms(4) by simp
  from config_value_parallel [OF assms(1-3) this] config_value_suite [OF assms, of r] show ?thesis
    by (auto simp: is_parallel_def suite_parallel_def)
qed

lemma regress_suites_eq:
  assumes "mode_conf os' cf" "cf_mode cf = ROBSD_REGRESS" "parallel_integers cf" "os_stack os > 1"
  shows "regress_suites os rs steps later cf =
    (steps @ map (script_step True regress_exec) (filter (suite_parallel cf) rs),
     later @ filter (\<lambda>r. \<not> suite_parallel cf r) rs, cf)"
  by (induction rs arbitrary: steps later)
    (simp_all add: is_parallel_eq [OF assms] config_steps_add_script_eq flag_parallel_add)

definition regress_before :: "(string \<times> string) list" where
  "regress_before =
     [(''env'', ''${exec-dir}/robsd-env.sh''), (''pkg-add'', ''${exec-dir}/robsd-regress-pkg-add.sh''),
      (''cvs'', ''${exec-dir}/robsd-cvs.sh''), (''patch'', ''${exec-dir}/robsd-patch.sh''),
      (''obj'', ''${exec-dir}/robsd-regress-obj.sh''), (''mount'', ''${exec-dir}/robsd-regress-mount.sh'')]"

definition regress_after :: "(string \<times> string) list" where
  "regress_after =
     [(''umount'', ''${exec-dir}/robsd-regress-umount.sh''), (''revert'', ''${exec-dir}/robsd-revert.sh''),
      (''pkg-del'', ''${exec-dir}/robsd-regress-pkg-del.sh''), (''dmesg'', ''${exec-dir}/robsd-dmesg.sh''),
      (''end'', ''/dev/null'')]"

lemma robsd_regress_steps_split:
  "robsd_regress_steps =
   map (\<lambda>(n, p). (Some n, Some p)) regress_before @ (None, None) # map (\<lambda>(n, p). (Some n, Some p)) regress_after"
  by (simp add: robsd_regress_steps_def regress_before_def regress_after_def)

lemma regress_steps_eq:
  assumes conf: "mode_conf os' cf" "cf_mode cf = ROBSD_REGRESS" "parallel_integers cf" "os_stack os > 1"
    and steps: "cf_steps cf = robsd_regress_steps"
    and i: "variable_index cf ''regress'' = Some i" "va_val (cf_variables cf ! i) = VList rs"
  shows "config_robsd_regress_get_steps os cf =
    (map (\<lambda>(n, p). script_step False p n) regress_before @
     map (script_step True regress_exec) (filter (suite_parallel cf) rs) @
     map (script_step False regress_exec) (filter (\<lambda>r. \<not> suite_parallel cf r) rs) @
     map (\<lambda>(n, p). script_step False p n) regress_after, cf)"
proof -
  let ?some = "map (\<lambda>(n, p). (Some n, Some p)) :: (string \<times> string) list \<Rightarrow> _"
  have "takeWhile (\<lambda>cs. fst cs \<noteq> None) (cf_steps cf) = ?some regress_before"
    unfolding steps robsd_regress_steps_split by (subst takeWhile_append2) auto
  moreover have "drop (Suc (length (?some regress_before))) (cf_steps cf) = ?some regress_after"
    unfolding steps robsd_regress_steps_split by simp
  moreover have "config_get_value os cf ''regress'' = (Some (VList rs), cf)"
    using config_get_value_stored [OF _ i(1)] conf(4) i(2) by simp
  ultimately show ?thesis
    unfolding config_robsd_regress_get_steps_def
    by (simp add: Let_def add_scripts_rows regress_suites_eq [OF conf] foldl_add_script del: length_map)
qed

section \<open>What interpolation keeps of the steps\<close>

lemma interpolate_argv_nonempty:
  "interpolate_argv os as cf = (Some args, cf') \<Longrightarrow> [] \<notin> set args"
  by (induction as arbitrary: cf args) (auto split: prod.splits option.splits if_splits)

lemma interpolate_steps_shape:
  "interpolate_steps os steps cf = (Some es, cf') \<Longrightarrow>
   map es_name es = map cs_name steps \<and> map es_parallel es = map cs_parallel steps \<and>
   (\<forall>e \<in> set es. \<exists>args. es_argv e = map Some args @ [None] \<and> [] \<notin> set args)"
proof (induction steps arbitrary: cf es)
  case (Cons st steps)
  obtain command args cf1 es' where r: "va_list (cs_command st) = Some command"
    "interpolate_argv os command cf = (Some args, cf1)" "interpolate_steps os steps cf1 = (Some es', cf')"
    "es = \<lparr>es_name = cs_name st, es_argv = map Some args @ [None], es_parallel = cs_parallel st\<rparr> # es'"
    using Cons.prems by (auto split: prod.splits option.splits)
  from Cons.IH [OF r(3)] interpolate_argv_nonempty [OF r(2)] r(4) show ?case by auto
qed simp


section \<open>Early interpolation and the variables\<close>

text \<open>While interpolating early, the variables stay: the pointer that
  \<open>config_parse_regress_option_env\<close> holds into their vector remains valid.\<close>

definition early_keeps :: "config \<Rightarrow> config \<Rightarrow> bool" where
  "early_keeps cf cf' \<longleftrightarrow>
     (cf_early cf \<and> std cf \<longrightarrow> cf_early cf' \<and> std cf' \<and> cf_variables cf' = cf_variables cf)"

lemma early_entries:
  assumes "mode_conf os cf" "config_find_grammar_for_interpolation cf name = Some gr" "EARLY \<in> gr_flags gr"
  shows "gr = entry ''rdomain'' INTEGER None {FUN, EARLY} (D_FUN config_default_rdomain_fn) \<or>
    gr = entry ''regress-*-env'' STRING None {PAT, EARLY} (S8 ''${regress-env}'')"
proof -
  have "gr \<in> set (cf_grammar cf)"
    using assms(2) by (auto simp: config_find_grammar_for_interpolation_def find_Some_iff)
  then have "gr \<in> set (full_grammar os (cf_mode cf))" using assms(1) by (simp add: mode_conf_def)
  with assms(3) show ?thesis by (cases "cf_mode cf") (auto simp: mode_grammar_def grammar_tables)
qed

lemma config_find_early:
  assumes "std cf" "is_early_variable cf name" "config_find os name cf = (r, cf')"
  shows "cf_variables cf' = cf_variables cf"
proof (cases "os_stack os = 0 \<or> variable_index cf name \<noteq> None")
  case True
  with assms(3) show ?thesis
    by (cases "os_stack os") (auto simp: config_find_def config_find_at.simps)
next
  case False
  then obtain n where n: "os_stack os = Suc n" "variable_index cf name = None" by (cases "os_stack os") auto
  obtain os' where conf: "mode_conf os' cf" using assms(1) by (auto simp: std_def)
  obtain gr where gr: "config_find_grammar_for_interpolation cf name = Some gr" "EARLY \<in> gr_flags gr"
    using assms(2) by (auto simp: is_early_variable_def split: option.splits)
  from early_entries [OF conf gr] gr(1) n assms(3) show ?thesis
    by (auto simp: config_find_def config_find_at.simps config_default_def config_default_rdomain_def
      static_default_def Let_def split: if_splits)
qed

interpretation early: lookup_frame "config_interpolate_lookup os" early_keeps for os
proof
  show "early_keeps cf cf" for cf by (simp add: early_keeps_def)
  show "early_keeps a b \<Longrightarrow> early_keeps b c \<Longrightarrow> early_keeps a c" for a b c by (simp add: early_keeps_def)
  show "early_keeps cf cf'" if "config_interpolate_lookup os name cf = (r, cf')" for name cf r cf'
  proof (cases "is_early_variable cf name")
    case True
    with that obtain r' where f: "config_find os name cf = (r', cf')"
      by (auto simp: config_interpolate_lookup_def interpolate_lookup_def split: prod.splits option.splits)
    then have "same_setup cf cf'" using config_find_frame by (auto simp: frame_def)
    with config_find_early [OF _ True f] show ?thesis
      by (auto simp: early_keeps_def same_setup_def std_def mode_conf_def)
  next
    case False
    with that have "cf_early cf \<Longrightarrow> cf' = cf" by (simp add: config_interpolate_lookup_def interpolate_lookup_def)
    then show ?thesis by (auto simp: early_keeps_def)
  qed
qed

section \<open>Properties\<close>

text \<open> The steps of a regression run are the steps before the suites, the suites that may run in
  parallel, the other suites, and the remaining steps; within both groups the suites keep the order of
  the configuration, and exactly the first group is flagged parallel. A suite is parallel unless its
  own flag or the flag of the configuration says no. There are fewer steps than the vector was allocated
  for, so it is not moved after its cleanup was registered.\<close>

lemma regress_steps_order:
  assumes "mode_conf os' cf" "cf_mode cf = ROBSD_REGRESS" "parallel_integers cf" "os_stack os > 1"
    and "cf_steps cf = robsd_regress_steps"
    and "variable_index cf ''regress'' = Some i" "va_val (cf_variables cf ! i) = VList rs"
  shows "map (\<lambda>st. (cs_name st, cs_parallel st)) (fst (config_robsd_regress_get_steps os cf)) =
    map (\<lambda>(n, p). (n, False)) regress_before @
    map (\<lambda>r. (r, True)) (filter (suite_parallel cf) rs) @
    map (\<lambda>r. (r, False)) (filter (\<lambda>r. \<not> suite_parallel cf r) rs) @
    map (\<lambda>(n, p). (n, False)) regress_after \<and>
    length (fst (config_robsd_regress_get_steps os cf)) < length (cf_steps cf) + length rs"
  using sum_length_filter_compl [of "suite_parallel cf" rs]
  by (simp add: regress_steps_eq [OF assms] script_step_def split_def comp_def assms(5)
    robsd_regress_steps_split)

definition suites_conf :: config where
  "suites_conf = (sample_conf ROBSD_REGRESS
     [\<lparr>va_name = ''regress-bin/ls-parallel'', va_val = VInteger 0\<rparr>,
      \<lparr>va_name = ''regress'', va_val = VList [''bin/ls'', ''lib/libc'']\<rparr>])\<lparr>cf_steps := robsd_regress_steps\<rparr>"

theorem regress_steps_order_witness:
  "map cs_name (take 8 (fst (config_robsd_regress_get_steps sample_os suites_conf))) =
   [''env'', ''pkg-add'', ''cvs'', ''patch'', ''obj'', ''mount'', ''lib/libc'', ''bin/ls'']"
proof -
  have par: "parallel_integers suites_conf"
    by (auto simp: parallel_integers_def suites_conf_def sample_conf_def regressname_def)
  have "map (\<lambda>st. (cs_name st, cs_parallel st)) (fst (config_robsd_regress_get_steps sample_os suites_conf)) =
    map (\<lambda>(n, p). (n, False)) regress_before @
    map (\<lambda>r. (r, True)) (filter (suite_parallel suites_conf) [''bin/ls'', ''lib/libc'']) @
    map (\<lambda>r. (r, False)) (filter (\<lambda>r. \<not> suite_parallel suites_conf r) [''bin/ls'', ''lib/libc'']) @
    map (\<lambda>(n, p). (n, False)) regress_after \<and>
    length (fst (config_robsd_regress_get_steps sample_os suites_conf)) <
      length (cf_steps suites_conf) + length [''bin/ls'', ''lib/libc'']"
    by (rule regress_steps_order [OF _ _ par, where i = 1 and os' = sample_os])
      (simp_all add: mode_conf_def suites_conf_def sample_conf_def sample_os_def variable_index_def)
  then have "map fst (map (\<lambda>st. (cs_name st, cs_parallel st)) (fst (config_robsd_regress_get_steps sample_os suites_conf))) =
    map fst regress_before @ [''lib/libc'', ''bin/ls''] @ map fst regress_after"
    by (simp add: suite_parallel_def flag_of_def suites_conf_def sample_conf_def variable_index_def
      regressname_def split_def comp_def)
  then have "map cs_name (fst (config_robsd_regress_get_steps sample_os suites_conf)) =
    map fst regress_before @ [''lib/libc'', ''bin/ls''] @ map fst regress_after"
    by (simp add: comp_def)
  then show ?thesis by (simp add: take_map [symmetric] regress_before_def del: take_map)
qed

text \<open> Interpolating the commands keeps the steps, their order and which of them are parallel; every
  command ends with the one null pointer that \<open>execvp(3)\<close> needs and has no empty argument, and
  the tracing of commands is off again afterwards.\<close>

lemma config_get_steps_shape:
  assumes "config_get_steps os cf trace = (Some es, cf')"
  shows "(let steps = fst (mode_get_steps os (cf\<lparr>cf_trace := trace\<rparr>)) in
      map es_name es = map cs_name steps \<and> map es_parallel es = map cs_parallel steps) \<and>
    (\<forall>e \<in> set es. \<exists>args. es_argv e = map Some args @ [None] \<and> [] \<notin> set args) \<and> \<not> cf_trace cf'"
proof -
  obtain steps cf1 cf2 where "mode_get_steps os (cf\<lparr>cf_trace := trace\<rparr>) = (steps, cf1)"
    "interpolate_steps os steps cf1 = (Some es, cf2)" "cf' = cf2\<lparr>cf_trace := False\<rparr>"
    using assms by (auto simp: config_get_steps_def split: prod.splits)
  with interpolate_steps_shape show ?thesis by (auto simp: Let_def)
qed

definition true_conf :: config where
  "true_conf = (sample_conf CANVAS [])\<lparr>cf_canvas_steps :=
     [\<lparr>cs_name = ''true'', cs_command = VList [''true'', []], cs_parallel = False\<rparr>]\<rparr>"

theorem config_get_steps_shape_witness:
  "\<exists>es cf'. config_get_steps sample_os true_conf True = (Some es, cf') \<and>
     map es_name es = [''true''] \<and> \<not> cf_trace cf'"
proof -
  obtain es cf' where r: "config_get_steps sample_os true_conf True = (Some es, cf')"
    by (auto simp: config_get_steps_def mode_get_steps_def config_canvas_get_steps_def true_conf_def
      sample_conf_def config_interpolate_str_def interpolate_str_plain)
  from config_get_steps_shape [OF r] r show ?thesis
    by (simp add: mode_get_steps_def config_canvas_get_steps_def true_conf_def sample_conf_def Let_def)
qed

text \<open>Interpolating early never appends a variable, in any mode, so the pointer into the vector of
  variables that \<open>config_parse_regress_option_env\<close> holds across it is still valid when it writes
  through it.\<close>

lemma early_interpolation_keeps_variables:
  assumes "mode_conf os' cf" "config_interpolate_early os cf str = (r, cf')"
  shows "cf_variables cf' = cf_variables cf"
proof -
  obtain cf1 where i: "interpolate_str (config_interpolate_lookup os) True (cf\<lparr>cf_early := True\<rparr>) str = (r, cf1)"
    "cf' = cf1\<lparr>cf_early := False\<rparr>"
    using assms(2) by (auto simp: config_interpolate_early_def split: prod.splits)
  have "std (cf\<lparr>cf_early := True\<rparr>)" using assms(1) by (auto simp: std_def mode_conf_def)
  with early.interpolate_str_rel [OF i(1)] i(2) show ?thesis by (simp add: early_keeps_def)
qed

theorem early_interpolation_keeps_variables_witness:
  "cf_variables (snd (config_interpolate_early sample_os suites_conf ''${rdomain}${ncpu}'')) =
   cf_variables suites_conf"
  using early_interpolation_keeps_variables [of sample_os suites_conf sample_os "''${rdomain}${ncpu}''"]
  by (cases "config_interpolate_early sample_os suites_conf ''${rdomain}${ncpu}''")
    (simp add: mode_conf_def suites_conf_def sample_conf_def)

end
