(* ===== verification/StepExec.thy ===== *)
theory StepExec
  imports Runs ConfSteps Getopt
begin

text \<open>
  \<open>step-exec.c\<close> and \<open>robsd-exec.c\<close>: running a step in a process group of its own, with a timeout. What
  the process does between the fork and its exit is a step relation: one step per system call whose
  result the environment chooses, and one per signal that arrives.
\<close>

unbundle bit_operations_syntax

section \<open>Exit statuses\<close>

definition SIGKILL :: nat where "SIGKILL = 9"
definition SIGALRM :: nat where "SIGALRM = 14"
definition SIGTERM :: nat where "SIGTERM = 15"

lemma signals_distinct [simp]:
  "SIGKILL \<noteq> SIGTERM" "SIGTERM \<noteq> SIGKILL" "SIGALRM \<noteq> SIGTERM" "SIGTERM \<noteq> SIGALRM" "SIGTERM \<noteq> 0" "SIGALRM \<noteq> 0"
  "0 \<noteq> SIGTERM" "0 \<noteq> SIGALRM" "0 < SIGTERM" "0 < SIGALRM"
  by (simp_all add: SIGKILL_def SIGALRM_def SIGTERM_def)

definition EX_TIMEOUT :: int where "EX_TIMEOUT = 124"

text \<open>The macros of \<open>wait(2)\<close>.\<close>

definition WIFEXITED :: "i32 \<Rightarrow> bool" where
  "WIFEXITED status \<longleftrightarrow> status AND 0x7f = 0"

definition WEXITSTATUS :: "i32 \<Rightarrow> int" where
  "WEXITSTATUS status = uint (drop_bit 8 status AND 0xff)"

definition WIFSIGNALED :: "i32 \<Rightarrow> bool" where
  "WIFSIGNALED status \<longleftrightarrow> status AND 0x7f \<noteq> 0x7f \<and> status AND 0x7f \<noteq> 0"

definition WTERMSIG :: "i32 \<Rightarrow> int" where
  "WTERMSIG status = uint (status AND 0x7f)"

definition exitstatus :: "i32 \<Rightarrow> nat \<Rightarrow> int" where
  "exitstatus status signal =
     (if signal = SIGALRM then EX_TIMEOUT
      else if WIFEXITED status then WEXITSTATUS status
      else if WIFSIGNALED status then 128 + WTERMSIG status
      else 1)"

section \<open>The command\<close>

text \<open>The length of a null pointer is read when the steps cannot be interpolated.\<close>

datatype 'a lookup_result = Crashes | Missing | Found 'a

definition find_step :: "os \<Rightarrow> config \<Rightarrow> bool \<Rightarrow> string \<Rightarrow> exec_step lookup_result \<times> config" where
  "find_step os cf trace step_name =
     (case config_get_steps os cf trace of
        (None, cf1) \<Rightarrow> (Crashes, cf1)
      | (Some steps, cf1) \<Rightarrow>
          (case find (\<lambda>cs. es_name cs = step_name) steps of
             None \<Rightarrow> (Missing, cf1)
           | Some cs \<Rightarrow> (Found cs, cf1)))"

definition resolve_step_command ::
  "os \<Rightarrow> config \<Rightarrow> bool \<Rightarrow> string \<Rightarrow> string option list lookup_result \<times> config" where
  "resolve_step_command os cf trace step_name =
     (case find_step os cf trace step_name of
        (Found cs, cf1) \<Rightarrow> (Found (es_argv cs), cf1)
      | (Missing, cf1) \<Rightarrow> (Missing, cf1)
      | (Crashes, cf1) \<Rightarrow> (Crashes, cf1))"

definition step_timeout :: "os \<Rightarrow> config \<Rightarrow> string \<Rightarrow> int \<times> config" where
  "step_timeout os cf step_name =
     (if cf_mode cf \<noteq> ROBSD_REGRESS then (0, cf)
      else config_value_integer os cf (regressname step_name ''timeout'') 0)"

section \<open>The process\<close>

text \<open>\<open>Spawn\<close> is \<open>waiteof\<close> with the milliseconds left, \<open>Reap\<close> the \<open>waitpid\<close> after it failed, \<open>Send\<close> and
  \<open>Poll\<close> are \<open>killwaitpg1\<close>; \<open>Unforked\<close> is a failure of \<open>step_fork\<close>, \<open>Died\<close> is \<open>err(3)\<close>. Nothing is
  written to the pipe.\<close>

datatype phase =
    Spawn int
  | Reap
  | Waiting
  | Send nat
  | Poll nat int
  | Unforked int
  | Done int
  | Died

text \<open>The signal in \<open>gotsig\<close>, the signals sent to the process group and the milliseconds slept are kept
  along.\<close>

record run =
  rn_phase :: phase
  rn_gotsig :: nat
  rn_sent :: "nat list"
  rn_slept :: int

record exec_env =
  su_timeout :: int
  su_backdoor :: bool

definition run_start :: run where
  "run_start = \<lparr>rn_phase = Spawn 1000, rn_gotsig = 0, rn_sent = [], rn_slept = 0\<rparr>"

text \<open>The alarm is set once the process group is present.\<close>

definition caught :: "exec_env \<Rightarrow> phase \<Rightarrow> nat \<Rightarrow> bool" where
  "caught su ph signo \<longleftrightarrow>
     signo = SIGTERM \<or>
     (signo = SIGALRM \<and> 0 < su_timeout su \<and> (case ph of Spawn _ \<Rightarrow> False | Reap \<Rightarrow> False | _ \<Rightarrow> True))"

fun running :: "phase \<Rightarrow> bool" where
  "running (Unforked _) = False"
| "running (Done _) = False"
| "running Died = False"
| "running _ = True"

text \<open>\<open>killwaitpg\<close>: the kill signal follows the term signal; after it the status is 1.\<close>

definition give_up :: "run \<Rightarrow> nat \<Rightarrow> phase" where
  "give_up r signo = (if signo = SIGTERM then Send SIGKILL else Done (exitstatus 1 (rn_gotsig r)))"

datatype label = Own | Signal nat

inductive run_step :: "exec_env \<Rightarrow> label \<Rightarrow> run \<Rightarrow> run \<Rightarrow> bool" for su :: exec_env where
  spawn_eof:
    "run_step su Own r (r\<lparr>rn_phase := Waiting\<rparr>)"
    if "rn_phase r = Spawn t" "\<not> su_backdoor su"
| spawn_backdoor:
    "run_step su Own r (r\<lparr>rn_phase := Send SIGTERM, rn_gotsig := SIGALRM\<rparr>)"
    if "rn_phase r = Spawn t" "su_backdoor su"
| spawn_again:
    "run_step su Own r (r\<lparr>rn_phase := Spawn (t - 1), rn_slept := rn_slept r + 1\<rparr>)"
    if "rn_phase r = Spawn t" "0 < t - 1"
| spawn_late:
    "run_step su Own r (r\<lparr>rn_phase := Reap, rn_slept := rn_slept r + 1\<rparr>)"
    if "rn_phase r = Spawn t" "t - 1 \<le> 0"
| spawn_fails:
    "run_step su Own r (r\<lparr>rn_phase := Reap\<rparr>)"
    if "rn_phase r = Spawn t"
| reap_status:
    "run_step su Own r (r\<lparr>rn_phase := Unforked (if exitstatus status 0 = 0 then 1 else exitstatus status 0)\<rparr>)"
    if "rn_phase r = Reap"
| reap_fails:
    "run_step su Own r (r\<lparr>rn_phase := Unforked 1\<rparr>)"
    if "rn_phase r = Reap"
| wait_status:
    "run_step su Own r (r\<lparr>rn_phase := Done (exitstatus status (rn_gotsig r))\<rparr>)"
    if "rn_phase r = Waiting"
| wait_dies:
    "run_step su Own r (r\<lparr>rn_phase := Died\<rparr>)"
    if "rn_phase r = Waiting" "rn_gotsig r = 0"
| wait_fails:
    "run_step su Own r (r\<lparr>rn_phase := Send SIGTERM\<rparr>)"
    if "rn_phase r = Waiting" "rn_gotsig r \<noteq> 0"
| send:
    "run_step su Own r (r\<lparr>rn_phase := Poll signo 5000, rn_sent := rn_sent r @ [signo]\<rparr>)"
    if "rn_phase r = Send signo"
| send_dies:
    "run_step su Own r (r\<lparr>rn_phase := Died\<rparr>)"
    if "rn_phase r = Send signo"
| poll_status:
    "run_step su Own r (r\<lparr>rn_phase := Done (exitstatus status (rn_gotsig r))\<rparr>)"
    if "rn_phase r = Poll signo t"
| poll_again:
    "run_step su Own r (r\<lparr>rn_phase := Poll signo (t - 100), rn_slept := rn_slept r + 100\<rparr>)"
    if "rn_phase r = Poll signo t" "0 < t - 100"
| poll_late:
    "run_step su Own r (r\<lparr>rn_phase := give_up r signo, rn_slept := rn_slept r + 100\<rparr>)"
    if "rn_phase r = Poll signo t" "t - 100 \<le> 0"
| poll_fails:
    "run_step su Own r (r\<lparr>rn_phase := give_up r signo\<rparr>)"
    if "rn_phase r = Poll signo t"
| signal:
    "run_step su (Signal signo) r (r\<lparr>rn_gotsig := signo\<rparr>)"
    if "running (rn_phase r)" "caught su (rn_phase r) signo"
| interrupt:
    "run_step su (Signal signo) r (r\<lparr>rn_phase := Send SIGTERM, rn_gotsig := signo\<rparr>)"
    if "rn_phase r = Waiting" "caught su Waiting signo"

inductive_cases run_step_OwnE: "run_step su Own r r'"
inductive_cases run_step_SignalE: "run_step su (Signal signo) r r'"


section \<open>Every run ends\<close>

definition own :: "label \<Rightarrow> bool" where
  "own l \<longleftrightarrow> l = Own"

text \<open>The system calls that may still be made.\<close>

fun budget :: "phase \<Rightarrow> nat" where
  "budget (Spawn t) = 106 + nat t"
| "budget Reap = 1"
| "budget Waiting = 105"
| "budget (Send signo) = (if signo = SIGTERM then 104 else 52)"
| "budget (Poll signo t) = (if signo = SIGTERM then 53 else 1) + nat t div 100"
| "budget _ = 0"

lemma nat_div_100: "0 < t - 100 \<Longrightarrow> nat t div 100 = Suc (nat (t - 100) div 100)" for t :: int
  by (simp add: nat_diff_distrib) (metis add.commute)?

lemma own_step_budget: "run_step su Own r r' \<Longrightarrow> budget (rn_phase r') < budget (rn_phase r)"
  by (erule run_step_OwnE) (auto simp: nat_div_100 give_up_def)

lemma signal_step_budget: "run_step su (Signal signo) r r' \<Longrightarrow> budget (rn_phase r') \<le> budget (rn_phase r)"
  by (erule run_step_SignalE) auto

interpretation exec: supplied "run_step su" own "\<lambda>r. budget (rn_phase r)"
proof
  show "run_step su l r r' \<Longrightarrow> own l \<Longrightarrow> budget (rn_phase r') < budget (rn_phase r)" for l r r'
    by (simp add: own_def own_step_budget)
  show "run_step su l r r' \<Longrightarrow> budget (rn_phase r') \<le> budget (rn_phase r)" for l r r'
    by (cases l) (auto dest: own_step_budget signal_step_budget)
qed

lemma running_progress: "running (rn_phase r) \<Longrightarrow> \<exists>r'. run_step su Own r r'"
proof (cases "rn_phase r")
  case Waiting
  then show ?thesis using wait_status by blast
qed (auto intro: run_step.intros)

text \<open>C9: whatever the system calls return and whatever signals arrive, \<open>step_exec\<close> makes at most
  1106 system calls of its loops, and as long as it has not ended it can make another.\<close>

theorem step_exec_ends:
  assumes "runs (run_step su) ls run_start r"
  shows "length (filter own ls) \<le> 1106 \<and> (running (rn_phase r) \<longrightarrow> (\<exists>r'. run_step su Own r r'))"
  using exec.own_steps_bounded [OF assms] running_progress
  by (simp add: run_start_def)

section \<open>Signals\<close>

text \<open>What holds in every phase.\<close>

definition run_ok :: "exec_env \<Rightarrow> run \<Rightarrow> bool" where
  "run_ok su r \<longleftrightarrow>
     (rn_gotsig r = SIGALRM \<longrightarrow> 0 < su_timeout su \<or> su_backdoor su) \<and>
     (case rn_phase r of
        Spawn t \<Rightarrow> rn_sent r = [] \<and> 0 < t \<and> rn_slept r + t = 1000 \<and> rn_gotsig r \<noteq> SIGALRM
      | Reap \<Rightarrow> rn_sent r = [] \<and> rn_slept r \<le> 1000 \<and> rn_gotsig r \<noteq> SIGALRM
      | Waiting \<Rightarrow> rn_sent r = [] \<and> rn_slept r < 1000
      | Send signo \<Rightarrow>
          rn_gotsig r \<noteq> 0 \<and>
          (signo = SIGTERM \<and> rn_sent r = [] \<and> rn_slept r < 1000 \<or>
           signo = SIGKILL \<and> rn_sent r = [SIGTERM] \<and> rn_slept r < 6000)
      | Poll signo t \<Rightarrow>
          rn_gotsig r \<noteq> 0 \<and> 0 < t \<and> 100 dvd t \<and>
          (signo = SIGTERM \<and> rn_sent r = [SIGTERM] \<and> rn_slept r + t < 6000 \<or>
           signo = SIGKILL \<and> rn_sent r = [SIGTERM, SIGKILL] \<and> rn_slept r + t < 11000)
      | Unforked c \<Rightarrow> rn_sent r = [] \<and> rn_slept r \<le> 1000 \<and> c \<noteq> 0
      | Done c \<Rightarrow>
          (rn_sent r = [] \<or> rn_gotsig r \<noteq> 0 \<and> rn_sent r \<in> {[SIGTERM], [SIGTERM, SIGKILL]}) \<and>
          rn_slept r < 11000 \<and> (rn_gotsig r = SIGALRM \<longrightarrow> c = EX_TIMEOUT)
      | Died \<Rightarrow>
          (rn_sent r = [] \<or> rn_gotsig r \<noteq> 0 \<and> rn_sent r = [SIGTERM]) \<and> rn_slept r < 11000)"

lemma exitstatus_alarm [simp]: "exitstatus status SIGALRM = EX_TIMEOUT"
  by (simp add: exitstatus_def)

lemma run_ok_start: "run_ok su run_start"
  by (simp add: run_ok_def run_start_def)

lemma run_ok_own: "run_ok su r \<Longrightarrow> run_step su Own r r' \<Longrightarrow> run_ok su r'"
  by (erule run_step_OwnE) (auto simp: run_ok_def give_up_def)

lemma run_ok_signal: "run_ok su r \<Longrightarrow> run_step su (Signal signo) r r' \<Longrightarrow> run_ok su r'"
  by (erule run_step_SignalE) (auto simp: run_ok_def caught_def split: phase.splits)

lemma run_ok_reached: "runs (run_step su) ls run_start r \<Longrightarrow> run_ok su r"
proof (erule runs_invariant [where I = "run_ok su", OF _ run_ok_start])
  show "run_ok su t \<Longrightarrow> run_step su l t t' \<Longrightarrow> run_ok su t'" for l t t'
    by (cases l) (auto intro: run_ok_own run_ok_signal)
qed


lemma signals_defs: "SIGKILL = 9" "SIGALRM = 14" "SIGTERM = 15"
  by (simp_all add: SIGKILL_def SIGALRM_def SIGTERM_def)

text \<open>A timeout whose process group ends on the term signal.\<close>

definition timeout_labels :: "label list" where
  "timeout_labels = [Own, Signal SIGALRM, Own, Own]"

definition timeout_end :: run where
  "timeout_end = \<lparr>rn_phase = Done EX_TIMEOUT, rn_gotsig = SIGALRM, rn_sent = [SIGTERM], rn_slept = 0\<rparr>"

lemma timeout_runs: "0 < su_timeout su \<Longrightarrow> \<not> su_backdoor su \<Longrightarrow> runs (run_step su) timeout_labels run_start timeout_end"
proof -
  assume su: "0 < su_timeout su" "\<not> su_backdoor su"
  define r1 where "r1 = run_start\<lparr>rn_phase := Waiting\<rparr>"
  define r2 where "r2 = r1\<lparr>rn_phase := Send SIGTERM, rn_gotsig := SIGALRM\<rparr>"
  define r3 where "r3 = r2\<lparr>rn_phase := Poll SIGTERM 5000, rn_sent := rn_sent r2 @ [SIGTERM]\<rparr>"
  have "run_step su Own run_start r1" unfolding r1_def
    by (rule spawn_eof [where t = 1000]) (simp_all add: run_start_def su)
  moreover have "run_step su (Signal SIGALRM) r1 r2" unfolding r2_def
    by (rule interrupt) (simp_all add: r1_def caught_def su)
  moreover have "run_step su Own r2 r3" unfolding r3_def
    by (rule send) (simp add: r2_def)
  moreover have "run_step su Own r3 timeout_end"
    using poll_status [of r3 SIGTERM 5000 su 0]
    by (simp add: r3_def r2_def r1_def run_start_def timeout_end_def)
  ultimately show ?thesis
    unfolding timeout_labels_def by (auto intro!: runs_Cons)
qed

theorem step_exec_ends_witness:
  "length (filter own timeout_labels) \<le> 1106"
  using step_exec_ends [OF timeout_runs [of "\<lparr>su_timeout = 1, su_backdoor = False\<rparr>"]] by simp


text \<open>A term signal that arrives before \<open>waitpid\<close> is only remembered: the process waits on, and has
  sent nothing.\<close>

lemma early_signal_is_lost:
  "runs (run_step su) [Signal SIGTERM, Own] run_start
     (run_start\<lparr>rn_phase := Waiting, rn_gotsig := SIGTERM\<rparr>)" if "\<not> su_backdoor su"
proof -
  have "run_step su (Signal SIGTERM) run_start (run_start\<lparr>rn_gotsig := SIGTERM\<rparr>)"
    by (rule signal) (simp_all add: run_start_def caught_def)
  moreover have "run_step su Own (run_start\<lparr>rn_gotsig := SIGTERM\<rparr>)
      (run_start\<lparr>rn_gotsig := SIGTERM\<rparr>\<lparr>rn_phase := Waiting\<rparr>)"
    by (rule spawn_eof [where t = 1000]) (simp_all add: run_start_def that)
  ultimately show ?thesis by (auto intro!: runs_Cons simp: run_start_def)
qed

section \<open>Exit status and output\<close>

text \<open>How the process ends: \<open>Segfault\<close> is the read of the length of a null pointer.\<close>

datatype exec_outcome = Exits int string | Segfault

definition failed_line :: string where
  "failed_line = ''FAILED'' @ [NL]"

definition report_exit :: "robsd_mode \<Rightarrow> int \<Rightarrow> exec_outcome" where
  "report_exit mode error = Exits error (if error = EX_TIMEOUT \<and> mode = ROBSD_REGRESS then failed_line else [])"

inductive step_exec :: "os \<Rightarrow> config \<Rightarrow> bool \<Rightarrow> bool \<Rightarrow> string \<Rightarrow> exec_outcome \<Rightarrow> bool"
  for os cf trace backdoor step_name where
  step_crashes:
    "step_exec os cf trace backdoor step_name Segfault"
    if "resolve_step_command os cf trace step_name = (Crashes, cf1)"
| step_missing:
    "step_exec os cf trace backdoor step_name (Exits 1 [])"
    if "resolve_step_command os cf trace step_name = (Missing, cf1)"
| step_unforked:
    "step_exec os cf trace backdoor step_name (Exits error [])"
    if "resolve_step_command os cf trace step_name = (Found command, cf1)"
      "step_timeout os cf1 step_name = (timeout, cf2)"
      "runs (run_step \<lparr>su_timeout = timeout, su_backdoor = backdoor\<rparr>) ls run_start r"
      "rn_phase r = Unforked error"
| step_died:
    "step_exec os cf trace backdoor step_name (Exits 1 [])"
    if "resolve_step_command os cf trace step_name = (Found command, cf1)"
      "step_timeout os cf1 step_name = (timeout, cf2)"
      "runs (run_step \<lparr>su_timeout = timeout, su_backdoor = backdoor\<rparr>) ls run_start r"
      "rn_phase r = Died"
| step_done:
    "step_exec os cf trace backdoor step_name (report_exit (cf_mode cf) error)"
    if "resolve_step_command os cf trace step_name = (Found command, cf1)"
      "step_timeout os cf1 step_name = (timeout, cf2)"
      "runs (run_step \<lparr>su_timeout = timeout, su_backdoor = backdoor\<rparr>) ls run_start r"
      "rn_phase r = Done error"

inductive_simps step_exec_simps: "step_exec os cf trace backdoor step_name out"

section \<open>The program\<close>

text \<open>The path and the mode of the configuration, \<open>-T\<close> and \<open>-x\<close>.\<close>

type_synonym exec_options = "string option \<times> string option \<times> bool \<times> bool"

fun exec_opt :: "char \<Rightarrow> string \<Rightarrow> exec_options \<Rightarrow> unit + exec_options" where
  "exec_opt c optarg (path, mode, backdoor, trace) =
     (if c = CHR ''C'' then Inr (Some optarg, mode, backdoor, trace)
      else if c = CHR ''m'' then Inr (path, Some optarg, backdoor, trace)
      else if c = CHR ''T'' then Inr (path, mode, True, trace)
      else if c = CHR ''x'' then Inr (path, mode, backdoor, True)
      else Inl ())"

text \<open>The configuration the arguments name and what to run with it; \<open>None\<close> when the program ends
  with 1 before a step is looked for. The outer option is the fuel of the parser.\<close>

definition exec_setup ::
  "os \<Rightarrow> string list \<Rightarrow> (config \<times> bool \<times> bool \<times> string) option option" where
  "exec_setup os argv =
     (case getopt_loop exec_opt (Some ()) ''C:m:Tx'' argv getopt_start (None, None, False, False) of
        (Inl _, _) \<Rightarrow> Some None
      | (Inr (path, mode, backdoor, trace), go) \<Rightarrow>
          (case (mode, remaining argv go) of
             (Some m, step_name # _) \<Rightarrow>
               (case config_alloc os m path of
                  None \<Rightarrow> Some None
                | Some cf \<Rightarrow>
                    map_option (\<lambda>(e, cf1). if e then None else Some (cf1, trace, backdoor, step_name))
                      (config_parse os cf))
           | _ \<Rightarrow> Some None))"

inductive robsd_exec_main :: "os \<Rightarrow> string list \<Rightarrow> exec_outcome \<Rightarrow> bool" for os argv where
  exec_refuses: "robsd_exec_main os argv (Exits 1 [])" if "exec_setup os argv = Some None"
| exec_runs: "robsd_exec_main os argv out"
    if "exec_setup os argv = Some (Some (cf, trace, backdoor, step_name))"
      "step_exec os cf trace backdoor step_name out"

inductive_simps robsd_exec_main_simps: "robsd_exec_main os argv out"

lemma resolve_Crashes:
  "resolve_step_command os cf trace step_name = (Crashes, cf1) \<longleftrightarrow> config_get_steps os cf trace = (None, cf1)"
  by (auto simp: resolve_step_command_def find_step_def split: prod.splits option.splits lookup_result.splits)

lemma resolve_Missing:
  "resolve_step_command os cf trace step_name = (Missing, cf1) \<longleftrightarrow>
   (\<exists>steps. config_get_steps os cf trace = (Some steps, cf1) \<and> step_name \<notin> es_name ` set steps)"
  by (auto simp: resolve_step_command_def find_step_def find_None_iff find_Some_iff split: prod.splits option.splits lookup_result.splits)

lemma report_exit_failed:
  "report_exit m e = Exits c out \<Longrightarrow> out = [] \<or> out = failed_line \<and> c = EX_TIMEOUT \<and> m = ROBSD_REGRESS"
  by (auto simp: report_exit_def split: if_splits)

lemma step_exec_missing:
  assumes "step_exec os cf trace backdoor step_name out" "config_get_steps os cf trace = (Some steps, cf1)"
    "step_name \<notin> es_name ` set steps"
  shows "out = Exits 1 []"
proof -
  from assms(2,3) have "resolve_step_command os cf trace step_name = (Missing, cf1)"
    by (simp add: resolve_Missing)
  with assms(1) show ?thesis by (simp add: step_exec_simps)
qed

lemma step_exec_segfault:
  "step_exec os cf trace backdoor step_name Segfault \<longleftrightarrow> fst (config_get_steps os cf trace) = None"
proof -
  have "step_exec os cf trace backdoor step_name Segfault \<longleftrightarrow>
      (\<exists>cf1. resolve_step_command os cf trace step_name = (Crashes, cf1))"
    by (auto simp: step_exec_simps report_exit_def)
  then show ?thesis by (cases "config_get_steps os cf trace") (simp add: resolve_Crashes)
qed

lemma step_exec_failed:
  "step_exec os cf trace backdoor step_name (Exits c out) \<Longrightarrow>
   out = [] \<or> out = failed_line \<and> c = EX_TIMEOUT \<and> cf_mode cf = ROBSD_REGRESS"
  by (auto simp: step_exec_simps dest!: report_exit_failed [OF sym])



end
