(* ===== verification/Signals.thy ===== *)
theory Signals
  imports StepExec
begin

text \<open>
  The signals of \<open>step-exec.c\<close>: what \<open>siginstall\<close> does to the table of actions of a process, and how
  \<open>step_fork\<close> sets up the child and the parent. The relation \<open>run_step\<close> takes signals that the parent catches as steps;
  they are those with a handler in its table.
\<close>

section \<open>Actions\<close>

definition SIGHUP :: nat where "SIGHUP = 1"
definition SIGINT :: nat where "SIGINT = 2"
definition SIGQUIT :: nat where "SIGQUIT = 3"
definition SIGPIPE :: nat where "SIGPIPE = 13"

lemmas signal_defs = SIGHUP_def SIGINT_def SIGQUIT_def SIGPIPE_def SIGKILL_def SIGALRM_def SIGTERM_def

datatype handler = SIG_DFL | SIG_IGN | Handler

record sigaction =
  sa_handler :: handler
  sa_restart :: bool

type_synonym actions = "nat \<Rightarrow> sigaction"

definition siginstall :: "nat \<Rightarrow> handler \<Rightarrow> bool \<Rightarrow> actions \<Rightarrow> actions" where
  "siginstall signo handler no_restart acts =
     acts(signo := \<lparr>sa_handler = handler, sa_restart = (if no_restart then False else sa_restart (acts signo))\<rparr>)"

definition sighandler :: "nat \<Rightarrow> run \<Rightarrow> run" where
  "sighandler signo r = r\<lparr>rn_gotsig := signo\<rparr>"

section \<open>Forking\<close>

text \<open>
  The child: whether it leads a session, its actions, whether it holds its end of the pipe, and what it executes. It ends
  with an error when \<open>setsid(2)\<close> or \<open>execvp(3)\<close> fails.
\<close>

record child =
  ch_session :: bool
  ch_actions :: actions
  ch_pipe :: bool
  ch_image :: "string list"

definition step_fork_child :: "bool \<Rightarrow> bool \<Rightarrow> actions \<Rightarrow> string list \<Rightarrow> child option" where
  "step_fork_child setsid_ok exec_ok acts command =
     (if \<not> setsid_ok then None
      else
        let acts = siginstall SIGQUIT SIG_DFL False (siginstall SIGINT SIG_DFL False (siginstall SIGHUP SIG_DFL False acts));
            ch = \<lparr>ch_session = True, ch_actions = acts, ch_pipe = False, ch_image = []\<rparr>
        in if exec_ok then Some (ch\<lparr>ch_image := command\<rparr>) else None)"

definition step_fork_parent :: "actions \<Rightarrow> actions" where
  "step_fork_parent acts = siginstall SIGTERM Handler True (siginstall SIGPIPE SIG_IGN False acts)"

text \<open>Once the process group is present; the second component is the alarm.\<close>

definition step_fork_alarm :: "int \<Rightarrow> actions \<Rightarrow> actions \<times> int option" where
  "step_fork_alarm timeout acts =
     (if timeout > 0 then (siginstall SIGALRM Handler False acts, Some timeout) else (acts, None))"

text \<open>A signal is no step of its own where it has no handler, and a handler records it.\<close>

definition parent_actions :: "exec_env \<Rightarrow> phase \<Rightarrow> actions \<Rightarrow> actions" where
  "parent_actions su ph acts =
     (case ph of
        Spawn _ \<Rightarrow> step_fork_parent acts
      | Reap \<Rightarrow> step_fork_parent acts
      | _ \<Rightarrow> fst (step_fork_alarm (su_timeout su) (step_fork_parent acts)))"

lemma caught_is_handled:
  assumes "\<forall>signo. sa_handler (acts signo) \<noteq> Handler"
  shows "caught su ph signo \<longleftrightarrow> sa_handler (parent_actions su ph acts signo) = Handler"
  using assms
  by (cases ph) (auto simp: caught_def parent_actions_def step_fork_parent_def step_fork_alarm_def siginstall_def
      signal_defs)

text \<open>The term signal interrupts the wait for the process group.\<close>

lemma term_interrupts: "\<not> sa_restart (parent_actions su ph acts SIGTERM)"
  by (cases ph) (auto simp: parent_actions_def step_fork_parent_def step_fork_alarm_def siginstall_def signal_defs)

lemma child_defaults:
  assumes "step_fork_child setsid_ok exec_ok acts command = Some ch"
  shows "ch_session ch \<and> \<not> ch_pipe ch \<and> ch_image ch = command \<and>
    (\<forall>signo \<in> {SIGHUP, SIGINT, SIGQUIT}. sa_handler (ch_actions ch signo) = SIG_DFL)"
  using assms by (auto simp: step_fork_child_def siginstall_def signal_defs Let_def split: if_splits)

end
