(* ===== verification/Step.thy ===== *)
theory Step
  imports Lexer Strtonum Interpolate Mode
begin

text \<open>
  \<open>step.c\<close>: the file of steps of an invocation, a table with one row per step. A field of a step is
  its type together with the member of the union that the type selects; the fields of a step are in
  the order of the table \<open>fields\<close>. Files are their contents; locking is a flag that tells whether
  \<open>open(2)\<close> and \<open>flock(2)\<close> succeed.
\<close>

section \<open>Data\<close>

datatype step_token = TOKEN_COMMA | TOKEN_VALUE | TOKEN_NEWLINE

datatype step_field_type = UNKNOWN_TYPE | STRING_TYPE | INTEGER_TYPE

datatype step_field = UNKNOWN | STRING string | INTEGER int

type_synonym step = "step_field list"

record step_file =
  sf_columns :: "string list"
  sf_steps :: "step list"

record field_definition =
  fd_name :: string
  fd_type :: step_field_type
  fd_index :: nat
  fd_optional :: bool
  fd_default :: string

definition fields :: "field_definition list" where
  "fields =
    [\<lparr>fd_name = ''step'', fd_type = INTEGER_TYPE, fd_index = 0, fd_optional = False, fd_default = []\<rparr>,
     \<lparr>fd_name = ''name'', fd_type = STRING_TYPE, fd_index = 1, fd_optional = False, fd_default = []\<rparr>,
     \<lparr>fd_name = ''exit'', fd_type = INTEGER_TYPE, fd_index = 2, fd_optional = False, fd_default = []\<rparr>,
     \<lparr>fd_name = ''duration'', fd_type = INTEGER_TYPE, fd_index = 3, fd_optional = False, fd_default = []\<rparr>,
     \<lparr>fd_name = ''delta'', fd_type = INTEGER_TYPE, fd_index = 4, fd_optional = True, fd_default = ''0''\<rparr>,
     \<lparr>fd_name = ''log'', fd_type = STRING_TYPE, fd_index = 5, fd_optional = True, fd_default = ''''\<rparr>,
     \<lparr>fd_name = ''user'', fd_type = STRING_TYPE, fd_index = 6, fd_optional = False, fd_default = []\<rparr>,
     \<lparr>fd_name = ''time'', fd_type = INTEGER_TYPE, fd_index = 7, fd_optional = False, fd_default = []\<rparr>,
     \<lparr>fd_name = ''skip'', fd_type = INTEGER_TYPE, fd_index = 8, fd_optional = True, fd_default = ''0''\<rparr>]"

definition field_definition_find_by_name :: "string \<Rightarrow> field_definition option" where
  "field_definition_find_by_name name = find (\<lambda>fd. strcmp (fd_name fd) name = 0) fields"

section \<open>Fields\<close>

fun step_field_is_empty :: "step_field \<Rightarrow> bool" where
  "step_field_is_empty (STRING _) = False"
| "step_field_is_empty (INTEGER _) = False"
| "step_field_is_empty UNKNOWN = True"

text \<open>The members of the union; it is zeroed before a type is set. \<open>None\<close> is a NULL pointer or the
  wrong member.\<close>

fun sf_integer :: "step_field \<Rightarrow> int option" where
  "sf_integer UNKNOWN = Some 0"
| "sf_integer (STRING _) = None"
| "sf_integer (INTEGER v) = Some v"

fun sf_str :: "step_field \<Rightarrow> string option" where
  "sf_str UNKNOWN = None"
| "sf_str (STRING s) = Some s"
| "sf_str (INTEGER _) = None"

definition step_get_field :: "step \<Rightarrow> string \<Rightarrow> step_field option" where
  "step_get_field st name =
     map_option (\<lambda>fd. st ! fd_index fd) (field_definition_find_by_name name)"

text \<open>Non-zero on failure. A value that is no number leaves the type set and the union as it was.\<close>

definition step_set_field :: "step \<Rightarrow> string \<Rightarrow> string \<Rightarrow> bool \<times> step" where
  "step_set_field st name val =
     (case field_definition_find_by_name name of
        None \<Rightarrow> (True, st)
      | Some fd \<Rightarrow>
          (case fd_type fd of
             STRING_TYPE \<Rightarrow> (False, st[fd_index fd := STRING val])
           | INTEGER_TYPE \<Rightarrow>
               (case strtonum val LLONG_MIN LLONG_MAX of
                  (v, None) \<Rightarrow> (False, st[fd_index fd := INTEGER v])
                | (_, Some _) \<Rightarrow>
                    (True, st[fd_index fd :=
                       INTEGER (case sf_integer (st ! fd_index fd) of None \<Rightarrow> 0 | Some v \<Rightarrow> v)]))
           | UNKNOWN_TYPE \<Rightarrow> (True, st[fd_index fd := UNKNOWN])))"

definition step_set_field_integer :: "step \<Rightarrow> string \<Rightarrow> int \<Rightarrow> bool \<times> step" where
  "step_set_field_integer st name val =
     (case field_definition_find_by_name name of
        None \<Rightarrow> (True, st)
      | Some fd \<Rightarrow> (False, st[fd_index fd := INTEGER val]))"

fun step_set_defaults :: "step \<Rightarrow> field_definition list \<Rightarrow> bool \<times> step" where
  "step_set_defaults st [] = (False, st)"
| "step_set_defaults st (fd # fds) =
     (if \<not> fd_optional fd then step_set_defaults st fds
      else
        (case step_set_field st (fd_name fd) (fd_default fd) of
           (True, st') \<Rightarrow> (True, st')
         | (False, st') \<Rightarrow> step_set_defaults st' fds))"

definition step_init :: "bool \<times> step" where
  "step_init = step_set_defaults (replicate (length fields) UNKNOWN) fields"

definition step_set_keyval :: "step \<Rightarrow> string \<Rightarrow> bool \<times> step" where
  "step_set_keyval st kv =
     (case strchr kv (CHR ''='') of
        None \<Rightarrow> (True, st)
      | Some keylen \<Rightarrow> step_set_field st (take keylen kv) (drop (Suc keylen) kv))"

text \<open>The fields that are not optional and have no value, in the order of the messages.\<close>

definition step_missing :: "step \<Rightarrow> string list" where
  "step_missing st =
     map fd_name (filter (\<lambda>fd. \<not> fd_optional fd \<and> step_field_is_empty (st ! fd_index fd)) fields)"

definition step_validate :: "step \<Rightarrow> step_token lexer \<Rightarrow> int \<Rightarrow> bool \<times> step_token lexer" where
  "step_validate st lx lno =
     (step_missing st \<noteq> [],
      fold (\<lambda>name lx. lexer_error lx lno (''missing field '' @ [CHR 0x27] @ name @ [CHR 0x27]))
        (step_missing st) lx)"

definition step_cmp :: "step \<Rightarrow> step \<Rightarrow> int" where
  "step_cmp a b =
     (case field_definition_find_by_name ''step'' of
        None \<Rightarrow> 0
      | Some fd \<Rightarrow>
          let x = (case sf_integer (a ! fd_index fd) of None \<Rightarrow> 0 | Some v \<Rightarrow> v);
              y = (case sf_integer (b ! fd_index fd) of None \<Rightarrow> 0 | Some v \<Rightarrow> v)
          in if x < y then -1 else if x > y then 1 else 0)"

definition steps_sort :: "step list \<Rightarrow> step list" where
  "steps_sort steps = c_qsort step_cmp steps"

definition steps_find_by_name :: "step list \<Rightarrow> string \<Rightarrow> nat option" where
  "steps_find_by_name steps name =
     (case field_definition_find_by_name ''name'' of
        None \<Rightarrow> None
      | Some fd \<Rightarrow>
          find (\<lambda>i. \<not> step_field_is_empty (steps ! i ! fd_index fd) \<and>
            sf_str (steps ! i ! fd_index fd) = Some name) [0..<length steps])"

definition steps_find_by_id :: "step list \<Rightarrow> int \<Rightarrow> nat option" where
  "steps_find_by_id steps i =
     (case field_definition_find_by_name ''step'' of
        None \<Rightarrow> None
      | Some fd \<Rightarrow>
          find (\<lambda>k. \<not> step_field_is_empty (steps ! k ! fd_index fd) \<and>
            sf_integer (steps ! k ! fd_index fd) = Some i) [0..<length steps])"

section \<open>Tokens\<close>

text \<open>Reads a value up to a separator, which it returns.\<close>

function step_value_loop ::
  "step_token lexer \<Rightarrow> int \<Rightarrow> string \<Rightarrow> char \<Rightarrow> char option \<times> string \<times> step_token lexer" where
  "step_value_loop lx lno bf ch =
     (case lexer_getc lx of
        (True, _, lx1) \<Rightarrow> (None, bf @ [ch], lx1)
      | (False, c, lx1) \<Rightarrow>
          if c = NUL then (None, bf @ [ch], lexer_error lx1 lno ''unterminated value'')
          else if c = CHR '','' \<or> c = NL then (Some c, bf @ [ch], lx1)
          else step_value_loop lx1 lno (bf @ [ch]) c)"
  by pat_completeness auto
termination
  by (relation "measure (\<lambda>(lx, lno, bf, ch). lx_len lx - lx_off lx)")
    (auto simp: lexer_getc_def Let_def split: if_splits)

declare step_value_loop.simps [simp del]

definition step_lexer_read :: "(step_token, unit) reader" where
  "step_lexer_read lx u =
     (let s = lexer_get_state lx in
      case lexer_getc lx of
        (True, _, lx1) \<Rightarrow> (None, lx1, ())
      | (False, ch, lx1) \<Rightarrow>
          if ch = NUL then (Some (lexer_emit s LEXER_EOF), lx1, ())
          else if ch = CHR '','' then (Some (lexer_emit s (Tok TOKEN_COMMA)), lx1, ())
          else if ch = NL then (Some (lexer_emit s (Tok TOKEN_NEWLINE)), lx1, ())
          else
            (case step_value_loop lx1 (ls_lno s) [] ch of
               (None, _, lx2) \<Rightarrow> (None, lx2, ())
             | (Some c, bf, lx2) \<Rightarrow>
                 (Some ((lexer_emit s (Tok TOKEN_VALUE))\<lparr>tk_str := bf\<rparr>), lexer_ungetc lx2 c, ())))"

fun token_serialize :: "step_token \<Rightarrow> string" where
  "token_serialize TOKEN_COMMA = ''COMMA''"
| "token_serialize TOKEN_VALUE = ''VALUE''"
| "token_serialize TOKEN_NEWLINE = ''NEWLINE''"

section \<open>Parsing\<close>

abbreviation expect :: "step_token lexer \<Rightarrow> step_token \<Rightarrow> step_token token option \<times> step_token lexer" where
  "expect lx t \<equiv> lexer_expect token_serialize lx (Tok t)"

text \<open>The loops return \<open>None\<close> when they do not end; their result starts with the error flag.\<close>

partial_function (option) steps_parse_header_loop ::
  "string list \<Rightarrow> step_token lexer \<Rightarrow> (bool \<times> string list \<times> step_token lexer) option" where
  "steps_parse_header_loop cols lx =
     (case expect lx TOKEN_VALUE of
        (None, lx1) \<Rightarrow> Some (True, cols, lx1)
      | (Some col, lx1) \<Rightarrow>
          let cols' = cols @ [tk_str col] in
          (case lexer_if lx1 (Tok TOKEN_NEWLINE) of
             (Some _, lx2) \<Rightarrow> Some (False, cols', lx2)
           | (None, lx2) \<Rightarrow>
               (case expect lx2 TOKEN_COMMA of
                  (None, lx3) \<Rightarrow> Some (True, cols', lx3)
                | (Some _, lx3) \<Rightarrow> steps_parse_header_loop cols' lx3)))"

definition steps_parse_header ::
  "step_token lexer \<Rightarrow> (bool \<times> string list \<times> step_token lexer) option" where
  "steps_parse_header lx =
     (case lexer_peek lx LEXER_EOF of
        (True, lx1) \<Rightarrow> Some (False, [], lx1)
      | (False, lx1) \<Rightarrow> steps_parse_header_loop [] lx1)"

partial_function (option) steps_parse_row_loop ::
  "string list \<Rightarrow> step \<Rightarrow> nat \<Rightarrow> int \<Rightarrow> step_token lexer \<Rightarrow>
   (bool \<times> step \<times> step_token lexer) option" where
  "steps_parse_row_loop columns st col lno lx =
     (case lexer_if lx (Tok TOKEN_COMMA) of
        (Some _, lx1) \<Rightarrow> steps_parse_row_loop columns st (Suc col) lno lx1
      | (None, lx1) \<Rightarrow>
          (case expect lx1 TOKEN_VALUE of
             (None, lx2) \<Rightarrow> Some (True, st, lx2)
           | (Some val, lx2) \<Rightarrow>
               let lno' = (if lno = 0 then tk_lno val else lno) in
               if col \<ge> length columns then
                 Some (True, st, lexer_error lx2 (tk_lno val) (''unknown column '' @ show_nat col))
               else if field_definition_find_by_name (columns ! col) = None then
                 Some (True, st, lexer_error lx2 (tk_lno val)
                   (''unknown field '' @ [CHR 0x27] @ columns ! col @ [CHR 0x27]))
               else
                 (case step_set_field st (columns ! col) (tk_str val) of (e, st') \<Rightarrow>
                    if e then Some (True, st', lx2)
                    else
                      (case lexer_if lx2 (Tok TOKEN_NEWLINE) of
                         (Some _, lx3) \<Rightarrow>
                           (case step_validate st' lx3 lno' of (e, lx4) \<Rightarrow> Some (e, st', lx4))
                       | (None, lx3) \<Rightarrow>
                           (case expect lx3 TOKEN_COMMA of
                              (None, lx4) \<Rightarrow> Some (True, st', lx4)
                            | (Some _, lx4) \<Rightarrow>
                                steps_parse_row_loop columns st' (Suc col) lno' lx4)))))"

definition steps_parse_row ::
  "string list \<Rightarrow> step_token lexer \<Rightarrow> (bool \<times> step \<times> step_token lexer) option" where
  "steps_parse_row columns lx =
     (case step_init of
        (True, st) \<Rightarrow> Some (True, st, lx)
      | (False, st) \<Rightarrow> steps_parse_row_loop columns st 0 0 lx)"

partial_function (option) steps_parse_rows ::
  "string list \<Rightarrow> step list \<Rightarrow> step_token lexer \<Rightarrow>
   (bool \<times> step list \<times> step_token lexer) option" where
  "steps_parse_rows columns steps lx =
     (case lexer_peek lx LEXER_EOF of (eof, lx1) \<Rightarrow>
        if eof then Some (False, steps, lx1)
        else
          Option.bind (steps_parse_row columns lx1) (\<lambda>(e, st, lx2).
            if e then Some (True, steps @ [st], lx2)
            else steps_parse_rows columns (steps @ [st]) lx2))"

text \<open>\<open>None\<close> when it does not return, \<open>Some None\<close> for NULL.\<close>

definition steps_parse :: "bool \<Rightarrow> string option \<Rightarrow> step_file option option" where
  "steps_parse locked file =
     (if \<not> locked then Some None
      else
        Option.bind (lexer_alloc step_lexer_read file ()) (\<lambda>(lx, _, ok).
          if \<not> ok then Some None
          else
            Option.bind (steps_parse_header lx) (\<lambda>(e, cols, lx1).
              if e then Some None
              else
                Option.bind (steps_parse_rows cols [] lx1) (\<lambda>(e, steps, lx2).
                  Some (if e then None else Some \<lparr>sf_columns = cols, sf_steps = steps\<rparr>)))))"

section \<open>Writing\<close>

fun join_comma :: "string list \<Rightarrow> string" where
  "join_comma [] = []"
| "join_comma [s] = s"
| "join_comma (s # t # ss) = s @ CHR '','' # join_comma (t # ss)"

definition steps_header :: string where
  "steps_header = join_comma (map fd_name fields) @ [NL]"

definition step_interpolate_lookup :: "step \<Rightarrow> string \<Rightarrow> string option" where
  "step_interpolate_lookup st name =
     (case field_definition_find_by_name name of
        None \<Rightarrow> None
      | Some fd \<Rightarrow>
          (case st ! fd_index fd of
             UNKNOWN \<Rightarrow> None
           | STRING s \<Rightarrow> Some s
           | INTEGER v \<Rightarrow> Some (show_int v)))"

definition step_template :: string where
  "step_template = join_comma (map (\<lambda>fd. ref (fd_name fd)) fields) @ [NL]"

definition step_serialize :: "step \<Rightarrow> string \<Rightarrow> bool \<times> string" where
  "step_serialize st out =
     (case interpolate_buffer (pure_lookup (step_interpolate_lookup st)) False () out step_template of
        (e, _, out') \<Rightarrow> (e \<noteq> None, out'))"

fun steps_serialize :: "step list \<Rightarrow> string \<Rightarrow> bool \<times> string" where
  "steps_serialize [] out = (False, out)"
| "steps_serialize (st # sts) out =
     (case step_serialize st out of
        (True, out') \<Rightarrow> (True, out')
      | (False, out') \<Rightarrow> steps_serialize sts out')"

text \<open>How \<open>fopen(3)\<close> and \<open>fwrite(3)\<close> may end: the file is opened or not, and is truncated and
  written in full or up to a prefix.\<close>

datatype write_outcome = OpenFails | WriteFails nat | WriteSucceeds

text \<open>The result is the error, what the file holds afterwards (\<open>None\<close> when it was not touched), and
  the steps, now sorted.\<close>

definition steps_write ::
  "write_outcome \<Rightarrow> step_file \<Rightarrow> bool \<times> string option \<times> step_file" where
  "steps_write os sf =
     (let sf' = sf\<lparr>sf_steps := steps_sort (sf_steps sf)\<rparr> in
      case steps_serialize (sf_steps sf') steps_header of
        (True, _) \<Rightarrow> (True, None, sf')
      | (False, out) \<Rightarrow>
          (case os of
             OpenFails \<Rightarrow> (True, None, sf')
           | WriteFails n \<Rightarrow> (True, Some (take n out), sf')
           | WriteSucceeds \<Rightarrow> (False, Some out, sf')))"

section \<open>Durations\<close>

text \<open>Sums and differences of \<open>int64_t\<close>; \<open>None\<close> when the result does not fit, which C leaves
  undefined, or when a field is read through the wrong member.\<close>

definition i64_checked :: "int \<Rightarrow> int option" where
  "i64_checked v = (if LLONG_MIN \<le> v \<and> v \<le> LLONG_MAX then Some v else None)"

definition step_get_integer :: "step \<Rightarrow> string \<Rightarrow> int option" where
  "step_get_integer st name = Option.bind (step_get_field st name) sf_integer"

definition step_get_str :: "step \<Rightarrow> string \<Rightarrow> string option" where
  "step_get_str st name = Option.bind (step_get_field st name) sf_str"

fun sum_durations :: "step list \<Rightarrow> int \<Rightarrow> int option" where
  "sum_durations [] duration = Some duration"
| "sum_durations (st # sts) duration =
     Option.bind (step_get_integer st ''skip'') (\<lambda>skip.
       if skip = 1 then sum_durations sts duration
       else
         Option.bind (step_get_str st ''name'') (\<lambda>name.
           if name = ''end'' then sum_durations sts duration
           else
             Option.bind (step_get_integer st ''duration'') (\<lambda>d.
               Option.bind (i64_checked (duration + d)) (sum_durations sts))))"

definition steps_total_duration :: "step_file \<Rightarrow> robsd_mode \<Rightarrow> int option" where
  "steps_total_duration sf mode =
     (if mode = ROBSD_REGRESS then
        (if sf_steps sf = [] then Some 0
         else
           Option.bind (step_get_integer (hd (sf_steps sf)) ''time'') (\<lambda>t0.
             Option.bind (step_get_integer (last (sf_steps sf)) ''time'') (\<lambda>t1.
               i64_checked (t1 - t0))))
      else sum_durations (sf_steps sf) 0)"


section \<open>Reading tokens\<close>

definition clean :: "string \<Rightarrow> bool" where
  "clean v \<longleftrightarrow> (\<forall>c \<in> set v. c \<noteq> NUL \<and> c \<noteq> CHR '','' \<and> c \<noteq> NL)"

lemma step_value_loop_at:
  assumes "clean v" "c = CHR '','' \<or> c = NL" "lexer_at lx (v @ c # r)"
  shows "\<exists>lx1. step_value_loop lx lno bf ch = (Some c, bf @ ch # v, lx1) \<and>
    lexer_at (lexer_ungetc lx1 c) (c # r) \<and> lexer_frame lx (lexer_ungetc lx1 c)"
  using assms(1,3)
proof (induction v arbitrary: lx bf ch)
  case Nil
  then obtain lx1 where "lexer_getc lx = (False, c, lx1)" "lexer_frame lx lx1"
    "lexer_at (lexer_ungetc lx1 c) (c # r)" using lexer_getc_at [of lx c r] by auto
  then show ?case
    using assms(2) lexer_ungetc_frame [of lx1 c] lexer_frame_trans [of lx lx1]
    by (subst step_value_loop.simps) auto
next
  case (Cons a v)
  then obtain lx1 where g: "lexer_getc lx = (False, a, lx1)" "lexer_at lx1 (v @ c # r)" "lexer_frame lx lx1"
    using lexer_getc_at [of lx a "v @ c # r"] by auto
  have a: "a \<noteq> NUL" "a \<noteq> CHR '',''" "a \<noteq> NL" "clean v" using Cons.prems(1) by (auto simp: clean_def)
  from Cons.IH [OF a(4) g(2), of "bf @ [ch]" a] obtain lx2 where
    "step_value_loop lx1 lno (bf @ [ch]) a = (Some c, bf @ ch # a # v, lx2)"
    "lexer_at (lexer_ungetc lx2 c) (c # r)" "lexer_frame lx1 (lexer_ungetc lx2 c)" by auto
  with g a show ?case
    by (subst step_value_loop.simps) (auto intro: lexer_frame_trans)
qed

text \<open>A text as the sequence of its tokens.\<close>

type_synonym piece = "step_token \<times> string"

fun piece_text :: "piece \<Rightarrow> string" where
  "piece_text (TOKEN_COMMA, _) = '',''"
| "piece_text (TOKEN_NEWLINE, _) = [NL]"
| "piece_text (TOKEN_VALUE, v) = v"

fun pieces_ok :: "piece list \<Rightarrow> bool" where
  "pieces_ok [] = True"
| "pieces_ok ((TOKEN_VALUE, v) # ps) =
     (v \<noteq> [] \<and> clean v \<and> ps \<noteq> [] \<and> fst (hd ps) \<noteq> TOKEN_VALUE \<and> pieces_ok ps)"
| "pieces_ok ((t, v) # ps) = (v = [] \<and> pieces_ok ps)"

definition token_piece :: "step_token token \<Rightarrow> step_token token_type \<times> string" where
  "token_piece t = (tk_type t, tk_str t)"

lemma step_lexer_read_piece:
  assumes "pieces_ok ((t, v) # ps)" "lexer_at lx (concat (map piece_text ((t, v) # ps)))"
  shows "\<exists>tk lx1. step_lexer_read lx () = (Some tk, lx1, ()) \<and> token_piece tk = (Tok t, v) \<and>
    lexer_at lx1 (concat (map piece_text ps)) \<and> lexer_frame lx lx1"
proof (cases t)
  case TOKEN_COMMA
  with assms lexer_getc_at [of lx "CHR '',''" "concat (map piece_text ps)"] show ?thesis
    by (auto simp: step_lexer_read_def Let_def token_piece_def lexer_emit_def token_alloc_def)
next
  case TOKEN_NEWLINE
  with assms lexer_getc_at [of lx NL "concat (map piece_text ps)"] show ?thesis
    by (auto simp: step_lexer_read_def Let_def token_piece_def lexer_emit_def token_alloc_def)
next
  case TOKEN_VALUE
  with assms(1) obtain a w where v: "v = a # w" "a \<noteq> NUL" "a \<noteq> CHR '',''" "a \<noteq> NL" "clean w"
    by (cases v) (auto simp: clean_def)
  obtain t' v' qs where ps: "ps = (t', v') # qs" "t' \<noteq> TOKEN_VALUE"
    using assms(1) TOKEN_VALUE by (cases ps) auto
  then obtain c r where c: "concat (map piece_text ps) = c # r" "c = CHR '','' \<or> c = NL"
    by (cases t') auto
  obtain lx1 where g: "lexer_getc lx = (False, a, lx1)" "lexer_at lx1 (w @ c # r)" "lexer_frame lx lx1"
    using assms(2) TOKEN_VALUE v(1) c(1) lexer_getc_at [of lx a "w @ c # r"] by auto
  from step_value_loop_at [OF v(5) c(2) g(2), of "ls_lno (lexer_get_state lx)" "[]" a]
  obtain lx2 where "step_value_loop lx1 (ls_lno (lexer_get_state lx)) [] a = (Some c, v, lx2)"
    "lexer_at (lexer_ungetc lx2 c) (c # r)" "lexer_frame lx1 (lexer_ungetc lx2 c)"
    by (auto simp: v(1))
  with g v(2-4) c TOKEN_VALUE show ?thesis
    by (auto simp: step_lexer_read_def Let_def token_piece_def lexer_emit_def token_alloc_def
        intro: lexer_frame_trans)
qed

lemma lexer_read_all_pieces:
  assumes "pieces_ok ps" "lexer_at lx (concat (map piece_text ps))"
  shows "\<exists>lx'. lexer_read_all step_lexer_read lx () = Some (lx', (), True) \<and>
    map token_piece (lx_tokens lx') =
      map token_piece (lx_tokens lx) @ map (\<lambda>(t, v). (Tok t, v)) ps @ [(LEXER_EOF, [])]"
  using assms
proof (induction ps arbitrary: lx)
  case Nil
  with lexer_getc_end [of lx] show ?case
    by (subst lexer_read_all.simps)
      (auto simp: step_lexer_read_def Let_def token_piece_def lexer_emit_def token_alloc_def
        lexer_frame_def)
next
  case (Cons p ps)
  obtain t v where p: "p = (t, v)" by (cases p)
  from step_lexer_read_piece [of t v ps lx] Cons.prems obtain tk lx1 where
    r: "step_lexer_read lx () = (Some tk, lx1, ())" "token_piece tk = (Tok t, v)"
      "lexer_at lx1 (concat (map piece_text ps))" "lexer_frame lx lx1"
    by (auto simp: p)
  let ?lx = "lx1\<lparr>lx_tokens := lx_tokens lx1 @ [tk]\<rparr>"
  have "lexer_at ?lx (concat (map piece_text ps))" using r(3) by (simp add: lexer_at_def)
  moreover have "pieces_ok ps" using Cons.prems(1) p by (cases t) auto
  ultimately obtain lx' where "lexer_read_all step_lexer_read ?lx () = Some (lx', (), True)"
    "map token_piece (lx_tokens lx') =
      map token_piece (lx_tokens ?lx) @ map (\<lambda>(t, v). (Tok t, v)) ps @ [(LEXER_EOF, [])]"
    using Cons.IH by blast
  moreover have "tk_type tk \<noteq> LEXER_EOF" using r(2) by (auto simp: token_piece_def)
  ultimately show ?case
    using r p by (subst lexer_read_all.simps) (auto simp: lexer_frame_def)
qed

section \<open>The parser returns\<close>

lemma step_value_loop_progress:
  "step_value_loop lx lno bf ch = (Some c, w, lx1) \<Longrightarrow> lexer_frame lx lx1 \<and>
   lx_off lx < lx_off lx1 \<and> lx_off lx1 \<le> lx_len lx1"
proof (induction lx lno bf ch rule: step_value_loop.induct)
  case (1 lx lno bf ch)
  obtain e a lx2 where g: "lexer_getc lx = (e, a, lx2)" by (cases "lexer_getc lx")
  have ok: "\<not> e" "a \<noteq> NUL"
    using "1.prems" g by (subst (asm) step_value_loop.simps; auto split: bool.splits if_splits)+
  have p: "lx_off lx2 = Suc (lx_off lx)" "lx_off lx2 \<le> lx_len lx2" "lexer_frame lx lx2"
    using lexer_getc_progress [of lx a lx2] g ok lexer_getc_frame [OF g] by auto
  show ?case
  proof (cases "a = CHR '','' \<or> a = NL")
    case True
    with "1.prems" g ok have "lx1 = lx2"
      by (subst (asm) step_value_loop.simps) (auto split: if_splits)
    with p show ?thesis by simp
  next
    case False
    with "1.prems" g ok have "step_value_loop lx2 lno (bf @ [ch]) a = (Some c, w, lx1)"
      by (subst (asm) step_value_loop.simps) (auto split: if_splits)
    with "1.IH" [of e "(a, lx2)" a lx2] g ok False p show ?thesis
      by (auto intro: lexer_frame_trans)
  qed
qed

lemma step_reader_progress: "reader_progress step_lexer_read"
  unfolding reader_progress_def
proof (intro allI impI)
  fix lx :: "step_token lexer" and s :: unit and tk lx' s'
  assume off: "lx_off lx \<le> lx_len lx" and r: "step_lexer_read lx s = (Some tk, lx', s')"
  obtain e ch lx1 where g: "lexer_getc lx = (e, ch, lx1)" by (cases "lexer_getc lx")
  have e: "\<not> e" using r g by (cases e) (auto simp: step_lexer_read_def Let_def)
  note b = lexer_getc_bounded [OF g off] lexer_getc_frame [OF g]
  have "lexer_frame lx lx' \<and> lx_off lx' \<le> lx_len lx' \<and> (tk_type tk \<noteq> LEXER_EOF \<longrightarrow> lx_off lx < lx_off lx')"
  proof (cases "ch = NUL \<or> ch = CHR '','' \<or> ch = NL")
    case True
    with r g e b lexer_getc_progress [of lx ch lx1] show ?thesis
      by (auto simp: step_lexer_read_def Let_def lexer_emit_def token_alloc_def split: if_splits)
  next
    case False
    obtain o' bf lx2 where v: "step_value_loop lx1 (ls_lno (lexer_get_state lx)) [] ch = (o', bf, lx2)"
      by (cases "step_value_loop lx1 (ls_lno (lexer_get_state lx)) [] ch")
    with r g e False obtain c where c: "o' = Some c" "lx' = lexer_ungetc lx2 c"
      by (cases o') (auto simp: step_lexer_read_def Let_def)
    from step_value_loop_progress [OF v [unfolded c(1)]] lexer_getc_progress [of lx ch lx1] g e False
    have p: "lexer_frame lx1 lx2" "Suc (lx_off lx) < lx_off lx2" "lx_off lx2 \<le> lx_len lx2" by auto
    have "lexer_frame lx (lexer_ungetc lx2 c)"
      using b p(1) lexer_ungetc_frame [of lx2 c] by (metis lexer_frame_trans)
    moreover have "lx_len (lexer_ungetc lx2 c) = lx_len lx2"
      using lexer_ungetc_frame [of lx2 c] by (simp add: lexer_frame_def)
    ultimately show ?thesis
      using p(2,3) lexer_ungetc_off [of lx2 c] unfolding c(2) by (intro conjI impI) linarith+
  qed
  then show "lx_tokens lx' = lx_tokens lx \<and> lx_tk lx' = lx_tk lx \<and> lx_buf lx' = lx_buf lx \<and>
      lx_off lx' \<le> lx_len lx' \<and> (tk_type tk \<noteq> LEXER_EOF \<longrightarrow> lx_off lx < lx_off lx')"
    by (auto simp: lexer_frame_def)
qed


lemma steps_parse_header_loop_returns:
  "lexer_wf lx \<Longrightarrow> \<exists>e cols' lx'. steps_parse_header_loop cols lx = Some (e, cols', lx') \<and> lexer_wf lx'"
proof (induction "length (lexer_rest lx)" arbitrary: lx cols rule: less_induct)
  case less
  obtain r1 lx1 where e1: "expect lx TOKEN_VALUE = (r1, lx1)" by (cases "expect lx TOKEN_VALUE")
  obtain r2 lx2 where e2: "lexer_if lx1 (Tok TOKEN_NEWLINE) = (r2, lx2)"
    by (cases "lexer_if lx1 (Tok TOKEN_NEWLINE)")
  obtain r3 lx3 where e3: "expect lx2 TOKEN_COMMA = (r3, lx3)" by (cases "expect lx2 TOKEN_COMMA")
  have l1: "lexer_wf lx1" "r1 \<noteq> None \<Longrightarrow> length (lexer_rest lx1) < length (lexer_rest lx)"
    using lexer_expect_wf [OF less.prems, of token_serialize "Tok TOKEN_VALUE"] e1 lexer_wf_rest [OF less.prems]
    by (auto split: if_splits)
  have l2: "lexer_wf lx2" "length (lexer_rest lx2) \<le> length (lexer_rest lx1)"
    using lx.accept_law [OF l1(1) e2] by auto
  have l3: "lexer_wf lx3" "length (lexer_rest lx3) \<le> length (lexer_rest lx2)"
    using lexer_expect_wf [OF l2(1), of token_serialize "Tok TOKEN_COMMA"] e3 by auto
  show ?case
  proof (cases "r1 = None \<or> r2 \<noteq> None \<or> r3 = None")
    case True
    then show ?thesis
      using e1 e2 e3 l1(1) l2(1) l3(1) by (subst steps_parse_header_loop.simps) (auto simp: Let_def split: option.splits)
  next
    case False
    then obtain tk where tk: "r1 = Some tk" by auto
    from False have "length (lexer_rest lx3) < length (lexer_rest lx)" using l1(2) l2(2) l3(2) by auto
    from less.hyps [OF this l3(1), of "cols @ [tk_str tk]"] e1 e2 e3 tk False show ?thesis
      by (subst steps_parse_header_loop.simps) (auto simp: Let_def split: option.splits)
  qed
qed

lemma step_validate_wf: "lexer_wf lx \<Longrightarrow> step_validate st lx lno = (e, lx') \<Longrightarrow> lexer_wf lx'"
proof -
  have error: "lexer_wf lx \<Longrightarrow> lexer_wf (lexer_error lx l m)" for lx :: "step_token lexer" and l m
    by (auto simp: lexer_wf_def lexer_error_def split: option.splits)
  have "lexer_wf lx \<Longrightarrow> lexer_wf (fold (\<lambda>name lx. lexer_error lx lno (m name)) ns lx)"
    for ns and m :: "string \<Rightarrow> string" and lx :: "step_token lexer"
    by (induction ns arbitrary: lx) (simp_all add: error)
  then show "lexer_wf lx \<Longrightarrow> step_validate st lx lno = (e, lx') \<Longrightarrow> lexer_wf lx'"
    by (auto simp: step_validate_def)
qed

lemma steps_parse_row_loop_returns:
  "lexer_wf lx \<Longrightarrow>
   \<exists>e st' lx'. steps_parse_row_loop columns st col lno lx = Some (e, st', lx') \<and>
     (\<not> e \<longrightarrow> lexer_wf lx' \<and> length (lexer_rest lx') < length (lexer_rest lx))"
proof (induction "length (lexer_rest lx)" arbitrary: lx st col lno rule: less_induct)
  case less
  obtain r1 lx1 where e1: "lexer_if lx (Tok TOKEN_COMMA) = (r1, lx1)"
    by (cases "lexer_if lx (Tok TOKEN_COMMA)")
  note l1 = lx.accept_law [OF less.prems e1]
  show ?case
  proof (cases r1)
    case (Some tk)
    then have shorter: "length (lexer_rest lx1) < length (lexer_rest lx)"
      using lx.accept_progress [OF less.prems e1 [unfolded Some]] by simp
    have "lexer_wf lx1" using l1 by simp
    from less.hyps [OF shorter this, of st "Suc col" lno] shorter e1 Some show ?thesis
      by (subst steps_parse_row_loop.simps) (auto dest: less_trans)
  next
    case None
    obtain r2 lx2 where e2: "expect lx1 TOKEN_VALUE = (r2, lx2)" by (cases "expect lx1 TOKEN_VALUE")
    have wf1: "lexer_wf lx1" using l1 by simp
    have "lexer_rest lx1 = lexer_rest lx" using l1 None by (auto split: if_splits)
    then have l2: "lexer_wf lx2" "r2 \<noteq> None \<Longrightarrow> length (lexer_rest lx2) < length (lexer_rest lx)"
      using lexer_expect_wf [OF wf1, of token_serialize "Tok TOKEN_VALUE"] e2 lexer_wf_rest [OF wf1]
      by (auto split: if_splits)
    show ?thesis
    proof (cases "r2 = None \<or> col \<ge> length columns \<or>
        field_definition_find_by_name (columns ! col) = None \<or>
        fst (step_set_field st (columns ! col) (tk_str (the r2)))")
      case True
      with None e1 e2 show ?thesis
        by (subst steps_parse_row_loop.simps) (auto simp: Let_def split: option.splits prod.splits)
    next
      case False
      obtain st' where st': "step_set_field st (columns ! col) (tk_str (the r2)) = (False, st')"
        using False by (cases "step_set_field st (columns ! col) (tk_str (the r2))") auto
      obtain r3 lx3 where e3: "lexer_if lx2 (Tok TOKEN_NEWLINE) = (r3, lx3)"
        by (cases "lexer_if lx2 (Tok TOKEN_NEWLINE)")
      have l3: "lexer_wf lx3" "length (lexer_rest lx3) \<le> length (lexer_rest lx2)"
        using lx.accept_law [OF l2(1) e3] by auto
      obtain val where val: "r2 = Some val" using False by auto
      let ?lno = "if lno = 0 then tk_lno val else lno"
      show ?thesis
      proof (cases r3)
        case (Some tk3)
        obtain e4 lx4 where v: "step_validate st' lx3 ?lno = (e4, lx4)"
          by (cases "step_validate st' lx3 ?lno")
        have "lexer_rest lx4 = lexer_rest lx3" if "\<not> e4"
          using v that by (auto simp: step_validate_def)
        then show ?thesis
          using None e1 e2 e3 False st' Some v val step_validate_wf [OF l3(1) v] l2(2) l3(2)
          by (subst steps_parse_row_loop.simps) (auto simp: Let_def)
      next
        case None3: None
        obtain r4 lx4 where e4: "expect lx3 TOKEN_COMMA = (r4, lx4)" by (cases "expect lx3 TOKEN_COMMA")
        have l4: "lexer_wf lx4" "length (lexer_rest lx4) \<le> length (lexer_rest lx3)"
          using lexer_expect_wf [OF l3(1), of token_serialize "Tok TOKEN_COMMA"] e4 by auto
        have shorter: "length (lexer_rest lx4) < length (lexer_rest lx)"
          using l2(2) l3(2) l4(2) False by auto
        from less.hyps [OF this l4(1), of st' "Suc col" ?lno]
        show ?thesis
          using None e1 e2 e3 e4 False st' None3 shorter val
          by (cases r4; subst steps_parse_row_loop.simps) (auto simp: Let_def dest: less_trans)
      qed
    qed
  qed
qed

definition initial_step :: step where
  "initial_step =
    [UNKNOWN, UNKNOWN, UNKNOWN, UNKNOWN, INTEGER 0, STRING [], UNKNOWN, UNKNOWN, INTEGER 0]"

lemma step_init_eq: "step_init = (False, initial_step)"
  by code_simp

lemma steps_parse_row_returns:
  assumes "lexer_wf lx"
  shows "\<exists>e st' lx'. steps_parse_row columns lx = Some (e, st', lx') \<and>
    (\<not> e \<longrightarrow> lexer_wf lx' \<and> length (lexer_rest lx') < length (lexer_rest lx))"
  using steps_parse_row_loop_returns [OF assms] by (simp add: steps_parse_row_def step_init_eq)

lemma steps_parse_rows_returns:
  "lexer_wf lx \<Longrightarrow> \<exists>r. steps_parse_rows columns steps lx = Some r"
proof (induction "length (lexer_rest lx)" arbitrary: lx steps rule: less_induct)
  case less
  obtain b lx1 where p: "lexer_peek lx LEXER_EOF = (b, lx1)" by (cases "lexer_peek lx LEXER_EOF")
  note l1 = lx.peek_law [OF less.prems p]
  show ?case
  proof (cases b)
    case True
    with p show ?thesis by (subst steps_parse_rows.simps) (simp add: ex_bool_eq)
  next
    case False
    have "lexer_wf lx1" "lexer_rest lx1 = lexer_rest lx" using l1 by simp_all
    with steps_parse_row_returns [of lx1 columns]
    obtain e st lx2 where r: "steps_parse_row columns lx1 = Some (e, st, lx2)"
      "\<not> e \<longrightarrow> lexer_wf lx2 \<and> length (lexer_rest lx2) < length (lexer_rest lx)" by auto
    show ?thesis
    proof (cases e)
      case True
      with p r False show ?thesis by (subst steps_parse_rows.simps) (simp add: ex_bool_eq)
    next
      case e: False
      with r(2) less.hyps [of lx2 "steps @ [st]"] obtain res where
        "steps_parse_rows columns (steps @ [st]) lx2 = Some res" by blast
      with p r False e show ?thesis by (cases res) (simp add: steps_parse_rows.simps [of columns steps])
    qed
  qed
qed

lemma steps_parse_returns: "\<exists>r. steps_parse locked input = Some r"
proof -
  obtain lx s ok where a: "lexer_alloc step_lexer_read input () = Some (lx, s, ok)"
    "ok \<longrightarrow> lexer_wf lx \<and> lexer_rest lx = lx_tokens lx"
    using lexer_alloc_wf [OF step_reader_progress, of input "()"] by blast
  show ?thesis
  proof (cases "locked \<and> ok")
    case False
    with a show ?thesis by (auto simp: steps_parse_def)
  next
    case True
    obtain b lx1 where p: "lexer_peek lx LEXER_EOF = (b, lx1)" by (cases "lexer_peek lx LEXER_EOF")
    have wf: "lexer_wf lx1" using lx.peek_law [of lx LEXER_EOF b lx1] p a(2) True by simp
    have "\<exists>h. steps_parse_header lx = Some h \<and> lexer_wf (snd (snd h))"
      using p wf steps_parse_header_loop_returns [OF wf, of "[]"]
      by (cases b) (auto simp: steps_parse_header_def ex_bool_eq)
    then obtain e cols lx2 where h: "steps_parse_header lx = Some (e, cols, lx2)" "lexer_wf lx2"
      by auto
    obtain r where "steps_parse_rows cols [] lx2 = Some r"
      using steps_parse_rows_returns [OF h(2)] by blast
    with a(1) True h(1) show ?thesis
      by (cases r; cases e) (auto simp: steps_parse_def)
  qed
qed


section \<open>Parsing what was written\<close>

definition kinds :: "step_token lexer \<Rightarrow> (step_token token_type \<times> string) list" where
  "kinds lx = map token_piece (lexer_rest lx)"

abbreviation toks :: "piece list \<Rightarrow> (step_token token_type \<times> string) list" where
  "toks ps \<equiv> map (\<lambda>(t, v). (Tok t, v)) ps"

lemma kinds_hd:
  assumes "lexer_wf lx" "kinds lx = (ty, v) # ks"
  shows "tk_type (hd (lexer_rest lx)) = ty" "tk_str (hd (lexer_rest lx)) = v"
    "map token_piece (tl (lexer_rest lx)) = ks"
  using assms(2) lexer_wf_rest [OF assms(1)]
  by (cases "lexer_rest lx"; simp add: kinds_def token_piece_def)+

lemma expect_kind:
  assumes "lexer_wf lx" "kinds lx = (Tok t, v) # ks"
  shows "\<exists>tk lx'. expect lx t = (Some tk, lx') \<and> tk_str tk = v \<and> lexer_wf lx' \<and> kinds lx' = ks"
  using lexer_expect_wf [OF assms(1), of token_serialize "Tok t"] kinds_hd [OF assms]
  by (auto simp: kinds_def)

lemma if_kind:
  assumes "lexer_wf lx" "kinds lx = (Tok t, v) # ks"
  shows "\<exists>tk lx'. lexer_if lx (Tok t) = (Some tk, lx') \<and> lexer_wf lx' \<and> kinds lx' = ks"
  using lexer_if_wf [OF assms(1), of "Tok t"] kinds_hd [OF assms] by (auto simp: kinds_def)

lemma if_not_kind:
  assumes "lexer_wf lx" "kinds lx = (ty, v) # ks" "ty \<noteq> Tok t"
  shows "\<exists>lx'. lexer_if lx (Tok t) = (None, lx') \<and> lexer_wf lx' \<and> kinds lx' = kinds lx"
  using lexer_if_wf [OF assms(1), of "Tok t"] kinds_hd [OF assms(1,2)] assms(3) by (auto simp: kinds_def)

lemma peek_kind:
  assumes "lexer_wf lx" "kinds lx = (ty, v) # ks"
  shows "\<exists>lx'. lexer_peek lx u = (ty = u, lx') \<and> lexer_wf lx' \<and> kinds lx' = kinds lx"
  using lexer_peek_wf [OF assms(1), of u] kinds_hd [OF assms] by (auto simp: kinds_def)

subsection \<open>The header\<close>

fun header_pieces :: "string list \<Rightarrow> piece list" where
  "header_pieces [] = [(TOKEN_NEWLINE, [])]"
| "header_pieces [c] = [(TOKEN_VALUE, c), (TOKEN_NEWLINE, [])]"
| "header_pieces (c # d # cs) = (TOKEN_VALUE, c) # (TOKEN_COMMA, []) # header_pieces (d # cs)"

lemma header_loop_kinds:
  "lexer_wf lx \<Longrightarrow> kinds lx = toks (header_pieces cs) @ ks \<Longrightarrow> cs \<noteq> [] \<Longrightarrow>
   \<exists>lx'. steps_parse_header_loop cols lx = Some (False, cols @ cs, lx') \<and> lexer_wf lx' \<and> kinds lx' = ks"
proof (induction cs arbitrary: lx cols rule: header_pieces.induct)
  case 1
  then show ?case by simp
next
  case (2 c)
  from expect_kind [OF "2.prems"(1), of TOKEN_VALUE c] "2.prems"(2) obtain tk lx1 where
    e: "expect lx TOKEN_VALUE = (Some tk, lx1)" "tk_str tk = c" "lexer_wf lx1"
      "kinds lx1 = (Tok TOKEN_NEWLINE, []) # ks" by auto
  from if_kind [OF e(3,4)] e show ?case
    by (subst steps_parse_header_loop.simps) auto
next
  case (3 c d cs)
  from expect_kind [OF "3.prems"(1), of TOKEN_VALUE c] "3.prems"(2) obtain tk lx1 where
    e: "expect lx TOKEN_VALUE = (Some tk, lx1)" "tk_str tk = c" "lexer_wf lx1"
      "kinds lx1 = (Tok TOKEN_COMMA, []) # toks (header_pieces (d # cs)) @ ks" by auto
  from if_not_kind [OF e(3,4), of TOKEN_NEWLINE] obtain lx2 where
    i: "lexer_if lx1 (Tok TOKEN_NEWLINE) = (None, lx2)" "lexer_wf lx2" "kinds lx2 = kinds lx1" by auto
  from expect_kind [OF i(2), of TOKEN_COMMA "[]"] i(3) e(4) obtain tk3 lx3 where
    c: "expect lx2 TOKEN_COMMA = (Some tk3, lx3)" "lexer_wf lx3"
      "kinds lx3 = toks (header_pieces (d # cs)) @ ks" by auto
  from "3.IH" [OF c(2,3), of "cols @ [c]"] e i c show ?case
    by (subst steps_parse_header_loop.simps) auto
qed

subsection \<open>Steps that can be written and read back\<close>

definition field_ok :: "field_definition \<Rightarrow> step_field \<Rightarrow> bool" where
  "field_ok fd f \<longleftrightarrow>
     (case fd_type fd of
        INTEGER_TYPE \<Rightarrow> (case f of INTEGER v \<Rightarrow> LLONG_MIN \<le> v \<and> v \<le> LLONG_MAX | _ \<Rightarrow> False)
      | STRING_TYPE \<Rightarrow>
          (case f of
             STRING s \<Rightarrow> clean s \<and> dollar \<notin> set s \<and> (fd_optional fd \<or> s \<noteq> [])
           | _ \<Rightarrow> False)
      | UNKNOWN_TYPE \<Rightarrow> False)"

definition step_ok :: "step \<Rightarrow> bool" where
  "step_ok st \<longleftrightarrow> list_all2 field_ok fields st"

fun field_text :: "step_field \<Rightarrow> string" where
  "field_text UNKNOWN = []"
| "field_text (STRING s) = s"
| "field_text (INTEGER v) = show_int v"

lemma length_fields: "length fields = 9"
  by (simp add: fields_def)

lemma upt_9: "i < 9 \<Longrightarrow> i = 0 \<or> i = 1 \<or> i = 2 \<or> i = 3 \<or> i = 4 \<or> i = 5 \<or> i = 6 \<or> i = 7 \<or> i = (8 :: nat)"
  by arith

lemma find_field:
  assumes "i < 9"
  shows "field_definition_find_by_name (fd_name (fields ! i)) = Some (fields ! i)"
    and "fd_index (fields ! i) = i"
  using upt_9 [OF assms]
  by (auto simp: fields_def field_definition_find_by_name_def strcmp_eq_0 nth_Cons' numeral_eq_Suc)

lemma step_set_field_text:
  assumes "i < 9" "field_ok (fields ! i) f"
  shows "step_set_field st (fd_name (fields ! i)) (field_text f) = (False, st[i := f])"
  using assms(2) strtonum_show_int [of LLONG_MIN _ LLONG_MAX]
  unfolding step_set_field_def find_field(1) [OF assms(1)] find_field(2) [OF assms(1)]
  by (auto simp: find_field(2) [OF assms(1)] field_ok_def
      split: step_field.splits step_field_type.splits)

lemma clean_show_int: "clean (show_int v)" "dollar \<notin> set (show_int v)"
  by (auto simp: clean_def dest!: show_int_chars dest: is_digit_neq)

lemma field_text_clean:
  "field_ok fd f \<Longrightarrow> clean (field_text f) \<and> dollar \<notin> set (field_text f)"
  by (auto simp: field_ok_def clean_show_int split: step_field.splits step_field_type.splits)

lemma step_ok_nth: "step_ok st \<Longrightarrow> length st = 9 \<and> (\<forall>i < 9. field_ok (fields ! i) (st ! i))"
  by (auto simp: step_ok_def list_all2_conv_all_nth length_fields)

lemma step_ok_missing:
  assumes "step_ok st"
  shows "step_missing st = []"
proof -
  have "\<not> step_field_is_empty (st ! fd_index fd)" if "fd \<in> set fields" for fd
  proof -
    from that obtain j where j: "j < 9" "fields ! j = fd"
      unfolding in_set_conv_nth length_fields by blast
    then have "field_ok fd (st ! fd_index fd)"
      using step_ok_nth [OF assms] find_field(2) [OF j(1)] by auto
    then show ?thesis by (auto simp: field_ok_def split: step_field.splits step_field_type.splits)
  qed
  then show ?thesis by (simp add: step_missing_def filter_empty_conv)
qed

lemma field_text_empty:
  assumes "i < 9" "field_ok (fields ! i) f" "field_text f = []"
  shows "i = 5 \<and> f = STRING []"
  using upt_9 [OF assms(1)] assms(2,3)
  by (auto simp: field_ok_def fields_def nth_Cons' numeral_eq_Suc split: step_field.splits)

subsection \<open>A row\<close>

fun value_piece :: "string \<Rightarrow> piece list" where
  "value_piece [] = []"
| "value_piece (c # v) = [(TOKEN_VALUE, c # v)]"

fun row_pieces :: "string list \<Rightarrow> piece list" where
  "row_pieces [] = [(TOKEN_NEWLINE, [])]"
| "row_pieces [v] = value_piece v @ [(TOKEN_NEWLINE, [])]"
| "row_pieces (v # w # vs) = value_piece v @ (TOKEN_COMMA, []) # row_pieces (w # vs)"

text \<open>The row that is read up to field \<open>i\<close>, and the two ways to read a field that is not empty: the last
  one before the newline and any other before a comma.\<close>

lemma row_set:
  assumes "step_ok st" "i < 9"
  shows "(take i st @ drop i initial_step)[i := st ! i] = take (Suc i) st @ drop (Suc i) initial_step"
  using step_ok_nth [OF assms(1)] assms(2)
  by (simp add: initial_step_def list_update_append take_Suc_conv_app_nth Cons_nth_drop_Suc [symmetric])

lemma row_last_kinds:
  assumes "step_ok st" "lexer_wf lx" "field_text (st ! 8) = a # v"
    and "kinds lx = (Tok TOKEN_VALUE, a # v) # (Tok TOKEN_NEWLINE, []) # ks"
  shows "\<exists>lx'. steps_parse_row_loop (map fd_name fields) (take 8 st @ drop 8 initial_step) 8 lno lx =
      Some (False, st, lx') \<and> lexer_wf lx' \<and> kinds lx' = ks"
proof -
  let ?cur = "take 8 st @ drop 8 initial_step"
  have ok: "field_ok (fields ! 8) (st ! 8)" and i: "8 < (9 :: nat)" using step_ok_nth [OF assms(1)] by simp_all
  have upd: "?cur[8 := st ! 8] = st"
    using row_set [OF assms(1) i] step_ok_nth [OF assms(1)] by (simp add: initial_step_def)
  from if_not_kind [OF assms(2,4), of TOKEN_COMMA] obtain lx1 where
    i1: "lexer_if lx (Tok TOKEN_COMMA) = (None, lx1)" "lexer_wf lx1" "kinds lx1 = kinds lx" by auto
  from expect_kind [OF i1(2)] i1(3) assms(4) obtain tk lx2 where
    i2: "expect lx1 TOKEN_VALUE = (Some tk, lx2)" "tk_str tk = field_text (st ! 8)" "lexer_wf lx2"
      "kinds lx2 = (Tok TOKEN_NEWLINE, []) # ks" using assms(3) by metis
  from if_kind [OF i2(3,4)] obtain tk3 lx3 where
    i3: "lexer_if lx2 (Tok TOKEN_NEWLINE) = (Some tk3, lx3)" "lexer_wf lx3" "kinds lx3 = ks" by auto
  have val: "step_validate st lx3 l = (False, lx3)" for l
    by (simp add: step_validate_def step_ok_missing [OF assms(1)])
  show ?thesis
    using i1 i2 i3 val find_field(1) [OF i] step_set_field_text [OF i ok, of ?cur] upd
    by (subst steps_parse_row_loop.simps) (simp add: Let_def length_fields)
qed

lemma row_value_kinds:
  assumes "step_ok st" "lexer_wf lx" "i < 9" "field_text (st ! i) = a # v"
    and "kinds lx = (Tok TOKEN_VALUE, a # v) # (Tok TOKEN_COMMA, []) # ks"
  shows "\<exists>lno' lx'. steps_parse_row_loop (map fd_name fields) (take i st @ drop i initial_step) i lno lx =
      steps_parse_row_loop (map fd_name fields) (take (Suc i) st @ drop (Suc i) initial_step) (Suc i) lno' lx' \<and>
      lexer_wf lx' \<and> kinds lx' = ks"
proof -
  let ?cur = "take i st @ drop i initial_step"
  have ok: "field_ok (fields ! i) (st ! i)" using step_ok_nth [OF assms(1)] assms(3) by simp
  from if_not_kind [OF assms(2,5), of TOKEN_COMMA] obtain lx1 where
    i1: "lexer_if lx (Tok TOKEN_COMMA) = (None, lx1)" "lexer_wf lx1" "kinds lx1 = kinds lx" by auto
  from expect_kind [OF i1(2)] i1(3) assms(5) obtain tk lx2 where
    i2: "expect lx1 TOKEN_VALUE = (Some tk, lx2)" "tk_str tk = field_text (st ! i)" "lexer_wf lx2"
      "kinds lx2 = (Tok TOKEN_COMMA, []) # ks" using assms(4) by metis
  from if_not_kind [OF i2(3,4), of TOKEN_NEWLINE] obtain lx3 where
    i3: "lexer_if lx2 (Tok TOKEN_NEWLINE) = (None, lx3)" "lexer_wf lx3" "kinds lx3 = kinds lx2" by auto
  from expect_kind [OF i3(2)] i3(3) i2(4) obtain tk4 lx4 where
    i4: "expect lx3 TOKEN_COMMA = (Some tk4, lx4)" "lexer_wf lx4" "kinds lx4 = ks" by metis
  have "steps_parse_row_loop (map fd_name fields) ?cur i lno lx =
      steps_parse_row_loop (map fd_name fields) (take (Suc i) st @ drop (Suc i) initial_step) (Suc i)
        (if lno = 0 then tk_lno tk else lno) lx4"
    using i1 i2 i3 i4 assms(3) find_field(1) [OF assms(3)] step_set_field_text [OF assms(3) ok, of ?cur]
      row_set [OF assms(1,3)]
    by (subst steps_parse_row_loop.simps) (simp add: Let_def length_fields)
  with i4 show ?thesis by blast
qed

lemma row_loop_kinds:
  assumes "step_ok st"
  shows "lexer_wf lx \<Longrightarrow> i < 9 \<Longrightarrow>
    kinds lx = toks (row_pieces (map field_text (drop i st))) @ ks \<Longrightarrow>
    \<exists>lx'. steps_parse_row_loop (map fd_name fields) (take i st @ drop i initial_step) i lno lx =
        Some (False, st, lx') \<and> lexer_wf lx' \<and> kinds lx' = ks"
proof (induction "9 - i" arbitrary: i lx lno)
  case 0
  then show ?case by simp
next
  case (Suc n)
  note st = step_ok_nth [OF assms]
  have ok: "field_ok (fields ! i) (st ! i)" using st Suc.prems(2) by simp
  have drop_i: "drop i st = st ! i # drop (Suc i) st" using st Suc.prems(2) by (simp add: Cons_nth_drop_Suc)
  let ?rest = "toks (row_pieces (map field_text (drop (Suc i) st))) @ ks"
  show ?case
  proof (cases "i = 8")
    case True
    obtain a v where ft: "field_text (st ! i) = a # v"
      using field_text_empty [OF Suc.prems(2) ok] True by (cases "field_text (st ! i)") auto
    have "drop (Suc i) st = []" using st True by simp
    then have "kinds lx = (Tok TOKEN_VALUE, a # v) # (Tok TOKEN_NEWLINE, []) # ks" using Suc.prems(3) drop_i ft by simp
    with row_last_kinds [OF assms Suc.prems(1)] ft show ?thesis unfolding True by blast
  next
    case False
    then have i: "Suc i < 9" "n = 9 - Suc i" using Suc.prems(2) Suc.hyps(2) by auto
    obtain w ws where ws: "map field_text (drop (Suc i) st) = w # ws"
      using st i(1) by (cases "drop (Suc i) st") auto
    have k: "kinds lx = toks (value_piece (field_text (st ! i))) @ (Tok TOKEN_COMMA, []) # ?rest"
      using Suc.prems(3) unfolding drop_i by (simp add: ws)
    have "\<exists>lno' lx'. steps_parse_row_loop (map fd_name fields) (take i st @ drop i initial_step) i lno lx =
        steps_parse_row_loop (map fd_name fields) (take (Suc i) st @ drop (Suc i) initial_step) (Suc i) lno' lx' \<and>
        lexer_wf lx' \<and> kinds lx' = ?rest"
    proof (cases "field_text (st ! i)")
      case Nil
      from if_kind [OF Suc.prems(1)] k Nil obtain tk lx1 where
        i1: "lexer_if lx (Tok TOKEN_COMMA) = (Some tk, lx1)" "lexer_wf lx1" "kinds lx1 = ?rest" by fastforce
      have "i = 5" "st ! i = STRING []" using field_text_empty [OF Suc.prems(2) ok Nil] by blast+
      then have "take i st @ drop i initial_step = take (Suc i) st @ drop (Suc i) initial_step"
        using st row_set [OF assms Suc.prems(2)] by (simp add: initial_step_def list_update_append numeral_eq_Suc)
      with i1 show ?thesis by (subst steps_parse_row_loop.simps) auto
    next
      case (Cons a v)
      with row_value_kinds [OF assms Suc.prems(1,2)] k show ?thesis by simp
    qed
    with Suc.hyps(1) [OF i(2) _ i(1)] show ?thesis by metis
  qed
qed

subsection \<open>The file\<close>

definition row_text :: "step \<Rightarrow> string" where
  "row_text st = join_comma (map field_text st) @ [NL]"

definition steps_text :: "step list \<Rightarrow> string" where
  "steps_text steps = steps_header @ concat (map row_text steps)"

definition row_of :: "step \<Rightarrow> piece list" where
  "row_of st = row_pieces (map field_text st)"

definition header_of :: "piece list" where
  "header_of = header_pieces (map fd_name fields)"

lemma value_piece_text [simp]: "concat (map piece_text (value_piece v)) = v"
  by (cases v) simp_all

lemma row_pieces_text: "vs \<noteq> [] \<Longrightarrow> concat (map piece_text (row_pieces vs)) = join_comma vs @ [NL]"
  by (induction vs rule: row_pieces.induct) simp_all

lemma header_pieces_text: "vs \<noteq> [] \<Longrightarrow> concat (map piece_text (header_pieces vs)) = join_comma vs @ [NL]"
  by (induction vs rule: header_pieces.induct) simp_all

lemma value_piece_ok:
  "clean v \<Longrightarrow> ps \<noteq> [] \<Longrightarrow> fst (hd ps) \<noteq> TOKEN_VALUE \<Longrightarrow> pieces_ok (value_piece v @ ps) = pieces_ok ps"
  by (cases v) simp_all

lemma row_pieces_ok: "\<forall>v \<in> set vs. clean v \<Longrightarrow> pieces_ok (row_pieces vs @ ps) = pieces_ok ps"
  by (induction vs rule: row_pieces.induct) (simp_all add: value_piece_ok)

lemma header_pieces_ok:
  "\<forall>v \<in> set vs. clean v \<and> v \<noteq> [] \<Longrightarrow> pieces_ok (header_pieces vs @ ps) = pieces_ok ps"
  by (induction vs rule: header_pieces.induct) simp_all

lemma step_ok_texts:
  assumes "step_ok st" "v \<in> set (map field_text st)"
  shows "clean v \<and> dollar \<notin> set v"
proof -
  from assms(2) obtain f where f: "f \<in> set st" "v = field_text f" by auto
  then obtain i where i: "i < length st" "f = st ! i" unfolding in_set_conv_nth by blast
  with step_ok_nth [OF assms(1)] have "field_ok (fields ! i) f" by auto
  with f(2) field_text_clean show ?thesis by simp
qed

lemma row_of_text: "step_ok st \<Longrightarrow> concat (map piece_text (row_of st)) = row_text st"
proof -
  assume "step_ok st"
  then have "map field_text st \<noteq> []" using step_ok_nth [of st] by auto
  from row_pieces_text [OF this] show ?thesis by (simp only: row_of_def row_text_def)
qed

lemma header_of_text: "concat (map piece_text header_of) = steps_header"
  by (simp add: header_of_def steps_header_def header_pieces_text fields_def)

lemma file_pieces:
  assumes "\<forall>st \<in> set steps. step_ok st"
  shows "pieces_ok (header_of @ concat (map row_of steps))"
    and "concat (map piece_text (header_of @ concat (map row_of steps))) = steps_text steps"
proof -
  have rows: "pieces_ok (concat (map row_of steps))"
    using assms
  proof (induction steps)
    case (Cons st steps)
    then have "\<forall>v \<in> set (map field_text st). clean v" using step_ok_texts by auto
    with Cons show ?case by (simp add: row_of_def row_pieces_ok)
  qed simp
  have "\<forall>v \<in> set (map fd_name fields). clean v \<and> v \<noteq> []"
    by (simp add: fields_def clean_def)
  with rows show "pieces_ok (header_of @ concat (map row_of steps))"
    by (simp add: header_of_def header_pieces_ok)
  have "concat (map piece_text (concat (map row_of steps))) = concat (map row_text steps)"
    using assms by (induction steps) (simp_all add: row_of_text)
  then show "concat (map piece_text (header_of @ concat (map row_of steps))) = steps_text steps"
    using header_of_text by (simp add: steps_text_def)
qed

lemma row_of_hd: "\<exists>t v ks. toks (row_of st) = (Tok t, v) # ks"
proof -
  have "row_pieces vs \<noteq> []" for vs by (induction vs rule: row_pieces.induct) simp_all
  then obtain p ps where "row_of st = p # ps" unfolding row_of_def by (metis list.exhaust)
  then show ?thesis by (cases p) auto
qed

lemma steps_parse_row_of:
  assumes "step_ok st" "lexer_wf lx" "kinds lx = toks (row_of st) @ ks"
  shows "\<exists>lx'. steps_parse_row (map fd_name fields) lx = Some (False, st, lx') \<and> lexer_wf lx' \<and> kinds lx' = ks"
  using row_loop_kinds [OF assms(1,2), of 0] assms(3)
  by (simp add: steps_parse_row_def step_init_eq row_of_def)

lemma steps_parse_rows_of:
  assumes "\<forall>st \<in> set sts. step_ok st" "lexer_wf lx"
    "kinds lx = toks (concat (map row_of sts)) @ [(LEXER_EOF, [])]"
  shows "\<exists>lx'. steps_parse_rows (map fd_name fields) steps lx = Some (False, steps @ sts, lx')"
  using assms
proof (induction sts arbitrary: steps lx)
  case Nil
  then have "kinds lx = (LEXER_EOF, []) # []" by simp
  from peek_kind [OF Nil(2) this, of LEXER_EOF] show ?case
    by (subst steps_parse_rows.simps) auto
next
  case (Cons st sts)
  obtain t v ks where "toks (row_of st) = (Tok t, v) # ks" using row_of_hd [of st] by auto
  with Cons.prems(3) have "kinds lx = (Tok t, v) # ks @ toks (concat (map row_of sts)) @ [(LEXER_EOF, [])]"
    by simp
  from peek_kind [OF Cons.prems(2) this, of LEXER_EOF] obtain lx1 where
    p: "lexer_peek lx LEXER_EOF = (False, lx1)" "lexer_wf lx1" "kinds lx1 = kinds lx" by auto
  from steps_parse_row_of [OF _ p(2), of st] Cons.prems p(3) obtain lx2 where
    r: "steps_parse_row (map fd_name fields) lx1 = Some (False, st, lx2)" "lexer_wf lx2"
      "kinds lx2 = toks (concat (map row_of sts)) @ [(LEXER_EOF, [])]" by auto
  from Cons.IH [OF _ r(2,3), of "steps @ [st]"] Cons.prems(1) p(1) r(1) show ?case
    by (subst steps_parse_rows.simps) auto
qed

lemma steps_parse_text:
  assumes "\<forall>st \<in> set sts. step_ok st"
  shows "steps_parse True (Some (steps_text sts)) =
    Some (Some \<lparr>sf_columns = map fd_name fields, sf_steps = sts\<rparr>)"
proof -
  let ?ps = "header_of @ concat (map row_of sts)"
  have "lexer_at (lexer_init (steps_text sts)) (concat (map piece_text ?ps))"
    using file_pieces(2) [OF assms] by (simp add: lexer_at_def lexer_init_def)
  from lexer_read_all_pieces [OF file_pieces(1) [OF assms] this] obtain lx where
    lx: "lexer_alloc step_lexer_read (Some (steps_text sts)) () = Some (lx, (), True)"
      "map token_piece (lx_tokens lx) = toks ?ps @ [(LEXER_EOF, [])]"
    by (auto simp: lexer_alloc_def lexer_init_def)
  from lexer_alloc_wf [OF step_reader_progress, of "Some (steps_text sts)" "()"] lx(1)
  have wf: "lexer_wf lx" "lexer_rest lx = lx_tokens lx" by auto
  then have k: "kinds lx = toks header_of @ toks (concat (map row_of sts)) @ [(LEXER_EOF, [])]"
    using lx(2) by (simp add: kinds_def)
  have "toks header_of = (Tok TOKEN_VALUE, ''step'') # tl (toks header_of)"
    by (simp add: header_of_def fields_def)
  with k have "kinds lx = (Tok TOKEN_VALUE, ''step'') # tl (toks header_of) @
      toks (concat (map row_of sts)) @ [(LEXER_EOF, [])]" by (metis append_Cons)
  from peek_kind [OF wf(1) this, of LEXER_EOF] obtain lx1 where
    p: "lexer_peek lx LEXER_EOF = (False, lx1)" "lexer_wf lx1" "kinds lx1 = kinds lx" by auto
  have "map fd_name fields \<noteq> []" by (simp add: fields_def)
  from header_loop_kinds [OF p(2) _ this, of _ "[]"] p(3) k obtain lx2 where
    h: "steps_parse_header_loop [] lx1 = Some (False, map fd_name fields, lx2)" "lexer_wf lx2"
      "kinds lx2 = toks (concat (map row_of sts)) @ [(LEXER_EOF, [])]"
    by (auto simp: header_of_def)
  from steps_parse_rows_of [OF assms h(2,3), of "[]"] lx(1) p(1) h(1) show ?thesis
    by (auto simp: steps_parse_def steps_parse_header_def)
qed

section \<open>Writing\<close>

lemma expands_template:
  assumes "fds \<noteq> []" "\<forall>fd \<in> set fds. variable_name (fd_name fd) \<and> lk (fd_name fd) = Some (g fd) \<and> dollar \<notin> set (g fd)"
    "dollar \<notin> set e"
  shows "expands lk ign (Suc n) (join_comma (map (\<lambda>fd. ref (fd_name fd)) fds) @ e)
    (join_comma (map g fds) @ e)"
  using assms(1,2)
proof (induction fds rule: list_nonempty_induct)
  case (single fd)
  then have "expands lk ign (Suc n) ([] @ ref (fd_name fd) @ e) ([] @ g fd @ e)"
    using assms(3) by (intro expands.known [where v = "g fd"]) (auto intro: expands.plain)
  then show ?case by simp
next
  case (cons fd fds)
  have "expands lk ign (Suc n) ('','' @ join_comma (map (\<lambda>fd. ref (fd_name fd)) fds) @ e)
      ('','' @ join_comma (map g fds) @ e)"
    using cons by (intro expands_prepend) auto
  then have "expands lk ign (Suc n)
      ([] @ ref (fd_name fd) @ '','' @ join_comma (map (\<lambda>fd. ref (fd_name fd)) fds) @ e)
      ([] @ g fd @ '','' @ join_comma (map g fds) @ e)"
    using cons.prems by (intro expands.known [where v = "g fd"]) (auto intro: expands.plain)
  then show ?case using cons.hyps by (cases fds) simp_all
qed

lemma map_fields_text:
  assumes "length st = 9"
  shows "map (\<lambda>fd. field_text (st ! fd_index fd)) fields = map field_text st"
proof (rule nth_equalityI)
  show "length (map (\<lambda>fd. field_text (st ! fd_index fd)) fields) = length (map field_text st)"
    using assms by (simp add: length_fields)
next
  fix i
  assume "i < length (map (\<lambda>fd. field_text (st ! fd_index fd)) fields)"
  then have "i < 9" by (simp add: length_fields)
  then show "map (\<lambda>fd. field_text (st ! fd_index fd)) fields ! i = map field_text st ! i"
    using assms find_field(2) [of i] by (simp add: length_fields)
qed

lemma step_lookup_text:
  assumes "step_ok st" "fd \<in> set fields"
  shows "step_interpolate_lookup st (fd_name fd) = Some (field_text (st ! fd_index fd))"
    and "field_ok fd (st ! fd_index fd)" and "variable_name (fd_name fd)"
proof -
  from assms(2) obtain j where j: "j < 9" "fields ! j = fd"
    unfolding in_set_conv_nth length_fields by blast
  show ok: "field_ok fd (st ! fd_index fd)"
    using step_ok_nth [OF assms(1)] find_field(2) [OF j(1)] j by auto
  show "variable_name (fd_name fd)"
    using assms(2) by (auto simp: fields_def variable_name_def)
  show "step_interpolate_lookup st (fd_name fd) = Some (field_text (st ! fd_index fd))"
    using find_field(1) [OF j(1)] ok unfolding j(2)
    by (auto simp: step_interpolate_lookup_def field_ok_def
        split: step_field.splits step_field_type.splits)
qed

lemma step_serialize_text:
  assumes "step_ok st"
  shows "step_serialize st out = (False, out @ row_text st)"
proof -
  let ?lk = "step_interpolate_lookup st"
  have "expands ?lk False 3 step_template (row_text st)"
  proof -
    have "\<forall>fd \<in> set fields. variable_name (fd_name fd) \<and>
        ?lk (fd_name fd) = Some (field_text (st ! fd_index fd)) \<and> dollar \<notin> set (field_text (st ! fd_index fd))"
      using step_lookup_text [OF assms] field_text_clean by blast
    moreover have "fields \<noteq> []" by (simp add: fields_def)
    moreover have "map (\<lambda>fd. field_text (st ! fd_index fd)) fields = map field_text st"
      using map_fields_text step_ok_nth [OF assms] by blast
    ultimately show ?thesis
      using expands_template [of fields ?lk "\<lambda>fd. field_text (st ! fd_index fd)" "[NL]" False 2]
      by (simp add: step_template_def row_text_def eval_nat_numeral)
  qed
  then have "interpolate (pure_lookup ?lk) False 0 () out step_template = (None, (), out @ row_text st)"
    using interpolate_iff [of ?lk False "()" out step_template "()" "out @ row_text st"] by blast
  then show ?thesis by (simp add: step_serialize_def interpolate_buffer_def)
qed

lemma steps_serialize_text:
  "\<forall>st \<in> set sts. step_ok st \<Longrightarrow> steps_serialize sts out = (False, out @ concat (map row_text sts))"
  by (induction sts arbitrary: out) (simp_all add: step_serialize_text)

lemma set_steps_sort [simp]: "set (steps_sort sts) = set sts"
  by (simp add: steps_sort_def)

lemma steps_write_text:
  assumes "\<forall>st \<in> set (sf_steps sf). step_ok st"
  shows "steps_write WriteSucceeds sf =
    (False, Some (steps_text (steps_sort (sf_steps sf))), sf\<lparr>sf_steps := steps_sort (sf_steps sf)\<rparr>)"
  using assms by (simp add: steps_write_def steps_serialize_text steps_text_def)

lemma step_cmp_preorder: "cmp_preorder step_cmp"
  by (rule cmp_preorder_key [where key = "\<lambda>st. case sf_integer (st ! 0) of None \<Rightarrow> 0 | Some v \<Rightarrow> v"])
    (simp add: step_cmp_def Let_def find_field [of 0, simplified fields_def, simplified])


lemma expands_ref_inv:
  assumes "expands lk False n (p @ ref name @ rest) out" "dollar \<notin> set p" "variable_name name"
  shows "lk name \<noteq> None \<and> (\<exists>m o'. expands lk False m rest o')"
  using assms(1) by (rule expands_refE [OF _ assms(2,3)]) auto

lemma expands_template_inv:
  assumes "expands lk False n (p @ join_comma (map (\<lambda>fd. ref (fd_name fd)) fds) @ e) out"
    "\<forall>fd \<in> set fds. variable_name (fd_name fd)" "dollar \<notin> set p"
  shows "\<forall>fd \<in> set fds. lk (fd_name fd) \<noteq> None"
  using assms
proof (induction fds arbitrary: n out p)
  case (Cons fd fds)
  let ?rest = "if fds = [] then e else '','' @ join_comma (map (\<lambda>fd. ref (fd_name fd)) fds) @ e"
  have "expands lk False n (p @ ref (fd_name fd) @ ?rest) out"
    using Cons.prems(1) by (cases fds) simp_all
  from expands_ref_inv [OF this Cons.prems(3)] Cons.prems(2)
  obtain m o' where some: "lk (fd_name fd) \<noteq> None" and rest: "expands lk False m ?rest o'" by auto
  show ?case
  proof (cases "fds = []")
    case True
    with some show ?thesis by simp
  next
    case False
    with rest have "expands lk False m ('','' @ join_comma (map (\<lambda>fd. ref (fd_name fd)) fds) @ e) o'"
      by simp
    from Cons.IH [OF this] Cons.prems(2) some show ?thesis by simp
  qed
qed simp

lemma step_serialize_missing:
  assumes "i < 9" "st ! i = UNKNOWN"
  shows "fst (step_serialize st out)"
proof (rule ccontr)
  let ?lk = "step_interpolate_lookup st"
  assume "\<not> ?thesis"
  then obtain out' where "interpolate (pure_lookup ?lk) False 0 () out step_template = (None, (), out')"
    by (auto simp: step_serialize_def interpolate_buffer_def split: prod.splits)
  then obtain w where "expands ?lk False 3 step_template w"
    using interpolate_iff [of ?lk False "()" out step_template "()" out'] by blast
  moreover have "\<forall>fd \<in> set fields. variable_name (fd_name fd)"
    by (simp add: fields_def variable_name_def)
  ultimately have "\<forall>fd \<in> set fields. ?lk (fd_name fd) \<noteq> None"
    using expands_template_inv [of ?lk 3 "[]" fields "[NL]" w] by (simp add: step_template_def)
  moreover have "fields ! i \<in> set fields" using assms(1) by (simp add: length_fields)
  ultimately show False
    using find_field [OF assms(1)] assms(2) by (auto simp: step_interpolate_lookup_def)
qed

lemma steps_serialize_missing:
  "st \<in> set sts \<Longrightarrow> i < 9 \<Longrightarrow> st ! i = UNKNOWN \<Longrightarrow> fst (steps_serialize sts out)"
proof (induction sts arbitrary: out)
  case (Cons a sts)
  obtain e out' where s: "step_serialize a out = (e, out')" by (cases "step_serialize a out")
  show ?case
  proof (cases e)
    case True
    with s show ?thesis by simp
  next
    case False
    then have "a \<noteq> st" using step_serialize_missing [OF Cons.prems(2,3), of out] s by auto
    with Cons s False show ?thesis by simp
  qed
qed simp

lemma steps_write_parses:
  assumes "\<forall>st \<in> set (sf_steps sf). step_ok st"
  shows "\<exists>out sts. steps_write WriteSucceeds sf = (False, Some out, sf\<lparr>sf_steps := sts\<rparr>) \<and>
    steps_parse True (Some out) = Some (Some \<lparr>sf_columns = map fd_name fields, sf_steps = sts\<rparr>) \<and>
    mset sts = mset (sf_steps sf) \<and> sorted_wrt (\<lambda>a b. step_cmp a b \<le> 0) sts"
  using steps_write_text [OF assms] steps_parse_text [of "steps_sort (sf_steps sf)"] assms
    qs.vsort_mset [of step_cmp "sf_steps sf"] qs.vsort_sorted [OF step_cmp_preorder, of "sf_steps sf"]
  by (auto simp: steps_sort_def)

section \<open>Durations\<close>

fun field_int :: "step_field \<Rightarrow> int" where
  "field_int (INTEGER v) = v"
| "field_int _ = 0"

definition counted :: "step \<Rightarrow> bool" where
  "counted st \<longleftrightarrow> st ! 8 \<noteq> INTEGER 1 \<and> st ! 1 \<noteq> STRING ''end''"

lemma step_ok_get:
  assumes "step_ok st"
  shows "\<exists>d s k t. step_get_integer st ''duration'' = Some d \<and> st ! 3 = INTEGER d \<and>
    step_get_str st ''name'' = Some s \<and> st ! 1 = STRING s \<and>
    step_get_integer st ''skip'' = Some k \<and> st ! 8 = INTEGER k \<and>
    step_get_integer st ''time'' = Some t \<and> st ! 7 = INTEGER t"
proof -
  have ok: "field_ok (fields ! i) (st ! i)" if "i < 9" for i
    using step_ok_nth [OF assms] that by blast
  have names: "fd_name (fields ! 3) = ''duration''" "fd_name (fields ! Suc 0) = ''name''"
    "fd_name (fields ! 8) = ''skip''" "fd_name (fields ! 7) = ''time''"
    "fd_type (fields ! 3) = INTEGER_TYPE" "fd_type (fields ! Suc 0) = STRING_TYPE"
    "fd_type (fields ! 8) = INTEGER_TYPE" "fd_type (fields ! 7) = INTEGER_TYPE"
    by (simp_all add: fields_def)
  have get: "step_get_field st ''duration'' = Some (st ! 3)" "step_get_field st ''name'' = Some (st ! 1)"
    "step_get_field st ''skip'' = Some (st ! 8)" "step_get_field st ''time'' = Some (st ! 7)"
    using find_field [of 3] find_field [of 1] find_field [of 8] find_field [of 7]
    by (simp_all add: step_get_field_def names)
  from ok [of 3] ok [of 1] ok [of 8] ok [of 7] show ?thesis
    by (auto simp: field_ok_def names get step_get_integer_def step_get_str_def split: step_field.splits)
qed

lemma sum_durations_eq:
  assumes "\<forall>st \<in> set sts. step_ok st \<and> 0 \<le> field_int (st ! 3)" "0 \<le> d"
    "d + sum_list (map (\<lambda>st. field_int (st ! 3)) (filter counted sts)) \<le> LLONG_MAX"
  shows "sum_durations sts d = Some (d + sum_list (map (\<lambda>st. field_int (st ! 3)) (filter counted sts)))"
  using assms
proof (induction sts arbitrary: d)
  case (Cons st sts)
  let ?sum = "sum_list (map (\<lambda>st. field_int (st ! 3)) (filter counted sts))"
  have "0 \<le> ?sum" using Cons.prems(1) by (intro sum_list_nonneg) auto
  from step_ok_get [of st] Cons.prems(1) obtain v s k where st:
    "step_get_integer st ''duration'' = Some v" "st ! 3 = INTEGER v"
    "step_get_str st ''name'' = Some s" "st ! 1 = STRING s"
    "step_get_integer st ''skip'' = Some k" "st ! 8 = INTEGER k" by auto
  show ?case
  proof (cases "counted st")
    case True
    with Cons.prems st \<open>0 \<le> ?sum\<close> have "i64_checked (d + v) = Some (d + v)" "0 \<le> d + v"
      by (auto simp: i64_checked_def)
    with Cons.IH [of "d + v"] Cons.prems True st show ?thesis
      by (auto simp: counted_def)
  next
    case False
    with Cons.IH [of d] Cons.prems st show ?thesis by (auto simp: counted_def)
  qed
qed simp

section \<open>Properties\<close>

text \<open>C5: whatever bytes the step file holds, the parser returns: it accepts the file or reports
  an error.\<close>

theorem steps_parse_terminates: "\<exists>r. steps_parse locked input = Some r"
  by (rule steps_parse_returns)



text \<open>C7: when a step lacks the value of a field, optional or not, \<open>steps_write\<close> fails and leaves
  the file as it was, whatever the file system would have done.\<close>

theorem steps_write_refuses_missing:
  assumes "st \<in> set (sf_steps sf)" and "i < 9" and "st ! i = UNKNOWN"
  shows "\<exists>sf'. steps_write os sf = (True, None, sf')"
proof -
  have "st \<in> set (steps_sort (sf_steps sf))" using assms(1) by simp
  from steps_serialize_missing [OF this assms(2,3), of steps_header] show ?thesis
    by (auto simp: steps_write_def Let_def split: prod.splits bool.splits)
qed

theorem steps_write_refuses_missing_witness:
  "\<exists>sf'. steps_write WriteSucceeds \<lparr>sf_columns = [], sf_steps = [initial_step]\<rparr> = (True, None, sf')"
  by (rule steps_write_refuses_missing [where st = initial_step and i = 0])
    (simp_all add: initial_step_def)

text \<open> Outside of robsd-regress the total duration is the sum of the durations of all steps that
  were not skipped and are not the final step, as long as it fits in 64 bits.\<close>

lemma total_duration_is_sum:
  assumes "mode \<noteq> ROBSD_REGRESS"
    and "\<forall>st \<in> set (sf_steps sf). step_ok st \<and> 0 \<le> field_int (st ! 3)"
    and "sum_list (map (\<lambda>st. field_int (st ! 3)) (filter counted (sf_steps sf))) \<le> LLONG_MAX"
  shows "steps_total_duration sf mode =
    Some (sum_list (map (\<lambda>st. field_int (st ! 3)) (filter counted (sf_steps sf))))"
  using sum_durations_eq [OF assms(2), of 0] assms(1,3) by (simp add: steps_total_duration_def)

theorem total_duration_is_sum_witness:
  "steps_total_duration \<lparr>sf_columns = [], sf_steps =
     [[INTEGER 1, STRING ''env'', INTEGER 0, INTEGER 5, INTEGER 0, STRING [], STRING ''root'', INTEGER 10, INTEGER 0],
      [INTEGER 2, STRING ''cvs'', INTEGER 0, INTEGER 7, INTEGER 0, STRING [], STRING ''root'', INTEGER 10, INTEGER 1],
      [INTEGER 3, STRING ''end'', INTEGER 0, INTEGER 5, INTEGER 0, STRING [], STRING ''root'', INTEGER 10, INTEGER 0]]\<rparr>
     ROBSD = Some 5"
  by (subst total_duration_is_sum)
    (simp_all add: step_ok_def fields_def field_ok_def clean_def counted_def)

end
