(* ===== verification/RegressLog.thy ===== *)
theory RegressLog
  imports Buffer
begin

text \<open>
  \<open>regress-log.c\<close> and \<open>robsd-regress-log.c\<close>: extracting the outcome of tests from the log of a
  regression suite. A log is its content, or \<open>None\<close> when it cannot be read; lines are what the C
  string functions see of them.
\<close>

section \<open>Lines\<close>

definition line_begins :: "string \<Rightarrow> string \<Rightarrow> bool" where
  "line_begins str needle \<longleftrightarrow> is_prefix needle str"

text \<open>The loop of \<open>ismarker_regress\<close>: stops at the first equal sign after a space.\<close>

fun scan_marker :: "char \<Rightarrow> string \<Rightarrow> string" where
  "scan_marker prev [] = []"
| "scan_marker prev (c # s) =
     (if prev = CHR '' '' \<and> c = CHR ''='' then c # s else scan_marker c s)"

definition ismarker_regress :: "string \<Rightarrow> bool" where
  "ismarker_regress str =
     (if \<not> line_begins str ''===='' then False
      else
        (case drop 4 str of
           [] \<Rightarrow> False
         | c # s \<Rightarrow>
             if c \<noteq> CHR '' '' then False
             else
               (let t = scan_marker c s in
                if \<not> line_begins t ''===='' then False else drop 4 t = [])))"

definition ismarker_subdir :: "string \<Rightarrow> bool" where
  "ismarker_subdir str = line_begins str ''===>''"

definition ismarker :: "string \<Rightarrow> bool" where
  "ismarker str \<longleftrightarrow> ismarker_regress str \<or> ismarker_subdir str"

definition isskipped :: "string \<Rightarrow> bool" where
  "isskipped str \<longleftrightarrow> contains str ''SKIPPED'' \<or> contains str ''DISABLED''"

definition isfailed :: "string \<Rightarrow> bool" where
  "isfailed str \<longleftrightarrow> contains str ''FAILED''"

definition isxfailed :: "string \<Rightarrow> bool" where
  "isxfailed str \<longleftrightarrow> contains str ''EXPECTED_FAIL''"

definition isxpassed :: "string \<Rightarrow> bool" where
  "isxpassed str \<longleftrightarrow> contains str ''UNEXPECTED_PASS''"

definition isxtrace :: "string \<Rightarrow> bool" where
  "isxtrace str = (case str of [] \<Rightarrow> False | c # _ \<Rightarrow> c = CHR ''+'')"

section \<open>Parsing\<close>

datatype regress_log_flag =
    REGRESS_LOG_FAILED
  | REGRESS_LOG_SKIPPED
  | REGRESS_LOG_XFAILED
  | REGRESS_LOG_XPASSED
  | REGRESS_LOG_NEWLINE
  | REGRESS_LOG_PEEK

definition wanted :: "regress_log_flag set \<Rightarrow> string \<Rightarrow> bool" where
  "wanted flags line \<longleftrightarrow>
     REGRESS_LOG_SKIPPED \<in> flags \<and> isskipped line \<or>
     REGRESS_LOG_FAILED \<in> flags \<and> isfailed line \<or>
     REGRESS_LOG_XFAILED \<in> flags \<and> isxfailed line \<or>
     REGRESS_LOG_XPASSED \<in> flags \<and> isxpassed line"

text \<open>The loop over the lines; its state is the flag \<open>xtrace\<close>, the scratch and output buffers and
  the number of targets found.\<close>

fun regress_log_loop ::
  "regress_log_flag set \<Rightarrow> bool \<Rightarrow> string \<Rightarrow> string \<Rightarrow> nat \<Rightarrow> string list \<Rightarrow> nat \<times> string" where
  "regress_log_loop flags xtrace scratch out nfound [] = (nfound, out)"
| "regress_log_loop flags xtrace scratch out nfound (line # lines) =
     (if xtrace \<and> isxtrace line then regress_log_loop flags xtrace scratch out nfound lines
      else
        (let scratch' = (if ismarker line then [] else scratch) @ line @ [NL] in
         if wanted flags line then
           (let first = (nfound = 0 \<and> REGRESS_LOG_NEWLINE \<notin> flags) in
            if REGRESS_LOG_PEEK \<in> flags then (nfound + 1, out)
            else regress_log_loop flags False []
              ((if first then out else out @ [NL]) @ cstr (scratch' @ [NUL])) (nfound + 1) lines)
         else regress_log_loop flags False scratch' out nfound lines))"

definition log_lines :: "string \<Rightarrow> string list" where
  "log_lines content = map cstr (buffer_lines content)"

text \<open>A negative number is a fatal error.\<close>

definition regress_log_parse_impl ::
  "string option \<Rightarrow> string \<Rightarrow> regress_log_flag set \<Rightarrow> int \<times> string" where
  "regress_log_parse_impl log out flags =
     (case log of
        None \<Rightarrow> (-1, out)
      | Some content \<Rightarrow>
          (case regress_log_loop flags True [] out 0 (log_lines content) of
             (n, out') \<Rightarrow> (int n, out')))"

definition regress_log_parse ::
  "string option \<Rightarrow> string \<Rightarrow> regress_log_flag set \<Rightarrow> int \<times> string" where
  "regress_log_parse log out flags = regress_log_parse_impl log out flags"

definition regress_log_peek :: "string option \<Rightarrow> regress_log_flag set \<Rightarrow> int" where
  "regress_log_peek log flags = fst (regress_log_parse_impl log [] (insert REGRESS_LOG_PEEK flags))"

text \<open>The loop of \<open>regress_log_trim\<close>: whether leading traces are still skipped, the end of the text
  before a trace (0 for none), and the buffer.\<close>

fun regress_log_trim_loop :: "bool \<Rightarrow> nat \<Rightarrow> string \<Rightarrow> string list \<Rightarrow> nat \<times> string" where
  "regress_log_trim_loop xbeg xend bf [] = (xend, bf)"
| "regress_log_trim_loop xbeg xend bf (line # lines) =
     (if xbeg \<and> isxtrace line then regress_log_trim_loop xbeg xend bf lines
      else
        (let xend' = (if isxtrace line then (if xend = 0 then length bf else xend) else 0)
         in regress_log_trim_loop False xend' (bf @ line @ [NL]) lines))"

definition regress_log_trim :: "string option \<Rightarrow> string \<Rightarrow> int \<times> string" where
  "regress_log_trim log out =
     (case log of
        None \<Rightarrow> (-1, out)
      | Some content \<Rightarrow>
          (case regress_log_trim_loop True 0 [] (log_lines content) of
             (xend, bf) \<Rightarrow> (1, take (if xend \<noteq> 0 then xend else length bf) bf)))"

section \<open>The program\<close>

text \<open>
  \<open>opts\<close> are the options that \<open>getopt(3)\<close> returns one after the other, with a question mark for
  those it rejects. The result is \<open>None\<close> for the usage message, otherwise the exit status and what
  is printed.
\<close>

fun regress_log_options ::
  "char list \<Rightarrow> regress_log_flag set \<Rightarrow> bool \<Rightarrow> (regress_log_flag set \<times> bool) option" where
  "regress_log_options [] flags doprint = Some (flags, doprint)"
| "regress_log_options (ch # opts) flags doprint =
     (if ch = CHR ''F'' then regress_log_options opts (insert REGRESS_LOG_FAILED flags) doprint
      else if ch = CHR ''P'' then regress_log_options opts (insert REGRESS_LOG_XPASSED flags) doprint
      else if ch = CHR ''S'' then regress_log_options opts (insert REGRESS_LOG_SKIPPED flags) doprint
      else if ch = CHR ''X'' then regress_log_options opts (insert REGRESS_LOG_XFAILED flags) doprint
      else if ch = CHR ''n'' then regress_log_options opts flags False
      else None)"

fun regress_log_files ::
  "(string \<Rightarrow> string option) \<Rightarrow> regress_log_flag set \<Rightarrow> string \<Rightarrow> nat \<Rightarrow> bool \<Rightarrow> string list \<Rightarrow>
   bool \<times> nat \<times> string" where
  "regress_log_files fs flags bf n error [] = (error, n, bf)"
| "regress_log_files fs flags bf n error (path # paths) =
     (let bf1 = (if n > 0 then bf @ [NL] else bf) in
      case regress_log_parse (fs path) bf1 flags of
        (r, bf2) \<Rightarrow>
          if r = -1 then regress_log_files fs flags bf2 n True paths
          else if r = 0 then
            regress_log_files fs flags (if n > 0 then take (length bf2 - 1) bf2 else bf2) n error paths
          else regress_log_files fs flags bf2 (n + 1) error paths)"

definition regress_log_main ::
  "(string \<Rightarrow> string option) \<Rightarrow> char list \<Rightarrow> string list \<Rightarrow> (int \<times> string) option" where
  "regress_log_main fs opts argv =
     (case regress_log_options opts {} True of
        None \<Rightarrow> None
      | Some (flags, doprint) \<Rightarrow>
          if argv = [] \<or> flags = {} then None
          else
            (case regress_log_files fs flags [] 0 False argv of
               (error, n, bf) \<Rightarrow>
                 let out = (if \<not> error \<and> n > 0 \<and> doprint then cstr (bf @ [NUL]) else []) in
                 if error then Some (2, out) else if n = 0 then Some (1, out) else Some (0, out)))"

section \<open>What the extraction is\<close>

text \<open>The blocks of a log: from the last marker or the end of the block before, up to and including
  a line that is wanted.\<close>

fun report_blocks :: "regress_log_flag set \<Rightarrow> string \<Rightarrow> string list \<Rightarrow> string list" where
  "report_blocks flags block [] = []"
| "report_blocks flags block (line # lines) =
     (let block' = (if ismarker line then [] else block) @ line @ [NL] in
      if wanted flags line then block' # report_blocks flags [] lines
      else report_blocks flags block' lines)"

definition joined :: "bool \<Rightarrow> string list \<Rightarrow> string" where
  "joined first bs =
     (case bs of [] \<Rightarrow> [] | b # bs' \<Rightarrow> (if first then b else NL # b) @ concat (map (\<lambda>b. NL # b) bs'))"

lemma joined_not_first: "joined False bs = concat (map (\<lambda>b. NL # b) bs)"
  by (simp add: joined_def split: list.split)

lemma log_lines_no_nul: "line \<in> set (log_lines content) \<Longrightarrow> NUL \<notin> set line"
  by (auto simp: log_lines_def)

lemma regress_log_loop_blocks:
  assumes "REGRESS_LOG_PEEK \<notin> flags" "\<forall>line \<in> set lines. NUL \<notin> set line" "NUL \<notin> set scratch"
  shows "regress_log_loop flags False scratch out n lines =
    (n + length (report_blocks flags scratch lines),
     out @ joined (n = 0 \<and> REGRESS_LOG_NEWLINE \<notin> flags) (report_blocks flags scratch lines))"
  using assms(2,3)
proof (induction lines arbitrary: scratch out n)
  case Nil
  then show ?case by (simp add: joined_def)
next
  case (Cons line lines)
  let ?s = "(if ismarker line then [] else scratch) @ line @ [NL]"
  have s: "NUL \<notin> set ?s" using Cons.prems by auto
  then have c: "cstr (?s @ [NUL]) = ?s" using cstr_append_nul [of ?s "[]"] cstr_id by simp
  show ?case
  proof (cases "wanted flags line")
    case True
    let ?first = "n = 0 \<and> REGRESS_LOG_NEWLINE \<notin> flags"
    have "regress_log_loop flags False scratch out n (line # lines) =
        regress_log_loop flags False [] ((if ?first then out else out @ [NL]) @ ?s) (n + 1) lines"
      using True assms(1) c by (simp add: Let_def)
    also have "\<dots> = (n + 1 + length (report_blocks flags [] lines),
        ((if ?first then out else out @ [NL]) @ ?s) @ joined False (report_blocks flags [] lines))"
      using Cons by simp
    finally show ?thesis
      using True by (simp add: Let_def joined_def [of ?first] joined_not_first)
  next
    case False
    then show ?thesis using Cons.IH [OF _ s] Cons.prems by (simp add: Let_def)
  qed
qed

lemma regress_log_loop_xtrace:
  "regress_log_loop flags True scratch out n lines =
   regress_log_loop flags False scratch out n (dropWhile isxtrace lines)"
  by (induction lines) simp_all

lemma length_report_blocks: "length (report_blocks flags block lines) = length (filter (wanted flags) lines)"
  by (induction lines arbitrary: block) (simp_all add: Let_def)

lemma regress_log_parse_blocks:
  assumes "REGRESS_LOG_PEEK \<notin> flags"
  shows "regress_log_parse (Some content) out flags =
    (let bs = report_blocks flags [] (dropWhile isxtrace (log_lines content))
     in (int (length bs), out @ joined (REGRESS_LOG_NEWLINE \<notin> flags) bs))"
proof -
  have "\<forall>line \<in> set (dropWhile isxtrace (log_lines content)). NUL \<notin> set line"
    by (auto dest: set_dropWhileD log_lines_no_nul)
  then show ?thesis
    using regress_log_loop_blocks [OF assms, of "dropWhile isxtrace (log_lines content)" "[]" out 0]
    by (simp add: regress_log_parse_def regress_log_parse_impl_def regress_log_loop_xtrace Let_def)
qed

lemma regress_log_loop_peek:
  assumes "REGRESS_LOG_PEEK \<in> flags"
  shows "fst (regress_log_loop flags False scratch out n lines) =
    (if \<exists>line \<in> set lines. wanted flags line then n + 1 else n)"
  using assms by (induction lines arbitrary: scratch out) (auto simp: Let_def)

lemma wanted_peek: "wanted (insert REGRESS_LOG_PEEK flags) line = wanted flags line"
  by (simp add: wanted_def)

section \<open>Trimming\<close>

abbreviation unlines :: "string list \<Rightarrow> string" where
  "unlines ls \<equiv> concat (map (\<lambda>l. l @ [NL]) ls)"

text \<open>The state of the loop after the lines \<open>ls\<close>, the first of which is no trace.\<close>

definition trimmed :: "string list \<Rightarrow> string list" where
  "trimmed ls = rev (dropWhile isxtrace (rev ls))"

lemma regress_log_trim_loop_state:
  assumes "ls \<noteq> []" "\<not> isxtrace (hd ls)"
  shows "regress_log_trim_loop False (if trimmed ls = ls then 0 else length (unlines (trimmed ls)))
      (unlines ls) rest =
    (let all = ls @ rest in
     (if trimmed all = all then 0 else length (unlines (trimmed all)), unlines all))"
  using assms
proof (induction rest arbitrary: ls)
  case Nil
  then show ?case by simp
next
  case (Cons line rest)
  let ?ls' = "ls @ [line]"
  have ne: "trimmed ls \<noteq> []"
  proof -
    have "hd ls \<in> set (rev ls)" "\<not> isxtrace (hd ls)" using Cons.prems by auto
    then show ?thesis by (auto simp: trimmed_def)
  qed
  then have pos: "length (unlines (trimmed ls)) \<noteq> 0" by auto
  have tr: "trimmed ?ls' = (if isxtrace line then trimmed ls else ?ls')"
    by (simp add: trimmed_def)
  have neq: "trimmed ls \<noteq> ?ls'"
  proof
    assume "trimmed ls = ?ls'"
    then have "length (trimmed ls) = Suc (length ls)" by simp
    moreover have "length (trimmed ls) \<le> length ls"
      by (simp add: trimmed_def length_dropWhile_le [of isxtrace "rev ls", simplified])
    ultimately show False by simp
  qed
  have "regress_log_trim_loop False (if trimmed ls = ls then 0 else length (unlines (trimmed ls)))
      (unlines ls) (line # rest) =
    regress_log_trim_loop False (if trimmed ?ls' = ?ls' then 0 else length (unlines (trimmed ?ls')))
      (unlines ?ls') rest"
    using pos tr neq by (auto simp: Let_def)
  then show ?case using Cons.IH [of ?ls'] Cons.prems by simp
qed


lemma trimmed_prefix: "ls = trimmed ls @ rev (takeWhile isxtrace (rev ls))"
  unfolding trimmed_def by (metis rev_append rev_rev_ident takeWhile_dropWhile_id)

lemma regress_log_trim_eq:
  "regress_log_trim (Some content) out =
   (1, unlines (trimmed (dropWhile isxtrace (log_lines content))))"
proof -
  have lead: "regress_log_trim_loop True 0 [] ls = regress_log_trim_loop True 0 [] (dropWhile isxtrace ls)"
    for ls by (induction ls) simp_all
  let ?ls = "dropWhile isxtrace (log_lines content)"
  show ?thesis
  proof (cases ?ls)
    case Nil
    have "regress_log_trim_loop True 0 [] (log_lines content) = (0, [])"
      unfolding lead [of "log_lines content"] Nil by simp
    then show ?thesis unfolding Nil by (simp add: regress_log_trim_def trimmed_def)
  next
    case (Cons l rest)
    then have l: "\<not> isxtrace l" using hd_dropWhile [of isxtrace "log_lines content"] by simp
    then have t: "trimmed [l] = [l]" by (simp add: trimmed_def)
    from l have "regress_log_trim_loop True 0 [] ?ls = regress_log_trim_loop False 0 (unlines [l]) rest"
      by (simp add: Cons Let_def)
    also have "\<dots> = (if trimmed ?ls = ?ls then 0 else length (unlines (trimmed ?ls)), unlines ?ls)"
      using regress_log_trim_loop_state [of "[l]" rest] l t Cons by (simp add: Let_def)
    finally have loop: "regress_log_trim_loop True 0 [] (log_lines content) =
        (if trimmed ?ls = ?ls then 0 else length (unlines (trimmed ?ls)), unlines ?ls)"
      using lead by simp
    have "unlines ?ls = unlines (trimmed ?ls) @ unlines (rev (takeWhile isxtrace (rev ?ls)))"
      by (subst trimmed_prefix) simp
    then have "take (length (unlines (trimmed ?ls))) (unlines ?ls) = unlines (trimmed ?ls)" by simp
    moreover have "l \<in> set (rev ?ls)" using Cons by simp
    then have "trimmed ?ls \<noteq> []" using l by (auto simp: trimmed_def)
    ultimately show ?thesis by (auto simp: regress_log_trim_def loop)
  qed
qed

section \<open>The program\<close>

definition file_blocks :: "regress_log_flag set \<Rightarrow> string \<Rightarrow> string list" where
  "file_blocks flags content = report_blocks flags [] (dropWhile isxtrace (log_lines content))"

lemma joined_append:
  "joined True (xs @ ys) = (if xs = [] then joined True ys else joined True xs @ joined False ys)"
  by (cases xs) (simp_all add: joined_def [of True] joined_not_first)

lemma joined_NL: "ys \<noteq> [] \<Longrightarrow> NL # joined True ys = joined False ys"
  by (cases ys) (simp_all add: joined_def)

lemma regress_log_files_blocks:
  assumes "REGRESS_LOG_PEEK \<notin> flags" "REGRESS_LOG_NEWLINE \<notin> flags"
    "list_all2 (\<lambda>path content. fs path = Some content) paths contents" "n = 0 \<longleftrightarrow> bs = []"
  shows "\<exists>n'. regress_log_files fs flags (joined True bs) n False paths =
      (False, n', joined True (bs @ concat (map (file_blocks flags) contents))) \<and>
    (n' = 0 \<longleftrightarrow> bs @ concat (map (file_blocks flags) contents) = [])"
  using assms(3,4)
proof (induction paths contents arbitrary: n bs rule: list_all2_induct)
  case Nil
  then show ?case by auto
next
  case (Cons path paths content contents)
  let ?new = "file_blocks flags content"
  let ?bf1 = "if n > 0 then joined True bs @ [NL] else joined True bs"
  have p: "regress_log_parse (fs path) ?bf1 flags = (int (length ?new), ?bf1 @ joined True ?new)"
    using regress_log_parse_blocks [OF assms(1), of content ?bf1] assms(2) Cons.hyps(1)
    by (simp add: Let_def file_blocks_def)
  show ?case
  proof (cases "?new = []")
    case True
    then have "regress_log_files fs flags (joined True bs) n False (path # paths) =
        regress_log_files fs flags (joined True bs) n False paths"
      using p Cons.prems by (auto simp: Let_def joined_def [of True "[]"])
    then show ?thesis using Cons.IH [OF Cons.prems] True by simp
  next
    case False
    then have "?bf1 @ joined True ?new = joined True (bs @ ?new)"
      using Cons.prems joined_NL [OF False] by (auto simp: joined_append)
        (simp add: joined_def)
    with p False have "regress_log_files fs flags (joined True bs) n False (path # paths) =
        regress_log_files fs flags (joined True (bs @ ?new)) (n + 1) False paths"
      by (simp add: Let_def)
    then show ?thesis using Cons.IH [of "n + 1" "bs @ ?new"] False by simp
  qed
qed

section \<open>Properties\<close>



text \<open> Trimming a log removes the shell traces before its first other line and after its last
  other line, and nothing else.\<close>

lemma regress_log_trim_removes_traces:
  "regress_log_trim (Some content) out =
     (1, unlines (rev (dropWhile isxtrace (rev (dropWhile isxtrace (log_lines content))))))"
  using regress_log_trim_eq [of content out] by (simp add: trimmed_def)

text \<open> For readable logs, robsd-regress-log exits with 0 and prints the blocks of all logs,
  separated by empty lines, if there is any, and exits with 1 otherwise.\<close>

lemma regress_log_main_reports:
  assumes "regress_log_options opts {} True = Some (flags, True)" and "flags \<noteq> {}"
    and "REGRESS_LOG_PEEK \<notin> flags" and "REGRESS_LOG_NEWLINE \<notin> flags"
    and "argv \<noteq> []" and "list_all2 (\<lambda>path content. fs path = Some content) argv contents"
  shows "regress_log_main fs opts argv =
    (let bs = concat (map (file_blocks flags) contents) in
     Some (if bs = [] then (1, []) else (0, cstr (joined True bs @ [NUL]))))"
proof -
  obtain n where n: "regress_log_files fs flags [] 0 False argv =
      (False, n, joined True (concat (map (file_blocks flags) contents)))"
    "n = 0 \<longleftrightarrow> concat (map (file_blocks flags) contents) = []"
    using regress_log_files_blocks [OF assms(3,4,6), of 0 "[]"] by (auto simp: joined_def [of True "[]"])
  then show ?thesis
    using assms(1,2,5) by (cases "n = 0") (auto simp: regress_log_main_def Let_def)
qed

theorem regress_log_main_reports_witness:
  "regress_log_main (\<lambda>_. Some []) ''F'' [''a.log''] = Some (1, [])"
proof -
  have "regress_log_main (\<lambda>_. Some []) ''F'' [''a.log''] =
    (let bs = concat (map (file_blocks {REGRESS_LOG_FAILED}) [[]]) in
     Some (if bs = [] then (1, []) else (0, cstr (joined True bs @ [NUL]))))"
    by (rule regress_log_main_reports) simp_all
  then show ?thesis by (simp add: file_blocks_def log_lines_def buffer_lines_eq)
qed

end
