(* ===== verification/RobsdStep.thy ===== *)
theory RobsdStep
  imports Step ConfSteps Getopt
begin

text \<open>
  \<open>robsd-step.c\<close>: reading and writing the step file and listing the steps of a configuration from
  the command line.
\<close>

section \<open>Actions\<close>

datatype step_action = ACTION_INVALID | ACTION_READ | ACTION_WRITE | ACTION_LIST

datatype step_action_error = ACTION_ERROR_NONE | ACTION_ERROR_FATAL | ACTION_ERROR_USAGE

definition parse_id :: "string \<Rightarrow> int option" where
  "parse_id str =
     (case strtonum str (- INT_MAX) INT_MAX of
        (v, None) \<Rightarrow> Some v
      | (_, Some _) \<Rightarrow> None)"

text \<open>The loop over the options of \<open>steps_read\<close>: the identifier and the name.\<close>

fun steps_read_opt :: "char \<Rightarrow> string \<Rightarrow> int \<times> string option \<Rightarrow> step_action_error + (int \<times> string option)" where
  "steps_read_opt c optarg (i, name) =
     (if c = CHR ''i'' then
        (case parse_id optarg of None \<Rightarrow> Inl ACTION_ERROR_FATAL | Some i' \<Rightarrow> Inr (i', name))
      else if c = CHR ''n'' then Inr (i, Some optarg)
      else Inl ACTION_ERROR_USAGE)"

text \<open>The step that is asked for, by its index.\<close>

definition steps_select :: "step list \<Rightarrow> int \<Rightarrow> string option \<Rightarrow> nat option" where
  "steps_select steps i name =
     (case name of
        Some n \<Rightarrow> steps_find_by_name steps n
      | None \<Rightarrow>
          if 0 < i \<and> nat (i - 1) < length steps then Some (nat (i - 1))
          else if i < 0 \<and> nat (- i) \<le> length steps then Some (nat (int (length steps) + i))
          else None)"

text \<open>The error and what is printed.\<close>

definition steps_read :: "step_file \<Rightarrow> string option \<Rightarrow> string list \<Rightarrow> step_action_error \<times> string" where
  "steps_read sf stdin argv =
     (case getopt_loop steps_read_opt (Some ACTION_ERROR_USAGE) ''i:n:'' argv getopt_reset (0, None) of
        (Inl e, _) \<Rightarrow> (e, [])
      | (Inr (i, name), go) \<Rightarrow>
          if remaining argv go \<noteq> [] then (ACTION_ERROR_USAGE, [])
          else if name \<noteq> None \<and> i \<noteq> 0 then (ACTION_ERROR_FATAL, [])
          else
            (case steps_select (sf_steps sf) i name of
               None \<Rightarrow> (ACTION_ERROR_FATAL, [])
             | Some k \<Rightarrow>
                 (case interpolate_file (pure_lookup (step_interpolate_lookup (sf_steps sf ! k))) False 0 () stdin of
                    (None, _) \<Rightarrow> (ACTION_ERROR_FATAL, [])
                  | (Some str, _) \<Rightarrow> (ACTION_ERROR_NONE, str))))"

fun action_write_opt :: "char \<Rightarrow> string \<Rightarrow> int \<times> bool \<Rightarrow> step_action_error + (int \<times> bool)" where
  "action_write_opt c optarg (i, doheader) =
     (if c = CHR ''H'' then Inr (i, True)
      else if c = CHR ''i'' then
        (case parse_id optarg of None \<Rightarrow> Inl ACTION_ERROR_FATAL | Some i' \<Rightarrow> Inr (i', doheader))
      else Inl ACTION_ERROR_USAGE)"

definition steps_alloc :: "step list \<Rightarrow> step list" where
  "steps_alloc steps = steps @ [replicate (length Step.fields) UNKNOWN]"

fun set_keyvals :: "step \<Rightarrow> string list \<Rightarrow> bool \<times> step" where
  "set_keyvals st [] = (False, st)"
| "set_keyvals st (kv # kvs) =
     (case step_set_keyval st kv of
        (True, st') \<Rightarrow> (True, st')
      | (False, st') \<Rightarrow> set_keyvals st' kvs)"

text \<open>The steps with the one that is written, and its index; \<open>None\<close> when it cannot be set up.\<close>

definition step_to_write :: "step list \<Rightarrow> int \<Rightarrow> (nat \<times> step list) option" where
  "step_to_write steps i =
     (case steps_find_by_id steps i of
        Some k \<Rightarrow> Some (k, steps)
      | None \<Rightarrow>
          (let steps1 = steps_alloc steps; k = length steps in
           case step_init of
             (True, _) \<Rightarrow> None
           | (False, st) \<Rightarrow>
               (case step_set_field_integer st ''step'' i of
                  (True, _) \<Rightarrow> None
                | (False, st1) \<Rightarrow> Some (k, steps1[k := st1]))))"

text \<open>The error, what is printed and what the file holds when it was written.\<close>

definition action_write ::
  "write_outcome \<Rightarrow> step_file \<Rightarrow> string list \<Rightarrow> step_action_error \<times> string \<times> string option" where
  "action_write wr sf argv =
     (case getopt_loop action_write_opt (Some ACTION_ERROR_USAGE) ''Hi:'' argv getopt_reset (0, False) of
        (Inl e, _) \<Rightarrow> (e, [], None)
      | (Inr (i, doheader), go) \<Rightarrow>
          (let args = remaining argv go in
           if \<not> doheader \<and> (args = [] \<or> i = 0) then (ACTION_ERROR_USAGE, [], None)
           else if doheader then (ACTION_ERROR_NONE, steps_header, None)
           else
             (case step_to_write (sf_steps sf) i of
                None \<Rightarrow> (ACTION_ERROR_FATAL, [], None)
              | Some (k, steps) \<Rightarrow>
                  (case set_keyvals (steps ! k) args of
                     (True, _) \<Rightarrow> (ACTION_ERROR_FATAL, [], None)
                   | (False, st) \<Rightarrow>
                       (case steps_write wr (sf\<lparr>sf_steps := steps[k := st]\<rparr>) of
                          (e, written, _) \<Rightarrow>
                            (if e then ACTION_ERROR_FATAL else ACTION_ERROR_NONE, [], written))))))"

text \<open>The path and the mode of the configuration and the offset.\<close>

type_synonym list_options = "string option \<times> string option \<times> nat"

fun steps_list_opt :: "char \<Rightarrow> string \<Rightarrow> list_options \<Rightarrow> step_action_error + list_options" where
  "steps_list_opt c optarg (path, mode, offset) =
     (if c = CHR ''C'' then Inr (Some optarg, mode, offset)
      else if c = CHR ''m'' then Inr (path, Some optarg, offset)
      else if c = CHR ''o'' then
        (case strtonum optarg 1 INT_MAX of
           (num, _) \<Rightarrow> if num = 0 then Inl ACTION_ERROR_FATAL else Inr (path, mode, nat num))
      else Inl ACTION_ERROR_USAGE)"

definition list_line :: "nat \<Rightarrow> exec_step \<Rightarrow> string" where
  "list_line i st =
     show_nat (i + 1) @ CHR '' '' # es_name st @ (if es_parallel st then '' parallel'' else []) @ [NL]"

text \<open>\<open>None\<close> when parsing the configuration does not return.\<close>

definition steps_list :: "os \<Rightarrow> string list \<Rightarrow> (step_action_error \<times> string) option" where
  "steps_list os argv =
     (case getopt_loop steps_list_opt (Some ACTION_ERROR_USAGE) ''C:m:o:'' argv getopt_reset (None, None, 1) of
        (Inl e, _) \<Rightarrow> Some (e, [])
      | (Inr (path, mode, offset), go) \<Rightarrow>
          (case mode of
             None \<Rightarrow> Some (ACTION_ERROR_USAGE, [])
           | Some m \<Rightarrow>
               if remaining argv go \<noteq> [] then Some (ACTION_ERROR_USAGE, [])
               else
                 (case config_alloc os m path of
                    None \<Rightarrow> Some (ACTION_ERROR_FATAL, [])
                  | Some cf \<Rightarrow>
                      Option.bind (config_parse os cf) (\<lambda>(e, cf1).
                        if e then Some (ACTION_ERROR_FATAL, [])
                        else
                          (case config_get_steps os cf1 False of
                             (None, _) \<Rightarrow> Some (ACTION_ERROR_FATAL, [])
                           | (Some steps, _) \<Rightarrow>
                               if length steps \<le> offset - 1 then Some (ACTION_ERROR_FATAL, [])
                               else
                                 Some (ACTION_ERROR_NONE,
                                   concat (map (\<lambda>i. list_line i (steps ! i)) [offset - 1..<length steps])))))))"

section \<open>The program\<close>

fun main_opt :: "char \<Rightarrow> string \<Rightarrow> step_action \<times> string option \<Rightarrow> unit + (step_action \<times> string option)" where
  "main_opt c optarg (action, path) =
     (if c = CHR ''L'' then Inr (ACTION_LIST, path)
      else if c = CHR ''R'' then Inr (ACTION_READ, path)
      else if c = CHR ''W'' then Inr (ACTION_WRITE, path)
      else if c = CHR ''f'' then Inr (action, Some optarg)
      else Inr (action, path))"

text \<open>The exit status, what is printed, and what the step file holds when it was written. The usage
  message ends the program with 1.\<close>

type_synonym outcome = "nat \<times> string \<times> string option"

definition usage :: outcome where
  "usage = (1, [], None)"

fun exit_status :: "step_action_error \<Rightarrow> nat" where
  "exit_status ACTION_ERROR_NONE = 0"
| "exit_status ACTION_ERROR_FATAL = 1"
| "exit_status ACTION_ERROR_USAGE = 1"

definition robsd_step_main ::
  "os \<Rightarrow> bool \<Rightarrow> write_outcome \<Rightarrow> string option \<Rightarrow> string list \<Rightarrow> outcome option" where
  "robsd_step_main os locked wr stdin argv0 =
     (case getopt_loop main_opt None ''LRWf:'' argv0 getopt_start (ACTION_INVALID, None) of
        (Inl _, _) \<Rightarrow> Some usage
      | (Inr (action, path), go) \<Rightarrow>
          (let argv = (if 2 \<le> go_ind go then drop (go_ind go - 2) argv0 else argv0) in
           case action of
             ACTION_INVALID \<Rightarrow> Some usage
           | ACTION_READ \<Rightarrow>
               (case path of
                  None \<Rightarrow> Some usage
                | Some p \<Rightarrow>
                    Option.bind (steps_parse locked (os_read os p)) (\<lambda>sf.
                      case sf of
                        None \<Rightarrow> Some (1, [], None)
                      | Some sf \<Rightarrow>
                          (case steps_read sf stdin argv of (e, out) \<Rightarrow> Some (exit_status e, out, None))))
           | ACTION_WRITE \<Rightarrow>
               (case path of
                  None \<Rightarrow> Some usage
                | Some p \<Rightarrow>
                    Option.bind (steps_parse locked (os_read os p)) (\<lambda>sf.
                      case sf of
                        None \<Rightarrow> Some (1, [], None)
                      | Some sf \<Rightarrow>
                          (case action_write wr sf argv of (e, out, written) \<Rightarrow>
                             Some (exit_status e, out, written))))
           | ACTION_LIST \<Rightarrow>
               Option.bind (steps_list os argv) (\<lambda>(e, out). Some (exit_status e, out, None))))"


section \<open>Arguments\<close>

lemma main_args:
  assumes "\<forall>o' \<in> set os. opt_ok ''LRWf:'' o'" "handle_opts main_opt os (ACTION_INVALID, None) = Inr acc"
    and "strchr ''LRWf:'' c = None" "c \<noteq> CHR ''-''"
  shows "\<exists>st x. getopt_loop main_opt None ''LRWf:'' (prog # concat (map opt_words os) @ [CHR ''-'', c] # rest)
      getopt_start (ACTION_INVALID, None) = (Inr acc, st) \<and> 2 \<le> go_ind st \<and>
    drop (go_ind st - 2) (prog # concat (map opt_words os) @ [CHR ''-'', c] # rest) = x # [CHR ''-'', c] # rest"
proof -
  let ?words = "concat (map opt_words os)"
  let ?argv = "prog # ?words @ [CHR ''-'', c] # rest"
  obtain st j where st: "at_word st j" "drop j ?argv = [CHR ''-'', c] # rest" "j = 1 + length ?words"
    "getopt_loop main_opt None ''LRWf:'' ?argv getopt_start (ACTION_INVALID, None) =
     getopt_loop main_opt None ''LRWf:'' ?argv st acc"
    using getopt_loop_opts [where handle = main_opt and bad = None and st = getopt_start and i = 1
        and argv = ?argv and rest = "[CHR ''-'', c] # rest", OF assms(1) _ at_word_start(1) assms(2)]
    by auto
  have "getopt ?argv ''LRWf:'' st = (GBad, \<lparr>go_ind = Suc j, go_place = []\<rparr>)"
    by (rule getopt_unknown [OF st(1,2) assms(4,3)])
  then have "getopt_loop main_opt None ''LRWf:'' ?argv st acc = (Inr acc, \<lparr>go_ind = Suc j, go_place = []\<rparr>)"
    by (simp add: getopt_loop.simps)
  moreover have "drop (j - 1) ?argv = last (prog # ?words) # [CHR ''-'', c] # rest"
  proof -
    have "?argv = butlast (prog # ?words) @ last (prog # ?words) # [CHR ''-'', c] # rest"
      using append_butlast_last_id [of "prog # ?words"] by (metis append_Cons append_assoc append_Nil list.distinct(1))
    moreover have "length (butlast (prog # ?words)) = j - 1" using st(3) by simp
    ultimately show ?thesis by (metis append_eq_conv_conj)
  qed
  ultimately show ?thesis using st(3,4) by simp
qed

lemma parse_id_show: "- INT_MAX \<le> i \<Longrightarrow> i \<le> INT_MAX \<Longrightarrow> parse_id (show_int i) = Some i"
  using strtonum_show_int [of "- INT_MAX" i INT_MAX] by (simp add: parse_id_def)

lemma action_args:
  assumes "\<forall>o' \<in> set os. opt_ok options o'" "handle_opts handle os acc = Inr acc'"
    and "rest = [] \<and> tail = [] \<or> tail = ''--'' # rest"
  shows "\<exists>st. getopt_loop handle bad options (x # concat (map opt_words os) @ tail) getopt_reset acc =
    (Inr acc', st) \<and> remaining (x # concat (map opt_words os) @ tail) st = rest"
proof -
  let ?argv = "x # concat (map opt_words os) @ tail"
  obtain st j where st: "at_word st j" "drop j ?argv = tail"
    "getopt_loop handle bad options ?argv getopt_reset acc = getopt_loop handle bad options ?argv st acc'"
    using getopt_loop_opts [where handle = handle and bad = bad and st = getopt_reset and i = 1
        and argv = ?argv and rest = tail, OF assms(1) _ at_word_start(2) assms(2)] by auto
  from assms(3) show ?thesis
  proof
    assume "rest = [] \<and> tail = []"
    with getopt_end [OF st(1,2), of handle bad options acc'] st(3) show ?thesis by auto
  next
    assume "tail = ''--'' # rest"
    with getopt_dashes [OF st(1), of ?argv rest handle bad options acc'] st(2,3) show ?thesis by auto
  qed
qed


section \<open>Writing a step\<close>

text \<open>What \<open>-W\<close> means: the step with the identifier is replaced, or a new one is added.\<close>

definition write_base :: "step list \<Rightarrow> int \<Rightarrow> step" where
  "write_base steps i =
     (case steps_find_by_id steps i of Some k \<Rightarrow> steps ! k | None \<Rightarrow> initial_step[0 := step_field.INTEGER i])"

definition upserted :: "step list \<Rightarrow> int \<Rightarrow> step \<Rightarrow> step list" where
  "upserted steps i st =
     (case steps_find_by_id steps i of Some k \<Rightarrow> steps[k := st] | None \<Rightarrow> steps @ [st])"

lemma step_set_step: "step_set_field_integer st ''step'' i = (False, st[0 := step_field.INTEGER i])"
proof -
  have "fd_name (Step.fields ! 0) = ''step''" by (simp add: Step.fields_def)
  with find_field [of 0] show ?thesis by (simp add: step_set_field_integer_def)
qed

lemma step_to_write_eq:
  "\<exists>k steps'. step_to_write steps i = Some (k, steps') \<and> steps' ! k = write_base steps i \<and>
     (\<forall>st. steps'[k := st] = upserted steps i st)"
proof (cases "steps_find_by_id steps i")
  case None
  then show ?thesis
    by (simp add: step_to_write_def step_init_eq step_set_step steps_alloc_def write_base_def upserted_def
      Let_def list_update_append nth_append)
next
  case (Some k)
  then show ?thesis by (simp add: step_to_write_def write_base_def upserted_def)
qed

lemma action_write_upserts:
  assumes "- INT_MAX \<le> i" "i \<le> INT_MAX" "i \<noteq> 0" "kvs \<noteq> []"
    and "set_keyvals (write_base (sf_steps sf) i) kvs = (False, st)"
    and "\<forall>st \<in> set (upserted (sf_steps sf) i st). step_ok st"
  shows "\<exists>out sts. (\<forall>x. action_write WriteSucceeds sf (x # [''-i'', show_int i, ''--''] @ kvs) =
      (ACTION_ERROR_NONE, [], Some out)) \<and>
    steps_parse True (Some out) = Some (Some \<lparr>sf_columns = map fd_name Step.fields, sf_steps = sts\<rparr>) \<and>
    mset sts = mset (upserted (sf_steps sf) i st) \<and> sorted_wrt (\<lambda>a b. step_cmp a b \<le> 0) sts"
proof -
  have "opt_ok ''Hi:'' (Arg (CHR ''i'') (show_int i))" by (simp add: takes_argument_def strchr_Cons)
  then have go: "\<exists>go. getopt_loop action_write_opt (Some ACTION_ERROR_USAGE) ''Hi:''
      (x # [''-i'', show_int i, ''--''] @ kvs) getopt_reset (0, False) = (Inr (i, False), go) \<and>
    remaining (x # [''-i'', show_int i, ''--''] @ kvs) go = kvs" for x
    using action_args [where os = "[Arg (CHR ''i'') (show_int i)]" and options = "''Hi:''" and
        handle = action_write_opt and acc = "(0, False)" and acc' = "(i, False)" and rest = kvs and tail = "''--'' # kvs"]
      parse_id_show [OF assms(1,2)] by auto
  obtain k steps' where k: "step_to_write (sf_steps sf) i = Some (k, steps')"
    "steps' ! k = write_base (sf_steps sf) i" "steps'[k := st] = upserted (sf_steps sf) i st"
    using step_to_write_eq [of "sf_steps sf" i] by auto
  obtain out sts where w: "steps_write WriteSucceeds (sf\<lparr>sf_steps := upserted (sf_steps sf) i st\<rparr>) =
      (False, Some out, sf\<lparr>sf_steps := sts\<rparr>)"
    "steps_parse True (Some out) = Some (Some \<lparr>sf_columns = map fd_name Step.fields, sf_steps = sts\<rparr>)"
    "mset sts = mset (upserted (sf_steps sf) i st)" "sorted_wrt (\<lambda>a b. step_cmp a b \<le> 0) sts"
    using steps_write_parses [of "sf\<lparr>sf_steps := upserted (sf_steps sf) i st\<rparr>"] assms(6) by auto
  have "action_write WriteSucceeds sf (x # [''-i'', show_int i, ''--''] @ kvs) = (ACTION_ERROR_NONE, [], Some out)" for x
  proof -
    obtain st where "getopt_loop action_write_opt (Some ACTION_ERROR_USAGE) ''Hi:''
        (x # [''-i'', show_int i, ''--''] @ kvs) getopt_reset (0, False) = (Inr (i, False), st)"
      "remaining (x # [''-i'', show_int i, ''--''] @ kvs) st = kvs"
      using go by blast
    with k w(1) assms(3-5) show ?thesis by (simp add: action_write_def Let_def)
  qed
  with w(2-4) show ?thesis by blast
qed

section \<open>Reading a field\<close>

lemma interpolate_field:
  assumes "lk name = Some w" "variable_name name" "NL \<notin> set name" "NUL \<notin> set name" "dollar \<notin> set w"
  shows "interpolate_file (pure_lookup lk) False n s (Some (ref name @ [NL])) = (Some (w @ [NL]), s)"
proof -
  have "expands lk False 3 ([] @ ref name @ []) ([] @ w @ [])"
    unfolding numeral_3_eq_3
    by (rule expands.known) (use assms in \<open>auto intro: expands.plain\<close>)
  then have "interpolate (pure_lookup lk) False 0 s [] (ref name) = (None, s, w)"
    using interpolate_iff [of lk False s "[]" "ref name" s w] by simp
  moreover have "buffer_lines (ref name @ [NL]) = [ref name]"
    unfolding buffer_lines_eq using split_lines_append [of "ref name" "[]"] assms(3) by simp
  moreover have "cstr (ref name) = ref name" using assms(4) by (intro cstr_id) simp
  ultimately show ?thesis by (simp add: interpolate_file_def)
qed

lemma field_names:
  "f < 9 \<Longrightarrow> variable_name (fd_name (Step.fields ! f)) \<and> NL \<notin> set (fd_name (Step.fields ! f)) \<and>
     NUL \<notin> set (fd_name (Step.fields ! f))"
  using upt_9 [of f] by (auto simp: Step.fields_def variable_name_def)

lemma step_lookup_field:
  "f < 9 \<Longrightarrow> st ! f \<noteq> UNKNOWN \<Longrightarrow>
   step_interpolate_lookup st (fd_name (Step.fields ! f)) = Some (field_text (st ! f))"
  using find_field [of f] by (cases "st ! f") (simp_all add: step_interpolate_lookup_def)

lemma steps_read_field:
  assumes "steps_select (sf_steps sf) i name = Some k" "i \<noteq> 0 \<longleftrightarrow> name = None"
    and "- INT_MAX \<le> i" "i \<le> INT_MAX"
    and "f < 9" "sf_steps sf ! k ! f \<noteq> UNKNOWN" "dollar \<notin> set (field_text (sf_steps sf ! k ! f))"
  shows "steps_read sf (Some (ref (fd_name (Step.fields ! f)) @ [NL]))
      (x # (case name of None \<Rightarrow> [''-i'', show_int i] | Some n \<Rightarrow> [''-n'', n])) =
    (ACTION_ERROR_NONE, field_text (sf_steps sf ! k ! f) @ [NL])"
proof -
  let ?o = "case name of None \<Rightarrow> Arg (CHR ''i'') (show_int i) | Some n \<Rightarrow> Arg (CHR ''n'') n"
  let ?argv = "x # (case name of None \<Rightarrow> [''-i'', show_int i] | Some n \<Rightarrow> [''-n'', n])"
  have argv: "?argv = x # concat (map opt_words [?o]) @ []" by (cases name) simp_all
  have ok: "\<forall>o' \<in> set [?o]. opt_ok ''i:n:'' o'"
    by (cases name) (simp_all add: takes_argument_def strchr_Cons)
  have handle: "handle_opts steps_read_opt [?o] (0, None) = Inr (i, name)"
    using parse_id_show [OF assms(3,4)] assms(2) by (cases name) simp_all
  have fin: "[] = [] \<and> [] = ([] :: string list) \<or> [] = ''--'' # ([] :: string list)" by simp
  obtain go where go: "getopt_loop steps_read_opt (Some ACTION_ERROR_USAGE) ''i:n:'' ?argv getopt_reset (0, None) =
      (Inr (i, name), go)" "remaining ?argv go = []"
    using action_args [OF ok handle fin, of "Some ACTION_ERROR_USAGE" x] unfolding argv by blast
  have "interpolate_file (pure_lookup (step_interpolate_lookup (sf_steps sf ! k))) False 0 ()
      (Some (ref (fd_name (Step.fields ! f)) @ [NL])) = (Some (field_text (sf_steps sf ! k ! f) @ [NL]), ())"
    by (rule interpolate_field) (use field_names [OF assms(5)] assms(7) step_lookup_field [OF assms(5,6)] in auto)
  with go assms(1,2) show ?thesis by (auto simp: steps_read_def)
qed


section \<open>The whole program\<close>

lemma main_write:
  assumes "os_read os p = Some old" "steps_parse True (Some old) = Some (Some sf)"
    and "\<And>x. action_write wr sf (x # ''-i'' # rest) = (e, out, written)"
  shows "robsd_step_main os True wr stdin ([prog, ''-W'', ''-f'', p, ''-i''] @ rest) =
    Some (exit_status e, out, written)"
proof -
  let ?os = "[Flag (CHR ''W''), Arg (CHR ''f'') p]"
  have "\<forall>o' \<in> set ?os. opt_ok ''LRWf:'' o'" by (simp add: takes_argument_def strchr_Cons)
  moreover have "handle_opts main_opt ?os (ACTION_INVALID, None) = Inr (ACTION_WRITE, Some p)" by simp
  moreover have "strchr ''LRWf:'' (CHR ''i'') = None" "CHR ''i'' \<noteq> CHR ''-''"
    by (simp_all add: strchr_Cons strchr_Nil)
  moreover have words: "prog # concat (map opt_words ?os) @ ''-i'' # rest = [prog, ''-W'', ''-f'', p, ''-i''] @ rest"
    by simp
  ultimately obtain st x where "getopt_loop main_opt None ''LRWf:'' ([prog, ''-W'', ''-f'', p, ''-i''] @ rest)
      getopt_start (ACTION_INVALID, None) = (Inr (ACTION_WRITE, Some p), st)" "2 \<le> go_ind st"
    "drop (go_ind st - 2) ([prog, ''-W'', ''-f'', p, ''-i''] @ rest) = x # ''-i'' # rest"
    using main_args [of ?os "(ACTION_WRITE, Some p)" "CHR ''i''" prog rest] unfolding words by blast
  with assms show ?thesis by (simp add: robsd_step_main_def Let_def)
qed

lemma main_read:
  assumes "os_read os p = Some old" "steps_parse True (Some old) = Some (Some sf)"
    and "\<And>x. steps_read sf stdin (x # [CHR ''-'', c] # rest) = (e, out)" "c = CHR ''i'' \<or> c = CHR ''n''"
  shows "robsd_step_main os True wr stdin ([prog, ''-R'', ''-f'', p, [CHR ''-'', c]] @ rest) =
    Some (exit_status e, out, None)"
proof -
  let ?os = "[Flag (CHR ''R''), Arg (CHR ''f'') p]"
  have "\<forall>o' \<in> set ?os. opt_ok ''LRWf:'' o'" by (simp add: takes_argument_def strchr_Cons)
  moreover have "handle_opts main_opt ?os (ACTION_INVALID, None) = Inr (ACTION_READ, Some p)" by simp
  moreover have "strchr ''LRWf:'' c = None" "c \<noteq> CHR ''-''"
    using assms(4) by (auto simp: strchr_Cons strchr_Nil)
  moreover have words: "prog # concat (map opt_words ?os) @ [CHR ''-'', c] # rest =
      [prog, ''-R'', ''-f'', p, [CHR ''-'', c]] @ rest" by simp
  ultimately obtain st x where "getopt_loop main_opt None ''LRWf:'' ([prog, ''-R'', ''-f'', p, [CHR ''-'', c]] @ rest)
      getopt_start (ACTION_INVALID, None) = (Inr (ACTION_READ, Some p), st)" "2 \<le> go_ind st"
    "drop (go_ind st - 2) ([prog, ''-R'', ''-f'', p, [CHR ''-'', c]] @ rest) = x # [CHR ''-'', c] # rest"
    using main_args [of ?os "(ACTION_READ, Some p)" c prog rest] unfolding words by blast
  with assms(1-3) show ?thesis by (simp add: robsd_step_main_def Let_def)
qed

lemma steps_find_unique:
  assumes "st \<in> set steps" "st ! 1 = step_field.STRING n" "\<forall>s \<in> set steps. s ! 1 = step_field.STRING n \<longrightarrow> s = st"
  shows "\<exists>k < length steps. steps_find_by_name steps n = Some k \<and> steps ! k = st"
proof -
  have fd: "field_definition_find_by_name ''name'' = Some (Step.fields ! 1)" "fd_index (Step.fields ! 1) = 1"
    using find_field [of 1] by (simp_all add: Step.fields_def)
  let ?P = "\<lambda>i. \<not> step_field_is_empty (steps ! i ! 1) \<and> sf_str (steps ! i ! 1) = Some n"
  have P: "?P i \<longleftrightarrow> steps ! i ! 1 = step_field.STRING n" for i by (cases "steps ! i ! 1") auto
  obtain i where "i < length steps" "steps ! i = st" using assms(1) by (auto simp: in_set_conv_nth)
  with assms(2) obtain k where "find ?P [0..<length steps] = Some k"
    using P [of i] by (cases "find ?P [0..<length steps]") (auto simp: find_None_iff)
  moreover from this have "k < length steps" "steps ! k ! 1 = step_field.STRING n" using P [of k] by (simp_all add: find_upt)
  ultimately show ?thesis using assms(3) fd by (auto simp: steps_find_by_name_def)
qed

text \<open>What writing a step leaves in the step file.\<close>

lemma robsd_step_writes:
  assumes "os_read os p = Some old" "steps_parse True (Some old) = Some (Some sf)"
    and "- INT_MAX \<le> i" "i \<le> INT_MAX" "i \<noteq> 0" "kvs \<noteq> []"
    and "set_keyvals (write_base (sf_steps sf) i) kvs = (False, st)"
    and "\<forall>s \<in> set (upserted (sf_steps sf) i st). step_ok s"
  obtains out sts where
    "\<And>stdin prog. robsd_step_main os True WriteSucceeds stdin ([prog, ''-W'', ''-f'', p, ''-i'', show_int i, ''--''] @ kvs) =
      Some (0, [], Some out)"
    "steps_parse True (Some out) = Some (Some \<lparr>sf_columns = map fd_name Step.fields, sf_steps = sts\<rparr>)"
    "mset sts = mset (upserted (sf_steps sf) i st)" "sorted_wrt (\<lambda>a b. step_cmp a b \<le> 0) sts" "st \<in> set sts"
proof -
  obtain out sts where w: "\<forall>x. action_write WriteSucceeds sf (x # [''-i'', show_int i, ''--''] @ kvs) =
      (ACTION_ERROR_NONE, [], Some out)"
    "steps_parse True (Some out) = Some (Some \<lparr>sf_columns = map fd_name Step.fields, sf_steps = sts\<rparr>)"
    "mset sts = mset (upserted (sf_steps sf) i st)" "sorted_wrt (\<lambda>a b. step_cmp a b \<le> 0) sts"
    using action_write_upserts [OF assms(3-8)] by blast
  have "st \<in> set (upserted (sf_steps sf) i st)"
    by (auto simp: upserted_def steps_find_by_id_def find_upt set_update_memI split: option.splits)
  then have "st \<in> set sts" using w(3) mset_eq_setD by blast
  moreover have "robsd_step_main os True WriteSucceeds stdin ([prog, ''-W'', ''-f'', p, ''-i'', show_int i, ''--''] @ kvs) =
      Some (0, [], Some out)" for stdin prog
    using main_write [OF assms(1,2), of WriteSucceeds "[show_int i, ''--''] @ kvs" ACTION_ERROR_NONE "[]" "Some out" stdin prog]
      w(1) by auto
  ultimately show thesis using that w(2-4) by blast
qed

section \<open>Properties\<close>


definition sample_step :: step where
  "sample_step = [step_field.INTEGER 7, step_field.STRING ''env'', step_field.INTEGER 0, step_field.INTEGER 5,
     step_field.INTEGER 0, step_field.STRING [], step_field.STRING ''root'', step_field.INTEGER 10,
     step_field.INTEGER 0]"

definition step_os :: "step list \<Rightarrow> os" where
  "step_os steps = sample_os\<lparr>os_read := (\<lambda>p. if p = ''steps'' then Some (steps_text steps) else None)\<rparr>"

lemma sample_step_ok: "step_ok sample_step"
  by (simp add: sample_step_def step_ok_def Step.fields_def field_ok_def clean_def)

lemma sample_keyvals:
  "set_keyvals (write_base [] 7) [''name=env'', ''exit=0'', ''duration=5'', ''user=root'', ''time=10''] =
   (False, sample_step)"
  by code_simp


text \<open> Without a name, \<open>robsd-step -R\<close> selects by position, counted from the front for a positive and
  from the end for a negative number, whatever identifier the step at that position has; a number out
  of range is refused.\<close>

lemma robsd_step_read_by_position:
  assumes "os_read os p = Some old" "steps_parse True (Some old) = Some (Some sf)"
    and "i \<noteq> 0" "- INT_MAX \<le> i" "i \<le> INT_MAX" "f < 9" "\<forall>s \<in> set (sf_steps sf). step_ok s"
  shows "robsd_step_main os True wr (Some (ref (fd_name (Step.fields ! f)) @ [NL]))
      [prog, ''-R'', ''-f'', p, ''-i'', show_int i] =
    (if \<bar>i\<bar> \<le> int (length (sf_steps sf))
     then Some (0, field_text (sf_steps sf ! nat (if 0 < i then i - 1 else int (length (sf_steps sf)) + i) ! f) @ [NL], None)
     else Some (1, [], None))"
proof -
  let ?k = "nat (if 0 < i then i - 1 else int (length (sf_steps sf)) + i)"
  let ?in = "Some (ref (fd_name (Step.fields ! f)) @ [NL])"
  have sel: "steps_select (sf_steps sf) i None = (if \<bar>i\<bar> \<le> int (length (sf_steps sf)) then Some ?k else None)"
    using assms(3) by (auto simp: steps_select_def)
  have "\<forall>o' \<in> set [Arg (CHR ''i'') (show_int i)]. opt_ok ''i:n:'' o'"
    by (simp add: takes_argument_def strchr_Cons)
  then have go: "\<exists>go. getopt_loop steps_read_opt (Some ACTION_ERROR_USAGE) ''i:n:'' (x # [''-i'', show_int i]) getopt_reset
      (0, None) = (Inr (i, None), go) \<and> remaining (x # [''-i'', show_int i]) go = []" for x
    using action_args [where os = "[Arg (CHR ''i'') (show_int i)]" and options = "''i:n:''" and
        handle = steps_read_opt and acc = "(0, None)" and acc' = "(i, None)" and rest = "[]" and tail = "[]"]
      parse_id_show [OF assms(4,5)] by auto
  show ?thesis
  proof (cases "\<bar>i\<bar> \<le> int (length (sf_steps sf))")
    case True
    then have k: "?k < length (sf_steps sf)" using assms(3) by (auto simp: nat_less_iff)
    then have f: "field_ok (Step.fields ! f) (sf_steps sf ! ?k ! f)"
      using step_ok_nth assms(6,7) nth_mem by blast
    then have "sf_steps sf ! ?k ! f \<noteq> UNKNOWN" by (auto simp: field_ok_def split: step_field_type.splits)
    then have "\<And>x. steps_read sf ?in (x # [CHR ''-'', CHR ''i''] # [show_int i]) =
        (ACTION_ERROR_NONE, field_text (sf_steps sf ! ?k ! f) @ [NL])"
      using steps_read_field [of sf i None ?k f] sel True assms(3-6) field_text_clean [OF f] by simp
    from main_read [OF assms(1,2) this] True show ?thesis by simp
  next
    case False
    have "steps_read sf ?in (x # [CHR ''-'', CHR ''i''] # [show_int i]) = (ACTION_ERROR_FATAL, [])" for x
    proof -
      obtain st where "getopt_loop steps_read_opt (Some ACTION_ERROR_USAGE) ''i:n:'' (x # [''-i'', show_int i]) getopt_reset
          (0, None) = (Inr (i, None), st)" "remaining (x # [''-i'', show_int i]) st = []"
        using go by blast
      with sel False show ?thesis by (simp add: steps_read_def)
    qed
    from main_read [OF assms(1,2) this] False show ?thesis by simp
  qed
qed


theorem robsd_step_read_by_position_witness:
  "robsd_step_main (step_os [sample_step]) True WriteSucceeds (Some (''${step}'' @ [NL]))
     [''robsd-step'', ''-R'', ''-f'', ''steps'', ''-i'', show_int 1] = Some (0, show_int 7 @ [NL], None)"
proof -
  have parse: "steps_parse True (Some (steps_text [sample_step])) =
      Some (Some \<lparr>sf_columns = map fd_name Step.fields, sf_steps = [sample_step]\<rparr>)"
    using steps_parse_text [of "[sample_step]"] sample_step_ok by simp
  have "os_read (step_os [sample_step]) ''steps'' = Some (steps_text [sample_step])" by (simp add: step_os_def)
  from robsd_step_read_by_position [OF this parse, of 1 0 WriteSucceeds "''robsd-step''"] sample_step_ok
  show ?thesis by (simp add: Step.fields_def sample_step_def)
qed

end
