(* ===== verification/Programs.thy ===== *)
theory Programs
  imports ConfSteps Getopt
begin

text \<open>
  \<open>robsd-config.c\<close> and \<open>robsd-hook.c\<close>: programs that load a configuration, add the variables of the
  command line to it and interpolate with it.
\<close>

section \<open>How a program ends\<close>

text \<open>With a status and what it printed, as another program, or by a crash while the configuration is
  used.\<close>

datatype outcome = Exit int string | Exec "string list" string | Crash

definition unless_crashed :: "config \<Rightarrow> outcome \<Rightarrow> outcome" where
  "unless_crashed cf out = (if cf_crashed cf then Crash else out)"

text \<open>\<open>config_alloc\<close> and \<open>config_parse\<close>, after which all programs give up when one fails.\<close>

definition with_config ::
  "os \<Rightarrow> string \<Rightarrow> string option \<Rightarrow> (config \<Rightarrow> outcome option) \<Rightarrow> outcome option" where
  "with_config os mode path run =
     (case config_alloc os mode path of
        None \<Rightarrow> Some (Exit 1 [])
      | Some cf \<Rightarrow>
          Option.bind (config_parse os cf) (\<lambda>(e, cf1).
            if cf_crashed cf1 then Some Crash else if e then Some (Exit 1 []) else run cf1))"

fun append_vars :: "config \<Rightarrow> string list \<Rightarrow> bool \<times> config" where
  "append_vars cf [] = (False, cf)"
| "append_vars cf (v # vars) =
     (case config_append_var cf v of
        (True, cf1) \<Rightarrow> (True, cf1)
      | (False, cf1) \<Rightarrow> append_vars cf1 vars)"

section \<open>\<open>robsd-config\<close>\<close>

type_synonym config_options = "string option \<times> string option \<times> string list"

fun config_opt :: "char \<Rightarrow> string \<Rightarrow> config_options \<Rightarrow> unit + config_options" where
  "config_opt c optarg (path, mode, vars) =
     (if c = CHR ''C'' then Inr (Some optarg, mode, vars)
      else if c = CHR ''m'' then Inr (path, Some optarg, vars)
      else if c = CHR ''v'' then Inr (path, mode, vars @ [optarg])
      else Inl ())"

definition robsd_config_run :: "os \<Rightarrow> string list \<Rightarrow> bool \<Rightarrow> config \<Rightarrow> outcome" where
  "robsd_config_run os vars dointerpolate cf =
     (case append_vars cf vars of
        (True, cf1) \<Rightarrow> Exit 1 []
      | (False, cf1) \<Rightarrow>
          if \<not> dointerpolate then Exit 0 []
          else
            (case config_interpolate_file os cf1 ''/dev/stdin'' of
               (str, cf2) \<Rightarrow>
                 unless_crashed cf2 (case str of None \<Rightarrow> Exit 1 [] | Some s \<Rightarrow> Exit 0 (cstr s))))"

definition robsd_config_main :: "os \<Rightarrow> string list \<Rightarrow> outcome option" where
  "robsd_config_main os argv =
     (case getopt_loop config_opt (Some ()) ''C:m:v:'' argv getopt_start (None, None, []) of
        (Inl _, _) \<Rightarrow> Some (Exit 1 [])
      | (Inr (path, mode, vars), go) \<Rightarrow>
          (case (mode, remaining argv go) of
             (Some m, []) \<Rightarrow> with_config os m path (\<lambda>cf. Some (robsd_config_run os vars False cf))
           | (Some m, [a]) \<Rightarrow>
               if a = ''-'' then with_config os m path (\<lambda>cf. Some (robsd_config_run os vars True cf))
               else Some (Exit 1 [])
           | _ \<Rightarrow> Some (Exit 1 [])))"

section \<open>\<open>robsd-hook\<close>\<close>

fun hook_args :: "os \<Rightarrow> config \<Rightarrow> string list \<Rightarrow> string list option \<times> config" where
  "hook_args os cf [] = (Some [], cf)"
| "hook_args os cf (str # hook) =
     (case config_interpolate_str os cf str of
        (None, cf1) \<Rightarrow> (None, cf1)
      | (Some arg, cf1) \<Rightarrow>
          (case hook_args os cf1 hook of (args, cf2) \<Rightarrow> (map_option ((#) (cstr arg)) args, cf2)))"

text \<open>-1, 0 or 1 with the arguments. Reading the list of a value that is none is marked as a crash.\<close>

definition hook_to_argv :: "os \<Rightarrow> config \<Rightarrow> int \<times> string list \<times> config" where
  "hook_to_argv os cf =
     (case config_get_value os cf ''hook'' of
        (None, cf1) \<Rightarrow> (0, [], cf1)
      | (Some (VList hook), cf1) \<Rightarrow>
          if hook = [] then (0, [], cf1)
          else
            (case hook_args os cf1 hook of
               (None, cf2) \<Rightarrow> (-1, [], cf2)
             | (Some args, cf2) \<Rightarrow> (1, args, cf2))
      | (Some _, cf1) \<Rightarrow> (-1, [], cf1\<lparr>cf_crashed := True\<rparr>))"

type_synonym hook_options = "string option \<times> nat \<times> string option \<times> string list"

fun hook_opt :: "char \<Rightarrow> string \<Rightarrow> hook_options \<Rightarrow> unit + hook_options" where
  "hook_opt c optarg (path, verbose, mode, vars) =
     (if c = CHR ''C'' then Inr (Some optarg, verbose, mode, vars)
      else if c = CHR ''V'' then Inr (path, Suc verbose, mode, vars)
      else if c = CHR ''m'' then Inr (path, verbose, Some optarg, vars)
      else if c = CHR ''v'' then Inr (path, verbose, mode, vars @ [optarg])
      else Inl ())"

definition exec_line :: "string list \<Rightarrow> string" where
  "exec_line args =
     ''robsd-hook: exec'' @ concat (map (\<lambda>a. '' '' @ [CHR 0x22] @ a @ [CHR 0x22]) args) @ [NL]"

text \<open>\<open>can_exec\<close> is whether \<open>execvp\<close> finds the program.\<close>

definition robsd_hook_run ::
  "os \<Rightarrow> (string list \<Rightarrow> bool) \<Rightarrow> string list \<Rightarrow> nat \<Rightarrow> config \<Rightarrow> outcome" where
  "robsd_hook_run os can_exec vars verbose cf =
     (case append_vars cf vars of
        (True, cf1) \<Rightarrow> Exit 1 []
      | (False, cf1) \<Rightarrow>
          (case hook_to_argv os cf1 of
             (rv, args, cf2) \<Rightarrow>
               unless_crashed cf2
                 (if rv = -1 then Exit 1 []
                  else if rv = 0 then Exit 0 []
                  else
                    (let out = (if verbose > 0 then exec_line args else [])
                     in if can_exec args then Exec args out else Exit 1 out))))"

definition robsd_hook_main :: "os \<Rightarrow> (string list \<Rightarrow> bool) \<Rightarrow> string list \<Rightarrow> outcome option" where
  "robsd_hook_main os can_exec argv =
     (case getopt_loop hook_opt (Some ()) ''C:Vm:v:'' argv getopt_start (None, 0, None, []) of
        (Inl _, _) \<Rightarrow> Some (Exit 1 [])
      | (Inr (path, verbose, mode, vars), go) \<Rightarrow>
          (case (mode, remaining argv go) of
             (Some m, []) \<Rightarrow> with_config os m path (\<lambda>cf. Some (robsd_hook_run os can_exec vars verbose cf))
           | _ \<Rightarrow> Some (Exit 1 [])))"

section \<open>Lookups that only answer\<close>

text \<open>A callback that answers as a plain function does for the names the function knows, and leaves
  the state alone for them. Strings that expand with the function interpolate to the expansion.\<close>

locale answering_lookup =
  fixes lk :: "string \<Rightarrow> 's \<Rightarrow> string option \<times> 's" and f :: "string \<Rightarrow> string option" and s :: 's
  assumes answers: "f x = Some v \<Longrightarrow> lk x s = (Some v, s)"
begin

lemma answer_inner:
  "expands f False n str out \<Longrightarrow> n \<le> 3 \<Longrightarrow> interpolate_inner lk False (4 - n) s bf str = (None, s, bf @ out)"
proof (induction n str out arbitrary: bf rule: expands.induct)
  case (plain str n)
  then show ?case by (simp add: inner_plain)
next
  case (known l name v n w rest out)
  have "interpolate lk False (4 - Suc n) s (bf @ l) v = (None, s, bf @ l @ w)"
    using known.IH(1) [of "bf @ l"] known.prems by (subst interpolate_nested) simp_all
  moreover have "name \<noteq> []" "CHR ''}'' \<notin> set name" using known.hyps(2) by (simp_all add: variable_name_def)
  ultimately show ?case
    using known.IH(2) [OF known.prems, of "bf @ l @ w"] answers [OF known.hyps(3)]
    by (subst inner_ref [OF known.hyps(1)]) simp_all
qed simp

lemma answer_interpolate:
  "expands f False 3 str out \<Longrightarrow> interpolate lk False 0 s bf str = (None, s, bf @ out)"
  using answer_inner [of 3 str out bf] by (simp add: interpolate_step)

lemma answer_str:
  "expands f False 3 str out \<Longrightarrow> interpolate_str lk False s str = (Some out, s)"
  using answer_interpolate by (simp add: interpolate_str_def interpolate_buffer_def)

lemma answer_lines:
  "list_all2 (\<lambda>l out. expands f False 3 (cstr l) out) ls outs \<Longrightarrow>
   interpolate_lines lk False lno s bf ls = (None, s, bf @ concat (map (\<lambda>out. out @ [NL]) outs))"
  by (induction ls outs arbitrary: lno bf rule: list_all2_induct) (simp_all add: answer_interpolate)

lemma answer_file:
  "list_all2 (\<lambda>l out. expands f False 3 (cstr l) out) (split_lines content) outs \<Longrightarrow>
   interpolate_file lk False lno s (Some content) = (Some (concat (map (\<lambda>out. out @ [NL]) outs)), s)"
  using answer_lines [of "split_lines content" outs lno "[]"]
  by (simp add: interpolate_file_def buffer_lines_eq)

end

text \<open>The text of a variable that is present.\<close>

definition stored_text :: "os \<Rightarrow> config \<Rightarrow> string \<Rightarrow> string option" where
  "stored_text os cf name =
     (if os_stack os = 0 \<or> cf_early cf then None
      else Option.bind (variable_index cf name) (\<lambda>i. value_text (va_val (cf_variables cf ! i))))"

interpretation present: answering_lookup "config_interpolate_lookup os" "stored_text os cf" cf for os cf
proof
  fix x v
  assume v: "stored_text os cf x = Some v"
  then obtain i where i: "variable_index cf x = Some i" "os_stack os > 0" "\<not> cf_early cf"
    "value_text (va_val (cf_variables cf ! i)) = Some v"
    by (auto simp: stored_text_def bind_eq_Some_conv split: if_splits)
  then have "config_find os x cf = (Some (Stored i), cf)"
    by (cases "os_stack os") (simp_all add: config_find_def config_find_at.simps)
  with i show "config_interpolate_lookup os x cf = (Some v, cf)"
    by (simp add: config_interpolate_lookup_def interpolate_lookup_def found_val_def)
qed

section \<open>Variables of the command line\<close>

definition var_arg :: "string \<times> string \<Rightarrow> string" where
  "var_arg nv = fst nv @ CHR ''='' # snd nv"

definition var_words :: "(string \<times> string) list \<Rightarrow> string list" where
  "var_words vars = concat (map (\<lambda>nv. [''-v'', var_arg nv]) vars)"

definition add_vars :: "config \<Rightarrow> (string \<times> string) list \<Rightarrow> config" where
  "add_vars cf vars = cf\<lparr>cf_variables := cf_variables cf @
     map (\<lambda>nv. \<lparr>va_name = fst nv, va_val = VString (snd nv)\<rparr>) vars\<rparr>"

definition vars_ok :: "config \<Rightarrow> (string \<times> string) list \<Rightarrow> bool" where
  "vars_ok cf vars \<longleftrightarrow> (\<forall>nv \<in> set vars. CHR ''='' \<notin> set (fst nv) \<and> \<not> keyword cf (fst nv))"

lemma add_vars_simps [simp]:
  "add_vars cf [] = cf"
  "keyword (add_vars cf vars) name = keyword cf name"
  "cf_crashed (add_vars cf vars) = cf_crashed cf"
  by (simp_all add: add_vars_def keyword_def config_find_grammar_for_keyword_def)

lemma append_vars_add: "vars_ok cf vars \<Longrightarrow> append_vars cf (map var_arg vars) = (False, add_vars cf vars)"
proof (induction vars arbitrary: cf)
  case (Cons nv vars)
  let ?cf = "add_vars cf [nv]"
  have "config_append_var cf (var_arg nv) = (False, ?cf)"
    using Cons.prems
    by (simp add: vars_ok_def config_append_var_def var_arg_def strchr_append keyword_def
        config_append_string_def config_append_def add_vars_def)
  moreover have "append_vars ?cf (map var_arg vars) = (False, add_vars ?cf vars)"
    using Cons.IH [of ?cf] Cons.prems by (simp add: vars_ok_def)
  ultimately show ?case by (simp add: add_vars_def)
qed simp

text \<open>The words of a command line, as options.\<close>

definition config_words :: "string \<Rightarrow> string option \<Rightarrow> (string \<times> string) list \<Rightarrow> opt list" where
  "config_words mode path vars =
     Arg (CHR ''m'') mode # (case path of None \<Rightarrow> [] | Some p \<Rightarrow> [Arg (CHR ''C'') p]) @
     map (\<lambda>nv. Arg (CHR ''v'') (var_arg nv)) vars"


lemma getopt_dash:
  assumes "at_word st i" "drop i argv = ''-'' # rest" "strchr options (CHR ''-'') = None"
  shows "\<exists>st'. getopt_loop handle bad options argv st acc = (Inr acc, st') \<and> remaining argv st' = ''-'' # rest"
proof -
  have i: "i < length argv" "argv ! i = ''-''"
    using assms(2) by (cases "i < length argv"; simp add: Cons_nth_drop_Suc [symmetric])+
  then have "getopt argv options st = (GEnd, \<lparr>go_ind = i, go_place = []\<rparr>)"
    using getopt_at [OF assms(1), of argv options] assms(3) by simp
  then show ?thesis
    using assms(2) by (simp add: getopt_loop.simps [of handle bad options argv st] remaining_def)
qed

lemma config_words_handled:
  "handle_opts config_opt (config_words mode path vars) (None, None, []) = Inr (path, Some mode, map var_arg vars)"
proof -
  have "handle_opts config_opt (map (\<lambda>nv. Arg (CHR ''v'') (var_arg nv)) vars) (p, m, vs) =
      Inr (p, m, vs @ map var_arg vars)" for p m vs
    by (induction vars arbitrary: vs) simp_all
  then show ?thesis by (cases path) (simp_all add: config_words_def)
qed

lemma hook_words_handled:
  "handle_opts hook_opt (config_words mode path vars) (None, 0, None, []) =
   Inr (path, 0, Some mode, map var_arg vars)"
proof -
  have "handle_opts hook_opt (map (\<lambda>nv. Arg (CHR ''v'') (var_arg nv)) vars) (p, n, m, vs) =
      Inr (p, n, m, vs @ map var_arg vars)" for p n m vs
    by (induction vars arbitrary: vs) simp_all
  then show ?thesis by (cases path) (simp_all add: config_words_def)
qed

lemma config_words_ok:
  "\<forall>o' \<in> set (config_words mode path vars). opt_ok ''C:m:v:'' o'"
  "\<forall>o' \<in> set (config_words mode path vars). opt_ok ''C:Vm:v:'' o'"
  by (auto simp: config_words_def takes_argument_def strchr_Cons split: option.splits)

definition command_line :: "string \<Rightarrow> string \<Rightarrow> string option \<Rightarrow> (string \<times> string) list \<Rightarrow> string list" where
  "command_line prog mode path vars = prog # concat (map opt_words (config_words mode path vars))"

lemma robsd_config_main_words:
  "robsd_config_main os (command_line prog mode path vars @ [''-'']) =
   with_config os mode path (\<lambda>cf. Some (robsd_config_run os (map var_arg vars) True cf))"
proof -
  let ?argv = "command_line prog mode path vars @ [''-'']"
  have d: "drop 1 ?argv = concat (map opt_words (config_words mode path vars)) @ [''-'']"
    by (simp add: command_line_def)
  obtain st j where st: "at_word st j" "drop j ?argv = [''-'']"
    "getopt_loop config_opt (Some ()) ''C:m:v:'' ?argv getopt_start (None, None, []) =
      getopt_loop config_opt (Some ()) ''C:m:v:'' ?argv st (path, Some mode, map var_arg vars)"
    using getopt_loop_opts [where bad = "Some ()", OF config_words_ok(1) d at_word_start(1) config_words_handled]
    by blast
  have "strchr ''C:m:v:'' (CHR ''-'') = None" by (simp add: strchr_None)
  from getopt_dash [where handle = config_opt and bad = "Some ()" and acc = "(path, Some mode, map var_arg vars)",
      OF st(1,2) this]
  obtain st' where "getopt_loop config_opt (Some ()) ''C:m:v:'' ?argv st (path, Some mode, map var_arg vars) =
      (Inr (path, Some mode, map var_arg vars), st')" "remaining ?argv st' = [''-'']"
    by (elim exE conjE)
  with st(3) show ?thesis by (simp add: robsd_config_main_def)
qed

lemma robsd_hook_main_words:
  "robsd_hook_main os can_exec (command_line prog mode path vars) =
   with_config os mode path (\<lambda>cf. Some (robsd_hook_run os can_exec (map var_arg vars) 0 cf))"
proof -
  let ?argv = "command_line prog mode path vars"
  have d: "drop 1 ?argv = concat (map opt_words (config_words mode path vars)) @ []"
    by (simp add: command_line_def)
  obtain st j where st: "at_word st j" "drop j ?argv = []"
    "getopt_loop hook_opt (Some ()) ''C:Vm:v:'' ?argv getopt_start (None, 0, None, []) =
      getopt_loop hook_opt (Some ()) ''C:Vm:v:'' ?argv st (path, 0, Some mode, map var_arg vars)"
    using getopt_loop_opts [where bad = "Some ()", OF config_words_ok(2) d at_word_start(1) hook_words_handled]
    by blast
  obtain st' where "getopt_loop hook_opt (Some ()) ''C:Vm:v:'' ?argv st (path, 0, Some mode, map var_arg vars) =
      (Inr (path, 0, Some mode, map var_arg vars), st')" "remaining ?argv st' = []"
    using getopt_end [where handle = hook_opt and options = "''C:Vm:v:''" and bad = "Some ()" and acc = "(path, 0, Some mode, map var_arg vars)",
        OF st(1,2) disjI1 [OF refl]] by (elim exE conjE)
  with st(3) show ?thesis by (simp add: robsd_hook_main_def)
qed

section \<open>Properties\<close>

lemma hook_args_expand:
  "list_all2 (\<lambda>h out. expands (stored_text os cf) False 3 h out \<and> NUL \<notin> set out) hook outs \<Longrightarrow>
   hook_args os cf hook = (Some outs, cf)"
proof (induction hook outs rule: list_all2_induct)
  case (Cons h hook out outs)
  then have "config_interpolate_str os cf h = (Some out, cf)" "cstr out = out"
    using present.answer_str [of os cf h out] by (simp_all add: config_interpolate_str_def cstr_id)
  with Cons show ?case by simp
qed simp

text \<open>A configuration of the cross mode and a system that has it and an input.\<close>

definition hook_items :: "(string \<times> conf_value) list" where
  "hook_items = sample_items @ [(''hook'', CList [''echo'', ''${crossdir}/${id}''])]"

definition input_os :: "string \<Rightarrow> os" where
  "input_os content = sample_os\<lparr>os_read := (\<lambda>p.
     if p = ''/etc/robsd.conf'' then Some (conf_file hook_items)
     else if p = ''/dev/stdin'' then Some content else None)\<rparr>"

definition cross_conf :: config where
  "cross_conf = (sample_conf ROBSD_CROSS [])\<lparr>cf_rdomain := 0, cf_steps := robsd_cross_steps\<rparr>"

lemma cross_conf_simps [simp]:
  "cf_variables cross_conf = []" "cf_crashed cross_conf = False" "cf_early cross_conf = False"
  "cf_mode cross_conf = ROBSD_CROSS" "cf_path cross_conf = ''/etc/robsd.conf''"
  "cf_grammar cross_conf = full_grammar sample_os ROBSD_CROSS"
  by (simp_all add: cross_conf_def sample_conf_def)

lemma cross_conf_alloc: "config_alloc (input_os content) ''robsd-cross'' (Some ''/etc/robsd.conf'') = Some cross_conf"
proof -
  obtain lookup where "token_type_lookup_alloc (\<lambda>_. True) ROBSD_CROSS = Some lookup"
    using token_type_lookup_alloc_ok [of ROBSD_CROSS] by blast
  moreover have "robsd_mode_parse ''robsd-cross'' = Some ROBSD_CROSS" by code_simp
  ultimately show ?thesis
    by (simp add: config_alloc_def config_init_def config_robsd_cross_init_def config_copy_grammar_def
        input_os_def sample_os_def cross_conf_def sample_conf_def default_path_def mode_grammar_def)
qed

definition loaded_conf :: config where
  "loaded_conf = read_items cross_conf hook_items"

lemma cross_conf_parse: "config_parse (input_os content) cross_conf = Some (False, loaded_conf)"
proof -
  have "mode_conf sample_os cross_conf" by (simp add: mode_conf_def)
  moreover have "token_type_lookup_alloc (\<lambda>_. True) (cf_mode cross_conf) = Some (cf_lookup cross_conf)"
    using token_type_lookup_alloc_ok [of ROBSD_CROSS] by (auto simp: cross_conf_def sample_conf_def)
  moreover have "\<forall>it \<in> set hook_items. item_ok (input_os content) cross_conf it \<and> \<not> config_present cross_conf (fst it)"
    by (simp add: hook_items_def sample_items_def input_os_def sample_os_def item_ok_def config_present_def
        config_find_grammar_for_keyword_def mode_grammar_def grammar_tables writable_def)
  moreover have "distinct (map fst hook_items)" by (simp add: hook_items_def sample_items_def)
  moreover have "os_read (input_os content) (cf_path cross_conf) = Some (conf_file hook_items)"
    by (simp add: input_os_def)
  ultimately have "config_parse (input_os content) cross_conf =
    (if config_missing loaded_conf = [] then Some (False, config_after_parse loaded_conf) else Some (True, loaded_conf))"
    unfolding loaded_conf_def by (rule config_parse_conf_file)
  moreover have "config_missing loaded_conf = []"
    by (simp add: loaded_conf_def config_missing_def read_items_def config_present_def hook_items_def sample_items_def
        mode_grammar_def grammar_tables)
  ultimately show ?thesis by (simp add: config_after_parse_def loaded_conf_def read_items_def)
qed

lemma loaded_vars_ok: "vars_ok loaded_conf [(''id'', ''42'')]"
  by (simp add: vars_ok_def keyword_def config_find_grammar_for_keyword_def loaded_conf_def read_items_def
      mode_grammar_def grammar_tables)

lemma loaded_crash: "\<not> cf_crashed loaded_conf"
  by (simp add: loaded_conf_def read_items_def)

lemma loaded_text:
  "stored_text (input_os content) (add_vars loaded_conf [(''id'', ''42'')]) ''crossdir'' = Some ''/cross''"
  "stored_text (input_os content) (add_vars loaded_conf [(''id'', ''42'')]) ''id'' = Some ''42''"
  by (simp_all add: stored_text_def input_os_def sample_os_def add_vars_def loaded_conf_def read_items_def
      hook_items_def sample_items_def variable_index_def upt_conv_Cons)

lemma loaded_expands:
  "expands (stored_text (input_os content) (add_vars loaded_conf [(''id'', ''42'')])) False 3
     ''${crossdir}/${id}'' ''/cross/42''"
proof -
  let ?f = "stored_text (input_os content) (add_vars loaded_conf [(''id'', ''42'')])"
  have plain: "expands ?f False n [] []" "expands ?f False n ''/cross'' ''/cross''" "expands ?f False n ''42'' ''42''" for n
    by (rule expands.plain, simp)+
  have "expands ?f False (Suc 2) (''/'' @ ref ''id'' @ []) (''/'' @ ''42'' @ [])"
    by (rule expands.known [OF _ _ loaded_text(2) plain(3,1)]) (simp_all add: variable_name_def)
  then have "expands ?f False (Suc 2) ([] @ ref ''crossdir'' @ (''/'' @ ref ''id'' @ [])) ([] @ ''/cross'' @ (''/'' @ ''42'' @ []))"
    by (intro expands.known [OF _ _ loaded_text(1) plain(2)]) (simp_all add: variable_name_def)
  then show ?thesis by (simp add: numeral_3_eq_3)
qed






end
