(* ===== verification/RobsdLs.thy ===== *)
theory RobsdLs
  imports Invocation Programs
begin

text \<open>\<open>robsd-ls.c\<close>: the paths of the invocations, the newest first, one on a line.\<close>

text \<open>\<open>config_value\<close> for the member \<open>str\<close>; a value without it is read as a pointer that it is not.\<close>

definition config_value_str :: "os \<Rightarrow> config \<Rightarrow> string \<Rightarrow> string option \<times> config" where
  "config_value_str os cf name =
     (case config_get_value os cf name of
        (None, cf1) \<Rightarrow> (None, cf1)
      | (Some v, cf1) \<Rightarrow>
          (case v of
             VString s \<Rightarrow> (Some s, cf1)
           | VDirectory s \<Rightarrow> (Some s, cf1)
           | _ \<Rightarrow> (None, cf1\<lparr>cf_crashed := True\<rparr>)))"

text \<open>\<open>-B\<close>, the path and the mode of the configuration.\<close>

type_synonym ls_options = "bool \<times> string option \<times> string option"

fun ls_opt :: "char \<Rightarrow> string \<Rightarrow> ls_options \<Rightarrow> unit + ls_options" where
  "ls_opt c optarg (skip_builddir, path, mode) =
     (if c = CHR ''B'' then Inr (True, path, mode)
      else if c = CHR ''C'' then Inr (skip_builddir, Some optarg, mode)
      else if c = CHR ''m'' then Inr (skip_builddir, path, Some optarg)
      else Inl ())"

definition ls_lines :: "string option \<Rightarrow> invocation_entry list \<Rightarrow> string" where
  "ls_lines builddir es =
     concat (map (\<lambda>e. ie_path e @ [NL]) (filter (\<lambda>e. builddir \<noteq> Some (ie_path e)) es))"

definition ls_run :: "os \<Rightarrow> directories \<Rightarrow> bool \<Rightarrow> config \<Rightarrow> outcome" where
  "ls_run os rd skip_builddir cf =
     (case (if skip_builddir then config_value_str os cf ''builddir'' else (None, cf)) of (builddir, cf1) \<Rightarrow>
        case config_interpolate_str os cf1 ''${robsddir}'' of
          (None, cf2) \<Rightarrow> unless_crashed cf2 (Exit 1 [])
        | (Some robsddir, cf2) \<Rightarrow>
            (case config_interpolate_str os cf2 ''${keep-dir}'' of
               (None, cf3) \<Rightarrow> unless_crashed cf3 (Exit 1 [])
             | (Some keepdir, cf3) \<Rightarrow>
                 unless_crashed cf3
                   (case invocation_alloc rd robsddir keepdir INVOCATION_SORT_DESC of
                      None \<Rightarrow> Exit 1 []
                    | Some is \<Rightarrow> Exit 0 (ls_lines builddir (walk_all is)))))"

definition robsd_ls_main :: "os \<Rightarrow> directories \<Rightarrow> string list \<Rightarrow> outcome option" where
  "robsd_ls_main os rd argv =
     (case getopt_loop ls_opt (Some ()) ''BC:m:'' argv getopt_start (False, None, None) of
        (Inl _, _) \<Rightarrow> Some (Exit 1 [])
      | (Inr (skip_builddir, path, mode), go) \<Rightarrow>
          (case (mode, remaining argv go) of
             (Some m, []) \<Rightarrow> with_config os m path (\<lambda>cf. Some (ls_run os rd skip_builddir cf))
           | _ \<Rightarrow> Some (Exit 1 [])))"

lemma ls_lines_paths:
  "ls_lines builddir es = concat (map (\<lambda>p. p @ [NL]) (filter (\<lambda>p. builddir \<noteq> Some p) (map ie_path es)))"
  by (simp add: ls_lines_def filter_map comp_def)

lemma ls_run_lists:
  assumes "ls_run os rd skip_builddir cf = Exit 0 out"
  shows "\<exists>robsddir keepdir builddir des. rd robsddir = Some (des, False) \<and> (builddir \<noteq> None \<longrightarrow> skip_builddir) \<and>
    out = concat (map (\<lambda>p. p @ [NL])
      (filter (\<lambda>p. builddir \<noteq> Some p) (rev (sort (invocation_paths des robsddir keepdir)))))"
proof -
  from assms obtain builddir robsddir keepdir "is" where
    b: "builddir \<noteq> None \<longrightarrow> skip_builddir" and
    alloc: "invocation_alloc rd robsddir keepdir INVOCATION_SORT_DESC = Some is" "out = ls_lines builddir (walk_all is)"
    by (auto simp: ls_run_def unless_crashed_def split: prod.splits option.splits if_splits)
  then obtain des where des: "rd robsddir = Some (des, False)"
    by (auto simp: invocation_alloc_def invocation_read_def Let_def split: option.splits prod.splits bool.splits)
  from walk_desc [where rd = rd and keepdir = keepdir, OF des] alloc b des show ?thesis
    by (auto simp: ls_lines_paths intro!: exI [of _ builddir])
qed

end
