(* ===== verification/Wait.thy ===== *)
theory Wait
  imports HashMap Strtonum Programs
begin

text \<open>
  \<open>robsd-wait.c\<close>, which waits for the first of the given processes to end, or for all of them, and
  prints the ones that are left. What the kernel reports is a list of answers, one for each call of
  \<open>kevent(2)\<close>; \<open>None\<close> as a result is a process that is still waiting after the last of them.
\<close>

section \<open>State\<close>

text \<open>The identifiers in a map from \<open>int\<close> to \<open>int\<close>; its keys are the four bytes of the number.\<close>

type_synonym pid_map = "int hash_map"

definition pid_key :: "int \<Rightarrow> string" where
  "pid_key pid = map (\<lambda>i. char_of (nat (pid div 256 ^ i mod 256))) [0, 1, 2, 3]"

text \<open>An event: the process, the error when \<open>EV_ERROR\<close> is set, and whether \<open>NOTE_EXIT\<close> is.\<close>

record kevent =
  ke_ident :: int
  ke_errno :: "int option"
  ke_exit :: bool

definition ESRCH :: int where "ESRCH = 3"

record wait_env =
  we_alloc :: "nat \<Rightarrow> bool"
  we_kqueue :: bool
  we_answers :: "kevent list option list"

section \<open>Operations\<close>

definition pid_count :: "pid_map \<Rightarrow> nat" where
  "pid_count pids = length (map_elements pids)"

text \<open>The loop of \<open>parse_pids\<close>; \<open>None\<close> when memory runs out, which ends the program.\<close>

fun parse_pids_loop :: "(nat \<Rightarrow> bool) \<Rightarrow> bool \<Rightarrow> pid_map \<Rightarrow> string list \<Rightarrow> (bool \<times> pid_map) option" where
  "parse_pids_loop ok error pids [] = Some (error, pids)"
| "parse_pids_loop ok error pids (arg # args) =
     (let val = fst (strtonum arg 1 INT_MAX) in
      if val > 0 then
        (case MAP_INSERT_VALUE ok 0 pids (pid_key val) val of
           (None, _) \<Rightarrow> None
         | (Some _, pids1) \<Rightarrow> parse_pids_loop ok error pids1 args)
      else parse_pids_loop ok True pids args)"

definition parse_pids :: "(nat \<Rightarrow> bool) \<Rightarrow> string list \<Rightarrow> (bool \<times> pid_map) option" where
  "parse_pids ok args =
     (case map_init ok 4 4 False of
        None \<Rightarrow> None
      | Some pids \<Rightarrow> parse_pids_loop ok False pids args)"

fun handle_event :: "kevent \<Rightarrow> bool \<times> pid_map \<Rightarrow> bool \<times> pid_map" where
  "handle_event kev (error, pids) =
     (case ke_errno kev of
        Some e \<Rightarrow>
          if e = ESRCH then (error, map_remove pids (pid_key (ke_ident kev))) else (True, pids)
      | None \<Rightarrow>
          if ke_exit kev then (error, map_remove pids (pid_key (ke_ident kev))) else (True, pids))"

definition kqueue_handle_events :: "pid_map \<Rightarrow> kevent list \<Rightarrow> bool \<times> pid_map" where
  "kqueue_handle_events pids events = fold handle_event events (False, pids)"

text \<open>The second loop of the program.\<close>

fun wait_rest :: "pid_map \<Rightarrow> kevent list option list \<Rightarrow> (bool \<times> pid_map) option" where
  "wait_rest pids [] = (if pid_count pids > 0 then None else Some (False, pids))"
| "wait_rest pids (answer # answers) =
     (if pid_count pids > 0 then
        (case answer of
           None \<Rightarrow> Some (True, pids)
         | Some events \<Rightarrow>
             (case kqueue_handle_events pids events of
                (True, pids1) \<Rightarrow> Some (True, pids1)
              | (False, pids1) \<Rightarrow> wait_rest pids1 answers))
      else Some (False, pids))"

definition pid_lines :: "pid_map \<Rightarrow> string" where
  "pid_lines pids =
     concat (map (\<lambda>(_, v). show_int (case v of None \<Rightarrow> 0 | Some pid \<Rightarrow> pid) @ [NL]) (map_elements pids))"

definition wait_outcome :: "bool \<times> pid_map \<Rightarrow> outcome" where
  "wait_outcome r = (if fst r then Exit 1 [] else Exit 0 (pid_lines (snd r)))"

definition wait_events :: "bool \<Rightarrow> pid_map \<Rightarrow> kevent list option list \<Rightarrow> outcome option" where
  "wait_events waitall pids answers =
     (case answers of
        [] \<Rightarrow> None
      | None # _ \<Rightarrow> Some (Exit 1 [])
      | Some events # rest \<Rightarrow>
          (case kqueue_handle_events pids events of
             (True, _) \<Rightarrow> Some (Exit 1 [])
           | (False, pids1) \<Rightarrow>
               if waitall then map_option wait_outcome (wait_rest pids1 rest)
               else Some (wait_outcome (False, pids1))))"

definition wait_opt :: "char \<Rightarrow> string \<Rightarrow> bool \<Rightarrow> unit + bool" where
  "wait_opt c optarg waitall = (if c = CHR ''a'' then Inr True else Inl ())"

definition robsd_wait_main :: "wait_env \<Rightarrow> string list \<Rightarrow> outcome option" where
  "robsd_wait_main env argv =
     (case getopt_loop wait_opt (Some ()) ''a'' argv getopt_start False of
        (Inl _, _) \<Rightarrow> Some (Exit 1 [])
      | (Inr waitall, go) \<Rightarrow>
          (let args = remaining argv go in
           if args = [] then Some (Exit 1 [])
           else
             (case parse_pids (we_alloc env) args of
                None \<Rightarrow> Some (Exit 1 [])
              | Some (True, _) \<Rightarrow> Some (Exit 1 [])
              | Some (False, pids) \<Rightarrow>
                  if \<not> we_kqueue env then Some (Exit 1 [])
                  else wait_events waitall pids (we_answers env))))"

section \<open>The map as a list of processes\<close>

definition is_pid :: "int \<Rightarrow> bool" where
  "is_pid p \<longleftrightarrow> 1 \<le> p \<and> p \<le> INT_MAX"

definition holds_pids :: "pid_map \<Rightarrow> int list \<Rightarrow> bool" where
  "holds_pids m ps \<longleftrightarrow>
     sized_map 4 m \<and> entries m = map (\<lambda>p. (pid_key p, p)) ps \<and> distinct ps \<and> (\<forall>p \<in> set ps. is_pid p)"

lemma pid_key_length [simp]: "length (pid_key p) = 4"
  by (simp add: pid_key_def)

lemma byte_inject:
  assumes "(char_of (nat (a mod 256)) :: char) = char_of (nat (b mod 256))"
  shows "a mod 256 = (b :: int) mod 256"
proof -
  have "(of_char (char_of (nat (a mod 256)) :: char) :: nat) = of_char (char_of (nat (b mod 256)) :: char)"
    by (simp only: assms)
  then have "nat (a mod 256) mod 256 = nat (b mod 256) mod 256" by (simp only: of_char_of)
  moreover have "nat (x mod 256) < 256" for x :: int by (simp add: nat_less_iff)
  ultimately have "nat (a mod 256) = nat (b mod 256)" by (metis mod_less)
  then show ?thesis by (simp add: eq_nat_nat_iff)
qed

lemma four_digits:
  "(x :: int) = a + 256 * y \<Longrightarrow> y = b + 256 * z \<Longrightarrow> z = c + 256 * w \<Longrightarrow>
   x = a + 256 * b + 65536 * c + 16777216 * w"
  by simp

lemma same_digits:
  "p = a + 256 * b + 65536 * c + 16777216 * d \<Longrightarrow> q = a' + 256 * b' + 65536 * c' + 16777216 * d' \<Longrightarrow>
   a = a' \<Longrightarrow> b = b' \<Longrightarrow> c = c' \<Longrightarrow> d = d' \<Longrightarrow> p = (q :: int)"
  by simp

lemma pid_key_inject:
  assumes "is_pid p" "is_pid q" "pid_key p = pid_key q"
  shows "p = q"
proof -
  have "\<forall>i \<in> set [0, 1, 2, 3]. (char_of (nat (p div 256 ^ i mod 256)) :: char) = char_of (nat (q div 256 ^ i mod 256))"
    using assms(3) unfolding pid_key_def map_eq_conv .
  then have d': "p div 256 ^ i mod 256 = q div 256 ^ i mod 256" if "i \<in> set [0, 1, 2, 3]" for i
    using that byte_inject by blast
  have expand: "x = x mod 256 + 256 * (x div 256 mod 256) + 65536 * (x div 65536 mod 256) + 16777216 * (x div 16777216 mod 256)"
    if "is_pid x" for x
  proof -
    have top: "x div 16777216 mod 256 = x div 16777216"
      using that by (intro mod_pos_pos_trivial) (auto simp: is_pid_def)
    show ?thesis
    proof (rule four_digits)
      show "x = x mod 256 + 256 * (x div 256)" by simp
      show "x div 256 = x div 256 mod 256 + 256 * (x div 65536)"
        using mult_div_mod_eq [of 256 "x div 256"] zdiv_zmult2_eq [of 256 x 256] by simp
      show "x div 65536 = x div 65536 mod 256 + 256 * (x div 16777216 mod 256)"
        using mult_div_mod_eq [of 256 "x div 65536"] zdiv_zmult2_eq [of 256 x 65536] top by simp
    qed
  qed
  have "p mod 256 = q mod 256" using d' [of 0] by simp
  moreover have "p div 256 mod 256 = q div 256 mod 256" using d' [of 1] by simp
  moreover have "p div 65536 mod 256 = q div 65536 mod 256" using d' [of 2] by simp
  moreover have "p div 16777216 mod 256 = q div 16777216 mod 256" using d' [of 3] by simp
  ultimately show ?thesis by (rule same_digits [OF expand [OF assms(1)] expand [OF assms(2)]])
qed

lemma holds_count: "holds_pids m ps \<Longrightarrow> pid_count m = length ps"
  by (simp add: holds_pids_def pid_count_def sized_map_def map_elements_eq)

lemma holds_lines: "holds_pids m ps \<Longrightarrow> pid_lines m = concat (map (\<lambda>p. show_int p @ [NL]) ps)"
  by (simp add: holds_pids_def pid_lines_def sized_map_def map_elements_eq comp_def)

lemma holds_init: "map_init ok 4 4 False = Some m \<Longrightarrow> holds_pids m []"
  using map_init_wf [of ok 4 4 False m]
  by (auto simp: holds_pids_def sized_map_def map_init_def split: option.splits if_splits)

lemma holds_remove:
  assumes "holds_pids m ps" "is_pid p"
  shows "holds_pids (map_remove m (pid_key p)) (filter (\<lambda>q. q \<noteq> p) ps)"
proof -
  have "filter (\<lambda>e. fst e \<noteq> pid_key p) (map (\<lambda>p. (pid_key p, p)) ps) =
      map (\<lambda>p. (pid_key p, p)) (filter (\<lambda>q. q \<noteq> p) ps)"
    using pid_key_inject [OF _ assms(2)] assms(1) unfolding holds_pids_def filter_map comp_def
    by (intro arg_cong [where f = "map _"] filter_cong) auto
  with assms sizedmap.remove_items [of 4 m "pid_key p"] show ?thesis by (simp add: holds_pids_def)
qed

lemma holds_insert:
  assumes "holds_pids m ps" "is_pid p" "p \<notin> set ps" "MAP_INSERT_VALUE ok 0 m (pid_key p) p = (Some a, m')"
  shows "holds_pids m' (ps @ [p])"
proof -
  have "fst ` set (entries m) = pid_key ` set ps" "\<forall>q \<in> set ps. is_pid q"
    using assms(1) by (force simp: holds_pids_def)+
  then have "pid_key p \<notin> fst ` set (entries m)" using assms(2,3) pid_key_inject by blast
  moreover have "insert_new ok 0 m (pid_key p) p = Some m'" by (simp add: insert_new_def assms(4))
  ultimately show ?thesis
    using assms(1-3) sizedmap.insert_items [of 4 m "pid_key p" ok 0 p m'] by (simp add: holds_pids_def)
qed


section \<open>Events\<close>

text \<open>The kernel reports a process that ended, or that was gone before it could be watched.\<close>

definition reports_end :: "kevent \<Rightarrow> bool" where
  "reports_end kev \<longleftrightarrow>
     is_pid (ke_ident kev) \<and> (ke_errno kev = Some ESRCH \<or> ke_errno kev = None \<and> ke_exit kev)"

definition reported :: "kevent list list \<Rightarrow> int set" where
  "reported answers = ke_ident ` set (concat answers)"

lemma reported_simps [simp]:
  "reported [] = {}" "reported (events # answers) = ke_ident ` set events \<union> reported answers"
  by (auto simp: reported_def)

lemma handle_events_ends:
  "holds_pids m ps \<Longrightarrow> \<forall>kev \<in> set events. reports_end kev \<Longrightarrow>
   \<exists>m'. fold handle_event events (False, m) = (False, m') \<and>
     holds_pids m' (filter (\<lambda>p. p \<notin> ke_ident ` set events) ps)"
proof (induction events arbitrary: m ps)
  case (Cons kev events)
  let ?m = "map_remove m (pid_key (ke_ident kev))" and ?ps = "filter (\<lambda>p. p \<noteq> ke_ident kev) ps"
  have "holds_pids ?m ?ps" using holds_remove Cons.prems by (simp add: reports_end_def)
  with Cons.IH [of ?m ?ps] Cons.prems(2) obtain m' where
    "fold handle_event events (False, ?m) = (False, m')"
    "holds_pids m' (filter (\<lambda>p. p \<notin> ke_ident ` set events) ?ps)" by auto
  moreover have "handle_event kev (False, m) = (False, ?m)" using Cons.prems(2) by (auto simp: reports_end_def)
  moreover have "filter (\<lambda>p. p \<notin> ke_ident ` set events) ?ps = filter (\<lambda>p. p \<notin> ke_ident ` set (kev # events)) ps"
    by (auto intro: filter_cong)
  ultimately show ?case by simp
qed (simp add: holds_pids_def)

lemma wait_rest_ends:
  "holds_pids m ps \<Longrightarrow> \<forall>events \<in> set answers. \<forall>kev \<in> set events. reports_end kev \<Longrightarrow>
   map_option wait_outcome (wait_rest m (map Some answers)) =
     (if set ps \<subseteq> reported answers then Some (Exit 0 []) else None)"
proof (induction answers arbitrary: m ps)
  case Nil
  then show ?case by (auto simp: holds_count holds_lines wait_outcome_def)
next
  case (Cons events answers)
  show ?case
  proof (cases ps)
    case Nil
    with Cons.prems(1) show ?thesis by (simp add: holds_count holds_lines wait_outcome_def)
  next
    case (Cons p qs)
    let ?ps = "filter (\<lambda>p. p \<notin> ke_ident ` set events) ps"
    obtain m' where m': "kqueue_handle_events m events = (False, m')" "holds_pids m' ?ps"
      using handle_events_ends [of m ps events] Cons.prems by (auto simp: kqueue_handle_events_def)
    have "set ?ps \<subseteq> reported answers \<longleftrightarrow> set ps \<subseteq> reported (events # answers)" by auto
    with Cons.IH [OF m'(2)] Cons.prems m'(1) Cons show ?thesis by (simp add: holds_count)
  qed
qed

section \<open>The arguments\<close>

lemma parse_pids_holds:
  "holds_pids m qs \<Longrightarrow> distinct (qs @ ps) \<Longrightarrow> \<forall>p \<in> set ps. is_pid p \<Longrightarrow>
   parse_pids_loop ok e m (map show_int ps) = Some (e', m') \<Longrightarrow> e' = e \<and> holds_pids m' (qs @ ps)"
proof (induction ps arbitrary: m qs)
  case (Cons p ps)
  then have "strtonum (show_int p) 1 INT_MAX = (p, None)" by (simp add: strtonum_show_int is_pid_def)
  with Cons.prems obtain a m1 where i: "MAP_INSERT_VALUE ok 0 m (pid_key p) p = (Some a, m1)"
    "parse_pids_loop ok e m1 (map show_int ps) = Some (e', m')"
    by (auto simp: is_pid_def split: prod.splits option.splits)
  have "holds_pids m1 (qs @ [p])" using holds_insert [OF Cons.prems(1) _ _ i(1)] Cons.prems(2,3) by simp
  from Cons.IH [OF this _ _ i(2)] Cons.prems(2,3) show ?case by simp
qed simp

lemma wait_arguments:
  assumes "ps \<noteq> []" "\<forall>p \<in> set ps. is_pid p"
  shows "robsd_wait_main env (''robsd-wait'' # (if waitall then [''-a''] else []) @ map show_int ps) =
    (case parse_pids (we_alloc env) (map show_int ps) of
       None \<Rightarrow> Some (Exit 1 [])
     | Some (True, _) \<Rightarrow> Some (Exit 1 [])
     | Some (False, pids) \<Rightarrow>
         if \<not> we_kqueue env then Some (Exit 1 []) else wait_events waitall pids (we_answers env))"
proof -
  let ?argv = "''robsd-wait'' # (if waitall then [''-a''] else []) @ map show_int ps"
  let ?opts = "if waitall then [Flag (CHR ''a'')] else []"
  have ok: "\<forall>o' \<in> set ?opts. opt_ok ''a'' o'" by (simp add: takes_argument_def strchr_Cons)
  have d: "drop 1 ?argv = concat (map opt_words ?opts) @ map show_int ps" by simp
  have h: "handle_opts wait_opt ?opts False = Inr waitall" by (simp add: wait_opt_def)
  obtain st j where st: "at_word st j" "drop j ?argv = map show_int ps"
    "getopt_loop wait_opt (Some ()) ''a'' ?argv getopt_start False = getopt_loop wait_opt (Some ()) ''a'' ?argv st waitall"
    using getopt_loop_opts [where bad = "Some ()", OF ok d at_word_start(1) h] by blast
  have "show_int (hd ps) \<noteq> [] \<and> hd (show_int (hd ps)) \<noteq> CHR ''-''"
    using assms show_nat_digits [OF hd_in_set [OF show_nat_not_Nil], of "nat (hd ps)"]
    by (cases ps) (auto simp: is_pid_def show_int_def is_digit_def)
  then have "\<exists>a as. map show_int ps = a # as \<and> (a = [] \<or> hd a \<noteq> CHR ''-'')" using assms(1) by (cases ps) auto
  from getopt_end [where handle = wait_opt and bad = "Some ()" and options = "''a''" and acc = waitall,
      OF st(1,2) disjI2 [OF this]]
  obtain st' where "getopt_loop wait_opt (Some ()) ''a'' ?argv st waitall = (Inr waitall, st')"
    "remaining ?argv st' = map show_int ps" by (elim exE conjE)
  with st(3) assms(1) show ?thesis by (simp add: robsd_wait_main_def)
qed


section \<open>Properties\<close>

text \<open>C17: given distinct processes, enough memory and a kernel that only reports ends, \<open>robsd-wait\<close>
  prints the processes of its arguments that were not in the first report, in their order; with \<open>-a\<close>
  it waits on until every process was reported, whatever the order and the repetitions, and then
  prints nothing.\<close>

theorem robsd_wait_waits:
  assumes "ps \<noteq> []" "distinct ps" "\<forall>p \<in> set ps. is_pid p"
    and "we_kqueue env" "parse_pids (we_alloc env) (map show_int ps) \<noteq> None"
    and "we_answers env = map Some answers" "\<forall>events \<in> set answers. \<forall>kev \<in> set events. reports_end kev"
  shows "robsd_wait_main env (''robsd-wait'' # map show_int ps) =
      (case answers of
         [] \<Rightarrow> None
       | events # _ \<Rightarrow>
           Some (Exit 0 (concat (map (\<lambda>p. show_int p @ [NL]) (filter (\<lambda>p. p \<notin> ke_ident ` set events) ps))))) \<and>
    robsd_wait_main env (''robsd-wait'' # ''-a'' # map show_int ps) =
      (if set ps \<subseteq> reported answers then Some (Exit 0 []) else None)"
proof -
  obtain e m where p: "parse_pids (we_alloc env) (map show_int ps) = Some (e, m)" using assms(5) by auto
  then obtain m0 where "map_init (we_alloc env) 4 4 False = Some m0"
    "parse_pids_loop (we_alloc env) False m0 (map show_int ps) = Some (e, m)"
    by (auto simp: parse_pids_def split: option.splits)
  with parse_pids_holds [of m0 "[]" ps "we_alloc env" False e m] holds_init assms(2,3)
  have m: "\<not> e" "holds_pids m ps" by auto
  have all: "map_option wait_outcome (wait_rest m (map Some answers)) =
      (if set ps \<subseteq> reported answers then Some (Exit 0 []) else None)"
    by (rule wait_rest_ends [OF m(2) assms(7)])
  have e: "wait_events waitall m (map Some answers) =
      (case answers of
         [] \<Rightarrow> None
       | events # _ \<Rightarrow>
           if waitall then map_option wait_outcome (wait_rest m (map Some answers))
           else Some (Exit 0 (concat (map (\<lambda>p. show_int p @ [NL]) (filter (\<lambda>p. p \<notin> ke_ident ` set events) ps)))))" for waitall
  proof (cases answers)
    case (Cons events rest)
    obtain m' where m': "kqueue_handle_events m events = (False, m')"
      "holds_pids m' (filter (\<lambda>p. p \<notin> ke_ident ` set events) ps)"
      using handle_events_ends [OF m(2), of events] assms(7) Cons by (auto simp: kqueue_handle_events_def)
    have "pid_count m > 0" using holds_count [OF m(2)] assms(1) by simp
    with m' show ?thesis by (simp add: Cons wait_events_def wait_outcome_def holds_lines)
  qed (simp add: wait_events_def)
  have "answers = [] \<Longrightarrow> \<not> set ps \<subseteq> reported answers" using assms(1) by simp
  with all e [of True] e [of False] show ?thesis
    using wait_arguments [OF assms(1,3), of env False] wait_arguments [OF assms(1,3), of env True] p m(1) assms(4,6)
    by (cases answers) simp_all
qed

text \<open>Some insertions never fail when there is memory.\<close>

lemma insert_pid_ok:
  assumes "map_wf m" "\<not> hm_key_str m" "table_log m < 31"
  shows "\<exists>a m' el. MAP_INSERT_VALUE all_ok z m k v = (Some a, m') \<and> table_log m' \<le> Suc (table_log m) \<and>
    hm_elems m' = hm_elems m @ [el] \<and> el_id el = hm_next m"
proof -
  let ?m = "m\<lparr>hm_vals := (hm_vals m)(hm_next m \<mapsto> z), hm_next := hm_next m + 1\<rparr>"
  let ?k = "take (key_get_size m k) k"
  let ?el = "\<lparr>el_id = hm_next m, el_key = ?k, el_hashv = HASH_JEN ?k\<rparr>"
  have "map_wf ?m" using assms(1) by (auto simp: map_wf_def elements_wf_def split: option.splits)
  then obtain m' where m': "HASH_ADD all_ok ?m ?el = (False, m')" "table_log m' \<le> Suc (table_log m)"
    using HASH_ADD_ok [of ?m ?el] assms(3) by (auto simp: table_log_def)
  then have "hm_elems m' = hm_elems m @ [?el]" by (auto simp: HASH_ADD_def split: option.splits prod.splits)
  moreover have "map_alloc_element all_ok m (key_get_size m k) \<noteq> None" using assms(2) by (simp add: map_alloc_element_def)
  ultimately show ?thesis
    using m' by (auto simp: MAP_INSERT_VALUE_def map_insert_def map_insert_n_def table_log_def Let_def)
qed

lemma map_init_log: "map_init ok n k b = Some m \<Longrightarrow> table_log m = 5 \<and> hm_elems m = [] \<and> hm_key_str m = b"
  by (auto simp: map_init_def table_log_def split: option.splits if_splits)

lemma parse_loop_ok:
  "holds_pids m qs \<Longrightarrow> distinct (qs @ ps) \<Longrightarrow> \<forall>p \<in> set ps. is_pid p \<Longrightarrow> table_log m + length ps \<le> 31 \<Longrightarrow>
   parse_pids_loop all_ok e m (map show_int ps) \<noteq> None"
proof (induction ps arbitrary: m qs)
  case (Cons p ps)
  then obtain a m1 where i: "MAP_INSERT_VALUE all_ok 0 m (pid_key p) p = (Some a, m1)" "table_log m1 \<le> Suc (table_log m)"
    using insert_pid_ok [of m 0 "pid_key p" p] by (auto simp: holds_pids_def sized_map_def)
  have "holds_pids m1 (qs @ [p])" using holds_insert [OF Cons.prems(1) _ _ i(1)] Cons.prems(2,3) by simp
  from Cons.IH [OF this] Cons.prems i show ?case by (simp add: strtonum_show_int is_pid_def)
qed simp

lemma map_init_pids: "\<exists>m. map_init all_ok 4 4 False = Some m"
  by (simp add: map_init_def pointer_align_def size_add_overflow_def)

lemma parse_pids_ok:
  assumes "distinct ps" "\<forall>p \<in> set ps. is_pid p" "length ps \<le> 26"
  shows "parse_pids all_ok (map show_int ps) \<noteq> None"
proof -
  obtain m :: pid_map where m: "map_init all_ok 4 4 False = Some m" using map_init_pids by blast
  with parse_loop_ok [OF holds_init [OF m], of ps] map_init_log [OF m] assms show ?thesis by (simp add: parse_pids_def)
qed

theorem robsd_wait_waits_witness:
  "robsd_wait_main \<lparr>we_alloc = \<lambda>_. True, we_kqueue = True,
       we_answers = map Some [[\<lparr>ke_ident = 7, ke_errno = None, ke_exit = True\<rparr>]]\<rparr>
     (''robsd-wait'' # map show_int [5, 7]) = Some (Exit 0 (show_int 5 @ [NL])) \<and>
   robsd_wait_main \<lparr>we_alloc = \<lambda>_. True, we_kqueue = True,
       we_answers = map Some [[\<lparr>ke_ident = 7, ke_errno = None, ke_exit = True\<rparr>]]\<rparr>
     (''robsd-wait'' # ''-a'' # map show_int [5, 7]) = None"
proof -
  let ?env = "\<lparr>we_alloc = \<lambda>_. True, we_kqueue = True,
    we_answers = map Some [[\<lparr>ke_ident = 7, ke_errno = None, ke_exit = True\<rparr>]]\<rparr>"
  have "parse_pids (\<lambda>_. True) (map show_int [5, 7]) \<noteq> None" by (rule parse_pids_ok) (simp_all add: is_pid_def)
  then show ?thesis
    using robsd_wait_waits [of "[5, 7]" ?env "[[\<lparr>ke_ident = 7, ke_errno = None, ke_exit = True\<rparr>]]"]
    by (simp add: is_pid_def reports_end_def)
qed

lemma wait_rest_idle:
  "pid_count m > 0 \<Longrightarrow> \<forall>events \<in> set answers. events = [] \<Longrightarrow> wait_rest m (map Some answers) = None"
  by (induction answers) (simp_all add: kqueue_handle_events_def)

lemma pid_count_pos: "hm_elems m \<noteq> [] \<Longrightarrow> pid_count m > 0"
  by (cases "hm_elems m") (simp_all add: pid_count_def map_elements_def map_iterate_def)

lemma remove_one:
  assumes "hm_elems m = [d, e]" "el_id d \<noteq> el_id e"
  shows "pid_count (map_remove m k) > 0"
  using assms by (intro pid_count_pos) (auto simp: map_remove_def HASH_DELETE_def Let_def split: option.split)

text \<open>C18: a process that is given twice is in the map twice and is removed once: after its end was
  reported, \<open>robsd-wait -a\<close> goes on waiting, although there is nothing left that could be reported.\<close>

theorem duplicate_never_ends:
  assumes "\<forall>events \<in> set answers. events = []" "is_pid p"
  shows "robsd_wait_main \<lparr>we_alloc = all_ok, we_kqueue = True,
      we_answers = map Some ([\<lparr>ke_ident = p, ke_errno = None, ke_exit = True\<rparr>] # answers)\<rparr>
    [''robsd-wait'', ''-a'', show_int p, show_int p] = None"
proof -
  obtain m :: pid_map where m: "map_init all_ok 4 4 False = Some m" using map_init_pids by blast
  have h: "holds_pids m []" "table_log m = 5" "\<not> hm_key_str m" "hm_elems m = []"
    using holds_init [OF m] map_init_log [OF m] by simp_all
  then obtain a m1 d where 1: "MAP_INSERT_VALUE all_ok 0 m (pid_key p) p = (Some a, m1)" "table_log m1 \<le> 6"
    "hm_elems m1 = [d]"
    using insert_pid_ok [of m 0 "pid_key p" p] by (auto simp: holds_pids_def sized_map_def)
  from holds_insert [OF h(1) assms(2) _ 1(1)] have h1: "map_wf m1" "\<not> hm_key_str m1"
    by (simp_all add: holds_pids_def sized_map_def)
  then obtain b m2 e where 2: "MAP_INSERT_VALUE all_ok 0 m1 (pid_key p) p = (Some b, m2)"
    "hm_elems m2 = [d, e]" "el_id e = hm_next m1"
    using insert_pid_ok [of m1 0 "pid_key p" p] 1 by auto
  have "el_id d \<noteq> el_id e" using h1(1) 1(3) 2(3) by (simp add: map_wf_def elements_wf_def)
  then have "wait_rest (map_remove m2 (pid_key p)) (map Some answers) = None"
    using wait_rest_idle assms(1) remove_one [OF 2(2)] by blast
  moreover have "parse_pids all_ok (map show_int [p, p]) = Some (False, m2)"
    using m 1(1) 2(1) assms(2) by (simp add: parse_pids_def strtonum_show_int is_pid_def)
  ultimately show ?thesis
    using wait_arguments [of "[p, p]" _ True] assms(2)
    by (simp add: wait_events_def kqueue_handle_events_def)
qed


theorem duplicate_never_ends_witness:
  "robsd_wait_main \<lparr>we_alloc = all_ok, we_kqueue = True,
      we_answers = map Some ([\<lparr>ke_ident = 5, ke_errno = None, ke_exit = True\<rparr>] # [])\<rparr>
    [''robsd-wait'', ''-a'', show_int 5, show_int 5] = None"
  by (rule duplicate_never_ends) (simp_all add: is_pid_def)

end
