(* ===== verification/StepTypes.thy ===== *)
theory StepTypes
  imports Step
begin

text \<open>
  The types of the fields that \<open>step.c\<close> reads: the readers of a step take a member of a union without
  looking at the type, so every step that comes from a file must have a value of the defined type in
  every field.
\<close>

section \<open>Typing\<close>

fun has_type :: "step_field_type \<Rightarrow> step_field \<Rightarrow> bool" where
  "has_type STRING_TYPE (STRING s) = True"
| "has_type INTEGER_TYPE (INTEGER v) = (LLONG_MIN \<le> v \<and> v \<le> LLONG_MAX)"
| "has_type _ _ = False"

lemma has_type_STRING [simp]: "has_type STRING_TYPE f \<longleftrightarrow> (\<exists>s. f = STRING s)"
  by (cases f) auto

lemma has_type_INTEGER [simp]: "has_type INTEGER_TYPE f \<longleftrightarrow> (\<exists>v. f = INTEGER v \<and> LLONG_MIN \<le> v \<and> v \<le> LLONG_MAX)"
  by (cases f) auto

definition step_typed :: "step \<Rightarrow> bool" where
  "step_typed st \<longleftrightarrow> length st = length Step.fields \<and> (\<forall>fd \<in> set Step.fields. has_type (fd_type fd) (st ! fd_index fd))"

text \<open>While a row is read, mandatory fields may still be unknown.\<close>

definition step_typing :: "step \<Rightarrow> bool" where
  "step_typing st \<longleftrightarrow> length st = length Step.fields \<and>
     (\<forall>fd \<in> set Step.fields. has_type (fd_type fd) (st ! fd_index fd) \<or>
        \<not> fd_optional fd \<and> st ! fd_index fd = UNKNOWN)"

lemma strtonum_in_range: "strtonum s lo hi = (v, None) \<Longrightarrow> lo \<le> v \<and> v \<le> hi"
  by (auto simp: strtonum_def split: if_splits prod.splits)

lemma find_field_in: "field_definition_find_by_name name = Some fd \<Longrightarrow> fd \<in> set Step.fields"
  unfolding field_definition_find_by_name_def by (auto simp: find_Some_iff)

lemma field_index_unique:
  "fd \<in> set Step.fields \<Longrightarrow> fd' \<in> set Step.fields \<Longrightarrow> fd_index fd = fd_index fd' \<Longrightarrow> fd = fd'"
proof -
  have "inj_on fd_index (set Step.fields)"
    by (rule conjunct2 [OF distinct_map [THEN iffD1]]) (simp add: Step.fields_def)
  then show "fd \<in> set Step.fields \<Longrightarrow> fd' \<in> set Step.fields \<Longrightarrow> fd_index fd = fd_index fd' \<Longrightarrow> fd = fd'"
    by (rule inj_onD)
qed

lemma field_index_less: "fd \<in> set Step.fields \<Longrightarrow> fd_index fd < length Step.fields"
  by (auto simp: Step.fields_def)

lemma step_typing_update:
  assumes "step_typing st" "fd \<in> set Step.fields" "has_type (fd_type fd) f"
  shows "step_typing (st[fd_index fd := f])"
  unfolding step_typing_def
proof (intro conjI ballI)
  show "length (st[fd_index fd := f]) = length Step.fields" using assms(1) by (simp add: step_typing_def)
next
  fix fd' assume fd': "fd' \<in> set Step.fields"
  show "has_type (fd_type fd') (st[fd_index fd := f] ! fd_index fd') \<or>
      \<not> fd_optional fd' \<and> st[fd_index fd := f] ! fd_index fd' = UNKNOWN"
  proof (cases "fd' = fd")
    case True
    then show ?thesis using assms field_index_less [OF assms(2)] by (simp add: step_typing_def)
  next
    case False
    then have "fd_index fd \<noteq> fd_index fd'" using field_index_unique [OF assms(2) fd'] by auto
    then show ?thesis using assms(1) fd' by (auto simp: step_typing_def)
  qed
qed

lemma step_set_field_typing:
  assumes "step_set_field st name val = (False, st')" "step_typing st"
  shows "step_typing st'"
proof -
  from assms(1) obtain fd where fd: "field_definition_find_by_name name = Some fd"
    by (auto simp: step_set_field_def split: option.splits)
  from assms(1) fd obtain f where "st' = st[fd_index fd := f]" "has_type (fd_type fd) f"
    by (auto simp: step_set_field_def split: step_field_type.splits prod.splits option.splits dest: strtonum_in_range)
  with step_typing_update [OF assms(2) find_field_in [OF fd]] show ?thesis by simp
qed

lemma step_validate_typed:
  assumes "step_validate st lx lno = (False, lx')" "step_typing st"
  shows "step_typed st"
proof -
  have "step_missing st = []" using assms(1) by (simp add: step_validate_def)
  then have "\<forall>fd \<in> set Step.fields. \<not> fd_optional fd \<longrightarrow> st ! fd_index fd \<noteq> UNKNOWN"
    by (auto simp: step_missing_def filter_empty_conv)
  with assms(2) show ?thesis by (auto simp: step_typing_def step_typed_def)
qed

lemma initial_step_typing: "step_typing initial_step"
  by (simp add: step_typing_def initial_step_def Step.fields_def)

section \<open>Reading\<close>

lemma steps_parse_row_loop_typed:
  assumes "steps_parse_row_loop columns st col lno lx = Some (e, st', lx')" "\<not> e" "step_typing st"
  shows "step_typed st'"
proof -
  define P where "P st r \<longleftrightarrow> (step_typing st \<longrightarrow> \<not> fst r \<longrightarrow> step_typed (fst (snd r)))"
    for st and r :: "bool \<times> step \<times> step_token lexer"
  have "P st (e, st', lx')"
  proof (rule steps_parse_row_loop.raw_induct [where P = "\<lambda>_ st _ _ _ r. P st r", OF _ assms(1)])
    fix loop columns st col lno lx r
    assume ih: "\<And>cs st col lno lx r. loop cs st col lno lx = Some r \<Longrightarrow> P st r"
      and r: "(case lexer_if lx (Tok TOKEN_COMMA) of
        (None, lx1) \<Rightarrow> (case expect lx1 TOKEN_VALUE of (None, lx2) \<Rightarrow> Some (True, st, lx2)
          | (Some val, lx2) \<Rightarrow>
               let lno' = (if lno = 0 then tk_lno val else lno) in
               if col \<ge> length columns then
                 Some (True, st, lexer_error lx2 (tk_lno val) (''unknown column '' @ show_nat col))
               else if field_definition_find_by_name (columns ! col) = None then
                 Some (True, st, lexer_error lx2 (tk_lno val)
                   (''unknown field '' @ [CHR 0x27] @ columns ! col @ [CHR 0x27]))
               else
                 (case step_set_field st (columns ! col) (tk_str val) of (e, st') \<Rightarrow>
                    if e then Some (True, st', lx2)
                    else
                      (case lexer_if lx2 (Tok TOKEN_NEWLINE) of
                         (None, lx3) \<Rightarrow>
                           (case expect lx3 TOKEN_COMMA of
                              (None, lx4) \<Rightarrow> Some (True, st', lx4)
                            | (Some _, lx4) \<Rightarrow> loop columns st' (Suc col) lno' lx4)
                       | (Some _, lx3) \<Rightarrow>
                           (case step_validate st' lx3 lno' of (e, lx4) \<Rightarrow> Some (e, st', lx4)))))
      | (Some _, lx1) \<Rightarrow> loop columns st (Suc col) lno lx1) = Some r"
    from r show "P st r"
      by (auto simp: P_def Let_def split: prod.splits option.splits if_splits
          dest: step_set_field_typing step_validate_typed [OF _ step_set_field_typing] dest!: ih [unfolded P_def])
  qed
  with assms(2,3) show ?thesis by (simp add: P_def)
qed

lemma steps_parse_rows_typed:
  assumes "steps_parse_rows columns steps lx = Some (e, steps', lx')" "\<not> e" "\<forall>st \<in> set steps. step_typed st"
  shows "\<forall>st \<in> set steps'. step_typed st"
proof -
  define P where "P steps r \<longleftrightarrow> ((\<forall>st \<in> set steps. step_typed st) \<longrightarrow> \<not> fst r \<longrightarrow> (\<forall>st \<in> set (fst (snd r)). step_typed st))"
    for steps and r :: "bool \<times> step list \<times> step_token lexer"
  have row: "step_typed st" if "steps_parse_row columns lx1 = Some (False, st, lx2)" for columns lx1 st lx2
    using that steps_parse_row_loop_typed [where st = initial_step and e = False] initial_step_typing
    by (simp add: steps_parse_row_def step_init_eq)
  have "P steps (e, steps', lx')"
  proof (rule steps_parse_rows.raw_induct [where P = "\<lambda>_ steps _ r. P steps r", OF _ assms(1)])
    fix loop columns steps lx r
    assume ih: "\<And>cs steps lx r. loop cs steps lx = Some r \<Longrightarrow> P steps r"
      and r: "(case lexer_peek lx LEXER_EOF of (eof, lx1) \<Rightarrow>
        if eof then Some (False, steps, lx1)
        else
          Option.bind (steps_parse_row columns lx1) (\<lambda>(e, st, lx2).
            if e then Some (True, steps @ [st], lx2)
            else loop columns (steps @ [st]) lx2)) = Some r"
    from r show "P steps r"
      by (auto simp: P_def split: prod.splits if_splits bind_splits dest!: row ih [unfolded P_def])
  qed
  with assms(2,3) show ?thesis by (simp add: P_def)
qed

lemma steps_parse_types:
  assumes "steps_parse locked input = Some (Some sf)" "st \<in> set (sf_steps sf)"
  shows "step_typed st"
  using assms steps_parse_rows_typed [of _ "[]"]
  by (auto simp: steps_parse_def split: bind_splits prod.splits if_splits)

text \<open>What the readers of a typed step get.\<close>

lemma typed_get:
  assumes "step_typed st"
  shows "\<exists>v. step_get_integer st ''step'' = Some v" "\<exists>s. step_get_str st ''name'' = Some s"
    "\<exists>v. step_get_integer st ''exit'' = Some v" "\<exists>v. step_get_integer st ''duration'' = Some v"
    "\<exists>v. step_get_integer st ''delta'' = Some v" "\<exists>s. step_get_str st ''log'' = Some s"
    "\<exists>s. step_get_str st ''user'' = Some s" "\<exists>v. step_get_integer st ''time'' = Some v"
    "\<exists>v. step_get_integer st ''skip'' = Some v"
  using assms
  by (auto simp: step_typed_def step_get_integer_def step_get_str_def step_get_field_def
      field_definition_find_by_name_def Step.fields_def strcmp_eq_0)

text \<open>C12: every step that \<open>steps_parse\<close> returns has a value of the right type in every field, strings
  where a string and 64 bit integers where an integer is defined, so no reader of a step takes the
  wrong member of the union or an unset one.\<close>

theorem steps_parse_typed:
  assumes "steps_parse locked input = Some (Some sf)" "st \<in> set (sf_steps sf)"
  shows "length st = length Step.fields \<and>
    (\<forall>fd \<in> set Step.fields. case fd_type fd of
       STRING_TYPE \<Rightarrow> \<exists>s. step_get_str st (fd_name fd) = Some s
     | INTEGER_TYPE \<Rightarrow> \<exists>v. step_get_integer st (fd_name fd) = Some v \<and> LLONG_MIN \<le> v \<and> v \<le> LLONG_MAX
     | UNKNOWN_TYPE \<Rightarrow> False)"
proof -
  have t: "step_typed st" by (rule steps_parse_types [OF assms])
  have "field_definition_find_by_name (fd_name fd) = Some fd" if "fd \<in> set Step.fields" for fd
    using that by (auto simp: in_set_conv_nth intro!: find_field(1)) (simp add: Step.fields_def)
  then have "step_get_str st (fd_name fd) = sf_str (st ! fd_index fd)"
    "step_get_integer st (fd_name fd) = sf_integer (st ! fd_index fd)" if "fd \<in> set Step.fields" for fd
    using that by (simp_all add: step_get_str_def step_get_integer_def step_get_field_def)
  moreover have "has_type (fd_type fd) (st ! fd_index fd)" if "fd \<in> set Step.fields" for fd
    using t that by (simp add: step_typed_def)
  moreover have "length st = length Step.fields" using t by (simp add: step_typed_def)
  ultimately show ?thesis by (fastforce split: step_field_type.splits)
qed

theorem steps_parse_typed_witness:
  "\<exists>s. step_get_str [INTEGER 1, STRING ''env'', INTEGER 0, INTEGER 5, INTEGER (- 2), STRING [],
      STRING ''root'', INTEGER 1700000000, INTEGER 0] ''name'' = Some s"
proof -
  let ?st = "[INTEGER 1, STRING ''env'', INTEGER 0, INTEGER 5, INTEGER (- 2), STRING [],
      STRING ''root'', INTEGER 1700000000, INTEGER 0]"
  have "steps_parse True (Some (steps_text [?st])) = Some (Some \<lparr>sf_columns = map fd_name Step.fields, sf_steps = [?st]\<rparr>)"
    by (rule steps_parse_text) (simp add: step_ok_def Step.fields_def field_ok_def clean_def)
  from steps_parse_typed [OF this, of ?st] show ?thesis by (simp add: Step.fields_def)
qed

end
