(* ===== verification/Report.thy ===== *)
theory Report
  imports StepTypes Invocation RegressLog Programs
begin

text \<open>
  \<open>report.c\<close>: the mail that reports on an invocation. Functions take and return the configuration, whose
  lookups may change it, and the text written so far; the steps come from \<open>steps_parse\<close>, so their
  fields have the types they are read with.
\<close>

section \<open>State\<close>

text \<open>The answers of the system: whether a file that cannot be read is absent, sizes, the name of the
  host and whether the step file can be locked.\<close>

record report_env =
  re_os :: os
  re_dirs :: directories
  re_absent :: "string \<Rightarrow> bool"
  re_size :: "string \<Rightarrow> int option"
  re_hostname :: "string option"
  re_locks :: bool

record report_context =
  rc_builddir :: string
  rc_prev_builddir :: "string option"
  rc_step_file :: step_file
  rc_mode :: robsd_mode

type_synonym report_state = "config \<times> string"

datatype step_log = STEP_LOG_NONE | STEP_LOG_HANDLED | STEP_LOG_UNHANDLED | STEP_LOG_ERROR

abbreviation re_read :: "report_env \<Rightarrow> string \<Rightarrow> string option" where
  "re_read env \<equiv> os_read (re_os env)"

definition threshold_duration_s :: int where "threshold_duration_s = 60"
definition threshold_size_b :: int where "threshold_size_b = 1024 * 1024"
definition threshold_size_ramdisk_b :: int where "threshold_size_ramdisk_b = 1024"

definition str_field :: "step \<Rightarrow> string \<Rightarrow> string" where
  "str_field st name = (case step_get_str st name of None \<Rightarrow> [] | Some s \<Rightarrow> s)"

definition int_field :: "step \<Rightarrow> string \<Rightarrow> int" where
  "int_field st name = (case step_get_integer st name of None \<Rightarrow> 0 | Some v \<Rightarrow> v)"

text \<open>A conversion to \<open>int\<close>.\<close>

definition c_int :: "int \<Rightarrow> int" where
  "c_int i = sint (word_of_int i :: i32)"

section \<open>Files\<close>

definition buffer_trim_lines :: "string \<Rightarrow> string" where
  "buffer_trim_lines bf = rev (dropWhile (\<lambda>c. c = NL) (rev bf))"

definition format_file :: "report_env \<Rightarrow> string \<Rightarrow> string \<Rightarrow> bool \<times> string" where
  "format_file env path out =
     (case re_read env path of
        None \<Rightarrow> (True, out)
      | Some bf \<Rightarrow> (False, out @ buffer_trim_lines bf @ [NL]))"

text \<open>The part of the text before its last lines: what is left of the length.\<close>

fun before_last_lines :: "nat \<Rightarrow> string \<Rightarrow> string" where
  "before_last_lines 0 str = str"
| "before_last_lines (Suc nlines) str =
     (let a = rev (dropWhile (\<lambda>c. c = NL) (rev str));
          b = rev (dropWhile (\<lambda>c. c \<noteq> NL) (rev a))
      in if b = [] then [] else before_last_lines nlines b)"

definition last_lines :: "string \<Rightarrow> nat \<Rightarrow> string" where
  "last_lines str nlines = drop (length (before_last_lines nlines str)) str"

definition previous_builddir :: "report_env \<Rightarrow> config \<Rightarrow> string \<Rightarrow> string option \<times> config" where
  "previous_builddir env cf builddir =
     (case config_interpolate_str (re_os env) cf ''${robsddir}'' of
        (None, cf1) \<Rightarrow> (None, cf1)
      | (Some robsddir, cf1) \<Rightarrow>
          (case config_interpolate_str (re_os env) cf1 ''${keep-dir}'' of
             (None, cf2) \<Rightarrow> (None, cf2)
           | (Some keepdir, cf2) \<Rightarrow>
               (case invocation_alloc (re_dirs env) robsddir keepdir INVOCATION_SORT_DESC of
                  None \<Rightarrow> (None, cf2)
                | Some is \<Rightarrow> (map_option ie_path (find (\<lambda>e. ie_path e \<noteq> builddir) (walk_all is)), cf2))))"

definition step_get_log_path :: "report_context \<Rightarrow> step \<Rightarrow> string option" where
  "step_get_log_path r st =
     (let log = str_field st ''log'' in if log = [] then None else Some (rc_builddir r @ CHR ''/'' # log))"

section \<open>Logs of the modes\<close>

definition cvs_paths :: "(robsd_mode \<times> string) list" where
  "cvs_paths =
     [(ROBSD, ''cvs-src-up.log''), (ROBSD, ''cvs-src-ci.log''),
      (ROBSD, ''cvs-xenocara-up.log''), (ROBSD, ''cvs-xenocara-ci.log''),
      (ROBSD_PORTS, ''cvs-ports-up.log''), (ROBSD_PORTS, ''cvs-ports-ci.log'')]"

fun cvs_files :: "report_env \<Rightarrow> string list \<Rightarrow> nat \<Rightarrow> string \<Rightarrow> step_log \<times> string" where
  "cvs_files env [] ncvs out = (STEP_LOG_HANDLED, out)"
| "cvs_files env (path # paths) ncvs out =
     (if re_size env path = Some 0 then cvs_files env paths ncvs out
      else
        (case format_file env path (if ncvs > 0 then out @ [NL] else out) of
           (True, out1) \<Rightarrow> (STEP_LOG_ERROR, out1)
         | (False, out1) \<Rightarrow> cvs_files env paths (Suc ncvs) out1))"

definition report_cvs_log :: "report_env \<Rightarrow> report_context \<Rightarrow> report_state \<Rightarrow> step_log \<times> report_state" where
  "report_cvs_log env r s =
     (case config_interpolate_str (re_os env) (fst s) ''${tmp-dir}'' of
        (None, cf) \<Rightarrow> (STEP_LOG_ERROR, cf, snd s)
      | (Some tmpdir, cf) \<Rightarrow>
          (case cvs_files env
             (map (\<lambda>(m, f). tmpdir @ CHR ''/'' # f) (filter (\<lambda>(m, f). m = rc_mode r) cvs_paths)) 0 (snd s @ [NL]) of
             (rv, out) \<Rightarrow> (rv, cf, out)))"

text \<open>Both C libraries print a null string as \<open>(null)\<close>.\<close>

definition cross_report_subject :: "report_env \<Rightarrow> report_context \<Rightarrow> config \<Rightarrow> string \<times> config" where
  "cross_report_subject env r cf =
     (case re_read env (rc_builddir r @ ''/target'') of
        None \<Rightarrow> (''(null)'', cf)
      | Some bf \<Rightarrow>
          (let target = takeWhile (\<lambda>c. c \<noteq> NL) (cstr bf) in
           case config_interpolate_str (re_os env) cf ''${machine}'' of
             (machine, cf1) \<Rightarrow>
               ('' '' @ (case machine of None \<Rightarrow> [] | Some m \<Rightarrow> m) @ ''.'' @ target @ '': '', cf1)))"

definition ports_report_skip_step :: "step \<Rightarrow> int" where
  "ports_report_skip_step st =
     (let name = str_field st ''name'' in if name = ''cvs'' then 0 else if name = ''dpb'' then 0 else 1)"

definition ports_report_step_log ::
  "report_env \<Rightarrow> report_context \<Rightarrow> step \<Rightarrow> report_state \<Rightarrow> step_log \<times> report_state" where
  "ports_report_step_log env r st s =
     (let name = str_field st ''name'' in
      if name = ''cvs'' then report_cvs_log env r s
      else if name = ''dpb'' \<and> int_field st ''exit'' = 0 then
        (case config_interpolate_str (re_os env) (fst s) ''${tmp-dir}'' of
           (None, cf) \<Rightarrow> (STEP_LOG_ERROR, cf, snd s)
         | (Some tmpdir, cf) \<Rightarrow>
             (case format_file env (tmpdir @ ''/packages.diff'') (snd s @ [NL]) of
                (e, out) \<Rightarrow> (if e then STEP_LOG_ERROR else STEP_LOG_HANDLED, cf, out)))
      else (STEP_LOG_UNHANDLED, s))"

definition is_regress_quiet :: "report_env \<Rightarrow> config \<Rightarrow> string \<Rightarrow> bool \<times> config" where
  "is_regress_quiet env cf name =
     (case config_value_integer (re_os env) cf (regressname name ''quiet'') 0 of (v, cf1) \<Rightarrow> (v = 1, cf1))"

definition regress_report_skip_step :: "report_env \<Rightarrow> report_context \<Rightarrow> config \<Rightarrow> step \<Rightarrow> int \<times> config" where
  "regress_report_skip_step env r cf st =
     (let name = str_field st ''name'' in
      if name = ''end'' then (1, cf)
      else
        (case is_regress_quiet env cf name of
           (True, cf1) \<Rightarrow> (1, cf1)
         | (False, cf1) \<Rightarrow>
             (case step_get_log_path r st of
                None \<Rightarrow> (-1, cf1)
              | Some log_path \<Rightarrow>
                  (if regress_log_peek (re_read env log_path) {REGRESS_LOG_SKIPPED, REGRESS_LOG_XFAILED} > 0
                   then 0 else 1, cf1))))"

definition number_of_failures_report_status :: "report_context \<Rightarrow> string" where
  "number_of_failures_report_status r =
     (let nfailures = length (filter (\<lambda>st. int_field st ''exit'' \<noteq> 0) (sf_steps (rc_step_file r)))
      in if nfailures > 0
         then show_nat nfailures @ '' failure'' @ (if nfailures > 1 then ''s'' else '''')
         else ''ok'')"

definition regress_report_step_log ::
  "report_env \<Rightarrow> report_context \<Rightarrow> step \<Rightarrow> report_state \<Rightarrow> step_log \<times> report_state" where
  "regress_report_step_log env r st s =
     (case step_get_log_path r st of
        None \<Rightarrow> (STEP_LOG_ERROR, s)
      | Some log_path \<Rightarrow>
          (case is_regress_quiet env (fst s) (str_field st ''name'') of
             (q, cf) \<Rightarrow>
               (case regress_log_parse (re_read env log_path) []
                  ({REGRESS_LOG_FAILED, REGRESS_LOG_XPASSED} \<union>
                   (if q then {} else {REGRESS_LOG_SKIPPED, REGRESS_LOG_XFAILED})) of
                  (rv, bf) \<Rightarrow>
                    if rv > 0 then (STEP_LOG_HANDLED, cf, snd s @ NL # bf)
                    else if rv < 0 then (STEP_LOG_ERROR, cf, snd s)
                    else (STEP_LOG_UNHANDLED, cf, snd s))))"

definition canvas_report_step_log ::
  "report_env \<Rightarrow> report_context \<Rightarrow> step \<Rightarrow> report_state \<Rightarrow> step_log \<times> report_state" where
  "canvas_report_step_log env r st s =
     (case step_get_log_path r st of
        None \<Rightarrow> (STEP_LOG_UNHANDLED, s)
      | Some log_path \<Rightarrow>
          (case regress_log_parse (re_read env log_path) [] {REGRESS_LOG_FAILED} of
             (rv, bf) \<Rightarrow>
               if rv > 0 then (STEP_LOG_HANDLED, fst s, snd s @ NL # cstr bf)
               else
                 (case re_read env log_path of
                    None \<Rightarrow> (STEP_LOG_ERROR, s)
                  | Some bf1 \<Rightarrow> (STEP_LOG_HANDLED, fst s, snd s @ NL # cstr bf1))))"

section \<open>Subject\<close>

definition report_hostname :: "report_env \<Rightarrow> string option" where
  "report_hostname env = map_option (takeWhile (\<lambda>c. c \<noteq> CHR ''.'')) (re_hostname env)"

fun last_status :: "step list \<Rightarrow> string" where
  "last_status [] = ''ok''"
| "last_status (st # sts) =
     (if int_field st ''skip'' = 1 then last_status sts
      else if int_field st ''exit'' = 0 then ''ok''
      else ''failed in '' @ str_field st ''name'')"

definition report_status :: "report_context \<Rightarrow> string" where
  "report_status r =
     (if rc_mode r = ROBSD_REGRESS \<or> rc_mode r = CANVAS then number_of_failures_report_status r
      else last_status (rev (sf_steps (rc_step_file r))))"

definition canvas_report_subject :: "report_env \<Rightarrow> report_context \<Rightarrow> report_state \<Rightarrow> bool \<times> report_state" where
  "canvas_report_subject env r s =
     (case config_interpolate_str (re_os env) (fst s) ''${canvas-name}'' of
        (None, cf) \<Rightarrow> (True, cf, snd s)
      | (Some canvas_name, cf) \<Rightarrow>
          (False, cf, snd s @ ''Subject: '' @ robsd_mode_str (rc_mode r) @ '': '' @ canvas_name @ '': '' @
             report_status r @ [NL, NL]))"

definition report_subject :: "report_env \<Rightarrow> report_context \<Rightarrow> report_state \<Rightarrow> bool \<times> report_state" where
  "report_subject env r s =
     (if rc_mode r = CANVAS then canvas_report_subject env r s
      else
        (case report_hostname env of
           None \<Rightarrow> (True, s)
         | Some hostname \<Rightarrow>
             (case (if rc_mode r = ROBSD_CROSS then cross_report_subject env r (fst s) else ('' '', fst s)) of
                (status_prefix, cf) \<Rightarrow>
                  (False, cf, snd s @ ''Subject: '' @ robsd_mode_str (rc_mode r) @ '': '' @ hostname @ '':'' @
                     status_prefix @ report_status r @ [NL, NL]))))"

section \<open>Durations and sizes\<close>

definition pad2 :: "int \<Rightarrow> string" where
  "pad2 i = (let s = show_int i in if length s < 2 then CHR ''0'' # s else s)"

definition format_duration :: "int \<Rightarrow> string" where
  "format_duration duration =
     (let hours = c_div duration 3600; d1 = c_mod duration 3600;
          minutes = c_div d1 60; seconds = c_mod d1 60
      in pad2 (c_int hours) @ '':'' @ pad2 (c_int minutes) @ '':'' @ pad2 (c_int seconds))"

definition format_duration_and_delta :: "int \<Rightarrow> int \<Rightarrow> int \<Rightarrow> string" where
  "format_duration_and_delta duration delta delta_threshold =
     (if delta = 0 then format_duration duration
      else
        (let delta_abs = (if delta < 0 then - delta else delta)
         in if delta_abs \<le> delta_threshold then format_duration duration
            else format_duration duration @ '' ('' @ (if delta < 0 then ''-'' else ''+'') @
              format_duration delta_abs @ '')''))"

text \<open>The quotient of a division by a power of two is exact below $2^{53}$ bytes, so what is printed is
  the nearest tenth, the even one in a tie.\<close>

definition tenths :: "nat \<Rightarrow> nat \<Rightarrow> nat" where
  "tenths n d =
     (let q = n * 10 div d; r = n * 10 mod d
      in if 2 * r < d then q else if 2 * r > d then Suc q else if even q then q else Suc q)"

definition format_size :: "nat \<Rightarrow> string" where
  "format_size n =
     (let (d, prefix) =
        (if n \<ge> 1024 * 1024 then (1024 * 1024, ''M'') else if n \<ge> 1024 then (1024, ''K'') else (1, ''''));
          t = tenths n d
      in show_nat (t div 10) @ ''.'' @ show_nat (t mod 10) @ prefix)"

definition report_comment :: "report_env \<Rightarrow> report_context \<Rightarrow> report_state \<Rightarrow> bool \<times> report_state" where
  "report_comment env r s =
     (case config_interpolate_str (re_os env) (fst s) ''${comment-path}'' of
        (None, cf) \<Rightarrow> (True, cf, snd s)
      | (Some path, cf) \<Rightarrow>
          (case re_read env path of
             None \<Rightarrow> (\<not> re_absent env path, cf, snd s)
           | Some bf \<Rightarrow>
               (False, cf, snd s @ NL # ''> comment'' @ NL # buffer_trim_lines bf @ [NL])))"

text \<open>\<open>None\<close> when the sum of the durations overflows.\<close>

definition report_stats_duration :: "report_context \<Rightarrow> string option" where
  "report_stats_duration r =
     (let steps = sf_steps (rc_step_file r) in
      case steps_find_by_name steps ''end'' of
        Some k \<Rightarrow>
          Some (format_duration_and_delta (int_field (steps ! k) ''duration'') (int_field (steps ! k) ''delta'')
            threshold_duration_s)
      | None \<Rightarrow>
          map_option (\<lambda>d. format_duration_and_delta d 0 threshold_duration_s)
            (steps_total_duration (rc_step_file r) (rc_mode r)))"

definition size_cmp :: "string \<Rightarrow> string \<Rightarrow> int" where
  "size_cmp a b = strcmp a b"

text \<open>The pattern \<open>*.diff.[[:digit:]]*\<close>.\<close>

definition is_numbered_diff :: "string \<Rightarrow> bool" where
  "is_numbered_diff name \<longleftrightarrow>
     (\<exists>i \<in> set [0..<length name].
        is_prefix ''.diff.'' (drop i name) \<and>
        (case drop (i + 6) name of [] \<Rightarrow> False | d # _ \<Rightarrow> is_digit d))"

definition size_line :: "report_env \<Rightarrow> string \<Rightarrow> invocation_entry \<Rightarrow> string option" where
  "size_line env prev_builddir e =
     (if ie_basename e = ''CHANGELOG'' \<or> is_numbered_diff (ie_basename e) then None
      else
        (case (re_size env (prev_builddir @ ''/rel/'' @ ie_basename e), re_size env (ie_path e)) of
           (Some prev_size, Some sz) \<Rightarrow>
             (let delta = sz - prev_size; delta_abs = (if delta < 0 then - delta else delta)
              in if (if ie_basename e = ''bsd.rd'' then delta_abs < threshold_size_ramdisk_b
                     else delta_abs < threshold_size_b) then None
                 else Some (''Size: '' @ ie_basename e @ '' '' @ format_size (nat sz) @ '' ('' @
                   (if delta < 0 then ''-'' else ''+'') @ format_size (nat delta_abs) @ '')''))
         | _ \<Rightarrow> None))"

definition report_stats_sizes :: "report_env \<Rightarrow> report_context \<Rightarrow> string \<Rightarrow> string" where
  "report_stats_sizes env r out =
     (case rc_prev_builddir r of
        None \<Rightarrow> out
      | Some prev_builddir \<Rightarrow>
          (case invocation_find (re_dirs env) (rc_builddir r @ ''/rel'') ''*'' of
             None \<Rightarrow> out
           | Some is \<Rightarrow>
               out @ concat (map (\<lambda>l. l @ [NL])
                 (c_qsort size_cmp (List.map_filter (size_line env prev_builddir) (walk_all is))))))"

definition report_stats ::
  "report_env \<Rightarrow> report_context \<Rightarrow> report_state \<Rightarrow> (bool \<times> report_state) option" where
  "report_stats env r s =
     map_option (\<lambda>duration.
       (let out = snd s @ ''> stats'' @ NL # ''Status: '' @ report_status r @ NL # ''Duration: '' @ duration @
          NL # ''Build: '' @ rc_builddir r @ [NL]
        in case config_interpolate_str (re_os env) (fst s) ''${tags-path}'' of
             (None, cf) \<Rightarrow> (True, cf, out)
           | (Some tags_path, cf) \<Rightarrow>
               (let out1 = (case re_read env tags_path of None \<Rightarrow> out | Some tags \<Rightarrow> out @ ''Tags: '' @ tags)
                in (False, cf, if rc_mode r = ROBSD then report_stats_sizes env r out1 else out1))))
       (report_stats_duration r)"

section \<open>Steps\<close>

text \<open>The loop of \<open>is_log_empty\<close>: whether all lines begin with a plus sign.\<close>

function log_empty :: "string \<Rightarrow> bool" where
  "log_empty buf =
     (case buf of
        [] \<Rightarrow> True
      | c # _ \<Rightarrow>
          if c \<noteq> CHR ''+'' then False
          else (case dropWhile (\<lambda>c. c \<noteq> NL) buf of [] \<Rightarrow> True | _ # nx \<Rightarrow> log_empty nx))"
  by pat_completeness auto
termination
proof (relation "measure length")
  fix buf :: string and c s d nx
  assume "buf = c # s" "dropWhile (\<lambda>c. c \<noteq> NL) buf = d # nx"
  then have "length (d # nx) \<le> length buf" by (metis length_dropWhile_le)
  then show "(nx, buf) \<in> measure length" by simp
qed simp

declare log_empty.simps [simp del]

definition is_log_empty :: "report_env \<Rightarrow> report_context \<Rightarrow> step \<Rightarrow> bool" where
  "is_log_empty env r st =
     (case re_read env (rc_builddir r @ CHR ''/'' # str_field st ''log'') of
        None \<Rightarrow> True
      | Some bf \<Rightarrow> log_empty bf)"

definition report_skip_step :: "report_env \<Rightarrow> report_context \<Rightarrow> config \<Rightarrow> step \<Rightarrow> int \<times> config" where
  "report_skip_step env r cf st =
     (if rc_mode r = ROBSD_PORTS then (ports_report_skip_step st, cf)
      else if rc_mode r = ROBSD_REGRESS then regress_report_skip_step env r cf st
      else
        (let name = str_field st ''name'' in
         (if name = ''cvs'' then 0
          else if name = ''checkflist'' \<and> \<not> is_log_empty env r st then 0
          else 1, cf)))"

text \<open>What \<open>report_cvs_log\<close> returns is never negative, so its error is lost.\<close>

definition report_step_log ::
  "report_env \<Rightarrow> report_context \<Rightarrow> step \<Rightarrow> report_state \<Rightarrow> bool \<times> report_state" where
  "report_step_log env r st s =
     (case (if rc_mode r = ROBSD_PORTS then ports_report_step_log env r st s
            else if rc_mode r = ROBSD_REGRESS then regress_report_step_log env r st s
            else if rc_mode r = CANVAS then canvas_report_step_log env r st s
            else (STEP_LOG_NONE, s)) of
        (rv, s1) \<Rightarrow>
          if rv = STEP_LOG_ERROR then (True, s1)
          else if rv = STEP_LOG_HANDLED then (False, s1)
          else if str_field st ''name'' = ''cvs'' then (False, snd (report_cvs_log env r s1))
          else
            (case step_get_log_path r st of
               None \<Rightarrow> (False, s1)
             | Some log_path \<Rightarrow>
                 (case re_read env log_path of
                    None \<Rightarrow> (True, s1)
                  | Some bf \<Rightarrow>
                      (let str = last_lines bf 10
                       in (False, fst s1, snd s1 @ NL # cstr str @
                             (if str \<noteq> [] \<and> last str \<noteq> NL then [NL] else []))))))"

definition report_step :: "report_env \<Rightarrow> report_context \<Rightarrow> step \<Rightarrow> report_state \<Rightarrow> bool \<times> report_state" where
  "report_step env r st s =
     report_step_log env r st
       (fst s, snd s @ NL # ''> '' @ str_field st ''name'' @ NL #
          ''Exit: '' @ show_int (c_int (int_field st ''exit'')) @ NL #
          ''Duration: '' @ format_duration_and_delta (int_field st ''duration'') (int_field st ''delta'') 0 @ NL #
          ''Log: '' @ str_field st ''log'' @ [NL])"

fun report_steps_loop :: "report_env \<Rightarrow> report_context \<Rightarrow> step list \<Rightarrow> report_state \<Rightarrow> bool \<times> report_state" where
  "report_steps_loop env r [] s = (False, s)"
| "report_steps_loop env r (st # sts) s =
     (if int_field st ''skip'' = 1 then report_steps_loop env r sts s
      else
        (case (if int_field st ''exit'' = 0 then report_skip_step env r (fst s) st else (0, fst s)) of
           (skip, cf) \<Rightarrow>
             if skip = 1 then report_steps_loop env r sts (cf, snd s)
             else if skip = -1 then (True, cf, snd s)
             else
               (case report_step env r st (cf, snd s) of
                  (True, s1) \<Rightarrow> (True, s1)
                | (False, s1) \<Rightarrow> report_steps_loop env r sts s1)))"

definition report_steps :: "report_env \<Rightarrow> report_context \<Rightarrow> report_state \<Rightarrow> bool \<times> report_state" where
  "report_steps env r s = report_steps_loop env r (sf_steps (rc_step_file r)) s"

section \<open>The report\<close>

definition sanitize_char :: "char \<Rightarrow> string" where
  "sanitize_char c =
     (if c = NUL then [CHR 0x5C] @ ''x00''
      else if c = CHR 0x0D then [CHR 0x5C] @ ''r''
      else [c])"

definition report_sanitize :: "string \<Rightarrow> string" where
  "report_sanitize out = concat (map sanitize_char out)"

definition report_sections ::
  "report_env \<Rightarrow> report_context \<Rightarrow> report_state \<Rightarrow> (bool \<times> report_state) option" where
  "report_sections env r s =
     (case report_subject env r s of
        (True, s1) \<Rightarrow> Some (True, s1)
      | (False, s1) \<Rightarrow>
          Option.bind (report_stats env r s1) (\<lambda>(e, s2).
            if e then Some (True, s2)
            else
              (case report_comment env r s2 of
                 (True, s3) \<Rightarrow> Some (True, s3)
               | (False, s3) \<Rightarrow>
                   (case report_steps env r s3 of
                      (True, s4) \<Rightarrow> Some (True, s4)
                    | (False, s4) \<Rightarrow> Some (False, fst s4, report_sanitize (snd s4))))))"

definition report_generate ::
  "report_env \<Rightarrow> config \<Rightarrow> string \<Rightarrow> string \<Rightarrow> (bool \<times> report_state) option" where
  "report_generate env cf builddir out =
     Option.bind (steps_parse (re_locks env) (re_read env (builddir @ ''/step.csv''))) (\<lambda>sf.
       case sf of
         None \<Rightarrow> Some (True, cf, out)
       | Some sf \<Rightarrow>
           (case previous_builddir env cf builddir of
              (prev, cf1) \<Rightarrow>
                report_sections env
                  \<lparr>rc_builddir = builddir, rc_prev_builddir = prev, rc_step_file = sf, rc_mode = cf_mode cf\<rparr>
                  (cf1, out)))"

section \<open>The program\<close>

text \<open>An unknown option is passed over.\<close>

fun report_opt :: "char \<Rightarrow> string \<Rightarrow> string option \<times> string option \<Rightarrow> string option \<times> string option" where
  "report_opt c optarg (path, mode) =
     (if c = CHR ''C'' then (Some optarg, mode)
      else if c = CHR ''m'' then (path, Some optarg)
      else (path, mode))"

definition robsd_report_run :: "report_env \<Rightarrow> string \<Rightarrow> config \<Rightarrow> outcome option" where
  "robsd_report_run env builddir cf =
     map_option (\<lambda>(e, cf1, out). unless_crashed cf1 (if e then Exit 1 [] else Exit 0 (cstr out)))
       (report_generate env cf builddir [])"

definition robsd_report_main :: "report_env \<Rightarrow> string list \<Rightarrow> outcome option" where
  "robsd_report_main env argv =
     (case getopt_lenient report_opt ''C:m:'' argv getopt_start (None, None) of
        ((path, mode), go) \<Rightarrow>
          (case (mode, remaining argv go) of
             (Some m, [builddir]) \<Rightarrow> with_config (re_os env) m path (robsd_report_run env builddir)
           | _ \<Rightarrow> Some (Exit 1 [])))"

end
