(* ===== verification/ReportProps.thy ===== *)
theory ReportProps
  imports Report "HOL-Library.Sublist"
begin

text \<open>
  What the mail promises: the last lines of a log, the status, the steps it shows, the characters it
  is made of, and when \<open>robsd-report\<close> returns.
\<close>

section \<open>The last lines of a log\<close>

text \<open>The lines of a text that are not empty.\<close>

function text_lines :: "string \<Rightarrow> string list" where
  "text_lines str =
     (case dropWhile (\<lambda>c. c = NL) str of
        [] \<Rightarrow> []
      | c # cs \<Rightarrow> (c # takeWhile (\<lambda>c. c \<noteq> NL) cs) # text_lines (dropWhile (\<lambda>c. c \<noteq> NL) cs))"
  by pat_completeness auto
termination
proof (relation "measure length")
  fix str c cs
  assume "dropWhile (\<lambda>c. c = NL) str = c # (cs :: string)"
  then have "length (c # cs) \<le> length str" by (metis length_dropWhile_le)
  moreover have "length (dropWhile (\<lambda>c. c \<noteq> NL) cs) \<le> length cs" by (rule length_dropWhile_le)
  ultimately show "(dropWhile (\<lambda>c. c \<noteq> NL) cs, str) \<in> measure length" by simp
qed simp

declare text_lines.simps [simp del]

definition at_line_start :: "string \<Rightarrow> bool" where
  "at_line_start pre \<longleftrightarrow> pre = [] \<or> last pre = NL"

lemma text_lines_Nil [simp]: "text_lines [] = []"
  by (simp add: text_lines.simps)

lemma text_lines_NL [simp]: "text_lines (NL # str) = text_lines str"
  by (subst (1 2) text_lines.simps) simp

lemma text_lines_newlines: "\<forall>c \<in> set w. c = NL \<Longrightarrow> text_lines (w @ str) = text_lines str"
  by (induction w) auto

lemma text_lines_word:
  assumes "w \<noteq> []" "NL \<notin> set w"
  shows "text_lines (w @ str) = (w @ takeWhile (\<lambda>c. c \<noteq> NL) str) # text_lines (dropWhile (\<lambda>c. c \<noteq> NL) str)"
proof -
  obtain c cs where w: "w = c # cs" using assms(1) by (cases w) auto
  with assms(2) have "\<And>x. x \<in> set cs \<Longrightarrow> x \<noteq> NL" "c \<noteq> NL" by auto
  then show ?thesis by (subst text_lines.simps) (simp add: w takeWhile_append2 dropWhile_append2)
qed

lemma text_lines_append:
  "at_line_start pre \<Longrightarrow> text_lines (pre @ str) = text_lines pre @ text_lines str"
proof (induction pre rule: length_induct)
  case (1 pre)
  show ?case
  proof (cases pre)
    case (Cons c cs)
    let ?w = "takeWhile (\<lambda>c. c \<noteq> NL) pre" and ?r = "dropWhile (\<lambda>c. c \<noteq> NL) pre"
    show ?thesis
    proof (cases "c = NL")
      case True
      with Cons 1 show ?thesis by (auto simp: at_line_start_def split: if_splits)
    next
      case False
      then have w: "?w \<noteq> []" "NL \<notin> set ?w" using Cons by (auto dest: set_takeWhileD)
      have r: "?r \<noteq> []"
        using 1(2) Cons False by (auto simp: at_line_start_def dropWhile_eq_Nil_conv) (metis last_in_set list.distinct(1) list.set_intros(2))
      have "at_line_start ?r"
        using 1(2) r Cons by (metis at_line_start_def last_appendR takeWhile_dropWhile_id list.distinct(1))
      moreover have "length ?r < length pre"
        using w(1) by (metis length_append length_greater_0_conv less_add_same_cancel2 takeWhile_dropWhile_id)
      ultimately have IH: "text_lines (?r @ str) = text_lines ?r @ text_lines str" using 1(1) by blast
      have hd: "hd ?r = NL" using r by (metis (mono_tags, lifting) hd_dropWhile)
      have tw: "takeWhile (\<lambda>c. c \<noteq> NL) (?r @ t) = []" "dropWhile (\<lambda>c. c \<noteq> NL) (?r @ t) = ?r @ t" for t
        using r hd by (cases ?r; simp)+
      have "pre @ t = ?w @ (?r @ t)" for t by (metis append.assoc takeWhile_dropWhile_id)
      then have "text_lines (pre @ t) = ?w # text_lines (?r @ t)" for t
        by (simp only: text_lines_word [OF w] tw append_Nil2)
      from this [of str] this [of "[]"] IH show ?thesis by simp
    qed
  qed simp
qed

lemma rev_take_drop: "str = rev (dropWhile P (rev str)) @ rev (takeWhile P (rev str))"
  by (simp flip: rev_append)

lemma last_rev_dropWhile: "rev (dropWhile P xs) = [] \<or> \<not> P (last (rev (dropWhile P xs)))"
  using hd_dropWhile [of P xs] by (auto simp: last_rev)

lemma strip_newlines:
  obtains ps where "str = rev (dropWhile (\<lambda>c. c = NL) (rev str)) @ ps" "\<forall>c \<in> set ps. c = NL"
    "rev (dropWhile (\<lambda>c. c = NL) (rev str)) = [] \<or> last (rev (dropWhile (\<lambda>c. c = NL) (rev str))) \<noteq> NL"
proof
  show "str = rev (dropWhile (\<lambda>c. c = NL) (rev str)) @ rev (takeWhile (\<lambda>c. c = NL) (rev str))"
    by (rule rev_take_drop)
  show "\<forall>c \<in> set (rev (takeWhile (\<lambda>c. c = NL) (rev str))). c = NL" by (auto dest: set_takeWhileD)
  show "rev (dropWhile (\<lambda>c. c = NL) (rev str)) = [] \<or> last (rev (dropWhile (\<lambda>c. c = NL) (rev str))) \<noteq> NL"
    using last_rev_dropWhile [of "\<lambda>c. c = NL" "rev str"] by simp
qed

lemma strip_word:
  obtains w where "str = rev (dropWhile (\<lambda>c. c \<noteq> NL) (rev str)) @ w" "NL \<notin> set w"
    "at_line_start (rev (dropWhile (\<lambda>c. c \<noteq> NL) (rev str)))"
proof
  show "str = rev (dropWhile (\<lambda>c. c \<noteq> NL) (rev str)) @ rev (takeWhile (\<lambda>c. c \<noteq> NL) (rev str))"
    by (rule rev_take_drop)
  show "NL \<notin> set (rev (takeWhile (\<lambda>c. c \<noteq> NL) (rev str)))" by (auto dest: set_takeWhileD)
  show "at_line_start (rev (dropWhile (\<lambda>c. c \<noteq> NL) (rev str)))"
    using last_rev_dropWhile [of "\<lambda>c. c \<noteq> NL" "rev str"] by (simp add: at_line_start_def)
qed

lemma text_lines_last_word:
  assumes "NL \<notin> set w" "\<forall>c \<in> set ps. c = NL"
  shows "text_lines (w @ ps) = (if w = [] then [] else [w])"
proof (cases "w = []")
  case True
  with text_lines_newlines [OF assms(2), of "[]"] show ?thesis by simp
next
  case False
  have "takeWhile (\<lambda>c. c \<noteq> NL) ps = []" "dropWhile (\<lambda>c. c \<noteq> NL) ps = ps" using assms(2) by (cases ps; simp)+
  with text_lines_word [OF False assms(1), of ps] text_lines_newlines [OF assms(2), of "[]"] False
  show ?thesis by simp
qed

text \<open>One round of the loop takes one line that is not empty off the end.\<close>

lemma one_line:
  assumes "b = rev (dropWhile (\<lambda>c. c \<noteq> NL) (rev (rev (dropWhile (\<lambda>c. c = NL) (rev str)))))"
  obtains l where "str = b @ l" "at_line_start b"
    "b \<noteq> [] \<Longrightarrow> \<exists>w. text_lines l = [w]" "length (text_lines l) \<le> 1"
proof -
  define a where "a = rev (dropWhile (\<lambda>c. c = NL) (rev str))"
  obtain ps where ps: "str = a @ ps" "\<forall>c \<in> set ps. c = NL" "a = [] \<or> last a \<noteq> NL"
    unfolding a_def by (rule strip_newlines)
  have b: "b = rev (dropWhile (\<lambda>c. c \<noteq> NL) (rev a))" using assms by (simp add: a_def)
  obtain w where w: "a = b @ w" "NL \<notin> set w" "at_line_start b"
    unfolding b by (rule strip_word)
  have "w \<noteq> []" if "b \<noteq> []" using that w ps(3) by (auto simp: at_line_start_def)
  with text_lines_last_word [OF w(2) ps(2)] ps(1) w(1,3) show thesis
    by (intro that [of "w @ ps"]) simp_all
qed

lemma before_last_lines_split:
  "\<exists>rest. str = before_last_lines n str @ rest \<and>
    text_lines rest = drop (length (text_lines str) - n) (text_lines str) \<and>
    (n = 0 \<or> at_line_start (before_last_lines n str))"
proof (induction n arbitrary: str)
  case (Suc n)
  define b where "b = rev (dropWhile (\<lambda>c. c \<noteq> NL) (rev (rev (dropWhile (\<lambda>c. c = NL) (rev str)))))"
  obtain l where l: "str = b @ l" "at_line_start b" "b \<noteq> [] \<Longrightarrow> \<exists>w. text_lines l = [w]" "length (text_lines l) \<le> 1"
    using one_line [OF b_def] by blast
  have e: "before_last_lines (Suc n) str = (if b = [] then [] else before_last_lines n b)"
    unfolding b_def before_last_lines.simps Let_def by (rule refl)
  have ts: "text_lines str = text_lines b @ text_lines l" using l(1,2) text_lines_append by simp
  show ?case
  proof (cases "b = []")
    case True
    then have "before_last_lines (Suc n) str = []" using e by simp
    moreover have "length (text_lines str) - Suc n = 0" using True ts l(4) by simp
    ultimately show ?thesis by (simp only: at_line_start_def append_Nil) simp
  next
    case False
    obtain w where w: "text_lines l = [w]" using l(3) False by blast
    define pre where "pre = before_last_lines n b"
    obtain rest where IH: "b = pre @ rest" "text_lines rest = drop (length (text_lines b) - n) (text_lines b)"
      "n = 0 \<or> at_line_start pre" using Suc.IH [of b] unfolding pre_def by blast
    have "at_line_start rest" using IH(1) l(2) by (cases "rest = []") (simp_all add: at_line_start_def)
    then have "text_lines (rest @ l) = drop (length (text_lines str) - Suc n) (text_lines str)"
      using text_lines_append IH(2) ts w by simp
    moreover have "str = before_last_lines (Suc n) str @ rest @ l" using l(1) IH(1) e [folded pre_def] False by simp
    moreover have "at_line_start (before_last_lines (Suc n) str)"
      using IH(3) l(2) e [folded pre_def] False by (cases "n = 0") (simp_all add: pre_def)
    ultimately show ?thesis by blast
  qed
qed simp

text \<open> The last lines of a log are a final part of it that begins at the start of a line, and what
  is in it are the last ten of the lines that are not empty, all of them when there are fewer.\<close>

lemma last_lines_are_last:
  "\<exists>pre. log = pre @ last_lines log 10 \<and> at_line_start pre \<and>
    text_lines (last_lines log 10) = drop (length (text_lines log) - 10) (text_lines log)"
proof -
  obtain rest where r: "log = before_last_lines 10 log @ rest"
    "text_lines rest = drop (length (text_lines log) - 10) (text_lines log)"
    "at_line_start (before_last_lines 10 log)" using before_last_lines_split [of log 10] by auto
  then have "last_lines log 10 = rest" unfolding last_lines_def by (metis append_eq_conv_conj)
  with r show ?thesis by blast
qed

section \<open>Status\<close>

lemma last_status_eq:
  "last_status (rev sts) =
    (case rev (filter (\<lambda>st. int_field st ''skip'' \<noteq> 1) sts) of
       [] \<Rightarrow> ''ok''
     | st # _ \<Rightarrow> if int_field st ''exit'' = 0 then ''ok'' else ''failed in '' @ str_field st ''name'')"
  by (induction sts rule: rev_induct) simp_all

lemma one_digit: "show_nat (Suc 0) = ''1''"
  by code_simp

text \<open> Outside of regress and canvas, where the steps with another exit status than 0 are counted,
  the status is the one of the last step that was not skipped.\<close>

lemma report_status_exact:
  "report_status r =
    (if rc_mode r \<in> {ROBSD_REGRESS, CANVAS} then
       (case length (filter (\<lambda>st. int_field st ''exit'' \<noteq> 0) (sf_steps (rc_step_file r))) of
          0 \<Rightarrow> ''ok''
        | Suc 0 \<Rightarrow> ''1 failure''
        | n \<Rightarrow> show_nat n @ '' failures'')
     else
       (let run = filter (\<lambda>st. int_field st ''skip'' \<noteq> 1) (sf_steps (rc_step_file r)) in
        if run = [] \<or> int_field (last run) ''exit'' = 0 then ''ok''
        else ''failed in '' @ str_field (last run) ''name''))"
  by (auto simp: report_status_def number_of_failures_report_status_def last_status_eq Let_def last_rev one_digit
      hd_rev [symmetric] split: list.splits nat.splits)

section \<open>The characters of a report\<close>

lemma sanitize_clean: "c \<in> set (report_sanitize out) \<Longrightarrow> c \<noteq> NUL \<and> c \<noteq> CHR 0x0D"
  by (auto simp: report_sanitize_def sanitize_char_def split: if_splits)

lemma sanitize_id: "NUL \<notin> set out \<Longrightarrow> CHR 0x0D \<notin> set out \<Longrightarrow> report_sanitize out = out"
  by (induction out) (auto simp: report_sanitize_def sanitize_char_def)


lemma cstr_sanitized [simp]: "cstr (report_sanitize out) = report_sanitize out"
  using sanitize_clean by (intro cstr_id) blast

section \<open>Text is only added\<close>

lemma prefix_appendI [simp]: "prefix out (out @ b)" by simp

lemma format_file_prefix: "format_file env path out = (e, out1) \<Longrightarrow> prefix out out1"
  by (auto simp: format_file_def split: option.splits)

lemma cvs_files_prefix: "cvs_files env paths n out = (rv, out1) \<Longrightarrow> prefix out out1"
proof (induction env paths n out rule: cvs_files.induct)
  case (2 env path paths n out)
  obtain e out2 where f: "format_file env path (if n > 0 then out @ [NL] else out) = (e, out2)" by fastforce
  then have "prefix out out2" using format_file_prefix [OF f] by (auto split: if_splits dest: append_prefixD)
  with 2 f show ?case by (auto split: if_splits bool.splits intro: prefix_order.trans)
qed simp

lemma report_cvs_log_prefix: "report_cvs_log env r s = (rv, cf, out) \<Longrightarrow> prefix (snd s) out"
  by (auto simp: report_cvs_log_def split: option.splits prod.splits dest!: cvs_files_prefix
      intro: prefix_order.trans [OF prefix_appendI])

lemma ports_report_step_log_prefix: "ports_report_step_log env r st s = (rv, cf, out) \<Longrightarrow> prefix (snd s) out"
  by (auto simp: ports_report_step_log_def Let_def split: if_splits option.splits prod.splits
      dest!: format_file_prefix report_cvs_log_prefix intro: prefix_order.trans [OF prefix_appendI])

lemma regress_report_step_log_prefix: "regress_report_step_log env r st s = (rv, cf, out) \<Longrightarrow> prefix (snd s) out"
  by (auto simp: regress_report_step_log_def split: if_splits option.splits prod.splits)

lemma canvas_report_step_log_prefix: "canvas_report_step_log env r st s = (rv, cf, out) \<Longrightarrow> prefix (snd s) out"
  by (auto simp: canvas_report_step_log_def split: if_splits option.splits prod.splits)

lemmas mode_log_prefix = ports_report_step_log_prefix regress_report_step_log_prefix canvas_report_step_log_prefix

lemma report_step_log_prefix:
  assumes "report_step_log env r st s = (e, cf, out)"
  shows "prefix (snd s) out"
proof -
  obtain rv cf1 out1 where m: "(if rc_mode r = ROBSD_PORTS then ports_report_step_log env r st s
      else if rc_mode r = ROBSD_REGRESS then regress_report_step_log env r st s
      else if rc_mode r = CANVAS then canvas_report_step_log env r st s else (STEP_LOG_NONE, s)) = (rv, cf1, out1)"
    by (metis prod.collapse)
  then have "prefix (snd s) out1" using mode_log_prefix [of env r st s rv cf1 out1] by (auto split: if_splits)
  moreover have "prefix out1 out"
    using assms report_cvs_log_prefix [of env r "(cf1, out1)"] unfolding report_step_log_def m
    by (auto simp: Let_def split: if_splits option.splits) (metis prod.collapse snd_conv)
  ultimately show ?thesis by (rule prefix_order.trans)
qed

section \<open>The steps of a report\<close>

definition step_head :: "step \<Rightarrow> string" where
  "step_head st =
     NL # ''> '' @ str_field st ''name'' @ NL #
     ''Exit: '' @ show_int (c_int (int_field st ''exit'')) @ NL #
     ''Duration: '' @ format_duration_and_delta (int_field st ''duration'') (int_field st ''delta'') 0 @ NL #
     ''Log: '' @ str_field st ''log'' @ [NL]"

definition was_run :: "step \<Rightarrow> bool" where
  "was_run st \<longleftrightarrow> int_field st ''skip'' \<noteq> 1"

definition did_fail :: "step \<Rightarrow> bool" where
  "did_fail st \<longleftrightarrow> was_run st \<and> int_field st ''exit'' \<noteq> 0"

definition step_sections :: "(step \<times> string) list \<Rightarrow> string" where
  "step_sections shown = concat (map (\<lambda>(st, body). step_head st @ body) shown)"

lemma report_step_section:
  assumes "report_step env r st s = (e, cf, out)"
  shows "\<exists>body. out = snd s @ step_head st @ body"
  using report_step_log_prefix [OF assms [unfolded report_step_def]]
  by (auto simp: prefix_def step_head_def)

lemma report_steps_loop_sections:
  assumes "report_steps_loop env r sts s = (False, cf, out)"
  shows "\<exists>shown. subseq (filter did_fail sts) (map fst shown) \<and> subseq (map fst shown) (filter was_run sts) \<and>
    out = snd s @ step_sections shown"
  using assms
proof (induction sts arbitrary: s)
  case Nil
  then show ?case by (intro exI [of _ "[]"]) (simp add: step_sections_def)
next
  case (Cons st sts)
  show ?case
  proof (cases "was_run st")
    case False
    with Cons show ?thesis by (simp add: was_run_def did_fail_def)
  next
    case True
    obtain skip cf1 where k: "(if int_field st ''exit'' = 0 then report_skip_step env r (fst s) st else (0, fst s)) = (skip, cf1)"
      by fastforce
    show ?thesis
    proof (cases "skip = 1")
      case skipped: True
      then have "\<not> did_fail st" using k by (auto simp: did_fail_def split: if_splits)
      moreover have "report_steps_loop env r sts (cf1, snd s) = (False, cf, out)"
        using Cons.prems True k skipped by (simp add: was_run_def)
      ultimately show ?thesis using Cons.IH [of "(cf1, snd s)"] True by auto
    next
      case False
      obtain e s1 where p: "report_step env r st (cf1, snd s) = (e, s1)" by (metis prod.collapse)
      have l: "\<not> e" "report_steps_loop env r sts s1 = (False, cf, out)"
        using Cons.prems True k False p by (auto simp: was_run_def split: if_splits bool.splits)
      obtain body where b: "snd s1 = snd s @ step_head st @ body"
        using report_step_section [of env r st "(cf1, snd s)" e "fst s1" "snd s1"] p by auto
      obtain shown where "subseq (filter did_fail sts) (map fst shown)" "subseq (map fst shown) (filter was_run sts)"
        "out = snd s1 @ step_sections shown" using Cons.IH [OF l(2)] by blast
      then show ?thesis using b True
        by (intro exI [of _ "(st, body) # shown"]) (auto simp: step_sections_def)
    qed
  qed
qed


lemma report_subject_prefix:
  "report_subject env r (cf, []) = (False, cf1, out) \<Longrightarrow> prefix ''Subject: '' out"
  by (auto simp: report_subject_def canvas_report_subject_def split: if_splits option.splits prod.splits)

lemma report_stats_sizes_prefix: "prefix out (report_stats_sizes env r out)"
  by (simp add: report_stats_sizes_def split: option.splits)

lemma report_stats_prefix:
  assumes "report_stats env r s = Some (e, cf, out)"
  shows "prefix (snd s) out"
proof -
  obtain d where d: "report_stats_duration r = Some d" using assms by (auto simp: report_stats_def)
  obtain tags_path cf1 where c: "config_interpolate_str (re_os env) (fst s) ''${tags-path}'' = (tags_path, cf1)"
    by fastforce
  have a: "prefix (snd s) (snd s @ w)" "prefix (snd s) (report_stats_sizes env r (snd s @ w))" for w
    using report_stats_sizes_prefix [of "snd s @ w" env r] by (auto intro: append_prefixD)
  show ?thesis
    using assms d c a by (cases tags_path; cases "re_read env (the tags_path)") (auto simp: report_stats_def Let_def)
qed

lemma report_comment_prefix: "report_comment env r s = (e, cf, out) \<Longrightarrow> prefix (snd s) out"
  by (auto simp: report_comment_def split: option.splits prod.splits)

lemma report_sections_ok:
  assumes "report_sections env r (cf, []) = Some (False, cf', out)"
  shows "\<exists>head shown. prefix ''Subject: '' head \<and>
    subseq (filter did_fail (sf_steps (rc_step_file r))) (map fst shown) \<and>
    subseq (map fst shown) (filter was_run (sf_steps (rc_step_file r))) \<and>
    out = report_sanitize (head @ step_sections shown)"
proof -
  obtain e1 cf1 out1 where 1: "report_subject env r (cf, []) = (e1, cf1, out1)" by (metis prod.collapse)
  with assms have e1: "\<not> e1" by (cases e1) (simp_all add: report_sections_def)
  with assms 1 obtain e2 cf2 out2 where 2: "report_stats env r (cf1, out1) = Some (e2, cf2, out2)"
    by (cases "report_stats env r (cf1, out1)") (auto simp: report_sections_def)
  with assms 1 e1 have e2: "\<not> e2" by (cases e2) (simp_all add: report_sections_def)
  obtain e3 cf3 out3 where 3: "report_comment env r (cf2, out2) = (e3, cf3, out3)" by (metis prod.collapse)
  with assms 1 2 e1 e2 have e3: "\<not> e3" by (cases e3) (simp_all add: report_sections_def)
  obtain e4 cf4 out4 where 4: "report_steps env r (cf3, out3) = (e4, cf4, out4)" by (metis prod.collapse)
  with assms 1 2 3 e1 e2 e3 have e4: "\<not> e4" "cf4 = cf'" "out = report_sanitize out4"
    by (cases e4; simp add: report_sections_def)+
  have "prefix ''Subject: '' out3"
    using report_subject_prefix [of env r cf cf1 out1] 1 e1 report_stats_prefix [OF 2] report_comment_prefix [OF 3]
    by (auto intro: prefix_order.trans)
  moreover obtain shown where "subseq (filter did_fail (sf_steps (rc_step_file r))) (map fst shown)"
    "subseq (map fst shown) (filter was_run (sf_steps (rc_step_file r)))" "out4 = out3 @ step_sections shown"
    using report_steps_loop_sections [of env r "sf_steps (rc_step_file r)" "(cf3, out3)" cf4 out4] 4 e4
    by (auto simp: report_steps_def)
  ultimately show ?thesis using e4(3) by blast
qed

lemma report_run_sections:
  assumes "robsd_report_run env builddir cf = Some (Exit 0 out)"
  shows "\<exists>sf head shown. steps_parse (re_locks env) (re_read env (builddir @ ''/step.csv'')) = Some (Some sf) \<and>
    prefix ''Subject: '' head \<and>
    subseq (filter did_fail (sf_steps sf)) (map fst shown) \<and> subseq (map fst shown) (filter was_run (sf_steps sf)) \<and>
    out = report_sanitize (head @ step_sections shown) \<and> NUL \<notin> set out \<and> CHR 0x0D \<notin> set out"
proof -
  obtain cf' out' where g: "report_generate env cf builddir [] = Some (False, cf', out')" "out = cstr out'"
    using assms by (auto simp: robsd_report_run_def unless_crashed_def split: if_splits)
  obtain prev cf1 where prev: "previous_builddir env cf builddir = (prev, cf1)" by fastforce
  with g(1) obtain sf where p: "steps_parse (re_locks env) (re_read env (builddir @ ''/step.csv'')) = Some (Some sf)"
    "report_sections env \<lparr>rc_builddir = builddir, rc_prev_builddir = prev, rc_step_file = sf, rc_mode = cf_mode cf\<rparr>
      (cf1, []) = Some (False, cf', out')"
    by (auto simp: report_generate_def bind_eq_Some_conv split: option.splits)
  from report_sections_ok [OF p(2)] obtain head shown where "prefix ''Subject: '' head"
    "subseq (filter did_fail (sf_steps sf)) (map fst shown)" "subseq (map fst shown) (filter was_run (sf_steps sf))"
    "out' = report_sanitize (head @ step_sections shown)" by auto
  with p(1) g(2) sanitize_clean show ?thesis by (auto intro!: exI [of _ head] exI [of _ shown])
qed

text \<open>C13: a report that is printed begins with the subject and ends with a section for each step that
  was run and failed, and for some that were run and did not, in their order. It holds no NUL, which
  would end what is printed, and no carriage return.\<close>

theorem report_shows_failures:
  assumes "robsd_report_run env builddir cf = Some (Exit 0 out)"
  shows "\<exists>sf head shown. steps_parse (re_locks env) (re_read env (builddir @ ''/step.csv'')) = Some (Some sf) \<and>
    prefix ''Subject: '' head \<and>
    subseq (filter did_fail (sf_steps sf)) (map fst shown) \<and> subseq (map fst shown) (filter was_run (sf_steps sf)) \<and>
    out = report_sanitize (head @ step_sections shown) \<and> NUL \<notin> set out \<and> CHR 0x0D \<notin> set out"
  by (rule report_run_sections [OF assms])

text \<open>A canvas with a step that passed and one that did not.\<close>

definition mail_one :: step where
  "mail_one = [step_field.INTEGER 1, step_field.STRING ''one'', step_field.INTEGER 0, step_field.INTEGER 5,
     step_field.INTEGER 0, step_field.STRING [], step_field.STRING ''root'', step_field.INTEGER 10, step_field.INTEGER 0]"

definition mail_two :: step where
  "mail_two = [step_field.INTEGER 2, step_field.STRING ''two'', step_field.INTEGER 7, step_field.INTEGER 65,
     step_field.INTEGER 0, step_field.STRING [], step_field.STRING ''root'', step_field.INTEGER 15, step_field.INTEGER 0]"

definition mail_steps :: "step list" where
  "mail_steps = [mail_one, mail_two]"

lemma mail_fields [simp]:
  "int_field mail_one ''skip'' = 0" "int_field mail_one ''exit'' = 0" "str_field mail_one ''name'' = ''one''"
  "int_field mail_two ''skip'' = 0" "int_field mail_two ''exit'' = 7" "str_field mail_two ''name'' = ''two''"
  "str_field mail_two ''log'' = []"
  by (code_simp)+

lemma mail_end: "steps_find_by_name mail_steps ''end'' = None" by code_simp

lemma mail_total: "sum_durations mail_steps 0 = Some 70" by code_simp

definition mail_conf :: config where
  "mail_conf = sample_conf CANVAS
     [\<lparr>va_name = ''robsddir'', va_val = VString ''/home''\<rparr>, \<lparr>va_name = ''keep-dir'', va_val = VString ''/home/attic''\<rparr>,
      \<lparr>va_name = ''canvas-name'', va_val = VString ''mail''\<rparr>, \<lparr>va_name = ''tags-path'', va_val = VString ''/b/tags''\<rparr>,
      \<lparr>va_name = ''comment-path'', va_val = VString ''/b/comment''\<rparr>]"

definition mail_env :: "string \<Rightarrow> report_env" where
  "mail_env steps = \<lparr>re_os = sample_os\<lparr>os_read := (\<lambda>p. if p = ''/b/step.csv'' then Some steps else None)\<rparr>,
     re_dirs = (\<lambda>_. None), re_absent = (\<lambda>_. True), re_size = (\<lambda>_. None), re_hostname = Some ''host'', re_locks = True\<rparr>"

lemma mail_env_simps [simp]:
  "re_dirs (mail_env steps) p = None" "re_absent (mail_env steps) p" "re_locks (mail_env steps)"
  "os_read (re_os (mail_env steps)) p = (if p = ''/b/step.csv'' then Some steps else None)"
  by (simp_all add: mail_env_def)

lemma mail_lookup:
  assumes "stored_text (re_os (mail_env steps)) mail_conf x = Some v" "dollar \<notin> set v" "variable_name x"
  shows "config_interpolate_str (re_os (mail_env steps)) mail_conf (ref x) = (Some v, mail_conf)"
proof -
  have "expands (stored_text (re_os (mail_env steps)) mail_conf) False (Suc 2) ([] @ ref x @ []) ([] @ v @ [])"
    by (rule expands.known [where l = "[]" and rest = "[]" and out = "[]" and v = v])
      (use assms in \<open>auto intro: expands.plain\<close>)
  then show ?thesis
    unfolding config_interpolate_str_def by (intro present.answer_str) (simp add: numeral_3_eq_3)
qed

lemma mail_values:
  "config_interpolate_str (re_os (mail_env steps)) mail_conf ''${robsddir}'' = (Some ''/home'', mail_conf)"
  "config_interpolate_str (re_os (mail_env steps)) mail_conf ''${keep-dir}'' = (Some ''/home/attic'', mail_conf)"
  "config_interpolate_str (re_os (mail_env steps)) mail_conf ''${canvas-name}'' = (Some ''mail'', mail_conf)"
  "config_interpolate_str (re_os (mail_env steps)) mail_conf ''${tags-path}'' = (Some ''/b/tags'', mail_conf)"
  "config_interpolate_str (re_os (mail_env steps)) mail_conf ''${comment-path}'' = (Some ''/b/comment'', mail_conf)"
  using mail_lookup [of steps "''robsddir''"] mail_lookup [of steps "''keep-dir''"] mail_lookup [of steps "''canvas-name''"]
    mail_lookup [of steps "''tags-path''"] mail_lookup [of steps "''comment-path''"]
  by (simp_all add: stored_text_def mail_env_def sample_os_def mail_conf_def sample_conf_def variable_index_def
      upt_conv_Cons variable_name_def)

lemma mail_parse:
  "steps_parse True (Some (steps_text mail_steps)) =
   Some (Some \<lparr>sf_columns = map fd_name Step.fields, sf_steps = mail_steps\<rparr>)"
  by (rule steps_parse_text) (simp add: mail_steps_def mail_one_def mail_two_def step_ok_def Step.fields_def field_ok_def clean_def)

lemma mail_run:
  assumes "steps_parse True (Some steps) = Some (Some \<lparr>sf_columns = map fd_name Step.fields, sf_steps = mail_steps\<rparr>)"
  shows "\<exists>out. robsd_report_run (mail_env steps) ''/b'' mail_conf = Some (Exit 0 out)"
proof -
  have prev: "previous_builddir (mail_env steps) mail_conf ''/b'' = (None, mail_conf)"
    by (simp add: previous_builddir_def mail_values invocation_alloc_def invocation_read_def)
  define r where "r = \<lparr>rc_builddir = ''/b'', rc_prev_builddir = None,
    rc_step_file = \<lparr>sf_columns = map fd_name Step.fields, sf_steps = mail_steps\<rparr>, rc_mode = CANVAS\<rparr>"
  have r: "rc_mode r = CANVAS" "sf_steps (rc_step_file r) = mail_steps" by (simp_all add: r_def)
  obtain out1 where 1: "report_subject (mail_env steps) r (mail_conf, []) = (False, mail_conf, out1)"
    by (simp add: report_subject_def canvas_report_subject_def mail_values r)
  obtain d where "report_stats_duration r = Some d"
    by (simp add: report_stats_duration_def r steps_total_duration_def mail_end mail_total)
  then obtain out2 where 2: "report_stats (mail_env steps) r (mail_conf, out1) = Some (False, mail_conf, out2)"
    by (simp add: report_stats_def mail_values Let_def r)
  have 3: "report_comment (mail_env steps) r (mail_conf, out2) = (False, mail_conf, out2)"
    by (simp add: report_comment_def mail_values)
  obtain out3 where 4: "report_steps (mail_env steps) r (mail_conf, out2) = (False, mail_conf, out3)"
    by (simp add: report_steps_def r mail_steps_def report_step_def report_step_log_def canvas_report_step_log_def
        report_skip_step_def step_get_log_path_def Let_def)
  have "report_sections (mail_env steps) r (mail_conf, []) = Some (False, mail_conf, report_sanitize out3)"
    by (simp add: report_sections_def 1 2 3 4)
  moreover have "cf_mode mail_conf = CANVAS" "\<not> cf_crashed mail_conf" by (simp_all add: mail_conf_def sample_conf_def)
  ultimately show ?thesis
    by (simp add: robsd_report_run_def report_generate_def assms prev unless_crashed_def r_def)
qed

theorem report_shows_failures_witness:
  "\<exists>shown head out. robsd_report_run (mail_env (steps_text mail_steps)) ''/b'' mail_conf = Some (Exit 0 out) \<and>
     subseq [mail_two] (map fst shown) \<and> out = report_sanitize (head @ step_sections shown)"
proof -
  obtain out where out: "robsd_report_run (mail_env (steps_text mail_steps)) ''/b'' mail_conf = Some (Exit 0 out)" using mail_run [OF mail_parse] by blast
  have "filter did_fail mail_steps = [mail_two]" by (simp add: mail_steps_def did_fail_def was_run_def)
  with report_shows_failures [OF out] out mail_parse show ?thesis by auto
qed

section \<open>When the program returns\<close>

lemma report_sections_None:
  "report_sections env r s = None \<Longrightarrow> report_stats_duration r = None"
proof -
  assume none: "report_sections env r s = None"
  obtain e cf out where s: "report_subject env r s = (e, cf, out)" by (metis prod.collapse)
  have "report_stats env r (cf, out) = None"
  proof (rule ccontr)
    assume "report_stats env r (cf, out) \<noteq> None"
    then obtain e2 s2 where r: "report_stats env r (cf, out) = Some (e2, s2)" by auto
    obtain e3 s3 where "report_comment env r s2 = (e3, s3)" by (metis prod.collapse)
    with none r s show False
      by (cases e; cases e2; cases e3; cases "report_steps env r s3"; cases "fst (report_steps env r s3)")
        (simp_all add: report_sections_def)
  qed
  then show ?thesis by (simp add: report_stats_def)
qed

lemma report_duration_None:
  "report_stats_duration r = None \<Longrightarrow>
   steps_find_by_name (sf_steps (rc_step_file r)) ''end'' = None \<and>
   steps_total_duration (rc_step_file r) (rc_mode r) = None"
  by (auto simp: report_stats_duration_def Let_def split: option.splits)

text \<open> \<open>robsd-report\<close> ends for all arguments, file systems and configurations, unless the step file
  has no step \<open>end\<close> and the sum of its durations is undefined in C.\<close>

lemma robsd_report_returns:
  "(\<exists>out. robsd_report_main env argv = Some out) \<or>
   (\<exists>path sf mode. steps_parse (re_locks env) (re_read env path) = Some (Some sf) \<and>
      steps_find_by_name (sf_steps sf) ''end'' = None \<and> steps_total_duration sf mode = None)"
proof (cases "robsd_report_main env argv")
  case None
  then obtain builddir m path where w: "with_config (re_os env) m path (robsd_report_run env builddir) = None"
    by (auto simp: robsd_report_main_def split: prod.splits option.splits list.splits)
  then obtain cf0 where "config_alloc (re_os env) m path = Some cf0"
    by (auto simp: with_config_def split: option.splits)
  moreover obtain e cf where "config_parse (re_os env) cf0 = Some (e, cf)" using config_parse_returns by blast
  ultimately have "robsd_report_run env builddir cf = None" using w by (simp add: with_config_def split: if_splits)
  then have "report_generate env cf builddir [] = None" by (simp add: robsd_report_run_def)
  moreover obtain r where "steps_parse (re_locks env) (re_read env (builddir @ ''/step.csv'')) = Some r"
    using steps_parse_returns by blast
  ultimately obtain sf ctx s where "r = Some sf" "report_sections env ctx s = None" "rc_step_file ctx = sf"
    by (auto simp: report_generate_def bind_eq_None_conv split: option.splits prod.splits)
  with \<open>steps_parse _ _ = Some r\<close> report_duration_None [OF report_sections_None] show ?thesis by blast
qed simp

end
