(* ===== verification/Pipeline.thy ===== *)
theory Pipeline
  imports RobsdStep ReportProps
begin

text \<open>
  The composition of \<open>robsd-step\<close> and \<open>robsd-report\<close> over the step file they share: the shell driver
  writes the outcome of each step with \<open>robsd-step -W\<close> (src/robsd-step.c) into \<open>step.csv\<close> of the build
  directory, and \<open>robsd-report\<close> (src/report.c) reads that file back at the end of the invocation. The
  lemmas of the two programs meet in the parsed steps.
\<close>

section \<open>A step among the sections of a report\<close>

lemma subseq_set: "subseq xs ys \<Longrightarrow> set xs \<subseteq> set ys"
  by (metis notin_set_nthsI subseq_conv_nths subsetI)

lemma report_sanitize_append: "report_sanitize (a @ b) = report_sanitize a @ report_sanitize b"
  by (simp add: report_sanitize_def)

lemma step_sections_append: "step_sections (a @ b) = step_sections a @ step_sections b"
  by (simp add: step_sections_def)

lemma section_in_report:
  assumes "(st, body) \<in> set shown"
  shows "sublist (report_sanitize (step_head st)) (report_sanitize (head @ step_sections shown))"
proof -
  obtain a b where "shown = a @ (st, body) # b" using split_list [OF assms] by blast
  then have "report_sanitize (head @ step_sections shown) =
      report_sanitize (head @ step_sections a) @ report_sanitize (step_head st) @ report_sanitize (body @ step_sections b)"
    by (simp add: step_sections_def report_sanitize_def)
  then show ?thesis unfolding sublist_def by blast
qed

text \<open>A report that is printed shows the head of every failed step of its step file.\<close>

lemma failed_step_in_report:
  assumes "robsd_report_run env builddir cf = Some (Exit 0 rep)"
    and "steps_parse (re_locks env) (re_read env (builddir @ ''/step.csv'')) = Some (Some sf)"
    and "st \<in> set (sf_steps sf)" "did_fail st"
  shows "sublist (report_sanitize (step_head st)) rep"
proof -
  obtain head shown where "subseq (filter did_fail (sf_steps sf)) (map fst shown)"
    and rep: "rep = report_sanitize (head @ step_sections shown)"
    using report_run_sections [OF assms(1)] assms(2) by auto
  then have "set (filter did_fail (sf_steps sf)) \<subseteq> set (map fst shown)" by (intro subseq_set)
  then obtain body where "(st, body) \<in> set shown" using assms(3,4) by force
  then show ?thesis unfolding rep by (rule section_in_report)
qed

text \<open>The machine of a report after the step file was rewritten.\<close>

definition with_file :: "report_env \<Rightarrow> string \<Rightarrow> string \<Rightarrow> report_env" where
  "with_file env p new = env\<lparr>re_os := (re_os env)\<lparr>os_read := (os_read (re_os env))(p \<mapsto> new)\<rparr>\<rparr>"

lemma with_file_simps [simp]:
  "re_locks (with_file env p new) = re_locks env"
  "os_read (re_os (with_file env p new)) = (os_read (re_os env))(p \<mapsto> new)"
  by (simp_all add: with_file_def)

section \<open>Properties\<close>


definition second_step :: "string list" where
  "second_step = [''name=two'', ''exit=7'', ''duration=65'', ''user=root'', ''time=15'']"

lemma second_keyvals: "set_keyvals (write_base [mail_one] 2) second_step = (False, mail_two)"
  by code_simp

lemma second_appended: "upserted [mail_one] 2 mail_two = [mail_one, mail_two]"
  by code_simp

lemma second_last: "\<not> step_cmp mail_two mail_one \<le> 0"
  by code_simp

lemma mail_steps_unique:
  assumes "mset sts = mset [mail_one, mail_two]" "sorted_wrt (\<lambda>a b. step_cmp a b \<le> 0) sts"
  shows "sts = mail_steps"
proof -
  have "length sts = 2" using assms(1) by (metis size_mset length_Cons list.size(3) numeral_2_eq_2)
  then obtain a b where ab: "sts = [a, b]" by (auto simp: length_Suc_conv numeral_2_eq_2)
  then have "a = mail_one \<and> b = mail_two \<or> a = mail_two \<and> b = mail_one"
    using assms(1) by (auto simp: add_eq_conv_ex)
  then show ?thesis using assms(2) ab second_last by (auto simp: mail_steps_def)
qed


end
