(* ===== verification/Html.thy ===== *)
theory Html
  imports Prelude
begin

text \<open>
  \<open>html.c\<close> and \<open>html.h\<close>: writing a document node by node with indentation. The calls and the macros
  around them refine the rendering of a tree.
\<close>

section \<open>Writing\<close>

text \<open>\<open>ht_crashed\<close> is set when the assertion on the depth fails.\<close>

record html =
  ht_bf :: string
  ht_depth :: nat
  ht_crashed :: bool

type_synonym attribute = "string \<times> string"

definition html_alloc :: html where
  "html_alloc = \<lparr>ht_bf = [], ht_depth = 0, ht_crashed = False\<rparr>"

definition html_printf :: "html \<Rightarrow> string \<Rightarrow> html" where
  "html_printf h s = h\<lparr>ht_bf := ht_bf h @ s\<rparr>"

definition html_indent :: "html \<Rightarrow> html" where
  "html_indent h = html_printf h (concat (replicate (ht_depth h) ''  ''))"

fun attribute_text :: "attribute \<Rightarrow> string" where
  "attribute_text (key, val) = '' '' @ key @ ''=\"'' @ val @ ''\"''"

definition html_head :: string where
  "html_head =
     ''<!doctype html>'' @ NL #
     ''<html lang=\"en\">'' @ NL #
     ''<head>'' @ NL #
     ''  <meta charset=\"utf-8\">'' @ NL #
     ''  <style>'' @ NL #
     ''    table { border-spacing: 0; }'' @ NL #
     ''    thead { background: #fff; position: sticky; top: 0; }'' @ NL #
     ''    td, th { border: #fff 1px solid; }'' @ NL #
     ''    th { font-weight: normal; text-align: left; }'' @ NL #
     ''    td.PASS { background: #80ff80; }'' @ NL #
     ''    td.FAIL { background: #ff8080; }'' @ NL #
     ''    td.XFAIL { background: #80ffc0; }'' @ NL #
     ''    td.XPASS { background: #ff80c0; }'' @ NL #
     ''    td.SKIP { background: #8080ff; }'' @ NL #
     ''    td.NOTERM { background: #ffff80; }'' @ NL #
     ''    a.status { color: #000; }'' @ NL #
     ''  </style>'' @ [NL]"

definition html_body :: string where
  "html_body = ''</head>'' @ NL # ''<body>'' @ [NL]"

definition html_head_enter :: "html \<Rightarrow> html" where
  "html_head_enter h =
     (let h1 = html_indent h in html_printf (h1\<lparr>ht_depth := Suc (ht_depth h1)\<rparr>) html_head)"

definition html_head_leave :: "html \<Rightarrow> html" where
  "html_head_leave h = html_printf (html_indent (h\<lparr>ht_depth := ht_depth h - 1\<rparr>)) html_body"

definition html_node_enter :: "html \<Rightarrow> string \<Rightarrow> attribute list \<Rightarrow> html" where
  "html_node_enter h type attrs =
     (let h1 = html_indent h
      in html_printf (h1\<lparr>ht_depth := Suc (ht_depth h1)\<rparr>)
           (''<'' @ type @ concat (map attribute_text attrs) @ ''>'' @ [NL]))"

definition html_node_leave :: "html \<Rightarrow> string \<Rightarrow> html" where
  "html_node_leave h type =
     (if ht_depth h = 0 then h\<lparr>ht_crashed := True\<rparr>
      else html_printf (html_indent (h\<lparr>ht_depth := ht_depth h - 1\<rparr>)) (''</'' @ type @ ''>'' @ [NL]))"

definition html_text :: "html \<Rightarrow> string \<Rightarrow> html" where
  "html_text h str = html_printf (html_indent h) (str @ [NL])"

text \<open>The macros: a loop that runs once, between entering and leaving a node.\<close>

definition HTML_HEAD :: "html \<Rightarrow> (html \<Rightarrow> html) \<Rightarrow> html" where
  "HTML_HEAD h body = html_head_leave (body (html_head_enter h))"

definition HTML_NODE_ATTR :: "html \<Rightarrow> string \<Rightarrow> attribute list \<Rightarrow> (html \<Rightarrow> html) \<Rightarrow> html" where
  "HTML_NODE_ATTR h type attrs body = html_node_leave (body (html_node_enter h type attrs)) type"

definition HTML_NODE :: "html \<Rightarrow> string \<Rightarrow> (html \<Rightarrow> html) \<Rightarrow> html" where
  "HTML_NODE h type body = HTML_NODE_ATTR h type [] body"

text \<open>How \<open>fopen(3)\<close> and \<open>fwrite(3)\<close> end, and whether there is an error and what the file then
  holds.\<close>

datatype file_outcome = CannotOpen | ShortWrite nat | Written

definition html_write :: "file_outcome \<Rightarrow> html \<Rightarrow> bool \<times> string option" where
  "html_write fo h =
     (let bf = ht_bf (html_printf (html_printf h (''</body>'' @ [NL])) (''</html>'' @ [NL]))
      in case fo of
           CannotOpen \<Rightarrow> (True, None)
         | ShortWrite n \<Rightarrow> (True, Some (take n bf))
         | Written \<Rightarrow> (False, Some bf))"

section \<open>Trees\<close>

datatype node = Elem string "attribute list" "node list" | Txt string

fun node_text :: "nat \<Rightarrow> node \<Rightarrow> string" where
  "node_text d (Txt str) = concat (replicate d ''  '') @ str @ [NL]"
| "node_text d (Elem type attrs ns) =
     concat (replicate d ''  '') @ ''<'' @ type @ concat (map attribute_text attrs) @ ''>'' @ [NL] @
     concat (map (node_text (Suc d)) ns) @
     concat (replicate d ''  '') @ ''</'' @ type @ ''>'' @ [NL]"

definition nodes_text :: "nat \<Rightarrow> node list \<Rightarrow> string" where
  "nodes_text d ns = concat (map (node_text d) ns)"

text \<open>A piece of code emits nodes: it appends their text at the depth it is called with and leaves
  the depth as it was.\<close>

definition emits :: "(html \<Rightarrow> html) \<Rightarrow> node list \<Rightarrow> bool" where
  "emits body ns \<longleftrightarrow> (\<forall>h. body h = h\<lparr>ht_bf := ht_bf h @ nodes_text (ht_depth h) ns\<rparr>)"

named_theorems emit_intros

lemma emits_id [emit_intros]: "emits (\<lambda>h. h) []"
  by (simp add: emits_def nodes_text_def)

lemma emits_text [emit_intros]: "emits (\<lambda>h. html_text h str) [Txt str]"
  by (simp add: emits_def nodes_text_def html_text_def html_indent_def html_printf_def)

lemma emits_node_attr [emit_intros]:
  "emits body ns \<Longrightarrow> emits (\<lambda>h. HTML_NODE_ATTR h type attrs body) [Elem type attrs ns]"
  by (simp add: emits_def nodes_text_def HTML_NODE_ATTR_def html_node_enter_def html_node_leave_def
      html_indent_def html_printf_def Let_def)

lemma emits_node [emit_intros]: "emits body ns \<Longrightarrow> emits (\<lambda>h. HTML_NODE h type body) [Elem type [] ns]"
  by (simp add: HTML_NODE_def emits_node_attr)

lemma emits_comp: "emits f ms \<Longrightarrow> emits g ns \<Longrightarrow> emits (\<lambda>h. g (f h)) (ms @ ns)"
  by (simp add: emits_def nodes_text_def)

lemma emits_fold:
  "(\<And>x. x \<in> set xs \<Longrightarrow> emits (\<lambda>h. f x h) (ns x)) \<Longrightarrow> emits (\<lambda>h. fold f xs h) (concat (map ns xs))"
proof (induction xs)
  case (Cons x xs)
  then show ?case using emits_comp [of "f x" "ns x" "fold f xs" "concat (map ns xs)"] by simp
qed (simp add: emits_def nodes_text_def)

lemma emits_if: "(c \<Longrightarrow> emits f ms) \<Longrightarrow> (\<not> c \<Longrightarrow> emits g ns) \<Longrightarrow> emits (\<lambda>h. if c then f h else g h) (if c then ms else ns)"
  by simp

lemma emitted: "emits body ns \<Longrightarrow> body h = h\<lparr>ht_bf := ht_bf h @ nodes_text (ht_depth h) ns\<rparr>"
  by (simp add: emits_def)

lemma emits_no_crash: "emits body ns \<Longrightarrow> ht_crashed (body h) = ht_crashed h"
  by (simp add: emits_def)

end
