(* ===== verification/RegressHtml.thy ===== *)
theory RegressHtml
  imports Html Invocation RegressLog Step Getopt
begin

text \<open>
  \<open>regress-html.c\<close> and \<open>robsd-regress-html.c\<close>: reading the results of the regress invocations of several
  architectures and rendering them as a table, one row for a suite and one column for an invocation.
\<close>

section \<open>State\<close>

datatype suite_type = SUITE_UNKNOWN | SUITE_INFORMATIVE | SUITE_NON_REGRESS | SUITE_REGRESS
datatype run_status = PASS | FAIL | XFAIL | XPASS | SKIP | NOTERM
datatype duration_change = NONE | FASTER | SLOWER

record regress_invocation =
  ri_arch :: string
  ri_date :: string
  ri_dmesg :: string
  ri_comment :: string
  ri_time :: int
  ri_patches_path :: string
  ri_patches_count :: int
  ri_seconds :: int
  ri_delta :: duration_change
  ri_total :: int
  ri_fail :: int
  ri_cvs :: bool

record suite_run =
  ru_log :: string
  ru_time :: int
  ru_exit :: int
  ru_status :: run_status

record suite =
  sui_name :: string
  sui_type :: suite_type
  sui_fail :: int
  sui_runs :: "suite_run list"

text \<open>The suites are a map keyed by the name, iterated in the order of insertion.\<close>

record regress_html =
  rh_invocations :: "regress_invocation list"
  rh_suites :: "suite list"
  rh_output :: string

text \<open>The files and directories below the output directory, and how the system answers: what the
  invocations hold, whether \<open>mkdir(2)\<close> of a missing directory works, and how writing a file ends.\<close>

record store =
  st_files :: "string \<Rightarrow> string option"
  st_dirs :: "string \<Rightarrow> bool"

record html_env =
  he_read :: "string \<Rightarrow> string option"
  he_dirs :: directories
  he_locks :: bool
  he_mkdir :: "string \<Rightarrow> bool"
  he_write :: "string \<Rightarrow> file_outcome"

section \<open>Comparisons and categories\<close>

definition regress_invocation_cmp :: "regress_invocation \<Rightarrow> regress_invocation \<Rightarrow> int" where
  "regress_invocation_cmp a b =
     (if ri_time a < ri_time b then 1 else if ri_time a > ri_time b then -1 else 0)"

definition run_cmp :: "suite_run \<Rightarrow> suite_run \<Rightarrow> int" where
  "run_cmp a b = (if ru_time a < ru_time b then 1 else if ru_time a > ru_time b then -1 else 0)"

definition suite_cmp :: "suite \<Rightarrow> suite \<Rightarrow> int" where
  "suite_cmp a b =
     (if sui_fail a < sui_fail b then 1
      else if sui_fail a > sui_fail b then -1
      else strcmp (sui_name a) (sui_name b))"

definition duration_delta :: "int \<Rightarrow> int \<Rightarrow> duration_change" where
  "duration_delta a b =
     (let threshold_s = 10 * 60; delta = a - b; abs = (if delta < 0 then - delta else delta)
      in if abs \<le> threshold_s then NONE else if delta < 0 then FASTER else SLOWER)"

fun is_run_status_failure :: "run_status \<Rightarrow> bool" where
  "is_run_status_failure PASS = False"
| "is_run_status_failure FAIL = True"
| "is_run_status_failure XFAIL = False"
| "is_run_status_failure XPASS = True"
| "is_run_status_failure SKIP = False"
| "is_run_status_failure NOTERM = True"

fun run_status_str :: "run_status \<Rightarrow> string" where
  "run_status_str PASS = ''PASS''"
| "run_status_str FAIL = ''FAIL''"
| "run_status_str XFAIL = ''XFAIL''"
| "run_status_str XPASS = ''XPASS''"
| "run_status_str SKIP = ''SKIP''"
| "run_status_str NOTERM = ''NOTERM''"

definition categorize_suite :: "string \<Rightarrow> suite_type" where
  "categorize_suite name =
     (if is_prefix ''../'' name then SUITE_NON_REGRESS
      else if name = ''pkg-add'' then SUITE_INFORMATIVE
      else if strchr name (CHR ''/'') \<noteq> None then SUITE_REGRESS
      else SUITE_UNKNOWN)"

section \<open>Suites\<close>

definition find_suite :: "suite list \<Rightarrow> string \<Rightarrow> suite_type \<Rightarrow> suite list" where
  "find_suite suites name type =
     (if name \<in> sui_name ` set suites then suites
      else suites @ [\<lparr>sui_name = name, sui_type = type, sui_fail = 0, sui_runs = []\<rparr>])"

definition update_suite :: "string \<Rightarrow> (suite \<Rightarrow> suite) \<Rightarrow> suite list \<Rightarrow> suite list" where
  "update_suite name f suites = map (\<lambda>s. if sui_name s = name then f s else s) suites"

section \<open>Files\<close>

datatype mkdir_result = MkdirOk | MkdirExists | MkdirFails

definition mkdir :: "html_env \<Rightarrow> store \<Rightarrow> string \<Rightarrow> mkdir_result \<times> store" where
  "mkdir env st path =
     (if st_dirs st path then (MkdirExists, st)
      else if he_mkdir env path then (MkdirOk, st\<lparr>st_dirs := (st_dirs st)(path := True)\<rparr>)
      else (MkdirFails, st))"

definition join_path :: "string list \<Rightarrow> string" where
  "join_path ps = (case ps of [] \<Rightarrow> [] | p # qs \<Rightarrow> p @ concat (map (\<lambda>q. CHR ''/'' # q) qs))"

definition create_regress_invocation ::
  "html_env \<Rightarrow> string \<Rightarrow> store \<Rightarrow> string \<Rightarrow> string \<Rightarrow> int \<Rightarrow> int \<Rightarrow> regress_invocation option \<times> store" where
  "create_regress_invocation env output st arch date time duration =
     (case mkdir env st (join_path [output, arch]) of
        (MkdirFails, st1) \<Rightarrow> (None, st1)
      | (_, st1) \<Rightarrow>
          (case mkdir env st1 (join_path [output, arch, date]) of
             (MkdirOk, st2) \<Rightarrow>
               (Some \<lparr>ri_arch = arch, ri_date = date, ri_dmesg = join_path [arch, date, ''dmesg''],
                  ri_comment = join_path [arch, date, ''comment''], ri_time = time,
                  ri_patches_path = join_path [arch, date, ''diff''], ri_patches_count = 0,
                  ri_seconds = duration, ri_delta = NONE, ri_total = 0, ri_fail = 0, ri_cvs = False\<rparr>, st2)
           | (_, st2) \<Rightarrow> (None, st2)))"

text \<open>An empty log is written without a call that could fail.\<close>

definition write_log :: "html_env \<Rightarrow> store \<Rightarrow> string \<Rightarrow> string \<Rightarrow> bool \<times> store" where
  "write_log env st path bf =
     (if st_files st path \<noteq> None \<or> st_dirs st path then (False, st)
      else
        (case he_write env path of
           CannotOpen \<Rightarrow> (True, st)
         | ShortWrite n \<Rightarrow> (bf \<noteq> [], st\<lparr>st_files := (st_files st)(path \<mapsto> take n bf)\<rparr>)
         | Written \<Rightarrow> (False, st\<lparr>st_files := (st_files st)(path \<mapsto> bf)\<rparr>)))"

definition copy_log :: "html_env \<Rightarrow> string \<Rightarrow> store \<Rightarrow> string \<Rightarrow> string \<Rightarrow> bool \<times> store" where
  "copy_log env output st basename bf = write_log env st (join_path [output, basename]) bf"

definition copy_file :: "html_env \<Rightarrow> string \<Rightarrow> store \<Rightarrow> string \<Rightarrow> string \<Rightarrow> bool \<times> store" where
  "copy_file env output st src dst =
     (case he_read env src of
        None \<Rightarrow> (False, st)
      | Some bf \<Rightarrow> copy_log env output st dst bf)"

definition copy_files :: "html_env \<Rightarrow> string \<Rightarrow> store \<Rightarrow> regress_invocation \<Rightarrow> string \<Rightarrow> bool \<times> store" where
  "copy_files env output st ri directory =
     (case copy_file env output st (join_path [directory, ''dmesg'']) (ri_dmesg ri) of
        (True, st1) \<Rightarrow> (True, st1)
      | (False, st1) \<Rightarrow> copy_file env output st1 (join_path [directory, ''comment'']) (ri_comment ri))"

fun copy_patches_loop ::
  "html_env \<Rightarrow> string \<Rightarrow> store \<Rightarrow> regress_invocation \<Rightarrow> invocation_entry list \<Rightarrow> int \<Rightarrow> int \<times> store" where
  "copy_patches_loop env output st ri [] npatches = (npatches, st)"
| "copy_patches_loop env output st ri (e # es) npatches =
     (case he_read env (ie_path e) of
        None \<Rightarrow> (-1, st)
      | Some bf \<Rightarrow>
          (case write_log env st (join_path [output, ri_patches_path ri, ie_basename e]) bf of
             (True, st1) \<Rightarrow> (-1, st1)
           | (False, st1) \<Rightarrow> copy_patches_loop env output st1 ri es (npatches + 1)))"

definition copy_patches ::
  "html_env \<Rightarrow> string \<Rightarrow> store \<Rightarrow> regress_invocation \<Rightarrow> string \<Rightarrow> int \<times> store" where
  "copy_patches env output st ri directory =
     (case invocation_find (he_dirs env) directory ''src.diff.*'' of
        None \<Rightarrow> (0, st)
      | Some is \<Rightarrow>
          (case mkdir env st (join_path [output, ri_patches_path ri]) of
             (MkdirOk, st1) \<Rightarrow> copy_patches_loop env output st1 ri (walk_all is) 0
           | (_, st1) \<Rightarrow> (-1, st1)))"

section \<open>Reading an invocation\<close>

definition EX_TIMEOUT :: int where "EX_TIMEOUT = 124"

definition run_status_of :: "int \<Rightarrow> string option \<Rightarrow> run_status" where
  "run_status_of exit log =
     (if exit = EX_TIMEOUT then NOTERM
      else if exit \<noteq> 0 then (if regress_log_peek log {REGRESS_LOG_XPASSED} > 0 then XPASS else FAIL)
      else if regress_log_peek log {REGRESS_LOG_XFAILED} > 0 then XFAIL
      else if regress_log_peek log {REGRESS_LOG_SKIPPED} > 0 then SKIP
      else PASS)"

definition parse_run_log ::
  "html_env \<Rightarrow> string \<Rightarrow> store \<Rightarrow> int \<Rightarrow> string \<Rightarrow> string \<Rightarrow> (bool \<times> run_status) \<times> store" where
  "parse_run_log env output st exit src_path dst_path =
     (let log = he_read env src_path in
      if log = None then ((True, PASS), st)
      else
        (let status = run_status_of exit log in
         case regress_log_parse log [] {REGRESS_LOG_FAILED, REGRESS_LOG_XFAILED, REGRESS_LOG_XPASSED} of
           (nfail, bf1) \<Rightarrow>
         case regress_log_parse log bf1
             ({REGRESS_LOG_SKIPPED} \<union> (if nfail > 0 then {REGRESS_LOG_NEWLINE} else {})) of
           (nskip, bf2) \<Rightarrow>
         if nfail > 0 \<or> \<not> is_run_status_failure status \<and> nskip > 0 then
           (case copy_log env output st dst_path bf2 of (e, st1) \<Rightarrow> ((e, status), st1))
         else
           (case regress_log_trim log bf2 of
              (n, bf3) \<Rightarrow>
                if n > 0 then (case copy_log env output st dst_path bf3 of (e, st1) \<Rightarrow> ((e, status), st1))
                else ((True, status), st))))"

text \<open>The invocation, the suites and the files that a step leaves; \<open>None\<close> when a field is not of the
  type it is read as.\<close>

type_synonym parse_state = "regress_invocation \<times> suite list \<times> store"

definition parse_step ::
  "html_env \<Rightarrow> string \<Rightarrow> string \<Rightarrow> int \<Rightarrow> step \<Rightarrow> parse_state \<Rightarrow> (bool \<times> parse_state) option" where
  "parse_step env output directory time sp s =
     (case s of (ri, suites, st) \<Rightarrow>
        Option.bind (step_get_str sp ''name'') (\<lambda>name.
          let type = categorize_suite name in
          if type = SUITE_UNKNOWN then Some (False, s)
          else
            Option.bind (step_get_str sp ''log'') (\<lambda>log.
            Option.bind (step_get_integer sp ''exit'') (\<lambda>exit.
              let run_log = join_path [ri_arch ri, ri_date ri, log] in
              (case parse_run_log env output st exit (join_path [directory, log]) run_log of
                 ((error, status), st1) \<Rightarrow>
                   let ri1 = ri\<lparr>ri_total := ri_total ri + 1\<rparr>;
                       run = \<lparr>ru_log = run_log, ru_time = time, ru_exit = exit, ru_status = status\<rparr>;
                       suites1 = update_suite name (\<lambda>su. su\<lparr>sui_runs := sui_runs su @ [run]\<rparr>)
                         (find_suite suites name type)
                   in if error then Some (True, ri1, suites1, st1)
                      else if is_run_status_failure status then
                        Some (False, ri1\<lparr>ri_fail := ri_fail ri1 + 1\<rparr>,
                          update_suite name (\<lambda>su. su\<lparr>sui_fail := sui_fail su + 1\<rparr>) suites1, st1)
                      else Some (False, ri1, suites1, st1))))))"

fun parse_steps ::
  "html_env \<Rightarrow> string \<Rightarrow> string \<Rightarrow> int \<Rightarrow> step list \<Rightarrow> parse_state \<Rightarrow> (bool \<times> parse_state) option" where
  "parse_steps env output directory time [] s = Some (False, s)"
| "parse_steps env output directory time (sp # sps) s =
     Option.bind (parse_step env output directory time sp s) (\<lambda>(e, s1).
       if e then Some (True, s1) else parse_steps env output directory time sps s1)"

definition parse_invocation ::
  "html_env \<Rightarrow> store \<Rightarrow> regress_html \<Rightarrow> string \<Rightarrow> string \<Rightarrow> string \<Rightarrow> (bool \<times> regress_html \<times> store) option" where
  "parse_invocation env st r arch directory date =
     Option.bind (steps_parse (he_locks env) (he_read env (join_path [directory, ''step.csv'']))) (\<lambda>sf.
       case sf of
         None \<Rightarrow> Some (True, r, st)
       | Some sf \<Rightarrow>
           (let steps = sf_steps sf in
            if steps = [] then Some (True, r, st)
            else
              (case steps_find_by_name steps ''end'' of
                 None \<Rightarrow> Some (True, r, st)
               | Some k \<Rightarrow>
                   Option.bind (step_get_integer (steps ! k) ''duration'') (\<lambda>duration.
                   Option.bind (step_get_integer (hd steps) ''time'') (\<lambda>time.
                     (case create_regress_invocation env (rh_output r) st arch date time duration of
                        (None, st1) \<Rightarrow> Some (True, r, st1)
                      | (Some ri, st1) \<Rightarrow>
                          (case copy_files env (rh_output r) st1 ri directory of
                             (True, st2) \<Rightarrow> Some (True, r, st2)
                           | (False, st2) \<Rightarrow>
                               (let ri1 = ri\<lparr>ri_cvs :=
                                  invocation_has_tag (he_read env (join_path [directory, ''tags''])) ''cvs''\<rparr>
                                in case copy_patches env (rh_output r) st2 ri1 directory of
                                  (rv, st3) \<Rightarrow>
                                    if rv = -1 then Some (True, r, st3)
                                    else
                                      map_option (\<lambda>(e, ri2, suites, st4).
                                          (e, r\<lparr>rh_invocations := rh_invocations r @ [ri2], rh_suites := suites\<rparr>, st4))
                                        (parse_steps env (rh_output r) directory time steps
                                           (ri1\<lparr>ri_patches_count := rv\<rparr>, rh_suites r, st3))))))))))"

text \<open>The change of the duration of the invocation that was read last.\<close>

definition set_delta :: "regress_html \<Rightarrow> regress_html" where
  "set_delta r =
     (let invs = rh_invocations r; n = length invs
      in r\<lparr>rh_invocations := invs[n - 1 := (invs ! (n - 1))
           \<lparr>ri_delta := duration_delta (ri_seconds (invs ! (n - 1))) (ri_seconds (invs ! (n - 2)))\<rparr>]\<rparr>)"

fun parse_invocations ::
  "html_env \<Rightarrow> string \<Rightarrow> invocation_entry list \<Rightarrow> nat \<Rightarrow> regress_html \<times> store \<Rightarrow>
   (bool \<times> regress_html \<times> store) option" where
  "parse_invocations env arch [] n (r, st) = Some (False, r, st)"
| "parse_invocations env arch (e # es) n (r, st) =
     Option.bind (parse_invocation env st r arch (ie_path e) (ie_basename e)) (\<lambda>(err, r1, st1).
       if err then Some (True, r1, st1)
       else parse_invocations env arch es (Suc n) (if Suc n \<ge> 2 then set_delta r1 else r1, st1))"

definition sort_regress :: "regress_html \<Rightarrow> regress_html" where
  "sort_regress r =
     r\<lparr>rh_invocations := c_qsort regress_invocation_cmp (rh_invocations r),
       rh_suites := map (\<lambda>su. su\<lparr>sui_runs := c_qsort run_cmp (sui_runs su)\<rparr>) (rh_suites r)\<rparr>"

definition regress_html_parse ::
  "html_env \<Rightarrow> store \<Rightarrow> regress_html \<Rightarrow> string \<Rightarrow> string \<Rightarrow> (bool \<times> regress_html \<times> store) option" where
  "regress_html_parse env st r arch robsddir =
     (case invocation_alloc (he_dirs env) robsddir (join_path [robsddir, ''attic'']) INVOCATION_SORT_ASC of
        None \<Rightarrow> Some (True, r, st)
      | Some is \<Rightarrow>
          map_option (\<lambda>(e, r1, st1). if e then (True, r1, st1) else (False, sort_regress r1, st1))
            (parse_invocations env arch (walk_all is) 0 (r, st)))"

section \<open>Counting\<close>

definition failed_run :: "suite_run \<Rightarrow> bool" where
  "failed_run ru \<longleftrightarrow> is_run_status_failure (ru_status ru)"

definition suite_total :: "suite list \<Rightarrow> int" where
  "suite_total suites = sum_list (map (\<lambda>su. int (length (sui_runs su))) suites)"

definition suite_fails :: "suite list \<Rightarrow> int" where
  "suite_fails suites = sum_list (map sui_fail suites)"

text \<open>What every reading keeps: the names of the suites differ, a suite counts its failed runs, every run
  belongs to an invocation of the same time, and the invocations together count all runs and failures.\<close>

definition suite_ok :: "suite \<Rightarrow> bool" where
  "suite_ok su \<longleftrightarrow>
     sui_type su = categorize_suite (sui_name su) \<and> sui_type su \<noteq> SUITE_UNKNOWN \<and>
     sui_fail su = int (length (filter failed_run (sui_runs su)))"

definition results_ok :: "int set \<Rightarrow> int \<Rightarrow> int \<Rightarrow> suite list \<Rightarrow> bool" where
  "results_ok ts nruns nfails suites \<longleftrightarrow>
     distinct (map sui_name suites) \<and> (\<forall>su \<in> set suites. suite_ok su) \<and>
     (\<forall>su \<in> set suites. ru_time ` set (sui_runs su) \<subseteq> ts) \<and>
     suite_total suites = nruns \<and> suite_fails suites = nfails"

definition regress_ok :: "regress_html \<Rightarrow> bool" where
  "regress_ok r \<longleftrightarrow>
     results_ok (ri_time ` set (rh_invocations r)) (sum_list (map ri_total (rh_invocations r)))
       (sum_list (map ri_fail (rh_invocations r))) (rh_suites r) \<and>
     (\<forall>ri \<in> set (rh_invocations r). 0 \<le> ri_fail ri \<and> ri_fail ri \<le> ri_total ri)"

lemma update_suite_names [simp]:
  "(\<And>su. sui_name (f su) = sui_name su) \<Longrightarrow> map sui_name (update_suite name f suites) = map sui_name suites"
  by (simp add: update_suite_def)

lemma update_suite_absent: "name \<notin> sui_name ` set suites \<Longrightarrow> update_suite name f suites = suites"
  by (induction suites) (auto simp: update_suite_def)

text \<open>An update adds to a sum what it adds to the suite of the name.\<close>

lemma update_suite_sum:
  assumes "distinct (map sui_name suites)" "name \<in> sui_name ` set suites"
    and "\<And>su. sui_name su = name \<Longrightarrow> (g (f su) :: int) = g su + d"
  shows "sum_list (map g (update_suite name f suites)) = sum_list (map g suites) + d"
  using assms(1,2)
proof (induction suites)
  case (Cons su suites)
  show ?case
  proof (cases "sui_name su = name")
    case True
    with Cons.prems(1) have "name \<notin> sui_name ` set suites" by auto
    from update_suite_absent [OF this, of f] True assms(3) [OF True] show ?thesis
      by (simp add: update_suite_def)
  next
    case False
    with Cons show ?thesis by (auto simp: update_suite_def)
  qed
qed simp

lemma find_suite_ok:
  assumes "results_ok ts nruns nfails suites" "type = categorize_suite name" "type \<noteq> SUITE_UNKNOWN"
  shows "results_ok ts nruns nfails (find_suite suites name type) \<and> name \<in> sui_name ` set (find_suite suites name type)"
  using assms by (auto simp: find_suite_def results_ok_def suite_ok_def suite_total_def suite_fails_def)

text \<open>A run is added to its suite, which counts it when it failed.\<close>

definition add_run :: "suite_run \<Rightarrow> suite \<Rightarrow> suite" where
  "add_run run su =
     su\<lparr>sui_runs := sui_runs su @ [run], sui_fail := sui_fail su + (if failed_run run then 1 else 0)\<rparr>"

lemma add_run_ok:
  assumes "results_ok ts nruns nfails suites" "name \<in> sui_name ` set suites" "ru_time run \<in> ts"
  shows "results_ok ts (nruns + 1) (nfails + (if failed_run run then 1 else 0)) (update_suite name (add_run run) suites)"
proof -
  have d: "distinct (map sui_name suites)" using assms(1) by (simp add: results_ok_def)
  have "suite_total (update_suite name (add_run run) suites) = suite_total suites + 1"
    unfolding suite_total_def by (rule update_suite_sum [OF d assms(2)]) (simp add: add_run_def)
  moreover have "suite_fails (update_suite name (add_run run) suites) =
      suite_fails suites + (if failed_run run then 1 else 0)"
    unfolding suite_fails_def by (rule update_suite_sum [OF d assms(2)]) (simp add: add_run_def)
  moreover have "\<forall>su \<in> set (update_suite name (add_run run) suites). suite_ok su \<and> ru_time ` set (sui_runs su) \<subseteq> ts"
    using assms(1,3) by (auto simp: update_suite_def add_run_def suite_ok_def results_ok_def image_subset_iff)
  ultimately show ?thesis
    using assms(1) by (simp add: results_ok_def add_run_def)
qed

lemma update_suite_twice:
  "(\<And>su. sui_name (f su) = sui_name su) \<Longrightarrow> update_suite name g (update_suite name f suites) = update_suite name (\<lambda>su. g (f su)) suites"
  by (induction suites) (auto simp: update_suite_def)

lemma parse_step_ok:
  assumes "parse_step env output directory time sp (ri, suites, st) = Some (False, ri', suites', st')"
    and "results_ok ts nruns nfails suites" "time \<in> ts" "0 \<le> ri_fail ri" "ri_fail ri \<le> ri_total ri"
  shows "results_ok ts (nruns + (ri_total ri' - ri_total ri)) (nfails + (ri_fail ri' - ri_fail ri)) suites' \<and>
    0 \<le> ri_fail ri' \<and> ri_fail ri' \<le> ri_total ri' \<and> ri_time ri' = ri_time ri"
proof -
  from assms(1) obtain name where name: "step_get_str sp ''name'' = Some name"
    by (auto simp: parse_step_def split: bind_splits)
  show ?thesis
  proof (cases "categorize_suite name = SUITE_UNKNOWN")
    case True
    with assms name show ?thesis by (simp add: parse_step_def)
  next
    case False
    from assms(1) name False obtain log exit status st1 where
      p: "parse_run_log env output st exit (join_path [directory, log]) (join_path [ri_arch ri, ri_date ri, log]) =
        ((False, status), st1)"
      and s: "ri' = ri\<lparr>ri_total := ri_total ri + 1, ri_fail := ri_fail ri + (if is_run_status_failure status then 1 else 0)\<rparr>"
      "suites' = update_suite name (add_run \<lparr>ru_log = join_path [ri_arch ri, ri_date ri, log], ru_time = time,
          ru_exit = exit, ru_status = status\<rparr>) (find_suite suites name (categorize_suite name))"
      by (auto simp: parse_step_def Let_def update_suite_twice add_run_def [abs_def] failed_run_def
          split: bind_splits prod.splits if_splits)
    from find_suite_ok [OF assms(2) refl False]
    have "results_ok ts (nruns + 1) (nfails + (if is_run_status_failure status then 1 else 0)) suites'"
      unfolding s(2) using add_run_ok [where run = "\<lparr>ru_log = join_path [ri_arch ri, ri_date ri, log], ru_time = time,
          ru_exit = exit, ru_status = status\<rparr>"] assms(3) by (fastforce simp: failed_run_def)
    with assms(4,5) s(1) show ?thesis by auto
  qed
qed

lemma parse_steps_ok:
  assumes "parse_steps env output directory time sps (ri, suites, st) = Some (False, ri', suites', st')"
    and "results_ok ts nruns nfails suites" "time \<in> ts" "0 \<le> ri_fail ri" "ri_fail ri \<le> ri_total ri"
  shows "results_ok ts (nruns + (ri_total ri' - ri_total ri)) (nfails + (ri_fail ri' - ri_fail ri)) suites' \<and>
    0 \<le> ri_fail ri' \<and> ri_fail ri' \<le> ri_total ri' \<and> ri_time ri' = ri_time ri"
  using assms(1,2,4,5)
proof (induction sps arbitrary: ri suites st nruns nfails)
  case (Cons sp sps)
  from Cons.prems(1) obtain ri1 suites1 st1 where
    s: "parse_step env output directory time sp (ri, suites, st) = Some (False, ri1, suites1, st1)"
      "parse_steps env output directory time sps (ri1, suites1, st1) = Some (False, ri', suites', st')"
    by (auto split: bind_splits if_splits)
  from parse_step_ok [OF s(1) Cons.prems(2) assms(3) Cons.prems(3,4)]
  have one: "results_ok ts (nruns + (ri_total ri1 - ri_total ri)) (nfails + (ri_fail ri1 - ri_fail ri)) suites1"
    "0 \<le> ri_fail ri1" "ri_fail ri1 \<le> ri_total ri1" "ri_time ri1 = ri_time ri" by auto
  from Cons.IH [OF s(2) one(1-3)] one(4) show ?case by (simp add: algebra_simps)
qed simp

lemma set_delta_ok: "regress_ok r \<Longrightarrow> rh_invocations r \<noteq> [] \<Longrightarrow> regress_ok (set_delta r)"
proof -
  assume r: "regress_ok r" "rh_invocations r \<noteq> []"
  let ?invs = "rh_invocations r"
  define n where "n = length ?invs - 1"
  define d where "d = duration_delta (ri_seconds (?invs ! n)) (ri_seconds (?invs ! (length ?invs - 2)))"
  have n: "n < length ?invs" using r(2) by (simp add: n_def)
  have same: "map g (?invs[n := (?invs ! n)\<lparr>ri_delta := d\<rparr>]) = map g ?invs"
    if "\<And>ri. g (ri\<lparr>ri_delta := d\<rparr>) = g ri" for g :: "regress_invocation \<Rightarrow> int"
    using n that by (simp add: map_update list_update_same_conv)
  have "set_delta r = r\<lparr>rh_invocations := ?invs[n := (?invs ! n)\<lparr>ri_delta := d\<rparr>]\<rparr>"
    by (simp add: set_delta_def Let_def n_def d_def)
  moreover have "ri_time ` set (?invs[n := (?invs ! n)\<lparr>ri_delta := d\<rparr>]) = ri_time ` set ?invs"
    by (simp only: set_map [symmetric] same [of ri_time, simplified])
  moreover have "\<forall>ri \<in> set (?invs[n := (?invs ! n)\<lparr>ri_delta := d\<rparr>]). 0 \<le> ri_fail ri \<and> ri_fail ri \<le> ri_total ri"
    using r n by (auto simp: regress_ok_def dest!: set_update_subset_insert [THEN subsetD])
  ultimately show ?thesis
    using r(1) same [of ri_total] same [of ri_fail] by (simp add: regress_ok_def)
qed

lemma parse_invocation_ok:
  assumes "parse_invocation env st r arch directory date = Some (False, r', st')" "regress_ok r"
  shows "regress_ok r' \<and> rh_invocations r' \<noteq> [] \<and> rh_output r' = rh_output r"
proof -
  from assms(1) obtain steps time ri ri2 suites st3 st4 where
    p: "parse_steps env (rh_output r) directory time steps (ri, rh_suites r, st3) = Some (False, ri2, suites, st4)"
    and ri: "ri_time ri = time" "ri_total ri = 0" "ri_fail ri = 0"
    and r': "r' = r\<lparr>rh_invocations := rh_invocations r @ [ri2], rh_suites := suites\<rparr>"
    by (auto simp: parse_invocation_def create_regress_invocation_def Let_def
        split: bind_splits option.splits prod.splits bool.splits if_splits mkdir_result.splits)
  let ?ts = "insert time (ri_time ` set (rh_invocations r))"
  have "results_ok ?ts (sum_list (map ri_total (rh_invocations r))) (sum_list (map ri_fail (rh_invocations r))) (rh_suites r)"
    using assms(2) by (simp add: regress_ok_def results_ok_def subset_insertI2)
  from parse_steps_ok [OF p this] ri assms(2) show ?thesis
    by (auto simp: r' regress_ok_def)
qed

lemma parse_invocations_ok:
  assumes "parse_invocations env arch es n (r, st) = Some (False, r', st')" "regress_ok r"
  shows "regress_ok r'"
  using assms
proof (induction es arbitrary: n r st)
  case (Cons e es)
  from Cons.prems(1) obtain r1 st1 where
    s: "parse_invocation env st r arch (ie_path e) (ie_basename e) = Some (False, r1, st1)"
      "parse_invocations env arch es (Suc n) (if Suc n \<ge> 2 then set_delta r1 else r1, st1) = Some (False, r', st')"
    by (auto split: bind_splits if_splits)
  from parse_invocation_ok [OF s(1) Cons.prems(2)] have "regress_ok (if Suc n \<ge> 2 then set_delta r1 else r1)"
    using set_delta_ok by auto
  with Cons.IH [OF s(2)] show ?case by blast
qed simp

lemma sum_list_mset: "mset xs = mset ys \<Longrightarrow> sum_list (map g xs) = sum_list (map g ys)" for g :: "'a \<Rightarrow> int"
  by (metis mset_map sum_mset_sum_list)

lemma sort_regress_ok: "regress_ok r \<Longrightarrow> regress_ok (sort_regress r)"
proof -
  assume r: "regress_ok r"
  let ?sort = "\<lambda>su. su\<lparr>sui_runs := c_qsort run_cmp (sui_runs su)\<rparr>"
  have len: "length (filter failed_run (c_qsort run_cmp xs)) = length (filter failed_run xs)" for xs
    by (metis mset_filter qs.vsort_mset size_mset)
  have "suite_total (map ?sort suites) = suite_total suites" "suite_fails (map ?sort suites) = suite_fails suites" for suites
    by (simp_all add: suite_total_def suite_fails_def comp_def)
  with r show ?thesis
    using sum_list_mset [OF qs.vsort_mset [of regress_invocation_cmp "rh_invocations r"]]
    by (auto simp: regress_ok_def sort_regress_def results_ok_def suite_ok_def len comp_def)
qed

lemma run_cmp_preorder: "cmp_preorder run_cmp"
  by (rule cmp_preorder_key [where key = "\<lambda>ru. - ru_time ru"]) (auto simp: run_cmp_def)

lemma regress_invocation_cmp_preorder: "cmp_preorder regress_invocation_cmp"
  by (rule cmp_preorder_key [where key = "\<lambda>ri. - ri_time ri"]) (auto simp: regress_invocation_cmp_def)

lemma sorted_runs: "sorted_wrt (\<ge>) (map ru_time (c_qsort run_cmp xs))"
  using qs.vsort_sorted [OF run_cmp_preorder, of xs]
  by (auto simp: sorted_wrt_map run_cmp_def elim!: sorted_wrt_mono_rel [rotated] split: if_splits)

lemma sorted_invocations: "sorted_wrt (\<ge>) (map ri_time (c_qsort regress_invocation_cmp xs))"
  using qs.vsort_sorted [OF regress_invocation_cmp_preorder, of xs]
  by (auto simp: sorted_wrt_map regress_invocation_cmp_def elim!: sorted_wrt_mono_rel [rotated] split: if_splits)

lemma regress_html_parse_keeps:
  assumes "regress_html_parse env st r arch robsddir = Some (False, r', st')" "regress_ok r"
  shows "regress_ok r' \<and> sorted_wrt (\<ge>) (map ri_time (rh_invocations r')) \<and>
    (\<forall>su \<in> set (rh_suites r'). sorted_wrt (\<ge>) (map ru_time (sui_runs su)))"
proof -
  from assms(1) obtain r1 es where s: "parse_invocations env arch es 0 (r, st) = Some (False, r1, st')"
    "r' = sort_regress r1"
    by (auto simp: regress_html_parse_def split: option.splits if_splits)
  with sort_regress_ok [OF parse_invocations_ok [OF s(1) assms(2)]] show ?thesis
    by (auto simp: sort_regress_def sorted_runs sorted_invocations)
qed

text \<open>C11: reading the invocations of an architecture keeps the results consistent: the suites have
  different names and none is unknown, each counts its failed runs, each run has the time of an
  invocation, the runs and the failures of all suites are those of all invocations, an invocation has
  not more failures than runs; and afterwards the invocations and the runs are in descending order.\<close>

theorem regress_html_parse_counts:
  assumes "regress_html_parse env st r arch robsddir = Some (False, r', st')" "regress_ok r"
  shows "regress_ok r' \<and> sorted_wrt (\<ge>) (map ri_time (rh_invocations r')) \<and>
    (\<forall>su \<in> set (rh_suites r'). sorted_wrt (\<ge>) (map ru_time (sui_runs su)))"
  by (rule regress_html_parse_keeps [OF assms])

text \<open>An invocation with a single suite.\<close>

definition sample_steps :: "step list" where
  "sample_steps =
     [[INTEGER 1, STRING ''bin/ls'', INTEGER 0, INTEGER 5, INTEGER 0, STRING ''ls.log'', STRING ''root'', INTEGER 10, INTEGER 0],
      [INTEGER 2, STRING ''end'', INTEGER 0, INTEGER 5, INTEGER 0, STRING [], STRING ''root'', INTEGER 10, INTEGER 0]]"

definition sample_env :: html_env where
  "sample_env =
     \<lparr>he_read = (\<lambda>p. if p = ''/r/1/step.csv'' then Some (steps_text sample_steps)
                    else if p = ''/r/1/ls.log'' then Some (''ok'' @ [NL]) else None),
      he_dirs = (\<lambda>d. if d = ''/r'' then Some ([\<lparr>de_name = ''1'', de_is_dir = True\<rparr>], False) else None),
      he_locks = True, he_mkdir = (\<lambda>_. True), he_write = (\<lambda>_. Written)\<rparr>"

definition empty_store :: store where
  "empty_store = \<lparr>st_files = (\<lambda>_. None), st_dirs = (\<lambda>_. False)\<rparr>"

lemma sample_parse:
  "steps_parse True (Some (steps_text sample_steps)) =
     Some (Some \<lparr>sf_columns = map fd_name Step.fields, sf_steps = sample_steps\<rparr>)"
  by (rule steps_parse_text) (simp add: sample_steps_def step_ok_def Step.fields_def field_ok_def clean_def)

lemma sample_lines: "log_lines (''ok'' @ [NL]) = [''ok'']"
  by (simp add: log_lines_def buffer_lines_eq split_lines.simps cstr_def)

lemma sample_line: "\<not> wanted flags ''ok''" "\<not> ismarker ''ok''" "\<not> isxtrace ''ok''"
  by (simp_all add: wanted_def isskipped_def isfailed_def isxfailed_def isxpassed_def isxtrace_def ismarker_def
      ismarker_regress_def ismarker_subdir_def line_begins_def contains_def strstr.simps is_prefix_def)

lemma sample_log:
  "parse_run_log sample_env ''o'' st 0 ''/r/1/ls.log'' dst =
     ((False, PASS), snd (copy_log sample_env ''o'' st dst (''ok'' @ [NL])))"
  using sample_lines
  by (simp add: parse_run_log_def sample_env_def run_status_of_def EX_TIMEOUT_def regress_log_peek_def
      regress_log_parse_def regress_log_parse_impl_def regress_log_trim_def Let_def sample_line
      copy_log_def write_log_def)

lemma sample_env_simps [simp]:
  "he_locks sample_env = True" "he_mkdir sample_env p = True" "he_write sample_env p = Written"
  "he_read sample_env ''/r/1/step.csv'' = Some (steps_text sample_steps)"
  "he_read sample_env ''/r/1/dmesg'' = None" "he_read sample_env ''/r/1/comment'' = None"
  "he_read sample_env ''/r/1/tags'' = None" "he_dirs sample_env ''/r/1'' = None"
  by (simp_all add: sample_env_def)

lemma sample_steps_simps [simp]:
  "steps_find_by_name sample_steps ''end'' = Some 1" "sample_steps \<noteq> []"
  "step_get_integer (sample_steps ! Suc 0) ''duration'' = Some 5" "step_get_integer (hd sample_steps) ''time'' = Some 10"
  by (simp_all add: sample_steps_def steps_find_by_name_def step_get_integer_def step_get_field_def
      field_definition_find_by_name_def Step.fields_def strcmp_eq_0 upt_rec)

lemma sample_parse_steps:
  "ri_arch ri = ''amd64'' \<Longrightarrow> ri_date ri = ''1'' \<Longrightarrow>
   \<exists>ri' st'. parse_steps sample_env ''o'' ''/r/1'' 10 sample_steps (ri, [], st) =
     Some (False, ri', [\<lparr>sui_name = ''bin/ls'', sui_type = SUITE_REGRESS, sui_fail = 0,
       sui_runs = [\<lparr>ru_log = ''amd64/1/ls.log'', ru_time = 10, ru_exit = 0, ru_status = PASS\<rparr>]\<rparr>], st')"
  by (simp add: sample_steps_def parse_step_def step_get_str_def step_get_integer_def step_get_field_def
      field_definition_find_by_name_def Step.fields_def strcmp_eq_0 categorize_suite_def is_prefix_def
      cstring_simps join_path_def sample_log [simplified] find_suite_def update_suite_def Let_def)

lemma sample_html_parse:
  "\<exists>r' st'. regress_html_parse sample_env empty_store \<lparr>rh_invocations = [], rh_suites = [], rh_output = ''o''\<rparr> ''amd64'' ''/r'' =
     Some (False, r', st') \<and> suite_total (rh_suites r') = 1 \<and> length (rh_invocations r') = 1 \<and>
     (\<forall>su \<in> set (rh_suites r'). length (sui_runs su) = 1)"
proof -
  let ?r = "\<lparr>rh_invocations = [], rh_suites = [], rh_output = ''o''\<rparr>"
  obtain "is" where walk: "invocation_alloc (he_dirs sample_env) ''/r'' ''/r/attic'' INVOCATION_SORT_ASC = Some is"
    "walk_all is = [\<lparr>ie_path = ''/r/1'', ie_basename = ''1''\<rparr>]"
    by (simp add: invocation_alloc_def invocation_read_def sample_env_def Let_def walk_all_eq match_directory_def
        entry_path_def snprintf_def PATH_MAX_def NAME_MAX_def)
  obtain ri st where s: "create_regress_invocation sample_env ''o'' empty_store ''amd64'' ''1'' 10 5 = (Some ri, st)"
    "ri_arch ri = ''amd64''" "ri_date ri = ''1''"
    by (simp add: create_regress_invocation_def mkdir_def empty_store_def join_path_def)
  obtain ri' st' where p: "parse_steps sample_env ''o'' ''/r/1'' 10 sample_steps (ri\<lparr>ri_cvs := False, ri_patches_count := 0\<rparr>, [], st) =
     Some (False, ri', [\<lparr>sui_name = ''bin/ls'', sui_type = SUITE_REGRESS, sui_fail = 0,
       sui_runs = [\<lparr>ru_log = ''amd64/1/ls.log'', ru_time = 10, ru_exit = 0, ru_status = PASS\<rparr>]\<rparr>], st')"
    using sample_parse_steps [of "ri\<lparr>ri_cvs := False, ri_patches_count := 0\<rparr>" st] s by auto
  obtain r' st'' where "parse_invocation sample_env empty_store ?r ''amd64'' ''/r/1'' ''1'' = Some (False, r', st'')"
      "suite_total (rh_suites r') = 1" "length (rh_invocations r') = 1" "\<forall>su \<in> set (rh_suites r'). length (sui_runs su) = 1"
    using s p sample_parse
    by (simp add: parse_invocation_def join_path_def copy_files_def copy_file_def invocation_has_tag_def
        copy_patches_def invocation_find_def invocation_read_def Let_def suite_total_def)
  then have "regress_html_parse sample_env empty_store ?r ''amd64'' ''/r'' = Some (False, sort_regress r', st'')"
    "suite_total (rh_suites (sort_regress r')) = 1" "length (rh_invocations (sort_regress r')) = 1"
    "\<forall>su \<in> set (rh_suites (sort_regress r')). length (sui_runs su) = 1"
    using walk by (simp_all add: regress_html_parse_def join_path_def sort_regress_def suite_total_def comp_def)
  then show ?thesis by blast
qed

theorem regress_html_parse_counts_witness:
  "\<exists>r'. regress_ok r' \<and> suite_total (rh_suites r') = 1"
proof -
  let ?r = "\<lparr>rh_invocations = [], rh_suites = [], rh_output = ''o''\<rparr>"
  obtain r' st' where p: "regress_html_parse sample_env empty_store ?r ''amd64'' ''/r'' = Some (False, r', st')"
    "suite_total (rh_suites r') = 1"
    using sample_html_parse by blast
  have "regress_ok ?r"
    by (simp add: regress_ok_def results_ok_def suite_total_def suite_fails_def)
  from regress_html_parse_counts [OF p(1) this] p(2) show ?thesis by blast
qed

end
