(* ===== verification/RegressRender.thy ===== *)
theory RegressRender
  imports RegressHtml StepTypes "HOL-Library.Log_Nat"
begin

text \<open>
  The rendering half of \<open>regress-html.c\<close> and the program \<open>robsd-regress-html.c\<close>: the table, its tree,
  and the alignment of runs with invocations.
\<close>

section \<open>Order of the suites\<close>

definition suite_failed :: "suite \<Rightarrow> bool" where
  "suite_failed su \<longleftrightarrow> sui_fail su > 0"

definition suite_nonregress :: "suite \<Rightarrow> bool" where
  "suite_nonregress su \<longleftrightarrow> sui_type su = SUITE_INFORMATIVE \<or> sui_type su = SUITE_NON_REGRESS"

definition sort_suites :: "suite list \<Rightarrow> suite list" where
  "sort_suites suites =
     (let all = filter suite_failed suites;
          nonregress = filter (\<lambda>su. \<not> suite_failed su \<and> suite_nonregress su) suites;
          pass = filter (\<lambda>su. \<not> suite_failed su \<and> \<not> suite_nonregress su) suites
      in c_qsort suite_cmp all @ c_qsort suite_cmp pass @ c_qsort suite_cmp nonregress)"

section \<open>Numbers\<close>

text \<open>A conversion to \<open>int\<close>.\<close>

definition to_int :: "int \<Rightarrow> int" where
  "to_int i = sint (word_of_int i :: i32)"

fun arrow :: "duration_change \<Rightarrow> string" where
  "arrow NONE = ''''"
| "arrow FASTER = '' &#8600;''"
| "arrow SLOWER = '' &#8599;''"

definition render_duration :: "regress_invocation \<Rightarrow> string" where
  "render_duration ri =
     (let hours = c_div (ri_seconds ri) 3600; minutes = c_div (c_mod (ri_seconds ri) 3600) 60
      in show_int (to_int hours) @ ''h'' @ show_int (to_int minutes) @ ''m<span>'' @ arrow (ri_delta ri) @ ''</span>'')"

text \<open>Rounding to a \<open>float\<close>: 24 significant bits, to nearest, ties to even.\<close>

definition round_even :: "rat \<Rightarrow> int" where
  "round_even q =
     (let f = \<lfloor>q\<rfloor>; d = q - of_int f
      in if d < 1 / 2 then f
         else if d > 1 / 2 then f + 1
         else if even f then f else f + 1)"

definition floor_log2 :: "rat \<Rightarrow> int" where
  "floor_log2 q = (if q \<ge> 1 then bitlen \<lfloor>q\<rfloor> - 1 else - bitlen (\<lceil>1 / q\<rceil> - 1))"

definition pow2 :: "int \<Rightarrow> rat" where
  "pow2 e = (if e \<ge> 0 then 2 ^ nat e else 1 / 2 ^ nat (- e))"

definition to_float :: "rat \<Rightarrow> rat" where
  "to_float q =
     (if q = 0 then 0
      else (let e = floor_log2 \<bar>q\<bar> - 23 in of_int (round_even (q / pow2 e)) * pow2 e))"

definition rate_of :: "int \<Rightarrow> int \<Rightarrow> int" where
  "rate_of nfail ntotal =
     (let rate = (if ntotal > 0
                  then to_float (1 - to_float (to_float (of_int nfail) / to_float (of_int ntotal)))
                  else 0)
      in \<lfloor>to_float (rate * 100)\<rfloor>)"

definition render_rate :: "regress_invocation \<Rightarrow> string" where
  "render_rate ri = show_int (rate_of (ri_fail ri) (ri_total ri)) @ ''%''"

section \<open>Rows of the head\<close>

text \<open>A row: its title and a cell for every invocation.\<close>

definition head_row ::
  "string \<Rightarrow> string \<Rightarrow> (regress_invocation \<Rightarrow> html \<Rightarrow> html) \<Rightarrow> regress_invocation list \<Rightarrow> html \<Rightarrow> html" where
  "head_row title cls cell invocations h =
     HTML_NODE h ''tr'' (\<lambda>h.
       fold (\<lambda>ri h. HTML_NODE_ATTR h ''th'' [(''class'', cls)] (cell ri)) invocations
         (HTML_NODE h ''th'' (\<lambda>h. html_text h title)))"

definition render_pass_rates :: "regress_invocation list \<Rightarrow> html \<Rightarrow> html" where
  "render_pass_rates = head_row ''pass rate'' ''pass'' (\<lambda>ri h. html_text h (render_rate ri))"

definition render_dates :: "regress_invocation list \<Rightarrow> html \<Rightarrow> html" where
  "render_dates = head_row ''date'' ''date'' (\<lambda>ri h. html_text h (ri_date ri))"

definition render_durations :: "regress_invocation list \<Rightarrow> html \<Rightarrow> html" where
  "render_durations = head_row ''duration'' ''duration'' (\<lambda>ri h. html_text h (render_duration ri))"

definition render_changelog :: "regress_invocation list \<Rightarrow> html \<Rightarrow> html" where
  "render_changelog = head_row ''changelog'' ''cvs'' (\<lambda>ri h.
     if ri_cvs ri then HTML_NODE_ATTR h ''a'' [(''href'', ri_comment ri)] (\<lambda>h. html_text h ''cvs'')
     else html_text h ''n/a'')"

definition render_patches :: "regress_invocation list \<Rightarrow> html \<Rightarrow> html" where
  "render_patches = head_row ''patches'' ''patch'' (\<lambda>ri h.
     if ri_patches_count ri > 0
     then HTML_NODE_ATTR h ''a'' [(''href'', ri_patches_path ri)]
       (\<lambda>h. html_text h (''patches ('' @ show_int (ri_patches_count ri) @ '')''))
     else html_text h ''n/a'')"

definition render_arches :: "regress_invocation list \<Rightarrow> html \<Rightarrow> html" where
  "render_arches = head_row ''architecture'' ''arch'' (\<lambda>ri h.
     HTML_NODE_ATTR h ''a'' [(''href'', ri_dmesg ri)] (\<lambda>h. html_text h (ri_arch ri)))"

section \<open>Rows of the body\<close>

definition cvsweb_url :: "string \<Rightarrow> string" where
  "cvsweb_url path = ''https://cvsweb.openbsd.org/cgi-bin/cvsweb/src/regress/'' @ path"

definition github_url :: "string \<Rightarrow> string" where
  "github_url step_name =
     ''https://github.com/mptre/robsd/blob/master/robsd-regress-'' @ step_name @ ''.sh''"

definition render_run :: "suite_run \<Rightarrow> html \<Rightarrow> html" where
  "render_run run h =
     HTML_NODE_ATTR h ''td'' [(''class'', run_status_str (ru_status run))] (\<lambda>h.
       HTML_NODE_ATTR h ''a'' [(''class'', ''status''), (''href'', ru_log run)] (\<lambda>h.
         html_text h (run_status_str (ru_status run))))"

text \<open>The pointer to the next invocation is the list of the invocations from it on; the program reads
  past the vector when it is empty.\<close>

fun skip_missing :: "regress_invocation list \<Rightarrow> suite_run \<Rightarrow> html \<Rightarrow> regress_invocation list \<times> html" where
  "skip_missing [] run h = ([], h\<lparr>ht_crashed := True\<rparr>)"
| "skip_missing (ri # ris) run h =
     (if ri_time ri > ru_time run then skip_missing ris run (HTML_NODE h ''td'' (\<lambda>h. h)) else (ri # ris, h))"

fun render_runs :: "regress_invocation list \<Rightarrow> suite_run list \<Rightarrow> html \<Rightarrow> html" where
  "render_runs ris [] h = h"
| "render_runs ris (run # runs) h =
     (case skip_missing ris run h of (ris1, h1) \<Rightarrow> render_runs (tl ris1) runs (render_run run h1))"

definition render_suite :: "regress_invocation list \<Rightarrow> suite \<Rightarrow> html \<Rightarrow> html" where
  "render_suite invocations su h =
     HTML_NODE h ''tr'' (\<lambda>h.
       let href = (if sui_type su = SUITE_INFORMATIVE then github_url (sui_name su) else cvsweb_url (sui_name su));
           h1 = HTML_NODE h ''td'' (\<lambda>h.
             HTML_NODE_ATTR h ''a'' [(''class'', ''suite''), (''href'', href)] (\<lambda>h. html_text h (sui_name su)))
       in render_runs invocations (sui_runs su) h1)"

section \<open>The page\<close>

definition render_page :: "regress_html \<Rightarrow> html \<Rightarrow> html" where
  "render_page r h =
     (let invs = rh_invocations r;
          h1 = HTML_HEAD h (\<lambda>h. HTML_NODE h ''title'' (\<lambda>h. html_text h ''OpenBSD regress''));
          h2 = HTML_NODE h1 ''h1'' (\<lambda>h. html_text h ''OpenBSD regress latest test results'')
      in HTML_NODE h2 ''table'' (\<lambda>h.
           HTML_NODE
             (HTML_NODE h ''thead'' (\<lambda>h.
                render_arches invs (render_patches invs (render_changelog invs (render_durations invs
                  (render_dates invs (render_pass_rates invs h)))))))
             ''tbody'' (\<lambda>h. fold (render_suite invs) (sort_suites (rh_suites r)) h)))"

definition regress_html_render :: "html_env \<Rightarrow> regress_html \<Rightarrow> bool \<times> string option" where
  "regress_html_render env r =
     html_write (he_write env (join_path [rh_output r, ''index.html''])) (render_page r html_alloc)"

section \<open>The program\<close>

definition regress_html_alloc :: "string \<Rightarrow> regress_html" where
  "regress_html_alloc directory = \<lparr>rh_invocations = [], rh_suites = [], rh_output = directory\<rparr>"

fun html_opt :: "char \<Rightarrow> string \<Rightarrow> string option \<Rightarrow> unit + string option" where
  "html_opt c optarg output = (if c = CHR ''o'' then Inr (Some optarg) else Inl ())"

fun parse_args ::
  "html_env \<Rightarrow> string list \<Rightarrow> regress_html \<times> store \<Rightarrow> (bool \<times> regress_html \<times> store) option" where
  "parse_args env [] (r, st) = Some (False, r, st)"
| "parse_args env (a # as) (r, st) =
     (case strchr a (CHR '':'') of
        None \<Rightarrow> Some (True, r, st)
      | Some i \<Rightarrow>
          Option.bind (regress_html_parse env st r (take i a) (drop (Suc i) a)) (\<lambda>(e, r1, st1).
            if e then Some (True, r1, st1) else parse_args env as (r1, st1)))"

text \<open>The exit status and the page.\<close>

definition regress_html_main :: "html_env \<Rightarrow> store \<Rightarrow> string list \<Rightarrow> (nat \<times> string option) option" where
  "regress_html_main env st argv =
     (case getopt_loop html_opt (Some ()) ''o:'' argv getopt_start None of
        (Inl _, _) \<Rightarrow> Some (1, None)
      | (Inr output, go) \<Rightarrow>
          (case (output, remaining argv go) of
             (Some dir, a # as) \<Rightarrow>
               map_option (\<lambda>(e, r, _).
                   if e then (1, None)
                   else (case regress_html_render env r of (e', page) \<Rightarrow> (if e' then 1 else 0, page)))
                 (parse_args env (a # as) (regress_html_alloc dir, st))
           | _ \<Rightarrow> Some (1, None)))"

section \<open>The tree of the page\<close>

definition head_row_node :: "string \<Rightarrow> string \<Rightarrow> (regress_invocation \<Rightarrow> node list) \<Rightarrow> regress_invocation list \<Rightarrow> node" where
  "head_row_node title cls cell invs =
     Elem ''tr'' [] (Elem ''th'' [] [Txt title] # map (\<lambda>ri. Elem ''th'' [(''class'', cls)] (cell ri)) invs)"

definition link :: "string \<Rightarrow> string \<Rightarrow> node" where
  "link href str = Elem ''a'' [(''href'', href)] [Txt str]"

definition head_nodes :: "regress_invocation list \<Rightarrow> node list" where
  "head_nodes invs =
     [head_row_node ''pass rate'' ''pass'' (\<lambda>ri. [Txt (render_rate ri)]) invs,
      head_row_node ''date'' ''date'' (\<lambda>ri. [Txt (ri_date ri)]) invs,
      head_row_node ''duration'' ''duration'' (\<lambda>ri. [Txt (render_duration ri)]) invs,
      head_row_node ''changelog'' ''cvs'' (\<lambda>ri.
        if ri_cvs ri then [link (ri_comment ri) ''cvs''] else [Txt ''n/a'']) invs,
      head_row_node ''patches'' ''patch'' (\<lambda>ri.
        if ri_patches_count ri > 0
        then [link (ri_patches_path ri) (''patches ('' @ show_int (ri_patches_count ri) @ '')'')]
        else [Txt ''n/a'']) invs,
      head_row_node ''architecture'' ''arch'' (\<lambda>ri. [link (ri_dmesg ri) (ri_arch ri)]) invs]"

definition empty_cell :: node where
  "empty_cell = Elem ''td'' [] []"

definition run_cell :: "suite_run \<Rightarrow> node" where
  "run_cell run =
     Elem ''td'' [(''class'', run_status_str (ru_status run))]
       [Elem ''a'' [(''class'', ''status''), (''href'', ru_log run)] [Txt (run_status_str (ru_status run))]]"

text \<open>The cell below an invocation: the run that has its time. No cells follow that of the oldest run.\<close>

definition run_at :: "suite_run list \<Rightarrow> regress_invocation \<Rightarrow> node" where
  "run_at runs ri =
     (case find (\<lambda>run. ru_time run = ri_time ri) runs of None \<Rightarrow> empty_cell | Some run \<Rightarrow> run_cell run)"

definition suite_cells :: "regress_invocation list \<Rightarrow> suite_run list \<Rightarrow> node list" where
  "suite_cells invs runs =
     (if runs = [] then []
      else map (run_at runs) (takeWhile (\<lambda>ri. ri_time ri \<ge> ru_time (last runs)) invs))"

definition suite_row :: "regress_invocation list \<Rightarrow> suite \<Rightarrow> node" where
  "suite_row invs su =
     Elem ''tr'' []
       (Elem ''td'' []
          [Elem ''a'' [(''class'', ''suite''),
             (''href'', if sui_type su = SUITE_INFORMATIVE then github_url (sui_name su) else cvsweb_url (sui_name su))]
             [Txt (sui_name su)]] #
        suite_cells invs (sui_runs su))"

text \<open>The invocations are in descending order of their times, and so are the runs of each suite, each
  of which belongs to an invocation.\<close>

definition aligned :: "regress_invocation list \<Rightarrow> suite_run list \<Rightarrow> bool" where
  "aligned invs runs \<longleftrightarrow>
     sorted_wrt (>) (map ri_time invs) \<and> sorted_wrt (>) (map ru_time runs) \<and>
     ru_time ` set runs \<subseteq> ri_time ` set invs"

lemmas emits_rules = emits_id emits_text emits_node_attr emits_node

lemma emits_cell: "emits (\<lambda>h. HTML_NODE h ''td'' (\<lambda>h. h)) [empty_cell]"
  unfolding empty_cell_def by (intro emits_rules)

lemma emits_run: "emits (render_run run) [run_cell run]"
  unfolding run_cell_def render_run_def by (intro emits_rules)

lemma skip_missing_at:
  assumes "\<forall>ri \<in> set pre. ri_time ri > ru_time run" "ri_time ri = ru_time run"
  shows "\<exists>f. emits f (replicate (length pre) empty_cell) \<and> (\<forall>h. skip_missing (pre @ ri # post) run h = (ri # post, f h))"
  using assms(1)
proof (induction pre)
  case Nil
  then show ?case using assms(2) emits_id by auto
next
  case (Cons x xs)
  then obtain f where f: "emits f (replicate (length xs) empty_cell)"
    "\<And>h. skip_missing (xs @ ri # post) run h = (ri # post, f h)" by auto
  show ?case
    using emits_comp [OF emits_cell f(1)] f(2) Cons.prems
    by (intro exI [of _ "\<lambda>h. f (HTML_NODE h ''td'' (\<lambda>h. h))"]) simp
qed

lemma aligned_split:
  assumes "aligned invs (run # runs)"
  obtains pre ri post where "invs = pre @ ri # post" "\<forall>x \<in> set pre. ri_time x > ru_time run"
    "ri_time ri = ru_time run" "aligned post runs" "\<forall>x \<in> set post. ri_time x < ru_time run"
proof -
  from assms obtain ri where "ri \<in> set invs" "ri_time ri = ru_time run" by (force simp: aligned_def)
  then obtain pre post where s: "invs = pre @ ri # post" by (meson split_list)
  have "\<forall>x \<in> set pre. ri_time x > ru_time run" "\<forall>x \<in> set post. ri_time x < ru_time run"
    using assms \<open>ri_time ri = ru_time run\<close> by (auto simp: aligned_def s sorted_wrt_append)
  moreover have "aligned post runs"
    using assms \<open>ri_time ri = ru_time run\<close> by (auto simp: aligned_def s sorted_wrt_append) force+
  ultimately show ?thesis using that s \<open>ri_time ri = ru_time run\<close> by blast
qed

lemma suite_cells_split:
  assumes "aligned (pre @ ri # post) (run # runs)" "\<forall>x \<in> set pre. ri_time x > ru_time run"
    "ri_time ri = ru_time run" "\<forall>x \<in> set post. ri_time x < ru_time run"
  shows "suite_cells (pre @ ri # post) (run # runs) =
    replicate (length pre) empty_cell @ run_cell run # suite_cells post runs"
proof -
  let ?t = "ru_time (last (run # runs))"
  have less: "\<forall>r \<in> set runs. ru_time r < ru_time run" using assms(1) by (auto simp: aligned_def)
  then have le: "?t \<le> ru_time run" by (auto simp: last_in_set less_imp_le)
  have empty: "run_at (run # runs) x = empty_cell" if "x \<in> set pre" for x
  proof -
    have "\<forall>r \<in> set (run # runs). ru_time r < ri_time x" using less assms(2) that by force
    then have "find (\<lambda>r. ru_time r = ri_time x) (run # runs) = None" by (auto simp: find_None_iff)
    then show ?thesis by (simp add: run_at_def)
  qed
  have pre: "map (run_at (run # runs)) pre = replicate (length pre) empty_cell"
    using empty by (simp add: list_eq_iff_nth_eq)
  have post: "map (run_at (run # runs)) (takeWhile P post) = map (run_at runs) (takeWhile P post)" for P
    using assms(4) by (intro map_cong [OF refl]) (auto simp: run_at_def dest!: set_takeWhileD)
  have here: "run_at (run # runs) ri = run_cell run"
    by (simp add: run_at_def assms(3))
  have tw: "takeWhile (\<lambda>x. ri_time x \<ge> ?t) (pre @ ri # post) = pre @ ri # takeWhile (\<lambda>x. ri_time x \<ge> ?t) post"
    using assms(2,3) le by (subst takeWhile_append2) auto
  have "suite_cells (pre @ ri # post) (run # runs) =
      replicate (length pre) empty_cell @ run_cell run # map (run_at runs) (takeWhile (\<lambda>x. ri_time x \<ge> ?t) post)"
    unfolding suite_cells_def tw by (simp only: list.simps(3) if_False list.map map_append pre post here)
  moreover have "takeWhile (\<lambda>x. ri_time x \<ge> ru_time run) post = []"
    using assms(4) by (cases post) auto
  ultimately show ?thesis
    by (cases "runs = []") (simp_all add: suite_cells_def)
qed

lemma emits_runs: "aligned invs runs \<Longrightarrow> emits (render_runs invs runs) (suite_cells invs runs)"
proof (induction runs arbitrary: invs)
  case Nil
  then show ?case by (simp add: suite_cells_def emits_def nodes_text_def)
next
  case (Cons run runs)
  from Cons.prems obtain pre ri post where s: "invs = pre @ ri # post"
    "\<forall>x \<in> set pre. ri_time x > ru_time run" "ri_time ri = ru_time run" "aligned post runs"
    "\<forall>x \<in> set post. ri_time x < ru_time run" by (rule aligned_split)
  obtain f where f: "emits f (replicate (length pre) empty_cell)"
    "\<And>h. skip_missing invs run h = (ri # post, f h)"
    using skip_missing_at [OF s(2,3), of post] unfolding s(1) by blast
  have "render_runs invs (run # runs) = (\<lambda>h. render_runs post runs (render_run run (f h)))"
    by (rule ext) (simp add: f(2))
  then show ?case
    using emits_comp [OF emits_comp [OF f(1) emits_run] Cons.IH [OF s(4)]]
    by (simp add: s(1) suite_cells_split [OF Cons.prems [unfolded s(1)] s(2,3,5)])
qed

lemma emits_head_row:
  "(\<And>ri. emits (cell ri) (ns ri)) \<Longrightarrow> emits (head_row title cls cell invs) [head_row_node title cls ns invs]"
proof -
  assume cell: "\<And>ri. emits (cell ri) (ns ri)"
  have "emits (fold (\<lambda>ri h. HTML_NODE_ATTR h ''th'' [(''class'', cls)] (cell ri)) invs)
      (concat (map (\<lambda>ri. [Elem ''th'' [(''class'', cls)] (ns ri)]) invs))"
    by (rule emits_fold) (rule emits_node_attr [OF cell])
  from emits_node [OF emits_comp [OF emits_node [OF emits_text] this]]
  show ?thesis unfolding head_row_def head_row_node_def by (simp add: comp_def concat_map_singleton)
qed

lemma emits_link: "emits (\<lambda>h. HTML_NODE_ATTR h ''a'' [(''href'', href)] (\<lambda>h. html_text h str)) [link href str]"
  unfolding link_def by (intro emits_rules)

lemma emits_head:
  "emits (\<lambda>h. render_arches invs (render_patches invs (render_changelog invs (render_durations invs
      (render_dates invs (render_pass_rates invs h)))))) (head_nodes invs)"
proof -
  have "emits (render_pass_rates invs) [head_nodes invs ! 0]" "emits (render_dates invs) [head_nodes invs ! 1]"
    "emits (render_durations invs) [head_nodes invs ! 2]"
    unfolding render_pass_rates_def render_dates_def render_durations_def head_nodes_def nth_Cons_0
    by (simp_all, (intro emits_head_row emits_text)+)
  moreover have "emits (render_changelog invs) [head_nodes invs ! 3]" "emits (render_patches invs) [head_nodes invs ! 4]"
    "emits (render_arches invs) [head_nodes invs ! 5]"
    unfolding render_changelog_def render_patches_def render_arches_def head_nodes_def
    by (simp_all, (intro emits_head_row emits_if emits_link emits_text)+)
  ultimately show ?thesis
    using emits_comp [OF emits_comp [OF emits_comp [OF emits_comp [OF emits_comp]]]]
    by (simp add: emits_def nodes_text_def head_nodes_def)
qed

lemma emits_suite: "aligned invs (sui_runs su) \<Longrightarrow> emits (render_suite invs su) [suite_row invs su]"
  unfolding render_suite_def suite_row_def Let_def
  using emits_node [OF emits_comp [OF emits_node [OF emits_node_attr [OF emits_text]] emits_runs]]
  by (simp add: Let_def)

lemma mset_sort_suites: "mset (sort_suites suites) = mset suites"
proof -
  have "mset (filter suite_failed suites) +
      (mset (filter (\<lambda>su. \<not> suite_failed su \<and> \<not> suite_nonregress su) suites) +
       mset (filter (\<lambda>su. \<not> suite_failed su \<and> suite_nonregress su) suites)) = mset suites"
    by (induction suites) auto
  then show ?thesis by (simp add: sort_suites_def Let_def qs.vsort_mset)
qed

lemma set_sort_suites: "set (sort_suites suites) = set suites"
  using mset_sort_suites by (metis set_mset_mset)

definition page_table :: "regress_html \<Rightarrow> node" where
  "page_table r =
     Elem ''table'' []
       [Elem ''thead'' [] (head_nodes (rh_invocations r)),
        Elem ''tbody'' [] (map (suite_row (rh_invocations r)) (sort_suites (rh_suites r)))]"

definition page_text :: "regress_html \<Rightarrow> string" where
  "page_text r =
     html_head @ nodes_text 1 [Elem ''title'' [] [Txt ''OpenBSD regress'']] @ html_body @
     nodes_text 0 [Elem ''h1'' [] [Txt ''OpenBSD regress latest test results''], page_table r]"

lemma render_page_text:
  assumes "\<forall>su \<in> set (rh_suites r). aligned (rh_invocations r) (sui_runs su)"
  shows "render_page r html_alloc = \<lparr>ht_bf = page_text r, ht_depth = 0, ht_crashed = False\<rparr>"
proof -
  let ?invs = "rh_invocations r"
  have rows: "emits (fold (render_suite ?invs) (sort_suites (rh_suites r)))
      (map (suite_row ?invs) (sort_suites (rh_suites r)))"
    using emits_fold [of "sort_suites (rh_suites r)" "render_suite ?invs" "\<lambda>su. [suite_row ?invs su]"]
      assms emits_suite by (simp add: set_sort_suites concat_map_singleton)
  have table: "emits (\<lambda>h. HTML_NODE h ''table'' (\<lambda>h.
           HTML_NODE
             (HTML_NODE h ''thead'' (\<lambda>h.
                render_arches ?invs (render_patches ?invs (render_changelog ?invs (render_durations ?invs
                  (render_dates ?invs (render_pass_rates ?invs h)))))))
             ''tbody'' (\<lambda>h. fold (render_suite ?invs) (sort_suites (rh_suites r)) h))) [page_table r]"
    unfolding page_table_def
    using emits_node [OF emits_comp [OF emits_node [OF emits_head] emits_node [OF rows]]] by simp
  have title: "emits (\<lambda>h. HTML_NODE h ''title'' (\<lambda>h. html_text h ''OpenBSD regress''))
      [Elem ''title'' [] [Txt ''OpenBSD regress'']]"
    "emits (\<lambda>h. HTML_NODE h ''h1'' (\<lambda>h. html_text h ''OpenBSD regress latest test results''))
      [Elem ''h1'' [] [Txt ''OpenBSD regress latest test results'']]"
    by (intro emits_rules)+
  show ?thesis
    unfolding render_page_def Let_def HTML_HEAD_def emitted [OF title(1)] emitted [OF title(2)] emitted [OF table]
    by (simp add: html_head_enter_def html_head_leave_def html_indent_def html_printf_def html_alloc_def Let_def
        page_text_def nodes_text_def)
qed

section \<open>Properties\<close>

lemma sorted_distinct: "sorted_wrt (\<ge>) xs \<Longrightarrow> distinct xs \<Longrightarrow> sorted_wrt (>) xs" for xs :: "int list"
  by (induction xs) (auto simp: order.order_iff_strict)

lemma parsed_aligned:
  assumes "regress_html_parse env st r arch robsddir = Some (False, r', st')" "regress_ok r"
    and "distinct (map ri_time (rh_invocations r'))" "su \<in> set (rh_suites r')" "distinct (map ru_time (sui_runs su))"
  shows "aligned (rh_invocations r') (sui_runs su)"
  using regress_html_parse_keeps [OF assms(1,2)] assms(3-5) sorted_distinct
  by (fastforce simp: aligned_def regress_ok_def results_ok_def)



text \<open>A suite that ran twice in one invocation moves the pointer past the last invocation.\<close>

lemma duplicate_run_overruns:
  "ri_time ri = t \<Longrightarrow> ru_time run1 = t \<Longrightarrow> ru_time run2 = t \<Longrightarrow> ht_crashed (render_runs [ri] [run1, run2] h)"
  by (simp add: render_run_def HTML_NODE_ATTR_def html_node_enter_def html_node_leave_def html_text_def
      html_indent_def html_printf_def Let_def)

text \<open> The suites with failures come first, those with more failures earlier, then the suites that
  pass, then the ones that are no regress suites; within each group equal ones are ordered by name.\<close>

lemma sort_suites_order:
  "\<exists>fl ps nr. sort_suites suites = fl @ ps @ nr \<and> mset (fl @ ps @ nr) = mset suites \<and>
    (\<forall>su \<in> set fl. sui_fail su > 0) \<and> (\<forall>su \<in> set (ps @ nr). sui_fail su \<le> 0) \<and>
    (\<forall>su \<in> set nr. suite_nonregress su) \<and> (\<forall>su \<in> set ps. \<not> suite_nonregress su) \<and>
    (\<forall>g \<in> {fl, ps, nr}. sorted_wrt (\<lambda>a b. sui_fail b < sui_fail a \<or> sui_fail a = sui_fail b \<and> sui_name a \<le> sui_name b) g)"
proof -
  have le: "suite_cmp a b \<le> 0 \<longleftrightarrow> sui_fail b < sui_fail a \<or> sui_fail a = sui_fail b \<and> sui_name a \<le> sui_name b" for a b
    by (auto simp: suite_cmp_def cstring_simps)
  have pre: "cmp_preorder suite_cmp"
    unfolding cmp_preorder_def le by (auto simp: not_less)
  have sorted: "sorted_wrt (\<lambda>a b. sui_fail b < sui_fail a \<or> sui_fail a = sui_fail b \<and> sui_name a \<le> sui_name b)
      (c_qsort suite_cmp xs)" for xs
    using qs.vsort_sorted [OF pre, of xs] by (simp add: le)
  show ?thesis
    by (rule exI [of _ "c_qsort suite_cmp (filter suite_failed suites)"],
        rule exI [of _ "c_qsort suite_cmp (filter (\<lambda>su. \<not> suite_failed su \<and> \<not> suite_nonregress su) suites)"],
        rule exI [of _ "c_qsort suite_cmp (filter (\<lambda>su. \<not> suite_failed su \<and> suite_nonregress su) suites)"])
      (use mset_sort_suites [of suites] in \<open>simp add: sort_suites_def Let_def sorted suite_failed_def, force\<close>)
qed

theorem sort_suites_order_witness:
  "\<exists>fl ps nr. sort_suites [\<lparr>sui_name = ''b'', sui_type = SUITE_REGRESS, sui_fail = 0, sui_runs = []\<rparr>,
     \<lparr>sui_name = ''a'', sui_type = SUITE_REGRESS, sui_fail = 2, sui_runs = []\<rparr>] = fl @ ps @ nr \<and> length (fl @ ps @ nr) = 2"
proof -
  let ?s = "[\<lparr>sui_name = ''b'', sui_type = SUITE_REGRESS, sui_fail = 0, sui_runs = []\<rparr>,
     \<lparr>sui_name = ''a'', sui_type = SUITE_REGRESS, sui_fail = 2, sui_runs = []\<rparr>]"
  obtain fl ps nr where s: "sort_suites ?s = fl @ ps @ nr" "mset (fl @ ps @ nr) = mset ?s"
    using sort_suites_order [of ?s] by blast
  have "length (fl @ ps @ nr) = 2" using arg_cong [OF s(2), of size] by simp
  with s(1) show ?thesis by blast
qed

section \<open>Pass rates\<close>

lemma round_even_le: "q \<le> of_int n \<Longrightarrow> round_even q \<le> n"
proof -
  assume q: "q \<le> of_int n"
  show ?thesis
  proof (cases "\<lfloor>q\<rfloor> = n")
    case True
    with q have "q = of_int n" by linarith
    then show ?thesis by (simp add: round_even_def)
  next
    case False
    from q have "\<lfloor>q\<rfloor> \<le> n" by (simp add: floor_le_iff)
    with False show ?thesis by (simp add: round_even_def Let_def)
  qed
qed

lemma round_even_nonneg: "0 \<le> q \<Longrightarrow> 0 \<le> round_even q"
  by (simp add: round_even_def Let_def)

lemma pow2_pos: "0 < pow2 e"
  by (simp add: pow2_def)

lemma floor_log2_less:
  assumes "0 < q" "q < 2 ^ n" "0 < n"
  shows "floor_log2 q < int n"
proof (cases "q \<ge> 1")
  case True
  have "\<lfloor>q\<rfloor> < 2 ^ n" using assms(2) by (simp add: floor_less_iff)
  then have "bitlen \<lfloor>q\<rfloor> \<le> int n" using True by (intro bitlen_le_iff_power [THEN iffD2]) auto
  with True show ?thesis by (simp add: floor_log2_def)
next
  case False
  then show ?thesis using bitlen_nonneg [of "\<lceil>1 / q\<rceil> - 1"] assms(3) by (simp add: floor_log2_def)
qed

text \<open>Rounding does not leave an interval whose ends are small integers.\<close>

lemma to_float_bounds:
  assumes "0 \<le> q" "q \<le> of_int n" "n < 2 ^ 23"
  shows "0 \<le> to_float q \<and> to_float q \<le> of_int n"
proof (cases "q = 0")
  case True
  with assms(2) show ?thesis by (simp add: to_float_def)
next
  case False
  define e where "e = floor_log2 q - 23"
  have "q < 2 ^ 23"
    using assms(2) of_int_less_iff [of n "2 ^ 23", where 'a = rat] assms(3) by simp
  with assms(1) False have e: "e < 0"
    using floor_log2_less [of q 23] by (simp add: e_def)
  have p: "pow2 e = 1 / 2 ^ nat (- e)" using e by (simp add: pow2_def)
  have "q / pow2 e \<le> of_int (n * 2 ^ nat (- e))"
    using assms(2) by (simp add: p mult_right_mono)
  from round_even_le [OF this] have "of_int (round_even (q / pow2 e)) \<le> (of_int (n * 2 ^ nat (- e)) :: rat)"
    by (simp only: of_int_le_iff)
  then have "of_int (round_even (q / pow2 e)) * pow2 e \<le> of_int (n * 2 ^ nat (- e)) * pow2 e"
    using pow2_pos [of e] by (intro mult_right_mono) auto
  also have "\<dots> = of_int n" by (simp add: p)
  finally have "to_float q \<le> of_int n"
    using assms(1) False by (simp add: to_float_def e_def Let_def)
  moreover have "0 \<le> to_float q"
    using assms(1) False pow2_pos [of e] round_even_nonneg [of "q / pow2 e"]
    by (simp add: to_float_def e_def [symmetric] Let_def)
  ultimately show ?thesis by simp
qed

lemma to_float_int:
  assumes "0 \<le> n" "n < 2 ^ 23"
  shows "to_float (of_int n) = of_int n"
proof (cases "n = 0")
  case True
  then show ?thesis by (simp add: to_float_def)
next
  case False
  define e where "e = floor_log2 (of_int n) - 23"
  have "(of_int n :: rat) < 2 ^ 23"
    using of_int_less_iff [of n "2 ^ 23", where 'a = rat] assms(2) by simp
  with assms(1) False have e: "e < 0"
    using floor_log2_less [of "of_int n" 23] by (simp add: e_def)
  have p: "pow2 e = 1 / 2 ^ nat (- e)" using e by (simp add: pow2_def)
  have "of_int n / pow2 e = of_int (n * 2 ^ nat (- e))" by (simp add: p)
  then have "round_even (of_int n / pow2 e) = n * 2 ^ nat (- e)"
    by (simp only: round_even_def floor_of_int Let_def) simp
  then show ?thesis using assms(1) False by (simp add: to_float_def e_def [symmetric] Let_def p)
qed

text \<open> The pass rate of an invocation, computed in single precision, is a percentage: it lies
  between 0 and 100, and it is 100 when nothing failed.\<close>

lemma rate_bounds:
  assumes "0 \<le> nfail" "nfail \<le> ntotal" "ntotal < 2 ^ 23"
  shows "0 \<le> rate_of nfail ntotal \<and> rate_of nfail ntotal \<le> 100 \<and>
    (nfail = 0 \<and> 0 < ntotal \<longrightarrow> rate_of nfail ntotal = 100)"
proof -
  define q :: rat where "q = of_int nfail / of_int ntotal"
  define p where "p = to_float (1 - to_float q)"
  have q: "0 \<le> q" "q \<le> of_int 1" if "0 < ntotal"
    using assms(1,2) that by (simp_all add: q_def divide_le_eq_1)
  have exact: "to_float (of_int nfail) = of_int nfail" "to_float (of_int ntotal) = of_int ntotal"
    using assms by (simp_all add: to_float_int)
  have rate: "rate_of nfail ntotal = (if 0 < ntotal then \<lfloor>to_float (p * 100)\<rfloor> else 0)"
    by (simp add: rate_of_def exact p_def q_def Let_def to_float_def [of 0])
  have "0 \<le> rate_of nfail ntotal \<and> rate_of nfail ntotal \<le> 100"
  proof (cases "0 < ntotal")
    case True
    have "0 \<le> to_float q \<and> to_float q \<le> of_int 1" by (rule to_float_bounds) (use q [OF True] in simp_all)
    then have "0 \<le> p \<and> p \<le> of_int 1" unfolding p_def by (intro to_float_bounds) simp_all
    then have "0 \<le> to_float (p * 100) \<and> to_float (p * 100) \<le> of_int 100" by (intro to_float_bounds) simp_all
    then show ?thesis by (simp add: rate True floor_le_iff)
  qed (simp add: rate)
  moreover have "rate_of nfail ntotal = 100" if "nfail = 0" "0 < ntotal"
  proof -
    have "q = 0" using that by (simp add: q_def)
    then have "p = 1" using to_float_int [of 1] by (simp add: p_def to_float_def [of 0])
    then show ?thesis using that to_float_int [of 100] rate by simp
  qed
  ultimately show ?thesis by blast
qed

theorem rate_bounds_witness: "rate_of 1 3 \<le> 100 \<and> rate_of 0 7 = 100"
  using rate_bounds [of 1 3] rate_bounds [of 0 7] by simp

section \<open>Every run returns\<close>

lemma parse_step_total: "step_typed sp \<Longrightarrow> \<exists>r. parse_step env output directory time sp s = Some r"
  using typed_get(2,3,6) [of sp]
  by (cases s) (auto simp: parse_step_def Let_def split: prod.splits)

lemma parse_steps_total: "\<forall>sp \<in> set sps. step_typed sp \<Longrightarrow> \<exists>r. parse_steps env output directory time sps s = Some r"
proof (induction sps arbitrary: s)
  case (Cons sp sps)
  obtain e s1 where "parse_step env output directory time sp s = Some (e, s1)"
    using parse_step_total [where sp = sp and s = s] Cons.prems by (metis list.set_intros(1) prod.collapse)
  with Cons.IH [of s1] Cons.prems show ?case by (cases e) (simp_all del: split_paired_Ex)
qed (simp_all del: split_paired_Ex)

lemma parse_invocation_total: "\<exists>r'. parse_invocation env st r arch directory date = Some r'"
proof -
  obtain sf where p: "steps_parse (he_locks env) (he_read env (join_path [directory, ''step.csv''])) = Some sf"
    using steps_parse_returns by blast
  show ?thesis
  proof (cases sf)
    case None
    with p show ?thesis by (simp add: parse_invocation_def del: split_paired_Ex)
  next
    case (Some f)
    have typed: "\<forall>sp \<in> set (sf_steps f). step_typed sp" using steps_parse_types p Some by blast
    show ?thesis
    proof (cases "sf_steps f = [] \<or> steps_find_by_name (sf_steps f) ''end'' = None")
      case True
      with p Some show ?thesis by (auto simp: parse_invocation_def Let_def simp del: split_paired_Ex)
    next
      case False
      then obtain k where k: "steps_find_by_name (sf_steps f) ''end'' = Some k" by blast
      then have "k < length (sf_steps f)"
        by (auto simp: steps_find_by_name_def find_Some_iff split: option.splits)
      with typed False have "step_typed (sf_steps f ! k)" "step_typed (hd (sf_steps f))" by simp_all
      with typed_get(4,8) obtain d t where dt: "step_get_integer (sf_steps f ! k) ''duration'' = Some d"
        "step_get_integer (hd (sf_steps f)) ''time'' = Some t" by meson
      have "\<exists>z. parse_steps env out directory t (sf_steps f) s = Some z" for out s
        by (rule parse_steps_total [OF typed])
      with p Some k dt False show ?thesis
        by (auto simp: parse_invocation_def Let_def simp del: split_paired_Ex split: prod.splits option.splits bool.splits)
    qed
  qed
qed

lemma parse_invocations_total: "\<exists>r'. parse_invocations env arch es n (r, st) = Some r'"
proof (induction es arbitrary: n r st)
  case (Cons e es)
  obtain err r1 st1 where "parse_invocation env st r arch (ie_path e) (ie_basename e) = Some (err, r1, st1)"
    using parse_invocation_total by (metis prod.collapse)
  with Cons.IH show ?case by (cases err) (simp_all del: split_paired_Ex)
qed (simp_all del: split_paired_Ex)

lemma regress_html_parse_total: "\<exists>r'. regress_html_parse env st r arch robsddir = Some r'"
proof (cases "invocation_alloc (he_dirs env) robsddir (join_path [robsddir, ''attic'']) INVOCATION_SORT_ASC")
  case (Some "is")
  with parse_invocations_total [of env arch "walk_all is" 0 r st] show ?thesis
    by (auto simp: regress_html_parse_def simp del: split_paired_Ex)
qed (simp add: regress_html_parse_def del: split_paired_Ex)

lemma parse_args_total: "\<exists>r'. parse_args env as (r, st) = Some r'"
proof (induction as arbitrary: r st)
  case (Cons a as)
  show ?case
  proof (cases "strchr a (CHR '':'')")
    case (Some i)
    obtain e r1 st1 where "regress_html_parse env st r (take i a) (drop (Suc i) a) = Some (e, r1, st1)"
      using regress_html_parse_total by (metis prod.collapse)
    with Cons.IH Some show ?thesis by (cases e) (simp_all del: split_paired_Ex)
  qed (simp del: split_paired_Ex)
qed (simp del: split_paired_Ex)

text \<open> Whatever its arguments, the file system and the files are, \<open>robsd-regress-html\<close> returns, with
  the status 0 or 1, and never reads a field of a step as something it is not.\<close>

lemma regress_html_main_returns:
  "\<exists>status page. regress_html_main env st argv = Some (status, page) \<and> status \<in> {0, 1}"
proof -
  obtain o' go where g: "getopt_loop html_opt (Some ()) ''o:'' argv getopt_start None = (o', go)" by fastforce
  show ?thesis
  proof (cases "\<exists>dir a as. o' = Inr (Some dir) \<and> remaining argv go = a # as")
    case True
    then obtain dir a as where s: "o' = Inr (Some dir)" "remaining argv go = a # as" by blast
    obtain e r st1 where p: "parse_args env (a # as) (regress_html_alloc dir, st) = Some (e, r, st1)"
      using parse_args_total by (metis prod.collapse)
    show ?thesis
      by (cases "regress_html_render env r") (simp add: regress_html_main_def g s p del: parse_args.simps)
  next
    case False
    with g show ?thesis
      by (cases o'; cases "remaining argv go") (auto simp: regress_html_main_def split: option.splits)
  qed
qed

end
