(* ===== verification/Spec2Isabelle.thy ===== *)
theory Spec2Isabelle
  imports Arithmetic ArenaVector LinkedList Stat Fs Support Signals Vector Buffer HashMap Strtonum Lexer Interpolate Mode Step RegressLog RobsdStep
    StepExec RobsdLs Programs Wait ReportProps Pipeline RegressRender
begin

text \<open>
  A model of the C programs of robsd, which drive releases, ports builds and regression tests of
  OpenBSD: the configuration language, the file with the steps of a build, the execution of a step
  and the reports on what happened. Shell scripts run the steps one after the other and call these
  programs; every program reads the configuration of its mode (\<open>conf.c\<close>), and \<open>robsd-exec\<close>,
  \<open>robsd-step\<close>, \<open>robsd-ls\<close>, \<open>robsd-report\<close>, \<open>robsd-regress-log\<close> and \<open>robsd-regress-html\<close> communicate
  through the step file \<open>step.csv\<close> and the logs in the directory of an invocation.

  Theories and the code they model.

  \<^item> \<open>Prelude\<close>: C strings, characters, decimal numbers, the contract of \<open>qsort(3)\<close> (locale
    \<open>sort_routine\<close>) and the growth loop shared by vectors and buffers. \<open>Runs\<close>: labelled runs of a step
    relation and the bound on the steps of a program with a supply that it uses up (locale \<open>supplied\<close>).
  \<^item> \<open>Arithmetic\<close>: \<open>libks/arithmetic.h\<close>, \<open>libks/arithmetic.c\<close>, \<open>libks/search.h\<close>. The fallbacks agree with
    the builtins of the compiler at every width; binary search finds what is there.
  \<^item> \<open>Vector\<close>: \<open>libks/vector.c\<close>, sizes as \<open>size_t\<close>; an allocation appends or leaves the vector as it was
    (locale \<open>element_stack\<close>). \<open>Buffer\<close>: \<open>libks/buffer.c\<close>, growth, lines, reading of files.
    \<open>HashMap\<close>: \<open>libks/map.c\<close>, the Jenkins hash, buckets, expansion and deletion; the table refines a
    map whose iteration follows the insertions (locale \<open>dictionary\<close>).
  \<^item> \<open>Arena\<close>: \<open>libks/arena.c\<close> over \<open>malloc(3)\<close>, of which \<open>malloc_ok\<close> says what it promises. The blocks that are
    handed out do not overlap, reallocation keeps contents, and leaving a scope restores the arena (relation
    \<open>scope_run\<close>). The other theories take for granted that objects live as long as their scope.
    \<open>ArenaVector\<close>: \<open>libks/arena-vector.c\<close>, a vector in the memory of an arena refines the vector of \<open>Vector\<close>
    and does not touch other objects. \<open>LinkedList\<close>: \<open>libks/list.h\<close>, tail queues over a heap of nodes refine
    lists; the cursor of the lexer moves as along indices (locale \<open>element_queue\<close>).
  \<^item> \<open>Strtonum\<close>: \<open>compat-strtonum.c\<close>. \<open>Getopt\<close>: \<open>getopt(3)\<close>, with the order of arguments of POSIX that OpenBSD
    has, and the loop of the programs around it.
  \<^item> \<open>Lexer\<close>: \<open>lexer.c\<close> and \<open>token.h\<close>, reading tokens until the end of the file and a cursor over them
    (locales \<open>token_stream\<close> and \<open>token_parser\<close>). The reader is a \<open>partial_function\<close>; that it returns is
    proved for the readers of both grammars.
  \<^item> \<open>Interpolate\<close>: \<open>interpolate.c\<close>. The recursion is limited to a depth of five as in the code; the
    result is that of an inductive expansion relation (locales \<open>lookup_frame\<close> and \<open>lookup_agree\<close> for
    callbacks with state).
  \<^item> \<open>Mode\<close>, \<open>ConfToken\<close>, \<open>ConfGrammar\<close>: \<open>mode.c\<close>, \<open>conf-token.c\<close>, \<open>variable-value.c\<close> and the tables of the
    grammar and of the steps of the five modes (\<open>conf.c\<close>, \<open>conf-robsd.c\<close>, \<open>conf-robsd-cross.c\<close>,
    \<open>conf-robsd-ports.c\<close>, \<open>conf-robsd-regress.c\<close>, \<open>conf-canvas.c\<close>).
  \<^item> \<open>Conf\<close> and \<open>ConfFind\<close>: the configuration as a list of variables, finding a variable or its
    default, late and early interpolation. What the system answers (files, users, globs, addresses,
    processors) is the record \<open>os\<close>. Defaults and interpolation call each other without a limit in the
    code; \<open>os_stack\<close> is the number of nested lookups that the stack holds, the lemmas say which depth
    is enough and that a cycle through \<open>builddir\<close> exhausts any.
  \<^item> \<open>ConfLexer\<close>, \<open>ConfParse\<close>, \<open>ConfValid\<close>, \<open>ConfText\<close>: the tokens of a configuration file, the parse
    routines, the invariant every routine keeps (locale \<open>parse_routines\<close>), and round trip, termination
    and validity of \<open>config_parse\<close>.
  \<^item> \<open>ConfSteps\<close>: the steps of a mode with their interpolated commands (\<open>config_get_steps\<close>).
  \<^item> \<open>Step\<close>: \<open>step.c\<close>, the fields of a step, reading and writing of the step file, durations.
    \<open>StepTypes\<close>: every step that was read has
    values of the defined types. \<open>RobsdStep\<close>: \<open>robsd-step.c\<close>.
  \<^item> \<open>StepExec\<close>: \<open>step-exec.c\<close> and \<open>robsd-exec.c\<close> as a step relation: an own step is a system call with an
    arbitrary result, a signal may arrive between any two. At most 1106 own steps are made: the wait
    for the process group takes 1000 milliseconds in steps of one, and each of two kills 5000
    milliseconds in steps of 100. \<open>Signals\<close>: the signal actions of parent and child; the signals that are steps
    are those with a handler.
  \<^item> \<open>RegressLog\<close>: \<open>regress-log.c\<close> and \<open>robsd-regress-log.c\<close>.
  \<^item> \<open>Invocation\<close> and \<open>RobsdLs\<close>: \<open>invocation.c\<close> and \<open>robsd-ls.c\<close>.
  \<^item> \<open>Programs\<close>: \<open>robsd-config.c\<close> and \<open>robsd-hook.c\<close>, from the arguments to what they print or execute
    (locale \<open>answering_lookup\<close>).
  \<^item> \<open>Wait\<close>: \<open>robsd-wait.c\<close> over the answers of \<open>kevent(2)\<close>, on the hash map of \<open>HashMap\<close>.
  \<^item> \<open>Stat\<close>: \<open>robsd-stat.c\<close> over the answers of the kernel to each round of its endless loop.
  \<^item> \<open>Fs\<close>: \<open>libks/fs.c\<close> over a file system of names and inodes; a file that is replaced has its old or its new
    contents at every moment. \<open>Support\<close>: \<open>if.c\<close> and \<open>log.c\<close>.
  \<^item> \<open>Report\<close> and \<open>ReportProps\<close>: \<open>report.c\<close> and \<open>robsd-report.c\<close>, the mail on an invocation; which steps
    are in it, its status, the last lines of the logs, the characters it is made of. \<open>Pipeline\<close> composes
    \<open>robsd-step\<close> with it over the step file: a failure that was recorded is in every report printed later.
  \<^item> \<open>Html\<close>, \<open>RegressHtml\<close>, \<open>RegressRender\<close>: \<open>html.c\<close>, \<open>regress-html.c\<close> and \<open>robsd-regress-html.c\<close>. What is
    written refines the text of a tree; reading keeps the counts of runs and failures consistent;
    runs are aligned with the columns of their invocations.

  Conventions. A NULL pointer or a failure is \<open>None\<close>; \<open>None\<close> outside of a result is a loop that does
  not return. A crash is a flag of the state (\<open>cf_crashed\<close>, \<open>ht_crashed\<close>) or an outcome. Integers are
  words where their width matters, and \<open>int\<close> where the code checks the range or the values are those
  of a parsed file. Memory that runs out ends the program, except in the libraries, where failing
  allocations are arguments.

  Not modelled: the shell scripts; traces and marks for memory checkers in the arena; \<open>pledge(2)\<close> and
  \<open>unveil(2)\<close>, which are taken to succeed; the compatibility stubs, the hooks for memory checkers, the fuzzers
  and the tests.
\<close>

end
